(* ===== verification/Prelude.thy ===== *)
theory Prelude
  imports Main "HOL-Library.Word" "HOL-Library.Char_ord" "HOL-Library.List_Lexorder"
begin

text \<open>
  Shared vocabulary of the development: the machine types of the C++ sources, memory as byte
  lists (\<open>peek\<close> reads a range, \<open>poke\<close> is \<open>memcpy\<close> into a range), the wrap-around of
  \<open>size_t\<close>/\<open>uint64_t\<close> arithmetic on \<open>nat\<close>, the object representation of machine words on the
  little-endian hosts the program is built for, characters as bytes, and \<open>std::map\<close> as a
  sorted association list.
\<close>

section \<open>Machine types\<close>

type_synonym byte = "8 word"
type_synonym u8 = "8 word"
type_synonym u16 = "16 word"
type_synonym u32 = "32 word"
type_synonym u64 = "64 word"

named_theorems mem_simps \<open>equations for slices and overwritten ranges\<close>
named_theorems map_simps \<open>equations for the ordered maps\<close>

definition wrap64 :: "nat \<Rightarrow> nat" where
  "wrap64 n = n mod 18446744073709551616"

definition sub64 :: "nat \<Rightarrow> nat \<Rightarrow> nat" where
  "sub64 a b = (a + 18446744073709551616 - b mod 18446744073709551616) mod 18446744073709551616"

section \<open>Memory ranges\<close>

definition peek :: "nat \<Rightarrow> nat \<Rightarrow> 'a list \<Rightarrow> 'a list" where
  "peek off n xs = take n (drop off xs)"

definition poke :: "nat \<Rightarrow> 'a list \<Rightarrow> 'a list \<Rightarrow> 'a list" where
  "poke off ys xs = take off xs @ ys @ drop (off + length ys) xs"

section \<open>Object representation of words\<close>

text \<open>\<open>le_bytes n x\<close> are the \<open>n\<close> bytes of the number \<open>x\<close>, least significant first.\<close>

primrec le_bytes :: "nat \<Rightarrow> nat \<Rightarrow> byte list" where
  "le_bytes 0 x = []"
| "le_bytes (Suc n) x = word_of_nat x # le_bytes n (x div 256)"

primrec le_val :: "byte list \<Rightarrow> nat" where
  "le_val [] = 0"
| "le_val (b # bs) = unat b + 256 * le_val bs"

definition word_mem :: "'a::len word \<Rightarrow> byte list" where
  "word_mem w = le_bytes (LENGTH('a) div 8) (unat w)"

definition mem_word :: "byte list \<Rightarrow> 'a::len word" where
  "mem_word bs = word_of_nat (le_val bs)"

definition byte_of_char :: "char \<Rightarrow> byte" where
  "byte_of_char c = word_of_nat (of_char c)"

definition char_of_byte :: "byte \<Rightarrow> char" where
  "char_of_byte b = char_of (unat b)"

text \<open>What a \<open>const char *\<close> shows of a string.\<close>

definition c_str :: "string \<Rightarrow> string" where
  "c_str s = takeWhile (\<lambda>c. c \<noteq> CHR 0x00) s"

section \<open>Ordered maps\<close>

text \<open>
  \<open>std::map\<close> iterates its keys in increasing order; the model keeps the association list in
  that order. \<open>map_put\<close> is \<open>m[k] = v\<close>, \<open>map_emplace\<close> is \<open>m.emplace(k, v)\<close>, which keeps the
  value of a key that is already there, \<open>map_erase\<close> is \<open>m.erase(k)\<close>.
\<close>

type_synonym ('k, 'v) stdmap = "('k \<times> 'v) list"

fun map_find :: "('k, 'v) stdmap \<Rightarrow> 'k \<Rightarrow> 'v option" where
  "map_find [] k = None"
| "map_find ((a, v) # m) k = (if k = a then Some v else map_find m k)"

fun map_put :: "'k::linorder \<Rightarrow> 'v \<Rightarrow> ('k, 'v) stdmap \<Rightarrow> ('k, 'v) stdmap" where
  "map_put k v [] = [(k, v)]"
| "map_put k v ((a, w) # m) =
     (if k < a then (k, v) # (a, w) # m
      else if k = a then (k, v) # m
      else (a, w) # map_put k v m)"

definition map_emplace :: "'k::linorder \<Rightarrow> 'v \<Rightarrow> ('k, 'v) stdmap \<Rightarrow> ('k, 'v) stdmap" where
  "map_emplace k v m = (if map_find m k = None then map_put k v m else m)"

fun map_erase :: "'k \<Rightarrow> ('k, 'v) stdmap \<Rightarrow> ('k, 'v) stdmap" where
  "map_erase k [] = []"
| "map_erase k ((a, w) # m) = (if k = a then m else (a, w) # map_erase k m)"

abbreviation map_ok :: "('k::linorder, 'v) stdmap \<Rightarrow> bool" where
  "map_ok m \<equiv> sorted_wrt (<) (map fst m)"

section \<open>Lemmas on wrap-around\<close>

lemma wrap64_less [simp]: "wrap64 n < 18446744073709551616"
  by (simp add: wrap64_def)

lemma wrap64_id [simp]: "n < 18446744073709551616 \<Longrightarrow> wrap64 n = n"
  by (simp add: wrap64_def)

lemma wrap64_le: "wrap64 n \<le> n"
  by (simp add: wrap64_def)

lemma sub64_id [simp]: "b \<le> a \<Longrightarrow> a < 18446744073709551616 \<Longrightarrow> sub64 a b = a - b"
proof -
  assume "b \<le> a" and a: "a < 18446744073709551616"
  then have "a + 18446744073709551616 - b mod 18446744073709551616 = (a - b) + 18446744073709551616"
    by simp
  then show ?thesis using a by (simp add: sub64_def)
qed

section \<open>Lemmas on memory ranges\<close>

lemma length_peek [simp]: "length (peek off n xs) = min n (length xs - off)"
  by (simp add: peek_def)

lemma nth_peek [simp]: "i < n \<Longrightarrow> off + i < length xs \<Longrightarrow> peek off n xs ! i = xs ! (off + i)"
  by (simp add: peek_def)

lemma peek_0 [simp]: "peek off 0 xs = []"
  by (simp add: peek_def)

lemma peek_all [simp]: "peek 0 (length xs) xs = xs"
  by (simp add: peek_def)

lemma length_poke [simp]: "off + length ys \<le> length xs \<Longrightarrow> length (poke off ys xs) = length xs"
  by (simp add: poke_def)

lemma nth_poke [mem_simps]:
  assumes "off + length ys \<le> length xs" and "i < length xs"
  shows "poke off ys xs ! i = (if off \<le> i \<and> i < off + length ys then ys ! (i - off) else xs ! i)"
  using assms by (auto simp: poke_def nth_append)

lemma peek_poke_same [mem_simps, simp]:
  "off + length ys \<le> length xs \<Longrightarrow> peek off (length ys) (poke off ys xs) = ys"
  by (simp add: peek_def poke_def)

lemma peek_poke_disjoint [mem_simps]:
  assumes "off + length ys \<le> length xs" and "o2 + n \<le> off \<or> off + length ys \<le> o2"
  shows "peek o2 n (poke off ys xs) = peek o2 n xs"
proof (rule nth_equalityI)
  show "length (peek o2 n (poke off ys xs)) = length (peek o2 n xs)"
    using assms by simp
next
  fix i assume "i < length (peek o2 n (poke off ys xs))"
  then have "i < n" "o2 + i < length xs" using assms(1) by auto
  then show "peek o2 n (poke off ys xs) ! i = peek o2 n xs ! i"
    using assms by (auto simp: nth_poke)
qed

lemma poke_whole [simp]: "length ys = length xs \<Longrightarrow> poke 0 ys xs = ys"
  by (simp add: poke_def)

lemma poke_peek_self [simp]: "off + n \<le> length xs \<Longrightarrow> poke off (peek off n xs) xs = xs"
proof -
  assume "off + n \<le> length xs"
  then have "length (peek off n xs) = n" by simp
  moreover have "take off xs @ take n (drop off xs) @ drop n (drop off xs) = xs"
    by (metis append_take_drop_id)
  ultimately show ?thesis by (simp add: poke_def peek_def add.commute)
qed

lemma poke_append [simp]: "poke (length xs) ys xs = xs @ ys"
  by (simp add: poke_def)

lemma poke_poke_adjacent:
  "pos \<le> length f \<Longrightarrow> poke (pos + length a) b (poke pos a f) = poke pos (a @ b) f"
  by (simp add: poke_def add.assoc add.commute [of "length b"])

lemma length_concat_const: "\<forall>x \<in> set xss. length x = k \<Longrightarrow> length (concat xss) = length xss * k"
  by (induction xss) auto

lemma peek_concat [mem_simps]:
  assumes "\<forall>x \<in> set xss. length x = k" and "i < length xss"
  shows "peek (i * k) k (concat xss) = xss ! i"
  using assms
proof (induction xss arbitrary: i)
  case (Cons x xss)
  then show ?case by (cases i) (auto simp: peek_def)
qed simp

section \<open>Lemmas on words and bytes\<close>

lemma length_le_bytes [simp]: "length (le_bytes n x) = n"
  by (induction n arbitrary: x) auto

lemma le_bytes_numeral:
  "le_bytes (numeral k) x = word_of_nat x # le_bytes (pred_numeral k) (x div 256)"
  by (simp only: numeral_eq_Suc [of k] le_bytes.simps)

lemma unat_byte [simp]: "unat (word_of_nat x :: byte) = x mod 256"
  by (simp add: unat_of_nat)

lemma unat_byte_less [simp]: "unat (b::byte) < 256"
  using unsigned_less [of b] by simp

lemma le_val_le_bytes [simp]: "le_val (le_bytes n x) = x mod 256 ^ n"
proof (induction n arbitrary: x)
  case (Suc n)
  then show ?case by (simp add: mod_mult2_eq)
qed auto

lemma le_val_less: "le_val bs < 256 ^ length bs"
proof (induction bs)
  case (Cons b bs)
  have "unat b < 256" by (rule unat_byte_less)
  moreover have "le_val bs + 1 \<le> 256 ^ length bs" using Cons by simp
  ultimately have "unat b + 256 * le_val bs < 256 * 256 ^ length bs" by linarith
  then show ?case by simp
qed auto

lemma le_bytes_le_val [simp]: "le_bytes (length bs) (le_val bs) = bs"
proof (induction bs)
  case (Cons b bs)
  have lt: "unat b < 256" by (rule unat_byte_less)
  then have "word_of_nat (unat b + 256 * le_val bs) = b"
    by (metis mod_mult_self2 mod_less unat_byte word_unat_eq_iff)
  moreover have "(unat b + 256 * le_val bs) div 256 = le_val bs"
    using lt by simp
  ultimately show ?case using Cons by simp
qed auto

lemma length_word_mem [simp]: "length (word_mem (w::'a::len word)) = LENGTH('a) div 8"
  by (simp add: word_mem_def)

lemma pow256: "8 dvd n \<Longrightarrow> (256::nat) ^ (n div 8) = 2 ^ n"
proof -
  assume "8 dvd n"
  then have "n = 8 * (n div 8)" by simp
  then have "(2::nat) ^ n = (2 ^ 8) ^ (n div 8)" by (metis power_mult)
  then show ?thesis by simp
qed

lemma width_pos: "8 dvd LENGTH('a::len) \<Longrightarrow> LENGTH('a) div 8 > 0"
  using len_gt_0 [where 'a = 'a] by (metis dvd_div_eq_0_iff gr0I less_numeral_extra(3))

lemma mem_word_mem [simp]: "8 dvd LENGTH('a) \<Longrightarrow> mem_word (word_mem (w::'a::len word)) = w"
  by (simp add: mem_word_def word_mem_def pow256)

lemma word_mem_word [simp]:
  "8 dvd LENGTH('a::len) \<Longrightarrow> length bs = LENGTH('a) div 8 \<Longrightarrow> word_mem (mem_word bs :: 'a word) = bs"
proof -
  assume d: "8 dvd LENGTH('a)" and l: "length bs = LENGTH('a) div 8"
  have "le_val bs < 2 ^ LENGTH('a)" using le_val_less [of bs] d l by (simp add: pow256)
  then have "unat (mem_word bs :: 'a word) = le_val bs"
    by (simp add: mem_word_def unat_of_nat)
  then show ?thesis using l by (simp add: word_mem_def flip: l)
qed

lemma char_of_byte_of_char [simp]: "char_of_byte (byte_of_char c) = c"
proof -
  have "of_char c < (256::nat)" by simp
  then show ?thesis by (simp add: char_of_byte_def byte_of_char_def)
qed

lemma byte_of_char_of_byte [simp]: "byte_of_char (char_of_byte b) = b"
proof -
  have "unat b < 256" by (rule unat_byte_less)
  then show ?thesis by (simp add: char_of_byte_def byte_of_char_def)
qed

lemma map_char_byte [simp]: "map char_of_byte (map byte_of_char s) = s"
  by (simp add: comp_def)

lemma map_char_byte_comp [simp]: "map (char_of_byte \<circ> byte_of_char) s = s"
  by (simp add: comp_def)

lemma c_str_id [simp]: "CHR 0x00 \<notin> set s \<Longrightarrow> c_str s = s"
  unfolding c_str_def by (subst takeWhile_eq_all_conv) auto

lemma c_str_no_zero [simp]: "CHR 0x00 \<notin> set (c_str s)"
  by (auto simp: c_str_def dest: set_takeWhileD)

section \<open>Lemmas on ordered maps\<close>

lemma map_find_map_of: "map_find m = map_of m"
  by (rule ext, induct m rule: list.induct) auto

lemma map_find_put [simp, map_simps]: "map_find (map_put k v m) j = (if j = k then Some v else map_find m j)"
  by (induction k v m rule: map_put.induct) auto

lemma map_fst_put: "fst ` set (map_put k v m) = insert k (fst ` set m)"
  by (induction k v m rule: map_put.induct) auto

lemma map_ok_put [simp]: "map_ok m \<Longrightarrow> map_ok (map_put k v m)"
  by (induction k v m rule: map_put.induct) (auto simp: map_fst_put)

lemma map_find_None_iff [map_simps]: "map_find m k = None \<longleftrightarrow> k \<notin> fst ` set m"
  by (induction m k rule: map_find.induct) auto

lemma map_find_erase [map_simps]:
  "map_ok m \<Longrightarrow> map_find (map_erase k m) j = (if j = k then None else map_find m j)"
proof (induction k m rule: map_erase.induct)
  case (2 k a w m)
  then have a: "map_find m a = None" by (auto simp: map_find_None_iff)
  show ?case
  proof (cases "k = a")
    case True
    with a show ?thesis by simp
  next
    case False
    with 2 show ?thesis by auto
  qed
qed simp

lemma map_erase_subset: "fst ` set (map_erase k m) \<subseteq> fst ` set m"
  by (induction k m rule: map_erase.induct) auto

lemma map_ok_erase [simp]: "map_ok m \<Longrightarrow> map_ok (map_erase k m)"
proof (induction k m rule: map_erase.induct)
  case (2 k a w m)
  then show ?case using map_erase_subset [of k m] by fastforce
qed auto

lemma map_ok_emplace [simp]: "map_ok m \<Longrightarrow> map_ok (map_emplace k v m)"
  by (simp add: map_emplace_def)

lemma map_find_emplace [simp, map_simps]:
  "map_find (map_emplace k v m) j = (if j = k \<and> map_find m k = None then Some v else map_find m j)"
  by (auto simp: map_emplace_def)

lemma map_put_snoc: "\<forall>a \<in> fst ` set m. a < k \<Longrightarrow> map_put k v m = m @ [(k, v)]"
  by (induction m) auto

lemma map_emplace_snoc: "\<forall>a \<in> fst ` set m. a < k \<Longrightarrow> map_emplace k v m = m @ [(k, v)]"
  by (auto simp: map_emplace_def map_find_None_iff map_put_snoc)

lemma set_map_put: "set (map_put k v m) \<subseteq> insert (k, v) (set m)"
  by (induction k v m rule: map_put.induct) auto

lemma set_map_erase: "set (map_erase k m) \<subseteq> set m"
  by (induction k m rule: map_erase.induct) auto

lemma length_map_put: "length (map_put k v m) \<le> Suc (length m)"
  by (induction k v m rule: map_put.induct) auto

lemma length_map_erase_le: "length (map_erase k m) \<le> length m"
  by (induction k m rule: map_erase.induct) auto

end
