(* ===== verification/Streams.thy ===== *)
theory Streams
  imports Prelude
begin

text \<open>
  The byte streams of \<open>src/bdfsclient-lib\<close>: the abstract writers and readers
  \<open>IOutputStream\<close> and \<open>IInputStream\<close>, their in-memory implementations
  \<open>BufferedOutputStream\<close> and \<open>BufferedInputStream\<close>, and the byte order conversions of
  \<open>EndianUtil.h\<close> and \<open>Util.cpp\<close>. All other components persist their data through them.

  A signed integer is the word with its bits: the streams only move representations, so
  \<open>WriteInt32\<close> and \<open>WriteUInt32\<close> differ in the type of their argument only. Sizes are \<open>nat\<close>
  where they count bytes that exist in memory; allocation is taken to succeed. The locale
  \<open>codec\<close> is the contract of every (de)serialiser built on the streams.
\<close>

section \<open>Byte order\<close>

definition bswap :: "'a::len word \<Rightarrow> 'a word" where
  "bswap w = mem_word (rev (word_mem w))"

text \<open>\<open>htons\<close>, \<open>htonl\<close> and the \<open>htobe\<close> family on a little-endian host.\<close>

abbreviation htobe16 :: "u16 \<Rightarrow> u16" where "htobe16 \<equiv> bswap"
abbreviation be16toh :: "u16 \<Rightarrow> u16" where "be16toh \<equiv> bswap"
abbreviation htobe32 :: "u32 \<Rightarrow> u32" where "htobe32 \<equiv> bswap"
abbreviation be32toh :: "u32 \<Rightarrow> u32" where "be32toh \<equiv> bswap"
abbreviation htobe64 :: "u64 \<Rightarrow> u64" where "htobe64 \<equiv> bswap"
abbreviation be64toh :: "u64 \<Rightarrow> u64" where "be64toh \<equiv> bswap"
abbreviation htonl :: "u32 \<Rightarrow> u32" where "htonl \<equiv> bswap"
abbreviation ntohl :: "u32 \<Rightarrow> u32" where "ntohl \<equiv> bswap"

definition htonll :: "u64 \<Rightarrow> u64" where
  "htonll val = push_bit 32 (ucast (htonl (ucast val))) + ucast (htonl (ucast (drop_bit 32 val)))"

definition ntohll :: "u64 \<Rightarrow> u64" where
  "ntohll val = push_bit 32 (ucast (ntohl (ucast val))) + ucast (ntohl (ucast (drop_bit 32 val)))"

section \<open>Output streams\<close>

record ostream =
  obuffer :: "byte list"
  olength :: nat
  ooffset :: nat

definition BufferedOutputStream :: ostream where
  "BufferedOutputStream = \<lparr>obuffer = [], olength = 0, ooffset = 0\<rparr>"

text \<open>
  \<open>realloc\<close> keeps the old bytes; the value of the fresh ones is not determined by C and is
  never read before it is written, zero stands for it.
\<close>

definition EnsureBuffer :: "ostream \<Rightarrow> nat \<Rightarrow> ostream" where
  "EnsureBuffer s len =
     (if ooffset s + len > olength s
      then let l = (olength s + len + 64) div 64 * 64
           in s\<lparr>olength := l, obuffer := obuffer s @ replicate (l - length (obuffer s)) 0\<rparr>
      else s)"

definition Write :: "ostream \<Rightarrow> byte list \<Rightarrow> nat \<times> ostream" where
  "Write s ary =
     (let s' = EnsureBuffer s (length ary)
      in (length ary, s'\<lparr>obuffer := poke (ooffset s') ary (obuffer s'),
                        ooffset := ooffset s' + length ary\<rparr>))"

definition Reset :: "ostream \<Rightarrow> bool \<times> ostream" where
  "Reset s = (True, s\<lparr>ooffset := 0\<rparr>)"

text \<open>The returned byte count becomes the \<open>bool\<close> result: nonzero is success.\<close>

definition write_mem :: "ostream \<Rightarrow> byte list \<Rightarrow> bool \<times> ostream" where
  "write_mem s bs = (let (n, s') = Write s bs in (n \<noteq> 0, s'))"

definition WriteInt8 :: "ostream \<Rightarrow> u8 \<Rightarrow> bool \<times> ostream" where
  "WriteInt8 s value = write_mem s (word_mem value)"

definition WriteInt8_array :: "ostream \<Rightarrow> u8 list \<Rightarrow> bool \<times> ostream" where
  "WriteInt8_array s ary = write_mem s (concat (map word_mem ary))"

definition WriteUInt8 :: "ostream \<Rightarrow> u8 \<Rightarrow> bool \<times> ostream" where
  "WriteUInt8 s value = write_mem s (word_mem value)"

definition WriteUInt8_array :: "ostream \<Rightarrow> u8 list \<Rightarrow> bool \<times> ostream" where
  "WriteUInt8_array s ary = write_mem s (concat (map word_mem ary))"

text \<open>
  The array writers swap the caller's array in place, write it and swap it back; the second
  component of the result is that array after the call.
\<close>

definition write_array_be :: "ostream \<Rightarrow> 'a::len word list \<Rightarrow> bool \<times> 'a word list \<times> ostream" where
  "write_array_be s ary =
     (let swapped = map bswap ary;
          (result, s') = write_mem s (concat (map word_mem swapped))
      in (result, map bswap swapped, s'))"

definition WriteInt16 :: "ostream \<Rightarrow> u16 \<Rightarrow> bool \<times> ostream" where
  "WriteInt16 s value = write_mem s (word_mem (htobe16 value))"

definition WriteInt16_array :: "ostream \<Rightarrow> u16 list \<Rightarrow> bool \<times> u16 list \<times> ostream" where
  "WriteInt16_array s ary = write_array_be s ary"

definition WriteUInt16 :: "ostream \<Rightarrow> u16 \<Rightarrow> bool \<times> ostream" where
  "WriteUInt16 s value = write_mem s (word_mem (htobe16 value))"

definition WriteUInt16_array :: "ostream \<Rightarrow> u16 list \<Rightarrow> bool \<times> u16 list \<times> ostream" where
  "WriteUInt16_array s ary = write_array_be s ary"

definition WriteInt32 :: "ostream \<Rightarrow> u32 \<Rightarrow> bool \<times> ostream" where
  "WriteInt32 s value = write_mem s (word_mem (htobe32 value))"

definition WriteInt32_array :: "ostream \<Rightarrow> u32 list \<Rightarrow> bool \<times> u32 list \<times> ostream" where
  "WriteInt32_array s ary = write_array_be s ary"

definition WriteUInt32 :: "ostream \<Rightarrow> u32 \<Rightarrow> bool \<times> ostream" where
  "WriteUInt32 s value = write_mem s (word_mem (htobe32 value))"

definition WriteUInt32_array :: "ostream \<Rightarrow> u32 list \<Rightarrow> bool \<times> u32 list \<times> ostream" where
  "WriteUInt32_array s ary = write_array_be s ary"

definition WriteInt64 :: "ostream \<Rightarrow> u64 \<Rightarrow> bool \<times> ostream" where
  "WriteInt64 s value = write_mem s (word_mem (htobe64 value))"

definition WriteInt64_array :: "ostream \<Rightarrow> u64 list \<Rightarrow> bool \<times> u64 list \<times> ostream" where
  "WriteInt64_array s ary = write_array_be s ary"

definition WriteUInt64 :: "ostream \<Rightarrow> u64 \<Rightarrow> bool \<times> ostream" where
  "WriteUInt64 s value = write_mem s (word_mem (htobe64 value))"

definition WriteUInt64_array :: "ostream \<Rightarrow> u64 list \<Rightarrow> bool \<times> u64 list \<times> ostream" where
  "WriteUInt64_array s ary = write_array_be s ary"

text \<open>\<open>str.size()\<close> is converted to \<open>uint32_t\<close> implicitly, so it is taken modulo \<open>2 ^ 32\<close>.\<close>

definition WriteString :: "ostream \<Rightarrow> string \<Rightarrow> bool \<times> ostream" where
  "WriteString s str =
     (let (ok, s1) = WriteUInt32 s (word_of_nat (length str))
      in if \<not> ok then (False, s1)
         else if length str > 0 then WriteInt8_array s1 (map byte_of_char str)
         else (True, s1))"

section \<open>Input streams\<close>

record istream =
  ibuffer :: "byte list"
  ilength :: nat
  ioffset :: nat
  isValid :: bool

definition BufferedInputStream :: "byte list \<Rightarrow> nat \<Rightarrow> istream" where
  "BufferedInputStream buffer len = \<lparr>ibuffer = buffer, ilength = len, ioffset = 0, isValid = True\<rparr>"

definition Initialize :: "byte list \<Rightarrow> nat \<Rightarrow> bool \<times> istream" where
  "Initialize buffer len = (True, \<lparr>ibuffer = buffer, ilength = len, ioffset = 0, isValid = True\<rparr>)"

definition Remainder :: "istream \<Rightarrow> nat" where
  "Remainder s = sub64 (ilength s) (ioffset s)"

definition Rewind :: "istream \<Rightarrow> nat \<Rightarrow> istream" where
  "Rewind s bytes = s\<lparr>ioffset := sub64 (ioffset s) bytes\<rparr>"

definition Skip :: "istream \<Rightarrow> nat \<Rightarrow> istream" where
  "Skip s bytes = s\<lparr>ioffset := wrap64 (ioffset s + bytes)\<rparr>"

text \<open>\<open>Read\<close> and \<open>Peek\<close> give the returned count and the bytes copied to the caller's buffer.\<close>

definition Read :: "istream \<Rightarrow> nat \<Rightarrow> nat \<times> byte list \<times> istream" where
  "Read s len =
     (let remainder = sub64 (ilength s) (ioffset s);
          short = remainder < len;
          len' = (if short then remainder else len)
      in (len', peek (ioffset s) len' (ibuffer s),
          s\<lparr>isValid := (if short then False else isValid s), ioffset := wrap64 (ioffset s + len')\<rparr>))"

definition Peek :: "istream \<Rightarrow> nat \<Rightarrow> nat \<times> byte list" where
  "Peek s len =
     (let remainder = sub64 (ilength s) (ioffset s);
          len' = (if remainder < len then remainder else len)
      in (len', peek (ioffset s) len' (ibuffer s)))"

definition read_scalar :: "istream \<Rightarrow> 'a::len word \<times> istream" where
  "read_scalar s =
     (let (n, bs, s') = Read s (LENGTH('a) div 8)
      in (if n = LENGTH('a) div 8 then mem_word bs else 0, s'))"

definition ReadInt8 :: "istream \<Rightarrow> u8 \<times> istream" where
  "ReadInt8 s = read_scalar s"

definition ReadUInt8 :: "istream \<Rightarrow> u8 \<times> istream" where
  "ReadUInt8 s = read_scalar s"

definition read_scalar_be :: "istream \<Rightarrow> 'a::len word \<times> istream" where
  "read_scalar_be s =
     (let (n, bs, s') = Read s (LENGTH('a) div 8)
      in (if n = LENGTH('a) div 8 then bswap (mem_word bs) else 0, s'))"

definition ReadInt16 :: "istream \<Rightarrow> u16 \<times> istream" where "ReadInt16 s = read_scalar_be s"
definition ReadInt32 :: "istream \<Rightarrow> u32 \<times> istream" where "ReadInt32 s = read_scalar_be s"
definition ReadInt64 :: "istream \<Rightarrow> u64 \<times> istream" where "ReadInt64 s = read_scalar_be s"
definition ReadUInt16 :: "istream \<Rightarrow> u16 \<times> istream" where "ReadUInt16 s = read_scalar_be s"
definition ReadUInt32 :: "istream \<Rightarrow> u32 \<times> istream" where "ReadUInt32 s = read_scalar_be s"
definition ReadUInt64 :: "istream \<Rightarrow> u64 \<times> istream" where "ReadUInt64 s = read_scalar_be s"

definition PeekUInt16 :: "istream \<Rightarrow> u16" where
  "PeekUInt16 s = (let (n, bs) = Peek s 2 in if n = 2 then be16toh (mem_word bs) else 0)"

text \<open>
  The array readers fill the caller's array \<open>ary\<close>; a short read leaves its tail as it was and
  skips the byte swap.
\<close>

definition mem_words :: "byte list \<Rightarrow> 'a::len word list" where
  "mem_words bs =
     map (\<lambda>i. mem_word (peek (i * (LENGTH('a) div 8)) (LENGTH('a) div 8) bs))
         [0..<length bs div (LENGTH('a) div 8)]"

definition read_array :: "istream \<Rightarrow> u8 list \<Rightarrow> nat \<times> u8 list \<times> istream" where
  "read_array s ary = (let (n, bs, s') = Read s (length ary) in (n, poke 0 bs ary, s'))"

definition read_array_be :: "istream \<Rightarrow> 'a::len word list \<Rightarrow> nat \<times> 'a word list \<times> istream" where
  "read_array_be s ary =
     (let (bytes, bs, s') = Read s (length ary * (LENGTH('a) div 8));
          n = bytes div (LENGTH('a) div 8);
          raw = mem_words (poke 0 bs (concat (map word_mem ary)))
      in (n, if n = length ary then map bswap raw else raw, s'))"

definition ReadInt8_array :: "istream \<Rightarrow> u8 list \<Rightarrow> nat \<times> u8 list \<times> istream" where
  "ReadInt8_array s ary = read_array s ary"

definition ReadUInt8_array :: "istream \<Rightarrow> u8 list \<Rightarrow> nat \<times> u8 list \<times> istream" where
  "ReadUInt8_array s ary = read_array s ary"

definition ReadInt16_array :: "istream \<Rightarrow> u16 list \<Rightarrow> nat \<times> u16 list \<times> istream" where
  "ReadInt16_array s ary = read_array_be s ary"

definition ReadInt32_array :: "istream \<Rightarrow> u32 list \<Rightarrow> nat \<times> u32 list \<times> istream" where
  "ReadInt32_array s ary = read_array_be s ary"

definition ReadInt64_array :: "istream \<Rightarrow> u64 list \<Rightarrow> nat \<times> u64 list \<times> istream" where
  "ReadInt64_array s ary = read_array_be s ary"

definition ReadUInt16_array :: "istream \<Rightarrow> u16 list \<Rightarrow> nat \<times> u16 list \<times> istream" where
  "ReadUInt16_array s ary = read_array_be s ary"

definition ReadUInt32_array :: "istream \<Rightarrow> u32 list \<Rightarrow> nat \<times> u32 list \<times> istream" where
  "ReadUInt32_array s ary = read_array_be s ary"

definition ReadUInt64_array :: "istream \<Rightarrow> u64 list \<Rightarrow> nat \<times> u64 list \<times> istream" where
  "ReadUInt64_array s ary = read_array_be s ary"

text \<open>
  \<open>ReadString\<close> resizes and overwrites the string it is given (\<open>str\<close>), and leaves it alone when
  the length is zero or the stream is no longer valid.
\<close>

definition string_resize :: "string \<Rightarrow> nat \<Rightarrow> string" where
  "string_resize str n = take n str @ replicate (n - length str) (CHR 0x00)"

definition ReadString :: "istream \<Rightarrow> string \<Rightarrow> nat \<times> string \<times> istream" where
  "ReadString s str =
     (let (strLength, s1) = ReadUInt32 s
      in if isValid s1 \<and> strLength > 0
         then let (n, bs, s2) =
                    ReadInt8_array s1 (map byte_of_char (string_resize str (unat strLength)))
              in (4 + n, map char_of_byte bs, s2)
         else (4, str, s1))"

section \<open>Sequencing\<close>

text \<open>A chain of \<open>return_false_if(!...)\<close> statements, and the loops of the serialisers.\<close>

fun write_seq :: "(ostream \<Rightarrow> bool \<times> ostream) list \<Rightarrow> ostream \<Rightarrow> bool \<times> ostream" where
  "write_seq [] s = (True, s)"
| "write_seq (w # ws) s = (let (ok, s') = w s in if ok then write_seq ws s' else (False, s'))"

definition write_all :: "(ostream \<Rightarrow> 'a \<Rightarrow> bool \<times> ostream) \<Rightarrow> 'a list \<Rightarrow> ostream \<Rightarrow> bool \<times> ostream" where
  "write_all wr xs = write_seq (map (\<lambda>x s. wr s x) xs)"

fun read_times :: "(istream \<Rightarrow> 'a option \<times> istream) \<Rightarrow> nat \<Rightarrow> istream \<Rightarrow> bool \<times> 'a list \<times> istream" where
  "read_times rd 0 s = (True, [], s)"
| "read_times rd (Suc n) s =
     (case rd s of
        (None, s') \<Rightarrow> (False, [], s')
      | (Some x, s') \<Rightarrow> (let (ok, xs, s'') = read_times rd n s' in (ok, x # xs, s'')))"

section \<open>Stream invariants and abstractions\<close>

definition ostream_inv :: "ostream \<Rightarrow> bool" where
  "ostream_inv s \<longleftrightarrow> length (obuffer s) = olength s \<and> ooffset s \<le> olength s \<and> 64 dvd olength s"

definition contents :: "ostream \<Rightarrow> byte list" where
  "contents s = take (ooffset s) (obuffer s)"

definition istream_inv :: "istream \<Rightarrow> bool" where
  "istream_inv s \<longleftrightarrow> ilength s \<le> length (ibuffer s) \<and> ioffset s \<le> ilength s \<and> ilength s < 2 ^ 64"

definition unread :: "istream \<Rightarrow> byte list" where
  "unread s = drop (ioffset s) (take (ilength s) (ibuffer s))"

definition enc_be :: "'a::len word \<Rightarrow> byte list" where
  "enc_be w = rev (word_mem w)"

definition enc_string :: "string \<Rightarrow> byte list" where
  "enc_string str = enc_be (word_of_nat (length str) :: u32) @ map byte_of_char str"

definition read_some :: "(istream \<Rightarrow> 'a \<times> istream) \<Rightarrow> istream \<Rightarrow> 'a option \<times> istream" where
  "read_some r s = (let (v, s') = r s in (Some v, s'))"

definition read_string :: "istream \<Rightarrow> string option \<times> istream" where
  "read_string s = (let (n, str, s') = ReadString s [] in (Some str, s'))"

definition emits :: "(ostream \<Rightarrow> bool \<times> ostream) \<Rightarrow> byte list \<Rightarrow> bool" where
  "emits w bs \<longleftrightarrow> (\<forall>s. ostream_inv s \<longrightarrow>
     fst (w s) \<and> ostream_inv (snd (w s)) \<and> contents (snd (w s)) = contents s @ bs)"

definition parses :: "(istream \<Rightarrow> 'a option \<times> istream) \<Rightarrow> byte list \<Rightarrow> 'a \<Rightarrow> bool" where
  "parses r bs x \<longleftrightarrow> (\<forall>s rest. istream_inv s \<longrightarrow> isValid s \<longrightarrow> unread s = bs @ rest \<longrightarrow>
     fst (r s) = Some x \<and> istream_inv (snd (r s)) \<and> isValid (snd (r s)) \<and> unread (snd (r s)) = rest)"

section \<open>Byte order lemmas\<close>

lemma bswap_bswap [simp]: "8 dvd LENGTH('a::len) \<Longrightarrow> bswap (bswap (w::'a word)) = w"
  by (simp add: bswap_def)

lemma word_mem_bswap [simp]: "8 dvd LENGTH('a::len) \<Longrightarrow> word_mem (bswap (w::'a word)) = rev (word_mem w)"
  by (simp add: bswap_def)

lemma le_val_append: "le_val (xs @ ys) = le_val xs + 256 ^ length xs * le_val ys"
  by (induction xs) (auto simp: algebra_simps)

lemma le_bytes_add: "le_bytes (m + n) x = le_bytes m x @ le_bytes n (x div 256 ^ m)"
  by (induction m arbitrary: x) (auto simp: div_mult2_eq)

lemma le_bytes_mod: "le_bytes n (x mod 256 ^ n) = le_bytes n x"
proof -
  have "le_bytes n (le_val (le_bytes n x)) = le_bytes n x"
    using le_bytes_le_val [of "le_bytes n x"] by (simp del: le_val_le_bytes)
  then show ?thesis by simp
qed

section \<open>Output stream lemmas\<close>

lemma BufferedOutputStream_inv [simp]:
  "ostream_inv BufferedOutputStream" "contents BufferedOutputStream = []"
  by (simp_all add: BufferedOutputStream_def ostream_inv_def contents_def)

lemma EnsureBuffer_room:
  assumes "ostream_inv s"
  shows "ooffset s + len \<le> olength (EnsureBuffer s len)"
    and "ostream_inv (EnsureBuffer s len)"
    and "ooffset (EnsureBuffer s len) = ooffset s"
    and "contents (EnsureBuffer s len) = contents s"
proof -
  have l: "olength s + len < (olength s + len + 64) div 64 * 64"
    using dividend_less_div_times [of 64 "olength s + len"] by simp
  with assms show "ooffset s + len \<le> olength (EnsureBuffer s len)"
    by (auto simp: EnsureBuffer_def Let_def ostream_inv_def)
  from l assms show "ostream_inv (EnsureBuffer s len)"
    by (auto simp: EnsureBuffer_def Let_def ostream_inv_def)
  show "ooffset (EnsureBuffer s len) = ooffset s"
    by (simp add: EnsureBuffer_def Let_def)
  from assms show "contents (EnsureBuffer s len) = contents s"
    by (simp add: EnsureBuffer_def Let_def ostream_inv_def contents_def)
qed

lemma Write_spec:
  assumes "ostream_inv s"
  shows "fst (Write s ary) = length ary"
    and "ostream_inv (snd (Write s ary))"
    and "contents (snd (Write s ary)) = contents s @ ary"
proof -
  let ?e = "EnsureBuffer s (length ary)"
  note e = EnsureBuffer_room [OF assms, of "length ary"]
  show "fst (Write s ary) = length ary" by (simp add: Write_def Let_def)
  show "ostream_inv (snd (Write s ary))"
    using e by (simp add: Write_def Let_def ostream_inv_def)
  have "take (ooffset s) (obuffer ?e) = contents s"
    using e(3,4) by (simp add: contents_def)
  then show "contents (snd (Write s ary)) = contents s @ ary"
    using e assms by (simp add: Write_def Let_def contents_def poke_def ostream_inv_def)
qed

lemma emitsD:
  "emits w bs \<Longrightarrow> ostream_inv s \<Longrightarrow> w s = (ok, s') \<Longrightarrow> ok \<and> ostream_inv s' \<and> contents s' = contents s @ bs"
  by (auto simp: emits_def dest!: spec [of _ s])

lemma emits_write_mem: "bs \<noteq> [] \<Longrightarrow> emits (\<lambda>s. write_mem s bs) bs"
  by (simp add: emits_def write_mem_def Write_spec Let_def split_beta)

lemma emits_Nil: "emits (write_seq []) []"
  by (simp add: emits_def)

lemma emits_Cons: "emits w bs \<Longrightarrow> emits (write_seq ws) cs \<Longrightarrow> emits (write_seq (w # ws)) (bs @ cs)"
  by (simp add: emits_def Let_def split_beta)

lemma emits_all:
  "(\<And>x. x \<in> set xs \<Longrightarrow> emits (\<lambda>s. wr s x) (enc x)) \<Longrightarrow>
   emits (write_all wr xs) (concat (map enc xs))"
  unfolding write_all_def by (induction xs) (auto intro: emits_Nil emits_Cons)

section \<open>Input stream lemmas\<close>

lemma BufferedInputStream_inv [simp]:
  "length bs < 2 ^ 64 \<Longrightarrow> istream_inv (BufferedInputStream bs (length bs))"
  "isValid (BufferedInputStream bs n)"
  "unread (BufferedInputStream bs (length bs)) = bs"
  by (simp_all add: BufferedInputStream_def istream_inv_def unread_def)

lemma Remainder_unread: "istream_inv s \<Longrightarrow> Remainder s = length (unread s)"
  by (simp add: Remainder_def istream_inv_def unread_def)

lemma peek_unread:
  "istream_inv s \<Longrightarrow> k \<le> length (unread s) \<Longrightarrow> peek (ioffset s) k (ibuffer s) = take k (unread s)"
  by (auto simp: peek_def unread_def drop_take istream_inv_def)

lemma Read_enough:
  assumes "istream_inv s" and "unread s = bs @ rest" and "n = length bs"
  shows "Read s n = (n, bs, s\<lparr>ioffset := ioffset s + n\<rparr>)"
    and "istream_inv (s\<lparr>ioffset := ioffset s + n\<rparr>)"
    and "unread (s\<lparr>ioffset := ioffset s + n\<rparr>) = rest"
proof -
  have len: "length (unread s) = ilength s - ioffset s"
    using assms(1) by (simp add: istream_inv_def unread_def)
  then have le: "ioffset s + n \<le> ilength s" and lt: "ilength s < 2 ^ 64"
    using assms by (auto simp: istream_inv_def)
  have "peek (ioffset s) n (ibuffer s) = take n (unread s)"
    using assms by (simp add: peek_unread)
  then have "peek (ioffset s) n (ibuffer s) = bs" using assms(2,3) by simp
  then show "Read s n = (n, bs, s\<lparr>ioffset := ioffset s + n\<rparr>)"
    using le lt by (simp add: Read_def Let_def)
  show "istream_inv (s\<lparr>ioffset := ioffset s + n\<rparr>)"
    using le assms(1) by (simp add: istream_inv_def)
  have "unread (s\<lparr>ioffset := ioffset s + n\<rparr>) = drop n (unread s)"
    by (simp add: unread_def add.commute)
  then show "unread (s\<lparr>ioffset := ioffset s + n\<rparr>) = rest" using assms(2,3) by simp
qed

lemma Read_inv:
  assumes "istream_inv s" and "Read s n = (k, bs, s')"
  shows "istream_inv s' \<and> k = min n (length (unread s)) \<and> bs = take n (unread s) \<and> length bs = k"
    and "isValid s' \<longleftrightarrow> isValid s \<and> n \<le> length (unread s)"
    and "unread s' = drop k (unread s)"
proof -
  have len: "length (unread s) = ilength s - ioffset s" and lt: "ilength s < 2 ^ 64"
    using assms(1) by (auto simp: istream_inv_def unread_def)
  let ?k = "min n (length (unread s))"
  have k: "k = ?k" and s': "s' = s\<lparr>isValid := (n \<le> length (unread s) \<and> isValid s), ioffset := ioffset s + ?k\<rparr>"
    and bs: "bs = peek (ioffset s) ?k (ibuffer s)"
    using assms len lt by (auto simp: Read_def Let_def istream_inv_def min_def split: if_splits)
  have "bs = take ?k (unread s)"
    using assms(1) by (simp add: bs peek_unread)
  then show "istream_inv s' \<and> k = min n (length (unread s)) \<and> bs = take n (unread s) \<and> length bs = k"
    using k s' len assms(1) by (auto simp: istream_inv_def min_def)
  show "isValid s' \<longleftrightarrow> isValid s \<and> n \<le> length (unread s)" using s' by auto
  show "unread s' = drop k (unread s)" using s' k by (simp add: unread_def add.commute)
qed

section \<open>Codecs\<close>

text \<open>
  The contract of a pair of writer and reader: on the domain \<open>dom\<close> the writer appends exactly
  \<open>enc x\<close>, and the reader, started where \<open>enc x\<close> begins, gives \<open>x\<close> back and stops right
  after it. The loops over a sequence inherit both laws.
\<close>

lemma parsesD:
  assumes "parses r bs x" and "istream_inv s" and "isValid s" and "unread s = bs @ rest"
  obtains s' where "r s = (Some x, s')" and "istream_inv s'" and "isValid s'" and "unread s' = rest"
  using that assms by (cases "r s") (auto simp: parses_def)

locale codec =
  fixes enc :: "'a \<Rightarrow> byte list"
    and wr :: "ostream \<Rightarrow> 'a \<Rightarrow> bool \<times> ostream"
    and rd :: "istream \<Rightarrow> 'a option \<times> istream"
    and valid :: "'a \<Rightarrow> bool"
  assumes wr_emits: "valid x \<Longrightarrow> emits (\<lambda>s. wr s x) (enc x)"
    and rd_parses: "valid x \<Longrightarrow> parses rd (enc x) x"
begin

lemma all_emits: "\<forall>x \<in> set xs. valid x \<Longrightarrow> emits (write_all wr xs) (concat (map enc xs))"
  by (intro emits_all wr_emits) simp

lemma times_parses:
  assumes "\<forall>x \<in> set xs. valid x" and "istream_inv s" and "isValid s"
    and "unread s = concat (map enc xs) @ rest"
  shows "\<exists>s'. read_times rd (length xs) s = (True, xs, s') \<and> istream_inv s' \<and> isValid s' \<and> unread s' = rest"
  using assms
proof (induction xs arbitrary: s)
  case (Cons x xs)
  then have "parses rd (enc x) x" by (simp add: rd_parses)
  from parsesD [OF this, of s "concat (map enc xs) @ rest"] Cons.prems
  obtain s' where s': "rd s = (Some x, s')" "istream_inv s'" "isValid s'"
      "unread s' = concat (map enc xs) @ rest"
    by auto
  with Cons.IH [of s'] Cons.prems(1) show ?case by auto
qed auto

end

section \<open>The codecs of the streams\<close>

lemma length_enc_be [simp]: "length (enc_be (w::'a::len word)) = LENGTH('a) div 8"
  by (simp add: enc_be_def)

lemma length_enc_string [simp]: "length (enc_string str) = 4 + length str"
  by (simp add: enc_string_def)

lemma emits_be: "8 dvd LENGTH('a::len) \<Longrightarrow> emits (\<lambda>s. write_mem s (word_mem (bswap (w::'a word)))) (enc_be w)"
proof -
  assume d: "8 dvd LENGTH('a)"
  have "LENGTH('a) div 8 > 0" using d by (rule width_pos)
  then have "enc_be w \<noteq> []" by (metis length_enc_be length_0_conv less_numeral_extra(3))
  from emits_write_mem [OF this] d show ?thesis by (simp add: enc_be_def)
qed

lemma parses_be:
  assumes d: "8 dvd LENGTH('a::len)"
  shows "parses (read_some read_scalar_be) (enc_be w) (w::'a word)"
  unfolding parses_def
proof (intro allI impI)
  fix s rest assume s: "istream_inv s" "isValid s" "unread s = enc_be w @ rest"
  note r = Read_enough [OF s(1) s(3), of "LENGTH('a) div 8"]
  have "bswap (mem_word (enc_be w)) = w" using d by (simp add: bswap_def enc_be_def)
  moreover define R :: "'a word option \<times> istream" where "R = read_some read_scalar_be s"
  ultimately have "fst R = Some w \<and> istream_inv (snd R) \<and> isValid (snd R) \<and> unread (snd R) = rest"
    using r s(2) by (simp add: read_some_def read_scalar_be_def)
  then show "fst (read_some read_scalar_be s :: 'a word option \<times> istream) = Some w \<and>
      istream_inv (snd (read_some read_scalar_be s :: 'a word option \<times> istream)) \<and>
      isValid (snd (read_some read_scalar_be s :: 'a word option \<times> istream)) \<and>
      unread (snd (read_some read_scalar_be s :: 'a word option \<times> istream)) = rest"
    by (simp only: R_def)
qed

lemma u8_mem: "word_mem (w::u8) = [w]"
  by (simp add: word_mem_def)

lemma concat_u8_mem [simp]: "concat (map word_mem (xs::u8 list)) = xs"
  by (induction xs) (auto simp: u8_mem)

interpretation u8: codec enc_be WriteUInt8 "read_some ReadUInt8" "\<lambda>_. True"
proof
  fix x :: u8
  show "emits (\<lambda>s. WriteUInt8 s x) (enc_be x)"
    using emits_write_mem [of "[x]"] by (simp add: WriteUInt8_def enc_be_def u8_mem)
  show "parses (read_some ReadUInt8) (enc_be x) x"
    unfolding parses_def
  proof (intro allI impI)
    fix s rest assume s: "istream_inv s" "isValid s" "unread s = enc_be x @ rest"
    note r = Read_enough [OF s(1) s(3), of 1]
    have "mem_word (enc_be x) = x" by (simp add: enc_be_def u8_mem mem_word_def)
    with r s(2) show "fst (read_some ReadUInt8 s) = Some x \<and> istream_inv (snd (read_some ReadUInt8 s)) \<and>
        isValid (snd (read_some ReadUInt8 s)) \<and> unread (snd (read_some ReadUInt8 s)) = rest"
      by (simp add: read_some_def ReadUInt8_def read_scalar_def)
  qed
qed

interpretation u16: codec enc_be WriteUInt16 "read_some ReadUInt16" "\<lambda>_. True"
  unfolding WriteUInt16_def ReadUInt16_def [abs_def]
  by unfold_locales (rule emits_be parses_be, simp)+

interpretation u32: codec enc_be WriteUInt32 "read_some ReadUInt32" "\<lambda>_. True"
  unfolding WriteUInt32_def ReadUInt32_def [abs_def]
  by unfold_locales (rule emits_be parses_be, simp)+

interpretation u64: codec enc_be WriteUInt64 "read_some ReadUInt64" "\<lambda>_. True"
  unfolding WriteUInt64_def ReadUInt64_def [abs_def]
  by unfold_locales (rule emits_be parses_be, simp)+

lemma emits_WriteString: "emits (\<lambda>s. WriteString s str) (enc_string str)"
proof -
  have e1: "emits (\<lambda>s. WriteUInt32 s x) (enc_be x)" for x by (rule u32.wr_emits) simp
  have e2: "str \<noteq> [] \<Longrightarrow> emits (\<lambda>s. WriteInt8_array s (map byte_of_char str)) (map byte_of_char str)"
    unfolding WriteInt8_array_def concat_u8_mem by (rule emits_write_mem) simp
  show ?thesis
    using e1 e2 by (auto simp: emits_def WriteString_def enc_string_def Let_def split_beta)
qed

lemma ReadString_spec:
  assumes "length str < 2 ^ 32" and s: "istream_inv s" "isValid s" "unread s = enc_string str @ rest"
  shows "\<exists>s'. ReadString s [] = (4 + length str, str, s') \<and> istream_inv s' \<and> isValid s' \<and> unread s' = rest"
proof -
  let ?n = "word_of_nat (length str) :: u32"
  have n: "unat ?n = length str" using assms(1) by (simp add: unat_of_nat)
  have p: "parses (read_some ReadUInt32) (enc_be ?n) ?n" by (rule u32.rd_parses) simp
  have "unread s = enc_be ?n @ (map byte_of_char str @ rest)"
    using s(3) by (simp add: enc_string_def)
  then obtain s1 where s1: "read_some ReadUInt32 s = (Some ?n, s1)"
      "istream_inv s1" "isValid s1" "unread s1 = map byte_of_char str @ rest"
    by (rule parsesD [OF p s(1,2)])
  from s1(1) have s0: "ReadUInt32 s = (?n, s1)" by (auto simp: read_some_def split: prod.splits)
  note r = Read_enough [OF s1(2) s1(4), of "length str"]
  have pk: "poke 0 (map byte_of_char str) (map byte_of_char (string_resize [] (length str)))
      = map byte_of_char str"
    by (simp add: string_resize_def)
  show ?thesis
  proof (cases "str = []")
    case True
    then show ?thesis using s0 s1 by (simp add: ReadString_def)
  next
    case False
    then have "?n > 0" using n by (metis length_0_conv unat_0 word_gt_0)
    moreover have "length (string_resize [] (length str)) = length str"
      by (simp add: string_resize_def)
    ultimately show ?thesis using s0 s1 r n pk
      by (simp add: ReadString_def ReadInt8_array_def read_array_def)
  qed
qed

lemma parses_read_string: "length str < 2 ^ 32 \<Longrightarrow> parses read_string (enc_string str) str"
  unfolding parses_def
proof (intro allI impI)
  fix s rest assume "length str < 2 ^ 32" "istream_inv s" "isValid s" "unread s = enc_string str @ rest"
  from ReadString_spec [OF this] show "fst (read_string s) = Some str \<and> istream_inv (snd (read_string s)) \<and>
      isValid (snd (read_string s)) \<and> unread (snd (read_string s)) = rest"
    by (auto simp: read_string_def)
qed

interpretation str: codec enc_string WriteString read_string "\<lambda>str. length str < 2 ^ 32"
  by unfold_locales (simp_all add: emits_WriteString parses_read_string)

section \<open>Arrays\<close>

lemma mem_words_concat:
  assumes "8 dvd LENGTH('a::len)"
  shows "mem_words (concat (map word_mem ws)) = (ws :: 'a word list)"
proof (rule nth_equalityI)
  have k: "LENGTH('a) div 8 > 0" using assms by (rule width_pos)
  have len: "length (concat (map word_mem ws)) = length ws * (LENGTH('a) div 8)"
    using length_concat_const [of "map word_mem ws" "LENGTH('a) div 8"] by simp
  with k show l: "length (mem_words (concat (map word_mem ws)) :: 'a word list) = length ws"
    by (simp add: mem_words_def)
  fix i assume "i < length (mem_words (concat (map word_mem ws)) :: 'a word list)"
  then have "i < length ws" by (simp only: l)
  with assms len k show "mem_words (concat (map word_mem ws)) ! i = ws ! i"
    by (simp add: mem_words_def peek_concat)
qed

lemma write_array_be_spec:
  assumes "8 dvd LENGTH('a::len)" and "ostream_inv s" and "(ary :: 'a word list) \<noteq> []"
  shows "\<exists>s'. write_array_be s ary = (True, ary, s') \<and> ostream_inv s' \<and>
           contents s' = contents s @ concat (map enc_be ary)"
proof -
  have "concat (map word_mem (map bswap ary)) = concat (map enc_be ary)"
    using assms(1) by (simp add: comp_def enc_be_def [abs_def])
  moreover have "concat (map enc_be ary) \<noteq> []"
  proof -
    have "LENGTH('a) div 8 > 0" using assms(1) by (rule width_pos)
    then have "enc_be (hd ary) \<noteq> []" by (metis length_enc_be length_0_conv less_numeral_extra(3))
    with assms(3) show ?thesis by (cases ary) auto
  qed
  ultimately have "emits (\<lambda>s. write_mem s (concat (map word_mem (map bswap ary)))) (concat (map enc_be ary))"
    using emits_write_mem by metis
  with assms(1,2) show ?thesis
    by (simp add: emits_def write_array_be_def Let_def split_beta comp_def)
qed

lemma read_array_be_spec:
  assumes "8 dvd LENGTH('a::len)" and "istream_inv s" and "isValid s"
    and "unread s = concat (map enc_be ary) @ rest" and "length old = length (ary :: 'a word list)"
  shows "\<exists>s'. read_array_be s old = (length ary, ary, s') \<and> istream_inv s' \<and> isValid s' \<and> unread s' = rest"
proof -
  let ?k = "LENGTH('a) div 8"
  have k: "?k > 0" using assms(1) by (rule width_pos)
  have len: "length (concat (map enc_be ary)) = length ary * ?k"
    using length_concat_const [of "map enc_be ary" ?k] by simp
  have old: "length (concat (map word_mem old)) = length ary * ?k"
    using length_concat_const [of "map word_mem old" ?k] assms(5) by simp
  have sw: "concat (map enc_be ary) = concat (map word_mem (map bswap ary))"
    using assms(1) by (simp add: comp_def enc_be_def [abs_def])
  note r = Read_enough [OF assms(2,4), of "length ary * ?k", OF len [symmetric]]
  have "map bswap (mem_words (poke 0 (concat (map enc_be ary)) (concat (map word_mem old)))) = ary"
  proof -
    have "poke 0 (concat (map enc_be ary)) (concat (map word_mem old)) = concat (map word_mem (map bswap ary))"
      using len old sw by simp
    then show ?thesis using mem_words_concat [OF assms(1), of "map bswap ary"] assms(1)
      by (simp add: comp_def)
  qed
  with r k assms(3,5) show ?thesis by (simp add: read_array_be_def Let_def)
qed

lemma htonll_mem: "word_mem (htonll v) = rev (word_mem v)"
proof -
  let ?x = "unat v"
  have x: "?x < 2 ^ 64" using unsigned_less [of v] by simp
  have lo: "unat (ucast v :: u32) = ?x mod 2 ^ 32"
    by (simp add: unsigned_ucast_eq take_bit_eq_mod)
  have hi: "unat (ucast (drop_bit 32 v) :: u32) = ?x div 2 ^ 32"
    using x by (simp add: unsigned_ucast_eq take_bit_eq_mod unat_div drop_bit_eq_div)
  let ?L = "bswap (ucast v :: u32)" and ?H = "bswap (ucast (drop_bit 32 v) :: u32)"
  have L: "unat ?L < 2 ^ 32" and H: "unat ?H < 2 ^ 32"
    using unsigned_less [of ?L] unsigned_less [of ?H] by simp_all
  have "unat (push_bit 32 (ucast ?L :: u64)) = unat ?L * 2 ^ 32"
    using L by (simp add: push_bit_eq_mult unat_word_ariths unsigned_ucast_eq take_bit_eq_mod)
  then have "unat (htonll v) = unat ?L * 2 ^ 32 + unat ?H"
    using L H by (simp add: htonll_def unat_word_ariths unsigned_ucast_eq take_bit_eq_mod)
  moreover have "le_bytes 8 (unat ?L * 2 ^ 32 + unat ?H) =
      le_bytes 4 (unat ?H) @ le_bytes 4 (unat ?L)"
    using H le_bytes_add [of 4 4 "unat ?L * 2 ^ 32 + unat ?H"] 
      le_bytes_mod [of 4 "unat ?L * 2 ^ 32 + unat ?H"] by simp
  moreover have "le_bytes 8 ?x = le_bytes 4 ?x @ le_bytes 4 (?x div 2 ^ 32)"
    using le_bytes_add [of 4 4 ?x] by simp
  moreover have "le_bytes 4 (unat ?L) = rev (le_bytes 4 ?x)"
    using word_mem_bswap [of "ucast v :: u32"] lo le_bytes_mod [of 4 ?x] by (simp add: word_mem_def)
  moreover have "le_bytes 4 (unat ?H) = rev (le_bytes 4 (?x div 2 ^ 32))"
    using word_mem_bswap [of "ucast (drop_bit 32 v) :: u32"] hi by (simp add: word_mem_def)
  ultimately show ?thesis by (simp add: word_mem_def)
qed

lemma htonll_eq: "htonll w = bswap w"
proof -
  have "htonll w = mem_word (word_mem (htonll w))" by simp
  then show ?thesis by (simp only: htonll_mem bswap_def)
qed

lemma ntohll_eq: "ntohll w = bswap w"
  using htonll_eq [of w] by (simp add: ntohll_def htonll_def)

section \<open>Properties\<close>

text \<open>
  \<open>BufferedOutputStream::Write\<close> appends: whatever the state of the growing buffer, the
  bytes given are added after those already written, nothing written before is lost, the
  buffer stays large enough for its offset and its size stays a multiple of 64.
\<close>

theorem Write_appends:
  assumes "ostream_inv s"
  shows "\<exists>s'. Write s ary = (length ary, s') \<and> ostream_inv s' \<and> contents s' = contents s @ ary"
  using Write_spec [OF assms, of ary] by (metis prod.collapse)

theorem Write_appends_witness:
  "ostream_inv BufferedOutputStream \<and>
   (\<exists>s'. Write BufferedOutputStream [1, 2, 3] = (length [1::byte, 2, 3], s') \<and> ostream_inv s' \<and>
         contents s' = contents BufferedOutputStream @ [1, 2, 3])"
  using Write_appends [of BufferedOutputStream "[1, 2, 3]"] by simp

text \<open>
  Strings survive the wire: what \<open>WriteString\<close> appends to a stream, \<open>ReadString\<close> turns back
  into the same string, reporting all its bytes and stopping exactly where the string ends.
\<close>

theorem WriteString_ReadString:
  assumes "length str < 2 ^ 32" and "ostream_inv s" and "WriteString s str = (ok, s')"
    and "istream_inv t" and "isValid t" and "unread t = drop (length (contents s)) (contents s') @ rest"
  shows "ok \<and> (\<exists>t'. ReadString t [] = (4 + length str, str, t') \<and> istream_inv t' \<and> isValid t' \<and> unread t' = rest)"
proof -
  have w: "ok" "contents s' = contents s @ enc_string str"
    using emitsD [OF emits_WriteString assms(2,3)] by simp_all
  with assms(6) have "unread t = enc_string str @ rest" by simp
  from ReadString_spec [OF assms(1,4,5) this] w(1) show ?thesis by simp
qed

theorem WriteString_ReadString_witness:
  "\<exists>t'. ReadString (BufferedInputStream [0, 0, 0, 2, 104, 105, 7] 7) [] = (6, ''hi'', t') \<and> unread t' = [7]"
proof -
  obtain ok s' where w: "WriteString BufferedOutputStream ''hi'' = (ok, s')" by fastforce
  have c: "contents s' = [0, 0, 0, 2, 104, 105]"
    using emitsD [OF emits_WriteString BufferedOutputStream_inv(1) w]
    by (simp add: enc_string_def enc_be_def word_mem_def byte_of_char_def le_bytes_numeral)
  have t: "istream_inv (BufferedInputStream [0, 0, 0, 2, 104, 105, 7] 7)"
      "isValid (BufferedInputStream [0, 0, 0, 2, 104, 105, 7] 7)"
      "unread (BufferedInputStream [0, 0, 0, 2, 104, 105, 7] 7)
         = drop (length (contents BufferedOutputStream)) (contents s') @ [7]"
    by (simp_all add: BufferedInputStream_def istream_inv_def unread_def c)
  show ?thesis
    using WriteString_ReadString [OF _ BufferedOutputStream_inv(1) w t] by auto
qed

text \<open>
  The array writers put the big-endian elements on the wire and give the caller's array
  back unchanged although they swap it in place; the array reader of the same length returns
  exactly that array.
\<close>

theorem WriteUInt64_array_roundtrip:
  assumes "ostream_inv s" and "ary \<noteq> []" and "WriteUInt64_array s ary = (ok, ary', s')"
    and "istream_inv t" and "isValid t" and "unread t = drop (length (contents s)) (contents s') @ rest"
    and "length old = length ary"
  shows "ok \<and> ary' = ary \<and> (\<exists>t'. ReadUInt64_array t old = (length ary, ary, t') \<and> isValid t' \<and> unread t' = rest)"
proof -
  have w: "ok" "ary' = ary" "contents s' = contents s @ concat (map enc_be ary)"
    using write_array_be_spec [of s ary] assms(1,2,3) by (auto simp: WriteUInt64_array_def)
  with assms(6) have "unread t = concat (map enc_be ary) @ rest" by simp
  from read_array_be_spec [OF _ assms(4,5) this assms(7)] w show ?thesis
    by (auto simp: ReadUInt64_array_def)
qed

theorem WriteUInt64_array_roundtrip_witness:
  "\<exists>t'. ReadUInt64_array (BufferedInputStream [0, 0, 0, 0, 0, 0, 1, 2] 8) [0] = (1, [258], t') \<and> unread t' = []"
proof -
  obtain ok ary' s' where w: "WriteUInt64_array BufferedOutputStream [258] = (ok, ary', s')"
    by (metis prod.collapse)
  have c: "contents s' = [0, 0, 0, 0, 0, 0, 1, 2]"
    using write_array_be_spec [of BufferedOutputStream "[258::u64]"] w
    by (auto simp: WriteUInt64_array_def enc_be_def word_mem_def le_bytes_numeral)
  have t: "istream_inv (BufferedInputStream [0, 0, 0, 0, 0, 0, 1, 2] 8)"
      "isValid (BufferedInputStream [0, 0, 0, 0, 0, 0, 1, 2] 8)"
      "unread (BufferedInputStream [0, 0, 0, 0, 0, 0, 1, 2] 8)
         = drop (length (contents BufferedOutputStream)) (contents s') @ []"
    by (simp_all add: BufferedInputStream_def istream_inv_def unread_def c)
  show ?thesis
    using WriteUInt64_array_roundtrip [OF BufferedOutputStream_inv(1) _ w t, of "[0]"] by auto
qed

text \<open>
  \<open>htonll\<close>, assembled from two 32-bit swaps, is the reversal of the eight bytes of its
  argument, and \<open>ntohll\<close> undoes it.
\<close>

lemma htonll_bswap: "htonll v = bswap v \<and> ntohll (htonll v) = v"
  by (simp add: htonll_eq ntohll_eq)

end
