(* ===== verification/Base64.thy ===== *)
theory Base64
  imports Prelude
begin

text \<open>
  \<open>bdfs-lib/Base64Encoder\<close>: the encoder, which pads its last group with \<open>=\<close>, and the decoder,
  which skips every character outside the alphabet and stops at the end of its input. The decoder
  takes its table entry with a sign-extended \<open>char\<close> as the index, so that a character above 127
  reads outside the table: that is the result \<open>None\<close> here.
\<close>

unbundle bit_operations_syntax

section \<open>Tables\<close>

definition base64EncodeMap :: string where
  "base64EncodeMap = ''ABCDEFGHIJKLMNOPQRSTUVWXYZabcdefghijklmnopqrstuvwxyz0123456789+/''"

definition base64DecodeMap :: "byte list" where
  "base64DecodeMap = [
    255,255,255,255,255,255,255,255,255,255,255,255,255,255,255,255,
    255,255,255,255,255,255,255,255,255,255,255,255,255,255,255,255,
    255,255,255,255,255,255,255,255,255,255,255, 62,255,255,255, 63,
     52, 53, 54, 55, 56, 57, 58, 59, 60, 61,255,255,255,255,255,255,
    255,  0,  1,  2,  3,  4,  5,  6,  7,  8,  9, 10, 11, 12, 13, 14,
     15, 16, 17, 18, 19, 20, 21, 22, 23, 24, 25,255,255,255,255,255,
    255, 26, 27, 28, 29, 30, 31, 32, 33, 34, 35, 36, 37, 38, 39, 40,
     41, 42, 43, 44, 45, 46, 47, 48, 49, 50, 51,255,255,255,255,255,
    255,255,255,255,255,255,255,255,255,255,255,255,255,255,255,255,
    255,255,255,255,255,255,255,255,255,255,255,255,255,255,255,255,
    255,255,255,255,255,255,255,255,255,255,255,255,255,255,255,255,
    255,255,255,255,255,255,255,255,255,255,255,255,255,255,255,255,
    255,255,255,255,255,255,255,255,255,255,255,255,255,255,255,255,
    255,255,255,255,255,255,255,255,255,255,255,255,255,255,255,255,
    255,255,255,255,255,255,255,255,255,255,255,255,255,255,255,255,
    255,255,255,255,255,255,255,255,255,255,255,255,255,255,255,255]"

definition GetEncodedLength :: "nat \<Rightarrow> nat" where
  "GetEncodedLength cb = 4 * ((cb + 2) div 3)"

definition GetDecodedLength :: "nat \<Rightarrow> nat" where
  "GetDecodedLength cb = 3 * ((cb + 3) div 4)"

section \<open>Encoding\<close>

definition sextet :: "byte \<Rightarrow> char" where
  "sextet b = base64EncodeMap ! unat b"

text \<open>The six-bit groups of three bytes, and the last groups of one byte and of two bytes.\<close>

definition group1 :: "byte \<Rightarrow> byte" where "group1 x = drop_bit 2 x"
definition group2 :: "byte \<Rightarrow> byte \<Rightarrow> byte" where "group2 x y = push_bit 4 (x AND 3) OR drop_bit 4 y"
definition group3 :: "byte \<Rightarrow> byte \<Rightarrow> byte" where "group3 y z = push_bit 2 (y AND 15) OR drop_bit 6 z"
definition group4 :: "byte \<Rightarrow> byte" where "group4 z = z AND 63"
definition last2 :: "byte \<Rightarrow> byte" where "last2 x = push_bit 4 (x AND 3)"
definition last3 :: "byte \<Rightarrow> byte" where "last3 y = push_bit 2 (y AND 15)"

fun Encode :: "byte list \<Rightarrow> string" where
  "Encode [] = []"
| "Encode [x] = [sextet (group1 x), sextet (last2 x), CHR ''='', CHR ''='']"
| "Encode [x, y] = [sextet (group1 x), sextet (group2 x y), sextet (last3 y), CHR ''='']"
| "Encode (x # y # z # rest) =
     sextet (group1 x) # sextet (group2 x y) # sextet (group3 y z) # sextet (group4 z) # Encode rest"

section \<open>Decoding\<close>

text \<open>
  The four inner loops fetch one character of the alphabet each. \<open>Fetched\<close> leaves the loop by its
  condition, with the old value of the variable when the source was at its end on entry; \<open>AtEnd\<close>
  is the return inside the loop.
\<close>

datatype fetch = Fetched byte string | AtEnd | OutOfTable

fun fetch_char :: "byte \<Rightarrow> string \<Rightarrow> fetch" where
  "fetch_char old [] = Fetched old []"
| "fetch_char old (c # cs) =
     (if of_char c \<ge> (128 :: nat) then OutOfTable
      else let b = base64DecodeMap ! of_char c
           in if b \<noteq> 255 then Fetched b cs
              else if cs = [] then AtEnd else fetch_char b cs)"

definition first_byte :: "byte \<Rightarrow> byte \<Rightarrow> byte" where
  "first_byte b1 b2 = push_bit 2 b1 OR drop_bit 4 b2"

definition second_byte :: "byte \<Rightarrow> byte \<Rightarrow> byte" where
  "second_byte b2 b3 = push_bit 4 b2 OR drop_bit 2 b3"

definition third_byte :: "byte \<Rightarrow> byte \<Rightarrow> byte" where
  "third_byte b3 b4 = push_bit 6 b3 OR b4"

lemma fetch_char_shorter: "fetch_char b cs = Fetched b' cs' \<Longrightarrow> length cs' \<le> length cs - 1"
proof (induction b cs rule: fetch_char.induct)
  case (2 old c cs)
  then show ?case by (cases cs) (auto simp: Let_def split: if_splits)
qed simp

function decode_loop :: "byte \<Rightarrow> byte \<Rightarrow> byte \<Rightarrow> byte \<Rightarrow> string \<Rightarrow> byte list option" where
  "decode_loop b1 b2 b3 b4 source =
     (if source = [] then Some []
      else case fetch_char b1 source of OutOfTable \<Rightarrow> None | AtEnd \<Rightarrow> Some [] | Fetched b1 s1 \<Rightarrow>
        (case fetch_char b2 s1 of OutOfTable \<Rightarrow> None | AtEnd \<Rightarrow> Some [] | Fetched b2 s2 \<Rightarrow>
        (case fetch_char b3 s2 of OutOfTable \<Rightarrow> None | AtEnd \<Rightarrow> Some [first_byte b1 b2] | Fetched b3 s3 \<Rightarrow>
        (case fetch_char b4 s3 of OutOfTable \<Rightarrow> None | AtEnd \<Rightarrow> Some [first_byte b1 b2, second_byte b2 b3]
         | Fetched b4 s4 \<Rightarrow>
             map_option (\<lambda>out. first_byte b1 b2 # second_byte b2 b3 # third_byte b3 b4 # out)
               (decode_loop b1 b2 b3 b4 s4)))))"
  by pat_completeness auto
termination
proof (relation "measure (\<lambda>(_, _, _, _, s). length s)", goal_cases)
  case (2 b1 b2 b3 b4 source c1 s1 c2 s2 c3 s3 c4 s4)
  from fetch_char_shorter [OF 2(2)] fetch_char_shorter [OF 2(3)] fetch_char_shorter [OF 2(4)]
    fetch_char_shorter [OF 2(5)] 2(1)
  show ?case by (cases source) auto
qed simp

declare decode_loop.simps [simp del]

definition Decode :: "string \<Rightarrow> byte list option" where
  "Decode source = decode_loop 0 0 0 0 source"

section \<open>The tables are inverse to each other\<close>

lemma decode_encode_map: "i < 64 \<Longrightarrow> base64DecodeMap ! of_char (base64EncodeMap ! i) = word_of_nat i"
proof -
  have "list_all (\<lambda>i. base64DecodeMap ! of_char (base64EncodeMap ! i) = (word_of_nat i :: byte)) [0..<64]"
    by code_simp
  then show "i < 64 \<Longrightarrow> ?thesis" by (simp add: list_all_iff)
qed

lemma encode_map_ascii: "i < 64 \<Longrightarrow> of_char (base64EncodeMap ! i) < (128 :: nat)"
proof -
  have "list_all (\<lambda>i. of_char (base64EncodeMap ! i) < (128 :: nat)) [0..<64]"
    by code_simp
  then show "i < 64 \<Longrightarrow> ?thesis" by (simp add: list_all_iff)
qed


definition in_alphabet :: "char \<Rightarrow> bool" where
  "in_alphabet c \<longleftrightarrow> of_char c < (128 :: nat) \<and> base64DecodeMap ! of_char c \<noteq> 255"

abbreviation ascii :: "string \<Rightarrow> bool" where
  "ascii s \<equiv> \<forall>c \<in> set s. of_char c < (128 :: nat)"

lemma sextet_simps:
  assumes "b < 64"
  shows "base64DecodeMap ! of_char (sextet b) = b" and "in_alphabet (sextet b)" and "of_char (sextet b) < (128 :: nat)"
proof -
  have "unat b < unat (64 :: byte)" using assms by (simp only: word_less_nat_alt)
  then have u: "unat b < 64" by simp
  then show a: "of_char (sextet b) < (128 :: nat)" and m: "base64DecodeMap ! of_char (sextet b) = b"
    using decode_encode_map [OF u] encode_map_ascii [OF u] by (simp_all add: sextet_def)
  have "b \<noteq> 255" using assms by auto
  with a m show "in_alphabet (sextet b)" by (simp add: in_alphabet_def)
qed

section \<open>Regrouping the bits\<close>

lemma sixbits: 
  assumes "\<not> bit w 6" "\<not> bit w 7" shows "w < (64 :: byte)"
proof -
  have "take_bit 6 w = w"
  proof (rule bit_word_eqI)
    fix n :: nat assume "n < LENGTH(8)"
    then have "n < 6 \<or> n = 6 \<or> n = 7" by auto
    then show "bit (take_bit 6 w) n = bit w n" using assms by (auto simp: bit_take_bit_iff)
  qed
  then have "take_bit 6 (uint w) = uint w" by (metis unsigned_take_bit_eq)
  then have "uint w < 2 ^ 6" by (metis take_bit_int_less_exp)
  then show ?thesis by (simp add: word_less_def)
qed

lemma bit_byte_high: "7 < n \<Longrightarrow> \<not> bit (x::byte) n"
  using bit_imp_le_length [of x n] by auto

lemmas groups = group1_def group2_def group3_def group4_def last2_def last3_def

lemma sextet_bounds:
  "group1 x < (64 :: byte)" "group2 x y < (64 :: byte)"
  "last2 x < (64 :: byte)" "last3 y < (64 :: byte)"
  "group3 y z < (64 :: byte)" "group4 z < (64 :: byte)"
  by (rule sixbits; simp add: groups bit_simps bit_byte_high)+

lemma byte_eqI:
  assumes "bit x 0 = bit y 0" "bit x 1 = bit y 1" "bit x 2 = bit y 2" "bit x 3 = bit y 3"
    "bit x 4 = bit y 4" "bit x 5 = bit y 5" "bit x 6 = bit y 6" "bit x 7 = bit y 7"
  shows "x = (y :: byte)"
proof (rule bit_word_eqI)
  fix n :: nat assume "n < LENGTH(8)"
  then have "n = 0 \<or> n = 1 \<or> n = 2 \<or> n = 3 \<or> n = 4 \<or> n = 5 \<or> n = 6 \<or> n = 7" by auto
  with assms show "bit x n = bit y n" by auto
qed

lemmas sextets [simp] = sextet_simps [OF sextet_bounds(1)] sextet_simps [OF sextet_bounds(2)] sextet_simps [OF sextet_bounds(3)]
  sextet_simps [OF sextet_bounds(4)] sextet_simps [OF sextet_bounds(5)] sextet_simps [OF sextet_bounds(6)]

lemma bytes_regrouped [simp]:
  "first_byte (group1 x) (group2 x y) = x"
  "first_byte (group1 x) (last2 x) = x"
  "second_byte (group2 x y) (group3 y z) = y"
  "second_byte (group2 x y) (last3 y) = y"
  "third_byte (group3 y z) (group4 z) = z"
  by (rule byte_eqI; simp add: first_byte_def second_byte_def third_byte_def groups bit_simps bit_byte_high)+

section \<open>The decoder on text with other characters in it\<close>

lemma pad_outside [simp]: "\<not> in_alphabet (CHR ''='')" "of_char (CHR ''='') < (128 :: nat)"
  by (simp_all add: in_alphabet_def base64DecodeMap_def)

lemma fetch_next:
  assumes "filter in_alphabet cs = c # vs" and "ascii cs"
  obtains rest where "fetch_char b cs = Fetched (base64DecodeMap ! of_char c) rest" and "filter in_alphabet rest = vs"
    and "ascii rest" and "\<not> in_alphabet (last cs) \<longrightarrow> rest \<noteq> [] \<and> last rest = last cs"
proof -
  have "\<exists>rest. fetch_char b cs = Fetched (base64DecodeMap ! of_char c) rest \<and> filter in_alphabet rest = vs \<and>
      ascii rest \<and> (\<not> in_alphabet (last cs) \<longrightarrow> rest \<noteq> [] \<and> last rest = last cs)"
    using assms
  proof (induction cs arbitrary: b)
    case (Cons d cs)
    show ?case
    proof (cases "in_alphabet d")
      case True
      with Cons.prems show ?thesis by (auto simp: in_alphabet_def)
    next
      case False
      moreover from this have "cs \<noteq> []" using Cons.prems by auto
      ultimately show ?thesis using Cons.IH [of 255] Cons.prems by (auto simp: in_alphabet_def)
    qed
  qed simp
  then show ?thesis using that by blast
qed

lemma fetch_end:
  "filter in_alphabet cs = [] \<Longrightarrow> ascii cs \<Longrightarrow> cs \<noteq> [] \<Longrightarrow> fetch_char b cs = AtEnd"
proof (induction cs arbitrary: b)
  case (Cons c cs)
  then show ?case by (cases "cs = []") (auto simp: in_alphabet_def Let_def split: if_splits)
qed simp

lemma length_mod3: "length (x # y # z # xs) mod 3 = length xs mod 3"
proof -
  have "length (x # y # z # xs) = length xs + 3" by simp
  then show ?thesis by (simp only: mod_add_self2)
qed

lemma decode_filtered:
  assumes "filter in_alphabet cs = filter in_alphabet (Encode xs)" and "ascii cs"
    and "length xs mod 3 = 0 \<or> \<not> in_alphabet (last cs)"
  shows "decode_loop b1 b2 b3 b4 cs = Some xs"
  using assms
proof (induction xs arbitrary: cs b1 b2 b3 b4 rule: Encode.induct)
  case 1
  then show ?case by (cases "cs = []") (simp_all add: decode_loop.simps fetch_end)
next
  case (2 x)
  obtain r1 where r1: "fetch_char b1 cs = Fetched (group1 x) r1"
    "filter in_alphabet r1 = [sextet (last2 x)]" "ascii r1" "\<not> in_alphabet (last r1)"
    by (rule fetch_next [of cs "sextet (group1 x)" _ b1]) (use 2 in auto)
  obtain r2 where r2: "fetch_char b2 r1 = Fetched (last2 x) r2"
    "filter in_alphabet r2 = []" "ascii r2" "r2 \<noteq> []"
    by (rule fetch_next [OF r1(2,3), of b2]) (use r1 in auto)
  show ?case using 2 r1 r2 fetch_end [OF r2(2,3,4)] by (auto simp: decode_loop.simps [of _ _ _ _ cs])
next
  case (3 x y)
  obtain r1 where r1: "fetch_char b1 cs = Fetched (group1 x) r1"
    "filter in_alphabet r1 = [sextet (group2 x y), sextet (last3 y)]"
    "ascii r1" "\<not> in_alphabet (last r1)"
    by (rule fetch_next [of cs "sextet (group1 x)" _ b1]) (use 3 in auto)
  obtain r2 where r2: "fetch_char b2 r1 = Fetched (group2 x y) r2"
    "filter in_alphabet r2 = [sextet (last3 y)]" "ascii r2" "\<not> in_alphabet (last r2)"
    by (rule fetch_next [OF r1(2,3), of b2]) (use r1 in auto)
  obtain r3 where r3: "fetch_char b3 r2 = Fetched (last3 y) r3"
    "filter in_alphabet r3 = []" "ascii r3" "r3 \<noteq> []"
    by (rule fetch_next [OF r2(2,3), of b3]) (use r2 in auto)
  show ?case using 3 r1 r2 r3 fetch_end [OF r3(2,3,4)] by (auto simp: decode_loop.simps [of _ _ _ _ cs])
next
  case (4 x y z rest)
  let ?q = "\<lambda>cs. length rest mod 3 = 0 \<or> \<not> in_alphabet (last cs)"
  have q: "?q cs" using 4(4) by (simp add: length_mod3)
  obtain r1 where r1: "fetch_char b1 cs = Fetched (group1 x) r1"
    "filter in_alphabet r1 = sextet (group2 x y) #
       sextet (group3 y z) # sextet (group4 z) # filter in_alphabet (Encode rest)"
    "ascii r1" "?q r1"
    by (rule fetch_next [of cs "sextet (group1 x)" _ b1]) (use 4 q in auto)
  obtain r2 where r2: "fetch_char b2 r1 = Fetched (group2 x y) r2"
    "filter in_alphabet r2 = sextet (group3 y z) # sextet (group4 z) # filter in_alphabet (Encode rest)"
    "ascii r2" "?q r2"
    by (rule fetch_next [OF r1(2,3), of b2]) (use r1 in auto)
  obtain r3 where r3: "fetch_char b3 r2 = Fetched (group3 y z) r3"
    "filter in_alphabet r3 = sextet (group4 z) # filter in_alphabet (Encode rest)" "ascii r3" "?q r3"
    by (rule fetch_next [OF r2(2,3), of b3]) (use r2 in auto)
  obtain r4 where r4: "fetch_char b4 r3 = Fetched (group4 z) r4"
    "filter in_alphabet r4 = filter in_alphabet (Encode rest)" "ascii r4" "?q r4"
    by (rule fetch_next [OF r3(2,3), of b4]) (use r3 in auto)
  show ?case using 4 r1 r2 r3 r4 4(1) [OF r4(2,3,4)] by (auto simp: decode_loop.simps [of _ _ _ _ cs])
qed

lemma ascii_Encode: "ascii (Encode xs)"
  by (induction xs rule: Encode.induct) auto

lemma last_Encode: "length xs mod 3 = 0 \<or> \<not> in_alphabet (last (Encode xs))"
proof (induction xs rule: Encode.induct)
  case (4 x y z rest)
  show ?case
  proof (cases rest)
    case (Cons a list)
    then have "Encode rest \<noteq> []" by (cases rest rule: Encode.cases) auto
    with 4 show ?thesis by (simp add: length_mod3)
  qed simp
qed auto

lemma decode_length: "decode_loop b1 b2 b3 b4 cs = Some out \<Longrightarrow> length out \<le> GetDecodedLength (length cs)"
proof (induction b1 b2 b3 b4 cs arbitrary: out rule: decode_loop.induct)
  case (1 b1 b2 b3 b4 cs)
  show ?case
  proof (cases "cs = []")
    case True
    with 1(2) show ?thesis by (simp add: decode_loop.simps)
  next
    case False
    then have l: "3 \<le> GetDecodedLength (length cs)"
      by (cases cs) (simp_all add: GetDecodedLength_def)
    have "length out \<le> 3 \<or> (\<exists>s1 s2 s3 s4 c1 c2 c3 c4 o'. fetch_char b1 cs = Fetched c1 s1 \<and> fetch_char b2 s1 = Fetched c2 s2 \<and>
      fetch_char b3 s2 = Fetched c3 s3 \<and> fetch_char b4 s3 = Fetched c4 s4 \<and> decode_loop c1 c2 c3 c4 s4 = Some o' \<and>
      length out = 3 + length o')"
      using 1(2) False by (auto simp: decode_loop.simps [of b1 b2 b3 b4 cs] split: fetch.splits)
    then show ?thesis
    proof
      assume "\<exists>s1 s2 s3 s4 c1 c2 c3 c4 o'. fetch_char b1 cs = Fetched c1 s1 \<and> fetch_char b2 s1 = Fetched c2 s2 \<and>
        fetch_char b3 s2 = Fetched c3 s3 \<and> fetch_char b4 s3 = Fetched c4 s4 \<and> decode_loop c1 c2 c3 c4 s4 = Some o' \<and>
        length out = 3 + length o'"
      then obtain s1 s2 s3 s4 c1 c2 c3 c4 o' where f: "fetch_char b1 cs = Fetched c1 s1" "fetch_char b2 s1 = Fetched c2 s2"
        "fetch_char b3 s2 = Fetched c3 s3" "fetch_char b4 s3 = Fetched c4 s4" and d: "decode_loop c1 c2 c3 c4 s4 = Some o'"
        and o: "length out = 3 + length o'" by blast
      have "length o' \<le> GetDecodedLength (length s4)" by (rule 1(1) [OF False f d])
      moreover have "length s4 \<le> length cs - 4"
        using f [THEN fetch_char_shorter] by linarith
      moreover have "GetDecodedLength (length cs - 4) + 3 \<le> GetDecodedLength (length cs) \<or> length cs < 4"
        unfolding GetDecodedLength_def by presburger
      moreover have "GetDecodedLength 0 = 0" "length s4 = 0 \<or> \<not> length cs < 4"
        "GetDecodedLength (length s4) \<le> GetDecodedLength (length cs - 4)"
        using \<open>length s4 \<le> length cs - 4\<close> by (auto simp: GetDecodedLength_def intro: div_le_mono)
      ultimately show ?thesis using l o by auto
    qed (use l in simp)
  qed
qed

section \<open>Properties\<close>

text \<open>
  C37. Encoding and decoding are inverse, and the encoded text has the length the header announces.
  Line breaks and other characters outside the alphabet may be inserted anywhere before the
  padding without changing the result.
\<close>

theorem Decode_Encode:
  assumes "filter in_alphabet text = filter in_alphabet (Encode xs)" and "ascii text"
    and "length xs mod 3 = 0 \<or> \<not> in_alphabet (last text)"
  shows "Decode text = Some xs \<and> Decode (Encode xs) = Some xs \<and> length (Encode xs) = GetEncodedLength (length xs)"
proof -
  have "length (Encode xs) = GetEncodedLength (length xs)"
  proof (induction xs rule: Encode.induct)
    case (4 x y z rest)
    then show ?case unfolding GetEncodedLength_def by simp presburger
  qed (simp_all add: GetEncodedLength_def)
  then show ?thesis
    using decode_filtered [OF assms] decode_filtered [OF refl ascii_Encode last_Encode] by (simp add: Decode_def)
qed

theorem Decode_Encode_witness: "Decode (''SGVs'' @ [CHR 0x0A] @ ''bG8='') = Some (map byte_of_char ''Hello'')"
proof -
  have e: "Encode (map byte_of_char ''Hello'') = ''SGVsbG8=''" by code_simp
  have "filter in_alphabet (''SGVs'' @ [CHR 0x0A] @ ''bG8='') = filter in_alphabet (Encode (map byte_of_char ''Hello''))"
    by (simp only: e) (simp add: in_alphabet_def base64DecodeMap_def)
  then show ?thesis by (rule Decode_Encode [THEN conjunct1]) simp_all
qed

text \<open>
  The decoder stays inside the buffer the header announces for its input, although it never
  looks at the size of its target, and whatever the input is.
\<close>

theorem Decode_bounded:
  assumes "Decode text = Some out"
  shows "length out \<le> GetDecodedLength (length text)"
  using assms by (simp add: Decode_def decode_length)

theorem Decode_bounded_witness: "length [0, 0, 0 :: byte] \<le> GetDecodedLength (length ''A'')"
proof -
  have "Decode ''A'' = Some [0, 0, 0]" by code_simp
  then show ?thesis by (rule Decode_bounded)
qed

end
