(* ===== verification/LockFreeQueue.thy ===== *)
theory LockFreeQueue
  imports Prelude
begin

text \<open>
  \<open>bdfs-lib/LockFreeQueue.h\<close> at the level of its atomic accesses. The heap maps addresses to
  nodes; a freed or never allocated address has no node, and an access to it is the outcome
  \<open>None\<close>, as is the null pointer 0. Every load, store and compare-and-swap of \<open>Produce\<close> and
  \<open>Consume\<close> is one step of the calling thread, a schedule interleaves the threads, and a weak
  compare-and-swap may fail spuriously. Atomics have the default sequentially consistent order.

  With one producing and one consuming thread the queue is linearisable: its trace is one of a
  FIFO queue, no step touches a freed node, and no node leaks. With two producing threads the
  trimming loop reads a node that the other producer has freed.
\<close>

section \<open>State\<close>

record 'a Node =
  nxt :: nat
  val :: 'a

type_synonym 'a heap = "nat \<Rightarrow> 'a Node option"

record 'a queue =
  heap :: "'a heap"
  qfirst :: nat
  qdivider :: nat
  qlast :: nat
  qsize :: u64

text \<open>Where a thread is inside \<open>Produce\<close> or \<open>Consume\<close>, with its local variables.\<close>

datatype 'a pc =
    Idle
  | PLast nat           \<comment> \<open>\<open>n\<close> allocated; about to load \<open>last\<close>\<close>
  | PLink nat nat       \<comment> \<open>\<open>n\<close> and the loaded \<open>last\<close>; about to swap \<open>last->next\<close>\<close>
  | PSetLast nat        \<comment> \<open>linked; about to store \<open>last\<close>\<close>
  | PSize               \<comment> \<open>about to increment \<open>size\<close>\<close>
  | PFirst              \<comment> \<open>about to load \<open>first\<close>\<close>
  | PCompare nat        \<comment> \<open>\<open>tmp\<close>; about to compare with \<open>divider\<close>\<close>
  | PNext nat           \<comment> \<open>\<open>tmp\<close>; about to load \<open>tmp->next\<close>\<close>
  | PTrim nat nat       \<comment> \<open>\<open>tmp\<close> and its successor; about to swap \<open>first\<close>\<close>
  | PDelete nat         \<comment> \<open>about to delete \<open>tmp\<close>\<close>
  | CDivider            \<comment> \<open>about to load \<open>divider\<close>\<close>
  | CCompare nat        \<comment> \<open>\<open>tmp\<close>; about to compare with \<open>last\<close>\<close>
  | CNext nat           \<comment> \<open>\<open>tmp\<close>; about to load \<open>tmp->next\<close>\<close>
  | CValue nat nat      \<comment> \<open>\<open>tmp\<close> and its successor; about to move the value\<close>
  | CAgain nat 'a       \<comment> \<open>\<open>tmp\<close> and \<open>result\<close>; about to load \<open>tmp->next\<close> again\<close>
  | CSwap nat nat 'a    \<comment> \<open>about to swap \<open>divider\<close>\<close>
  | CSize 'a            \<comment> \<open>about to decrement \<open>size\<close>\<close>

text \<open>
  Events of a step: the value becomes visible when \<open>last\<close> is stored, is taken when \<open>divider\<close> is
  swapped, and \<open>Empty\<close> is the comparison after which \<open>Consume\<close> returns false.
\<close>

datatype 'a event = Silent | Enq 'a | Deq 'a | Empty

definition LockFreeQueue_new :: "nat \<Rightarrow> 'a \<Rightarrow> 'a queue" where
  "LockFreeQueue_new a v =
     \<lparr>heap = (\<lambda>_. None)(a := Some \<lparr>nxt = 0, val = v\<rparr>), qfirst = a, qdivider = a, qlast = a, qsize = 0\<rparr>"

definition Size :: "'a queue \<Rightarrow> u64" where
  "Size q = qsize q"

section \<open>Steps\<close>

text \<open>\<open>fail\<close> makes a weak compare-and-swap of this step fail.\<close>

fun Produce_step :: "bool \<Rightarrow> 'a pc \<Rightarrow> 'a queue \<Rightarrow> ('a event \<times> 'a pc \<times> 'a queue) option" where
  "Produce_step fail (PLast n) q = Some (Silent, PLink n (qlast q), q)"
| "Produce_step fail (PLink n l) q =
     (case heap q l of
        None \<Rightarrow> None
      | Some nd \<Rightarrow>
          if nxt nd = 0 \<and> \<not> fail then Some (Silent, PSetLast n, q\<lparr>heap := (heap q)(l \<mapsto> nd\<lparr>nxt := n\<rparr>)\<rparr>)
          else Some (Silent, PLast n, q))"
| "Produce_step fail (PSetLast n) q =
     (case heap q n of None \<Rightarrow> None | Some nd \<Rightarrow> Some (Enq (val nd), PSize, q\<lparr>qlast := n\<rparr>))"
| "Produce_step fail PSize q = Some (Silent, PFirst, q\<lparr>qsize := qsize q + 1\<rparr>)"
| "Produce_step fail PFirst q = Some (Silent, PCompare (qfirst q), q)"
| "Produce_step fail (PCompare tmp) q = Some (Silent, (if tmp = qdivider q then Idle else PNext tmp), q)"
| "Produce_step fail (PNext tmp) q =
     (case heap q tmp of None \<Rightarrow> None | Some nd \<Rightarrow> Some (Silent, PTrim tmp (nxt nd), q))"
| "Produce_step fail (PTrim tmp nx) q =
     (if qfirst q = tmp \<and> \<not> fail then Some (Silent, PDelete tmp, q\<lparr>qfirst := nx\<rparr>)
      else Some (Silent, Idle, q))"
| "Produce_step fail (PDelete tmp) q =
     (case heap q tmp of None \<Rightarrow> None | Some nd \<Rightarrow> Some (Silent, PFirst, q\<lparr>heap := (heap q)(tmp := None)\<rparr>))"
| "Produce_step fail _ q = None"

fun Consume_step :: "bool \<Rightarrow> 'a pc \<Rightarrow> 'a queue \<Rightarrow> ('a event \<times> 'a pc \<times> 'a queue) option" where
  "Consume_step fail CDivider q = Some (Silent, CCompare (qdivider q), q)"
| "Consume_step fail (CCompare tmp) q =
     (if tmp \<noteq> qlast q then Some (Silent, CNext tmp, q) else Some (Empty, Idle, q))"
| "Consume_step fail (CNext tmp) q =
     (case heap q tmp of None \<Rightarrow> None | Some nd \<Rightarrow> Some (Silent, CValue tmp (nxt nd), q))"
| "Consume_step fail (CValue tmp nx) q =
     (case heap q nx of None \<Rightarrow> None | Some nd \<Rightarrow> Some (Silent, CAgain tmp (val nd), q))"
| "Consume_step fail (CAgain tmp r) q =
     (case heap q tmp of None \<Rightarrow> None | Some nd \<Rightarrow> Some (Silent, CSwap tmp (nxt nd) r, q))"
| "Consume_step fail (CSwap tmp nx r) q =
     (if qdivider q = tmp \<and> \<not> fail then Some (Deq r, CSize r, q\<lparr>qdivider := nx\<rparr>)
      else Some (Silent, CDivider, q))"
| "Consume_step fail (CSize r) q = Some (Silent, Idle, q\<lparr>qsize := qsize q - 1\<rparr>)"
| "Consume_step fail _ q = None"

section \<open>Threads and schedules\<close>

text \<open>
  A schedule is a list of moves of threads. \<open>Call_Produce v a\<close> enters \<open>Produce(v)\<close>, whose
  \<open>new Node\<close> returns the free address \<open>a\<close>; a call by a busy thread or with an address that is not
  free is no move of the program and changes nothing.
\<close>

datatype 'a move = Call_Produce 'a nat | Call_Consume | Go bool

type_synonym 'a threads = "nat \<Rightarrow> 'a pc"

definition is_consumer :: "'a pc \<Rightarrow> bool" where
  "is_consumer p = (case p of CDivider \<Rightarrow> True | CCompare _ \<Rightarrow> True | CNext _ \<Rightarrow> True | CValue _ _ \<Rightarrow> True
     | CAgain _ _ \<Rightarrow> True | CSwap _ _ _ \<Rightarrow> True | CSize _ \<Rightarrow> True | _ \<Rightarrow> False)"

definition thread_step :: "'a move \<Rightarrow> 'a pc \<Rightarrow> 'a queue \<Rightarrow> ('a event \<times> 'a pc \<times> 'a queue) option" where
  "thread_step mv p q =
     (case mv of
        Call_Produce v a \<Rightarrow>
          if p = Idle \<and> a \<noteq> 0 \<and> heap q a = None
          then Some (Silent, PLast a, q\<lparr>heap := (heap q)(a \<mapsto> \<lparr>nxt = 0, val = v\<rparr>)\<rparr>)
          else Some (Silent, p, q)
      | Call_Consume \<Rightarrow> Some (Silent, (if p = Idle then CDivider else p), q)
      | Go fail \<Rightarrow>
          if p = Idle then Some (Silent, p, q)
          else if is_consumer p then Consume_step fail p q
          else Produce_step fail p q)"

fun run_threads :: "(nat \<times> 'a move) list \<Rightarrow> 'a threads \<Rightarrow> 'a queue \<Rightarrow> ('a event list \<times> 'a threads \<times> 'a queue) option" where
  "run_threads [] ps q = Some ([], ps, q)"
| "run_threads ((t, mv) # sch) ps q =
     (case thread_step mv (ps t) q of
        None \<Rightarrow> None
      | Some (e, p, q1) \<Rightarrow>
          (case run_threads sch (ps(t := p)) q1 of
             None \<Rightarrow> None
           | Some (es, ps2, q2) \<Rightarrow> Some (e # es, ps2, q2)))"

section \<open>Specification\<close>

fun fifo :: "'a event list \<Rightarrow> 'a list \<Rightarrow> 'a list option" where
  "fifo [] xs = Some xs"
| "fifo (Silent # es) xs = fifo es xs"
| "fifo (Enq v # es) xs = fifo es (xs @ [v])"
| "fifo (Deq v # es) xs = (case xs of [] \<Rightarrow> None | x # xs' \<Rightarrow> if x = v then fifo es xs' else None)"
| "fifo (Empty # es) xs = (if xs = [] then fifo es xs else None)"

text \<open>A thread that only produces and a thread that only consumes.\<close>

definition one_each :: "nat \<Rightarrow> nat \<Rightarrow> (nat \<times> 'a move) list \<Rightarrow> bool" where
  "one_each P C sch \<longleftrightarrow> (\<forall>(t, mv) \<in> set sch. (t = P \<or> t = C) \<and>
     (case mv of Call_Produce _ _ \<Rightarrow> t = P | Call_Consume \<Rightarrow> t = C | Go _ \<Rightarrow> True))"

section \<open>Invariant\<close>

text \<open>\<open>chain h xs z\<close>: the nodes at \<open>xs\<close> are linked in this order and the last one points to \<open>z\<close>.\<close>

fun chain :: "'a heap \<Rightarrow> nat list \<Rightarrow> nat \<Rightarrow> bool" where
  "chain h [] z \<longleftrightarrow> True"
| "chain h [a] z \<longleftrightarrow> (\<exists>nd. h a = Some nd \<and> nxt nd = z)"
| "chain h (a # b # xs) z \<longleftrightarrow> (\<exists>nd. h a = Some nd \<and> nxt nd = b) \<and> chain h (b # xs) z"

text \<open>The node a producer holds outside the chain, and where the last node points.\<close>

definition owned :: "'a pc \<Rightarrow> nat set" where
  "owned p = (case p of PLast n \<Rightarrow> {n} | PLink n _ \<Rightarrow> {n} | PSetLast n \<Rightarrow> {n} | PDelete n \<Rightarrow> {n} | _ \<Rightarrow> {})"

definition tail :: "'a pc \<Rightarrow> nat" where
  "tail p = (case p of PSetLast n \<Rightarrow> n | _ \<Rightarrow> 0)"

definition producer_ok :: "'a queue \<Rightarrow> nat list \<Rightarrow> nat list \<Rightarrow> 'a pc \<Rightarrow> bool" where
  "producer_ok q pre post p =
     (case p of
        Idle \<Rightarrow> True
      | PLast n \<Rightarrow> \<exists>nd. heap q n = Some nd \<and> nxt nd = 0
      | PLink n l \<Rightarrow> (\<exists>nd. heap q n = Some nd \<and> nxt nd = 0) \<and> l = qlast q
      | PSetLast n \<Rightarrow> \<exists>nd. heap q n = Some nd \<and> nxt nd = 0
      | PSize \<Rightarrow> True
      | PFirst \<Rightarrow> True
      | PCompare tmp \<Rightarrow> tmp = qfirst q
      | PNext tmp \<Rightarrow> pre \<noteq> [] \<and> tmp = qfirst q
      | PTrim tmp nx \<Rightarrow> pre \<noteq> [] \<and> tmp = qfirst q \<and> (\<exists>nd. heap q tmp = Some nd \<and> nxt nd = nx)
      | PDelete tmp \<Rightarrow> True
      | _ \<Rightarrow> False)"

definition consumer_ok :: "'a queue \<Rightarrow> nat list \<Rightarrow> 'a pc \<Rightarrow> bool" where
  "consumer_ok q post p =
     (case p of
        Idle \<Rightarrow> True
      | CDivider \<Rightarrow> True
      | CCompare tmp \<Rightarrow> tmp = qdivider q
      | CNext tmp \<Rightarrow> tmp = qdivider q \<and> post \<noteq> []
      | CValue tmp nx \<Rightarrow> tmp = qdivider q \<and> post \<noteq> [] \<and> nx = hd post
      | CAgain tmp r \<Rightarrow> tmp = qdivider q \<and> post \<noteq> [] \<and> map_option val (heap q (hd post)) = Some r
      | CSwap tmp nx r \<Rightarrow> tmp = qdivider q \<and> post \<noteq> [] \<and> map_option val (heap q (hd post)) = Some r \<and> nx = hd post
      | CSize r \<Rightarrow> True
      | _ \<Rightarrow> False)"

definition queue_ok :: "'a queue \<Rightarrow> nat list \<Rightarrow> nat list \<Rightarrow> 'a pc \<Rightarrow> 'a pc \<Rightarrow> bool" where
  "queue_ok q pre post pp cp \<longleftrightarrow>
     distinct (pre @ qdivider q # post) \<and> 0 \<notin> set (pre @ qdivider q # post) \<and>
     qfirst q = hd (pre @ [qdivider q]) \<and> qlast q = last (qdivider q # post) \<and>
     chain (heap q) (pre @ qdivider q # post) (tail pp) \<and>
     owned pp \<inter> set (pre @ qdivider q # post) = {} \<and> 0 \<notin> owned pp \<and>
     dom (heap q) = owned pp \<union> set (pre @ qdivider q # post) \<and>
     qsize q + (if pp = PSize then 1 else 0) =
       word_of_nat (length post) + (if \<exists>r. cp = CSize r then 1 else 0) \<and>
     producer_ok q pre post pp \<and> consumer_ok q post cp"

definition contents :: "'a queue \<Rightarrow> nat list \<Rightarrow> 'a list" where
  "contents q post = map (\<lambda>a. val (the (heap q a))) post"


section \<open>Chains\<close>

lemma chain_append: "chain h (xs @ y # ys) z \<longleftrightarrow> chain h xs y \<and> chain h (y # ys) z"
proof (induction xs)
  case (Cons a xs)
  then show ?case by (cases xs) auto
qed simp

lemma chain_cong: "\<forall>a \<in> set xs. h a = h' a \<Longrightarrow> chain h xs z = chain h' xs z"
  by (induction h xs z rule: chain.induct) auto

lemma chain_node: "chain h xs z \<Longrightarrow> a \<in> set xs \<Longrightarrow> \<exists>nd. h a = Some nd"
  by (induction h xs z rule: chain.induct) auto

lemma chain_last: "chain h xs z \<Longrightarrow> xs \<noteq> [] \<Longrightarrow> \<exists>nd. h (last xs) = Some nd \<and> nxt nd = z"
  by (induction h xs z rule: chain.induct) auto

lemma chain_relink:
  assumes "chain h xs z" and "xs \<noteq> []" and "distinct xs" and "h (last xs) = Some nd"
  shows "chain (h(last xs \<mapsto> nd\<lparr>nxt := w\<rparr>)) xs w"
proof -
  have xs: "xs = butlast xs @ [last xs]" using assms(2) by simp
  have "chain h (butlast xs) (last xs)" using assms(1) xs chain_append [of h "butlast xs" "last xs" "[]" z] by simp
  moreover have "last xs \<notin> set (butlast xs)" using assms(3) xs by (metis distinct_append not_distinct_conv_prefix)
  ultimately have "chain (h(last xs \<mapsto> nd\<lparr>nxt := w\<rparr>)) (butlast xs) (last xs)"
    by (subst chain_cong [of _ _ h]) auto
  then have "chain (h(last xs \<mapsto> nd\<lparr>nxt := w\<rparr>)) (butlast xs @ [last xs]) w" by (simp add: chain_append)
  then show ?thesis using assms(2) by simp
qed

lemma chain_head: "chain h (a # b # xs) z \<Longrightarrow> h a = Some nd \<Longrightarrow> nxt nd = b"
  by auto

section \<open>Steps keep the invariant\<close>

named_theorems queue_simps \<open>the parts of the invariant\<close>

lemmas [queue_simps] = queue_ok_def producer_ok_def consumer_ok_def owned_def tail_def contents_def

definition step_ok :: "'a queue \<Rightarrow> nat list \<Rightarrow> 'a event \<Rightarrow> 'a queue \<Rightarrow> 'a pc \<Rightarrow> 'a pc \<Rightarrow> bool" where
  "step_ok q post e q' pp' cp' \<longleftrightarrow>
     (\<exists>pre' post'. queue_ok q' pre' post' pp' cp' \<and> fifo [e] (contents q post) = Some (contents q' post'))"

lemma step_silent:
  "queue_ok q' pre' post' pp' cp' \<Longrightarrow> contents q' post' = contents q post \<Longrightarrow> step_ok q post Silent q' pp' cp'"
  unfolding step_ok_def by (intro exI [of _ pre'] exI [of _ post']) simp

lemma consumer_frame [simp]:
  "consumer_ok (q\<lparr>qsize := n\<rparr>) post cp = consumer_ok q post cp" "consumer_ok (q\<lparr>qfirst := a\<rparr>) post cp = consumer_ok q post cp"
  by (cases cp; simp add: consumer_ok_def)+

lemma contents_frame [simp]:
  "contents (q\<lparr>qsize := n\<rparr>) post = contents q post" "contents (q\<lparr>qfirst := a\<rparr>) post = contents q post"
  "contents (q\<lparr>qdivider := a\<rparr>) post = contents q post"
  by (simp_all add: contents_def)

text \<open>A step of the producer in which only its place in the program changes.\<close>

lemma produce_stay:
  assumes "queue_ok q pre post p cp" and "owned p' = owned p" and "tail p' = tail p" and "p \<noteq> PSize" and "p' \<noteq> PSize"
    and "producer_ok q pre post p'"
  shows "step_ok q post Silent q p' cp"
  using assms by (intro step_silent [of q pre post]) (auto simp: queue_ok_def)

lemma produce_call:
  assumes "queue_ok q pre post Idle cp" and "a \<noteq> 0" and "heap q a = None"
  shows "step_ok q post Silent (q\<lparr>heap := (heap q)(a \<mapsto> \<lparr>nxt = 0, val = v\<rparr>)\<rparr>) (PLast a) cp"
proof -
  let ?xs = "pre @ qdivider q # post" and ?h = "(heap q)(a \<mapsto> \<lparr>nxt = 0, val = v\<rparr>)"
  have a: "a \<notin> set ?xs" using assms(1,3) by (auto simp: queue_ok_def owned_def)
  then have c: "chain ?h ?xs 0" using assms(1) by (subst chain_cong [of _ _ "heap q"]) (auto simp: queue_ok_def tail_def)
  have same: "?h b = heap q b" if "b \<in> set ?xs" for b using a that by auto
  then have "contents (q\<lparr>heap := ?h\<rparr>) post = contents q post" by (auto simp: contents_def)
  moreover have "consumer_ok (q\<lparr>heap := ?h\<rparr>) post cp"
    using assms(1) same a by (cases cp; cases post) (auto simp: queue_simps)
  moreover have "dom ?h = insert a (dom (heap q))" by auto
  ultimately show ?thesis using assms a c
    by (intro step_silent [of _ pre post]) (simp_all add: queue_ok_def owned_def tail_def producer_ok_def insert_commute)
qed

lemma produce_last:
  assumes "queue_ok q pre post (PLast n) cp"
  shows "Produce_step fail (PLast n) q = Some (Silent, PLink n (qlast q), q) \<and> step_ok q post Silent q (PLink n (qlast q)) cp"
  using assms by (intro conjI produce_stay [OF assms]) (simp_all add: owned_def tail_def producer_ok_def queue_ok_def)

lemma produce_link:
  assumes "queue_ok q pre post (PLink n l) cp"
  shows "\<exists>p' q'. Produce_step fail (PLink n l) q = Some (Silent, p', q') \<and> step_ok q post Silent q' p' cp"
proof -
  let ?xs = "pre @ qdivider q # post"
  have l: "l = last ?xs" and d: "distinct ?xs" and c: "chain (heap q) ?xs 0" and n: "n \<notin> set ?xs"
    using assms by (auto simp: queue_ok_def owned_def tail_def producer_ok_def)
  obtain nd where nd: "heap q l = Some nd" "nxt nd = 0" using chain_last [OF c] l by auto
  show ?thesis
  proof (cases fail)
    case True
    with nd have "Produce_step fail (PLink n l) q = Some (Silent, PLast n, q)" by simp
    moreover have "step_ok q post Silent q (PLast n) cp"
      by (rule produce_stay [OF assms]) (use assms in \<open>simp_all add: owned_def tail_def producer_ok_def queue_ok_def\<close>)
    ultimately show ?thesis by blast
  next
    case False
    let ?h = "(heap q)(l \<mapsto> nd\<lparr>nxt := n\<rparr>)" let ?q = "q\<lparr>heap := ?h\<rparr>"
    have r: "chain ?h ?xs n" using chain_relink [OF c _ d] nd l by simp
    have v: "map_option val (?h a) = map_option val (heap q a)" for a using nd by simp
    have "contents ?q post = contents q post" using nd by (auto simp: contents_def)
    moreover have "consumer_ok ?q post cp"
      using assms v by (cases cp) (auto simp: queue_ok_def consumer_ok_def)
    moreover have "l \<in> set ?xs" using l by (metis append_is_Nil_conv last_in_set list.distinct(1))
    moreover from this n have "l \<noteq> n" by metis
    moreover have "dom ?h = dom (heap q)" using nd by auto
    ultimately have "step_ok q post Silent ?q (PSetLast n) cp"
      using assms r n by (intro step_silent [of _ pre post]) (simp_all add: queue_ok_def owned_def tail_def producer_ok_def)
    moreover have "Produce_step fail (PLink n l) q = Some (Silent, PSetLast n, ?q)" using False nd by simp
    ultimately show ?thesis by blast
  qed
qed

lemma produce_set_last:
  assumes "queue_ok q pre post (PSetLast n) cp"
  shows "\<exists>e p' q'. Produce_step fail (PSetLast n) q = Some (e, p', q') \<and> step_ok q post e q' p' cp"
proof -
  let ?xs = "pre @ qdivider q # post"
  obtain nd where nd: "heap q n = Some nd" "nxt nd = 0" and c: "chain (heap q) ?xs n"
    using assms by (auto simp: queue_ok_def owned_def tail_def producer_ok_def)
  have "chain (heap q) (?xs @ [n]) 0" using nd c by (simp only: chain_append [of _ ?xs]) simp
  moreover have "consumer_ok (q\<lparr>qlast := n\<rparr>) (post @ [n]) cp"
    using assms by (cases cp; cases post) (auto simp: queue_ok_def consumer_ok_def)
  ultimately have "queue_ok (q\<lparr>qlast := n\<rparr>) pre (post @ [n]) PSize cp"
    using assms by (auto simp: queue_ok_def owned_def tail_def producer_ok_def)
  moreover have "contents (q\<lparr>qlast := n\<rparr>) (post @ [n]) = contents q post @ [val nd]" using nd by (simp add: contents_def)
  ultimately have "step_ok q post (Enq (val nd)) (q\<lparr>qlast := n\<rparr>) PSize cp" unfolding step_ok_def
    by (intro exI [of _ pre] exI [of _ "post @ [n]"]) simp
  then show ?thesis using nd by simp
qed

lemma produce_size:
  assumes "queue_ok q pre post PSize cp"
  shows "step_ok q post Silent (q\<lparr>qsize := qsize q + 1\<rparr>) PFirst cp"
  using assms by (intro step_silent [of _ pre post]) (simp_all add: queue_ok_def owned_def tail_def producer_ok_def)

lemma produce_first:
  assumes "queue_ok q pre post PFirst cp"
  shows "step_ok q post Silent q (PCompare (qfirst q)) cp"
  by (rule produce_stay [OF assms]) (simp_all add: owned_def tail_def producer_ok_def)

lemma produce_compare:
  assumes "queue_ok q pre post (PCompare tmp) cp"
  shows "step_ok q post Silent q (if tmp = qdivider q then Idle else PNext tmp) cp"
  by (rule produce_stay [OF assms]) (use assms in \<open>auto simp: owned_def tail_def producer_ok_def queue_ok_def\<close>)

lemma produce_next:
  assumes "queue_ok q pre post (PNext tmp) cp"
  shows "\<exists>p'. Produce_step fail (PNext tmp) q = Some (Silent, p', q) \<and> step_ok q post Silent q p' cp"
proof -
  have p: "pre \<noteq> []" "tmp = qfirst q" and "tmp \<in> set (pre @ qdivider q # post)" "chain (heap q) (pre @ qdivider q # post) 0"
    using assms by (auto simp: queue_ok_def tail_def producer_ok_def)
  then obtain nd where nd: "heap q tmp = Some nd" using chain_node by blast
  have "step_ok q post Silent q (PTrim tmp (nxt nd)) cp"
    by (rule produce_stay [OF assms]) (use p nd in \<open>simp_all add: owned_def tail_def producer_ok_def\<close>)
  then show ?thesis using nd by simp
qed

lemma produce_trim:
  assumes "queue_ok q pre post (PTrim tmp nx) cp"
  shows "\<exists>p' q'. Produce_step fail (PTrim tmp nx) q = Some (Silent, p', q') \<and> step_ok q post Silent q' p' cp"
proof (cases fail)
  case True
  have "step_ok q post Silent q Idle cp"
    by (rule produce_stay [OF assms]) (simp_all add: owned_def tail_def producer_ok_def)
  with True show ?thesis by simp
next
  case False
  from assms obtain pre' where pre: "pre = tmp # pre'" by (cases pre) (auto simp: queue_ok_def producer_ok_def)
  have nx: "nx = hd (pre' @ [qdivider q])"
    using assms by (cases pre') (auto simp: pre queue_ok_def producer_ok_def)
  have "chain (heap q) (pre' @ qdivider q # post) 0"
    using assms by (cases pre') (auto simp: pre queue_ok_def tail_def)
  moreover have "distinct (tmp # pre' @ qdivider q # post)" "0 \<notin> set (tmp # pre' @ qdivider q # post)"
    "dom (heap q) = set (tmp # pre' @ qdivider q # post)" "qlast q = last (qdivider q # post)" "consumer_ok q post cp"
    "qsize q = word_of_nat (length post) + (if \<exists>r. cp = CSize r then 1 else 0)"
    using assms unfolding queue_ok_def pre by (simp_all add: owned_def)
  ultimately have "queue_ok (q\<lparr>qfirst := nx\<rparr>) pre' post (PDelete tmp) cp"
    unfolding queue_ok_def nx by (auto simp: owned_def tail_def producer_ok_def)
  then have "step_ok q post Silent (q\<lparr>qfirst := nx\<rparr>) (PDelete tmp) cp" by (rule step_silent) simp
  moreover have "qfirst q = tmp" using assms by (simp add: queue_ok_def producer_ok_def)
  ultimately show ?thesis using False by simp
qed

lemma produce_delete:
  assumes "queue_ok q pre post (PDelete tmp) cp"
  shows "\<exists>q'. Produce_step fail (PDelete tmp) q = Some (Silent, PFirst, q') \<and> step_ok q post Silent q' PFirst cp"
proof -
  let ?xs = "pre @ qdivider q # post" and ?h = "(heap q)(tmp := None)"
  have t: "tmp \<notin> set ?xs" "tmp \<in> dom (heap q)" using assms by (auto simp: queue_ok_def owned_def)
  then have "chain ?h ?xs 0" using assms by (subst chain_cong [of _ _ "heap q"]) (auto simp: queue_ok_def tail_def)
  moreover have "consumer_ok (q\<lparr>heap := ?h\<rparr>) post cp"
    using assms t by (cases cp; cases post) (auto simp: queue_ok_def consumer_ok_def)
  moreover have "contents (q\<lparr>heap := ?h\<rparr>) post = contents q post" using t by (auto simp: contents_def)
  moreover have "dom ?h = set ?xs" using assms t by (auto simp: queue_ok_def owned_def)
  ultimately have "step_ok q post Silent (q\<lparr>heap := ?h\<rparr>) PFirst cp"
    using assms t by (intro step_silent [of _ pre post]) (simp_all add: queue_ok_def owned_def tail_def producer_ok_def)
  then show ?thesis using t by auto
qed


lemma produce_move:
  assumes "queue_ok q pre post pp cp" and "mv \<noteq> Call_Consume"
  shows "\<exists>e p' q'. thread_step mv pp q = Some (e, p', q') \<and> step_ok q post e q' p' cp"
proof -
  have stay: "step_ok q post Silent q pp cp" by (rule step_silent [OF assms(1) refl])
  have ok: "producer_ok q pre post pp" using assms(1) by (simp add: queue_ok_def)
  show ?thesis
  proof (cases mv)
    case (Call_Produce v a)
    with assms(1) stay produce_call [of q pre post cp a v] show ?thesis by (cases "pp = Idle") (auto simp: thread_step_def)
  next
    case (Go fail)
    from ok assms(1) show ?thesis
      unfolding Go thread_step_def is_consumer_def producer_ok_def
      using stay produce_last [of q pre post] produce_link [of q pre post _ _ cp fail] produce_set_last [of q pre post _ cp fail]
        produce_size [of q pre post] produce_first [of q pre post] produce_compare [of q pre post] produce_next [of q pre post _ cp fail]
        produce_trim [of q pre post _ _ cp fail] produce_delete [of q pre post _ cp fail]
      by (cases pp) fastforce+
  qed (use assms(2) in simp)
qed

lemma consume_stay:
  assumes "queue_ok q pre post pp cp" and "consumer_ok q post cp'" and "\<forall>r. cp \<noteq> CSize r \<and> cp' \<noteq> CSize r"
  shows "step_ok q post Silent q pp cp'"
  using assms by (intro step_silent [of q pre post]) (auto simp: queue_ok_def)

lemma divider_links:
  assumes "queue_ok q pre post pp cp" and "post \<noteq> []"
  obtains nd nd' where "heap q (qdivider q) = Some nd" "nxt nd = hd post" "heap q (hd post) = Some nd'"
proof -
  from assms(2) obtain b bs where post: "post = b # bs" by (cases post) auto
  have "chain (heap q) (qdivider q # b # bs) (tail pp)" using assms(1) unfolding queue_ok_def post chain_append [of _ pre] by blast
  moreover from this have "\<exists>nd'. heap q b = Some nd'" by (rule chain_node) simp
  ultimately show ?thesis using that post by auto
qed

lemma consume_swap:
  assumes "queue_ok q pre post pp (CSwap tmp nx r)"
  shows "step_ok q post (Deq r) (q\<lparr>qdivider := nx\<rparr>) pp (CSize r)"
proof -
  obtain rest where post: "post = nx # rest" using assms by (cases post) (auto simp: queue_ok_def consumer_ok_def)
  have r: "map_option val (heap q nx) = Some r" using assms by (simp add: queue_ok_def consumer_ok_def post)
  let ?q = "q\<lparr>qdivider := nx\<rparr>" and ?pre = "pre @ [qdivider q]"
  have eq: "?pre @ qdivider ?q # rest = pre @ qdivider q # post" by (simp add: post)
  have "producer_ok ?q ?pre rest pp" using assms unfolding queue_ok_def producer_ok_def by (cases pp) (auto simp: post)
  moreover have "qfirst q = hd (?pre @ [nx])" "qlast q = last (nx # rest)"
    using assms by (cases pre; simp add: queue_ok_def post)+
  moreover have "qsize q + (if pp = PSize then 1 else 0) = word_of_nat (length rest) + 1"
    using assms by (simp add: queue_ok_def post add.commute)
  ultimately have "queue_ok ?q ?pre rest pp (CSize r)"
    using assms unfolding queue_ok_def eq by (simp add: consumer_ok_def)
  moreover have "fifo [Deq r] (contents q post) = Some (contents ?q rest)" using r by (auto simp: contents_def post)
  ultimately show ?thesis unfolding step_ok_def by blast
qed

lemma consume_move:
  assumes "queue_ok q pre post pp cp" and "\<forall>v a. mv \<noteq> Call_Produce v a"
  shows "\<exists>e p' q'. thread_step mv cp q = Some (e, p', q') \<and> step_ok q post e q' pp p'"
proof (cases mv)
  case Call_Consume
  have "step_ok q post Silent q pp (if cp = Idle then CDivider else cp)"
    by (cases "cp = Idle") (auto simp: consumer_ok_def intro: consume_stay [OF assms(1)] step_silent [OF assms(1)])
  then show ?thesis using Call_Consume by (simp add: thread_step_def)
next
  case (Go fail)
  have ok: "consumer_ok q post cp" using assms(1) by (simp add: queue_ok_def)
  show ?thesis
  proof (cases cp)
    case Idle
    then show ?thesis using step_silent [OF assms(1) refl] by (simp add: Go thread_step_def)
  next
    case CDivider
    have "step_ok q post Silent q pp (CCompare (qdivider q))"
      by (rule consume_stay [OF assms(1)]) (simp_all add: CDivider consumer_ok_def)
    then show ?thesis by (simp add: Go CDivider thread_step_def is_consumer_def)
  next
    case (CCompare tmp)
    show ?thesis
    proof (cases "tmp = qlast q")
      case True
      then have "post = []" using assms(1) CCompare ok by (cases post rule: rev_cases) (auto simp: queue_ok_def consumer_ok_def)
      moreover have "queue_ok q pre post pp Idle" using assms(1) CCompare by (auto simp: queue_ok_def consumer_ok_def)
      ultimately have "step_ok q post Empty q pp Idle" unfolding step_ok_def
        by (intro exI [of _ pre] exI [of _ post]) (simp add: contents_def)
      then show ?thesis using True by (simp add: Go CCompare thread_step_def is_consumer_def)
    next
      case False
      have "step_ok q post Silent q pp (CNext tmp)"
        by (rule consume_stay [OF assms(1)]) (use False ok assms(1) in \<open>auto simp: CCompare consumer_ok_def queue_ok_def\<close>)
      then show ?thesis using False by (simp add: Go CCompare thread_step_def is_consumer_def)
    qed
  next
    case (CNext tmp)
    then obtain nd where nd: "heap q tmp = Some nd" "nxt nd = hd post"
      using ok divider_links [OF assms(1)] by (auto simp: consumer_ok_def)
    have "step_ok q post Silent q pp (CValue tmp (nxt nd))"
      by (rule consume_stay [OF assms(1)]) (use ok nd in \<open>auto simp: CNext consumer_ok_def\<close>)
    then show ?thesis using nd by (simp add: Go CNext thread_step_def is_consumer_def)
  next
    case (CValue tmp nx)
    then obtain nd where nd: "heap q nx = Some nd" using ok divider_links [OF assms(1)] by (auto simp: consumer_ok_def)
    have "step_ok q post Silent q pp (CAgain tmp (val nd))"
      by (rule consume_stay [OF assms(1)]) (use ok nd in \<open>auto simp: CValue consumer_ok_def\<close>)
    then show ?thesis using nd by (simp add: Go CValue thread_step_def is_consumer_def)
  next
    case (CAgain tmp r)
    then obtain nd where nd: "heap q tmp = Some nd" "nxt nd = hd post"
      using ok divider_links [OF assms(1)] by (auto simp: consumer_ok_def)
    have "step_ok q post Silent q pp (CSwap tmp (nxt nd) r)"
      by (rule consume_stay [OF assms(1)]) (use ok nd in \<open>auto simp: CAgain consumer_ok_def\<close>)
    then show ?thesis using nd by (simp add: Go CAgain thread_step_def is_consumer_def)
  next
    case (CSwap tmp nx r)
    have "step_ok q post Silent q pp CDivider" by (rule consume_stay [OF assms(1)]) (simp_all add: CSwap consumer_ok_def)
    then show ?thesis using consume_swap [of q pre post pp tmp nx r] assms(1)
      by (simp add: Go CSwap thread_step_def is_consumer_def)
  next
    case (CSize r)
    have "queue_ok (q\<lparr>qsize := qsize q - 1\<rparr>) pre post pp Idle"
      using assms(1) unfolding queue_ok_def CSize by (cases pp) (auto simp: consumer_ok_def producer_ok_def)
    then have "step_ok q post Silent (q\<lparr>qsize := qsize q - 1\<rparr>) pp Idle" by (rule step_silent) simp
    then show ?thesis by (simp add: Go CSize thread_step_def is_consumer_def)
  qed (use ok in \<open>simp_all add: consumer_ok_def\<close>)
qed (use assms(2) in simp)

section \<open>Schedules keep the invariant\<close>

lemma fifo_Cons: "fifo (e # es) xs = Option.bind (fifo [e] xs) (fifo es)"
  by (cases e; cases xs) auto

definition threads_ok :: "nat \<Rightarrow> nat \<Rightarrow> 'a threads \<Rightarrow> 'a queue \<Rightarrow> 'a list \<Rightarrow> bool" where
  "threads_ok P C ps q xs \<longleftrightarrow> (\<exists>pre post. queue_ok q pre post (ps P) (ps C) \<and> contents q post = xs)"

lemma move_ok:
  assumes "P \<noteq> C" and "threads_ok P C ps q xs" and "one_each P C ((t, mv) # sch)"
  shows "\<exists>e p q' ys. thread_step mv (ps t) q = Some (e, p, q') \<and> threads_ok P C (ps(t := p)) q' ys \<and> fifo [e] xs = Some ys"
proof -
  obtain pre post where ok: "queue_ok q pre post (ps P) (ps C)" and xs: "contents q post = xs"
    using assms(2) by (auto simp: threads_ok_def)
  have t: "t = P \<and> mv \<noteq> Call_Consume \<or> t = C \<and> (\<forall>v a. mv \<noteq> Call_Produce v a)"
    using assms(1,3) by (auto simp: one_each_def split: move.splits)
  then show ?thesis
  proof (elim disjE conjE)
    assume "t = P" "mv \<noteq> Call_Consume"
    then show ?thesis using produce_move [OF ok, of mv] assms(1) unfolding threads_ok_def step_ok_def xs by fastforce
  next
    assume "t = C" "\<forall>v a. mv \<noteq> Call_Produce v a"
    then show ?thesis using consume_move [OF ok, of mv] assms(1) unfolding threads_ok_def step_ok_def xs by fastforce
  qed
qed

lemma run_ok:
  assumes "P \<noteq> C" and "threads_ok P C ps q xs" and "one_each P C sch"
  shows "\<exists>es ps' q' ys. run_threads sch ps q = Some (es, ps', q') \<and> threads_ok P C ps' q' ys \<and> fifo es xs = Some ys"
  using assms(2,3)
proof (induction sch arbitrary: ps q xs)
  case (Cons m sch)
  obtain t mv where m: "m = (t, mv)" by (rule prod.exhaust)
  from move_ok [OF assms(1) Cons.prems [unfolded m]] obtain e p q1 zs
    where s: "thread_step mv (ps t) q = Some (e, p, q1)" "threads_ok P C (ps(t := p)) q1 zs" "fifo [e] xs = Some zs" by blast
  have "one_each P C sch" using Cons.prems(2) by (simp add: one_each_def)
  from Cons.IH [OF s(2) this] obtain es ps' q' ys
    where r: "run_threads sch (ps(t := p)) q1 = Some (es, ps', q')" "threads_ok P C ps' q' ys" "fifo es zs = Some ys" by blast
  have "fifo (e # es) xs = Some ys" using s(3) r(3) by (subst fifo_Cons) simp
  then show ?case using s(1) r(1,2) by (auto simp: m)
qed auto

lemma threads_ok_new: "a \<noteq> 0 \<Longrightarrow> threads_ok P C (\<lambda>_. Idle) (LockFreeQueue_new a v) []"
proof -
  assume "a \<noteq> 0"
  then have "queue_ok (LockFreeQueue_new a v) [] [] Idle Idle"
    by (simp add: queue_ok_def LockFreeQueue_new_def owned_def tail_def producer_ok_def consumer_ok_def)
  then show ?thesis unfolding threads_ok_def by (intro exI [of _ "[]"]) (simp add: contents_def)
qed

lemma threads_ok_size: "threads_ok P C ps q xs \<Longrightarrow> ps P = Idle \<Longrightarrow> ps C = Idle \<Longrightarrow> Size q = word_of_nat (length xs)"
  by (auto simp: threads_ok_def queue_ok_def Size_def contents_def)


section \<open>A thread that runs alone returns\<close>

definition visible :: "'a event list \<Rightarrow> 'a event list" where
  "visible es = filter (\<lambda>e. e \<noteq> Silent) es"

lemma visible_simps [simp]: "visible [] = []" "visible (e # es) = (if e = Silent then visible es else e # visible es)"
  by (simp_all add: visible_def)

text \<open>Steps left: the trimming loop deletes one node per round.\<close>

definition rank :: "'a pc \<Rightarrow> nat" where
  "rank p = (case p of PLast _ \<Rightarrow> 9 | PLink _ _ \<Rightarrow> 8 | PSetLast _ \<Rightarrow> 7 | PSize \<Rightarrow> 6 | PFirst \<Rightarrow> 5 | PCompare _ \<Rightarrow> 4
     | PNext _ \<Rightarrow> 3 | PTrim _ _ \<Rightarrow> 2 | PDelete _ \<Rightarrow> 1 | CDivider \<Rightarrow> 7 | CCompare _ \<Rightarrow> 6 | CNext _ \<Rightarrow> 5 | CValue _ _ \<Rightarrow> 4
     | CAgain _ _ \<Rightarrow> 3 | CSwap _ _ _ \<Rightarrow> 2 | CSize _ \<Rightarrow> 1 | Idle \<Rightarrow> 0)"

definition steps_left :: "'a pc \<Rightarrow> 'a queue \<Rightarrow> nat" where
  "steps_left p q = 5 * card (dom (heap q)) + rank p"

text \<open>What the call still has to do visibly.\<close>

definition to_do :: "'a pc \<Rightarrow> 'a queue \<Rightarrow> 'a event list \<Rightarrow> bool" where
  "to_do p q es \<longleftrightarrow>
     (case p of
        PLast n \<Rightarrow> es = [Enq (val (the (heap q n)))]
      | PLink n _ \<Rightarrow> es = [Enq (val (the (heap q n)))]
      | PSetLast n \<Rightarrow> es = [Enq (val (the (heap q n)))]
      | CDivider \<Rightarrow> es = [Empty] \<or> (\<exists>v. es = [Deq v])
      | CCompare _ \<Rightarrow> es = [Empty] \<or> (\<exists>v. es = [Deq v])
      | CNext _ \<Rightarrow> (\<exists>v. es = [Deq v])
      | CValue _ _ \<Rightarrow> (\<exists>v. es = [Deq v])
      | CAgain _ v \<Rightarrow> es = [Deq v]
      | CSwap _ _ v \<Rightarrow> es = [Deq v]
      | _ \<Rightarrow> es = [])"

lemma queue_ok_finite: "queue_ok q pre post pp cp \<Longrightarrow> finite (dom (heap q))"
  by (cases pp) (auto simp: queue_ok_def owned_def)

lemma produce_decreases:
  assumes "queue_ok q pre post pp cp" and "pp \<noteq> Idle" and "thread_step (Go False) pp q = Some (e, p', q')" and "to_do p' q' es"
  shows "steps_left p' q' < steps_left pp q" and "to_do pp q (visible [e] @ es)"
proof -
  have ok: "producer_ok q pre post pp" and dd: "qdivider q \<in> set (pre @ qdivider q # post)" using assms(1) by (simp_all add: queue_ok_def)
  note fin = queue_ok_finite [OF assms(1)]
  have z: "\<exists>nd. heap q l = Some nd \<and> nxt nd = 0 \<and> l \<noteq> n" if "pp = PLink n l" for n l
  proof -
    have "chain (heap q) (pre @ qdivider q # post) 0" "l = last (pre @ qdivider q # post)" "n \<notin> set (pre @ qdivider q # post)"
      using assms(1) that by (auto simp: queue_ok_def tail_def owned_def producer_ok_def)
    then show ?thesis using chain_last [of "heap q" "pre @ qdivider q # post" 0] by (metis append_is_Nil_conv last_in_set list.distinct(1))
  qed
  have "steps_left p' q' < steps_left pp q \<and> to_do pp q (visible [e] @ es)"
  proof (cases pp)
    case (PLink n l)
    from z [OF this] obtain nd where nd: "heap q l = Some nd" "nxt nd = 0" "l \<noteq> n" by blast
    moreover from nd(1) have "dom ((heap q)(l \<mapsto> nd\<lparr>nxt := n\<rparr>)) = dom (heap q)" by auto
    ultimately show ?thesis using assms(3,4) ok PLink by (auto simp: thread_step_def is_consumer_def steps_left_def rank_def to_do_def)
  next
    case (PDelete tmp)
    then obtain nd where nd: "heap q tmp = Some nd" using assms(3) by (auto simp: thread_step_def is_consumer_def split: option.splits)
    then have "card (dom (heap q)) = Suc (card (dom (heap q) - {tmp}))"
      using fin by (metis card.remove domI)
    moreover have "dom ((heap q)(tmp := None)) = dom (heap q) - {tmp}" by auto
    ultimately show ?thesis using assms(3,4) PDelete nd by (auto simp: thread_step_def is_consumer_def steps_left_def rank_def to_do_def)
  qed (use assms ok in \<open>auto simp: thread_step_def is_consumer_def producer_ok_def steps_left_def rank_def to_do_def split: option.splits if_splits\<close>)
  then show "steps_left p' q' < steps_left pp q" "to_do pp q (visible [e] @ es)" by blast+
qed

lemma consume_decreases:
  assumes "queue_ok q pre post pp cp" and "cp \<noteq> Idle" and "thread_step (Go False) cp q = Some (e, p', q')" and "to_do p' q' es"
  shows "steps_left p' q' < steps_left cp q" and "to_do cp q (visible [e] @ es)"
proof -
  have ok: "consumer_ok q post cp" using assms(1) by (simp add: queue_ok_def)
  have "steps_left p' q' < steps_left cp q \<and> to_do cp q (visible [e] @ es)"
    using assms ok by (cases cp) (auto simp: thread_step_def is_consumer_def consumer_ok_def steps_left_def rank_def to_do_def split: option.splits if_splits)
  then show "steps_left p' q' < steps_left cp q" "to_do cp q (visible [e] @ es)" by blast+
qed

lemma alone_returns:
  assumes "P \<noteq> C" and "t = P \<or> t = C" and "threads_ok P C ps q xs"
  shows "\<exists>k es q'. run_threads (replicate k (t, Go False)) ps q = Some (es, ps(t := Idle), q') \<and> to_do (ps t) q (visible es)"
  using assms(3)
proof (induction "steps_left (ps t) q" arbitrary: ps q xs rule: less_induct)
  case less
  show ?case
  proof (cases "ps t = Idle")
    case True
    then have "run_threads (replicate 0 (t, Go False)) ps q = Some ([], ps(t := Idle), q) \<and> to_do (ps t) q (visible [])"
      by (simp add: to_do_def fun_upd_idem)
    then show ?thesis by blast
  next
    case False
    obtain pre post where ok: "queue_ok q pre post (ps P) (ps C)" using less.prems by (auto simp: threads_ok_def)
    have "one_each P C [(t, Go False)]" using assms(2) by (auto simp: one_each_def)
    from move_ok [OF assms(1) less.prems this] obtain e p q1 ys
      where s: "thread_step (Go False) (ps t) q = Some (e, p, q1)" "threads_ok P C (ps(t := p)) q1 ys" by blast
    have d: "steps_left p q1 < steps_left (ps t) q \<and> to_do (ps t) q (visible [e] @ es)" if "to_do p q1 es" for es
      using assms(2) produce_decreases [OF ok _ _ that] consume_decreases [OF ok _ _ that] s(1) False by metis
    have "\<exists>es. to_do p q1 es" unfolding to_do_def by (cases p) auto
    with d have "steps_left ((ps(t := p)) t) q1 < steps_left (ps t) q" by auto
    from less.hyps [OF this s(2)] obtain k es q' where
      r: "run_threads (replicate k (t, Go False)) (ps(t := p)) q1 = Some (es, ps(t := Idle), q')" "to_do p q1 (visible es)" by auto
    have "run_threads (replicate (Suc k) (t, Go False)) ps q = Some (e # es, ps(t := Idle), q')" using s(1) r(1) by simp
    moreover have "to_do (ps t) q (visible (e # es))" using d [OF r(2)] by (cases "e = Silent") simp_all
    ultimately show ?thesis by blast
  qed
qed


section \<open>Properties\<close>

text \<open>
  C20. The queue between one producing and one consuming thread is linearisable: for every
  interleaving of their atomic accesses, with any spurious failures of the compare-and-swaps and
  any addresses from the allocator, no step touches a freed node or the null pointer, the visible
  events are a history of a FIFO queue, and whenever both threads are between calls \<open>Size\<close> is the
  number of elements.
\<close>

theorem LockFreeQueue_linearisable:
  assumes "P \<noteq> C" and "one_each P C sch" and "a \<noteq> 0"
  shows "\<exists>es ps q xs. run_threads sch (\<lambda>_. Idle) (LockFreeQueue_new a v) = Some (es, ps, q) \<and> fifo es [] = Some xs \<and>
    (ps P = Idle \<and> ps C = Idle \<longrightarrow> Size q = word_of_nat (length xs))"
proof -
  from run_ok [OF assms(1) threads_ok_new [OF assms(3)] assms(2)] obtain es ps q xs
    where "run_threads sch (\<lambda>_. Idle) (LockFreeQueue_new a v) = Some (es, ps, q)" "threads_ok P C ps q xs" "fifo es [] = Some xs" by blast
  with threads_ok_size [of P C ps q xs] show ?thesis by blast
qed

theorem LockFreeQueue_linearisable_witness:
  "\<exists>es ps q xs. run_threads ([(0, Call_Produce 5 2), (1, Call_Consume)] @ replicate 9 (0, Go False) @ replicate 9 (1, Go False))
     (\<lambda>_. Idle) (LockFreeQueue_new 1 (0 :: nat)) = Some (es, ps, q) \<and> fifo es [] = Some xs"
proof -
  have "one_each 0 1 ([(0, Call_Produce 5 2), (1, Call_Consume)] @ replicate 9 (0, Go False) @ replicate 9 (1, Go False))"
    by (auto simp: one_each_def)
  from LockFreeQueue_linearisable [OF _ this, of 1 0] show ?thesis by auto
qed

text \<open>
  C22. Calls return: after any history of one thread that produces and one that consumes, either of
  them finishes the call it is in when it runs alone and no compare-and-exchange fails spuriously
  any more; and under the same conditions a producer between calls finishes \<open>Produce(v)\<close> with exactly
  the event that appends \<open>v\<close>, and a consumer between calls finishes \<open>Consume\<close> with an element or with
  the answer that the queue is empty.
\<close>

theorem LockFreeQueue_returns:
  assumes "P \<noteq> C" and "one_each P C sch" and "a \<noteq> 0"
    and "run_threads sch (\<lambda>_. Idle) (LockFreeQueue_new a v0) = Some (es, ps, q)"
  shows "(\<forall>t \<in> {P, C}. \<exists>k es' q'. run_threads (replicate k (t, Go False)) ps q = Some (es', ps(t := Idle), q')) \<and>
    (ps P = Idle \<and> b \<noteq> 0 \<and> heap q b = None \<longrightarrow>
      (\<exists>k es' q'. run_threads ((P, Call_Produce v b) # replicate k (P, Go False)) ps q = Some (es', ps, q') \<and> visible es' = [Enq v])) \<and>
    (ps C = Idle \<longrightarrow>
      (\<exists>k es' q'. run_threads ((C, Call_Consume) # replicate k (C, Go False)) ps q = Some (es', ps, q') \<and>
        (visible es' = [Empty] \<or> (\<exists>x. visible es' = [Deq x]))))"
proof -
  obtain xs where ok: "threads_ok P C ps q xs"
    using run_ok [OF assms(1) threads_ok_new [OF assms(3), where v = v0] assms(2)] assms(4) by auto
  have p: "\<exists>k es' q'. run_threads ((P, Call_Produce v b) # replicate k (P, Go False)) ps q = Some (es', ps, q') \<and> visible es' = [Enq v]"
    if i: "ps P = Idle" "b \<noteq> 0" "heap q b = None"
  proof -
    let ?q = "q\<lparr>heap := (heap q)(b \<mapsto> \<lparr>nxt = 0, val = v\<rparr>)\<rparr>"
    have s: "thread_step (Call_Produce v b) (ps P) q = Some (Silent, PLast b, ?q)" using i by (simp add: thread_step_def)
    obtain ys where "threads_ok P C (ps(P := PLast b)) ?q ys"
      using move_ok [OF assms(1) ok, of P "Call_Produce v b" "[]"] s by (auto simp: one_each_def)
    from alone_returns [OF assms(1) _ this, of P] obtain k es' q' where
      "run_threads (replicate k (P, Go False)) (ps(P := PLast b)) ?q = Some (es', ps, q')" "visible es' = [Enq v]"
      using i(1) by (auto simp: to_do_def fun_upd_idem)
    with s show ?thesis by (intro exI [of _ k] exI [of _ "Silent # es'"]) simp
  qed
  have c: "\<exists>k es' q'. run_threads ((C, Call_Consume) # replicate k (C, Go False)) ps q = Some (es', ps, q') \<and>
      (visible es' = [Empty] \<or> (\<exists>x. visible es' = [Deq x]))" if i: "ps C = Idle"
  proof -
    have s: "thread_step Call_Consume (ps C) q = Some (Silent, CDivider, q)" using i by (simp add: thread_step_def)
    obtain ys where "threads_ok P C (ps(C := CDivider)) q ys"
      using move_ok [OF assms(1) ok, of C Call_Consume "[]"] s by (auto simp: one_each_def)
    from alone_returns [OF assms(1) _ this, of C] obtain k es' q' where
      "run_threads (replicate k (C, Go False)) (ps(C := CDivider)) q = Some (es', ps, q')" "visible es' = [Empty] \<or> (\<exists>x. visible es' = [Deq x])"
      using i by (auto simp: to_do_def fun_upd_idem)
    with s show ?thesis by (intro exI [of _ k] exI [of _ "Silent # es'"]) simp
  qed
  have "\<exists>k es' q'. run_threads (replicate k (t, Go False)) ps q = Some (es', ps(t := Idle), q')" if "t \<in> {P, C}" for t
    using alone_returns [OF assms(1) _ ok, of t] that by auto
  with p c show ?thesis by blast
qed

theorem LockFreeQueue_returns_witness:
  "\<exists>es ps q. run_threads ([(0, Call_Produce 5 2)] @ replicate 9 (0, Go False) @ [(1, Call_Consume), (1, Go False)])
      (\<lambda>_. Idle) (LockFreeQueue_new 1 (0 :: nat)) = Some (es, ps, q) \<and> ps 1 \<noteq> Idle \<and>
    (\<exists>k es' q'. run_threads (replicate k (1, Go False)) ps q = Some (es', ps(1 := Idle), q')) \<and>
    (\<exists>k es' q'. run_threads ((0, Call_Produce 6 3) # replicate k (0, Go False)) ps q = Some (es', ps, q') \<and> visible es' = [Enq 6])"
proof -
  let ?sch = "[(0, Call_Produce 5 2)] @ replicate 9 (0, Go False) @ [(1, Call_Consume), (1, Go False)] :: (nat \<times> nat move) list"
  have "\<exists>es ps q. run_threads ?sch (\<lambda>_. Idle) (LockFreeQueue_new 1 0) = Some (es, ps, q) \<and> ps 0 = Idle \<and> ps 1 \<noteq> Idle \<and> heap q 3 = None"
    by (simp add: numeral_eq_Suc thread_step_def is_consumer_def LockFreeQueue_new_def)
  then obtain es ps q where r: "run_threads ?sch (\<lambda>_. Idle) (LockFreeQueue_new 1 0) = Some (es, ps, q)"
    and s: "ps 0 = Idle" "ps 1 \<noteq> Idle" "heap q 3 = None" by blast
  have "one_each 0 1 ?sch" by (auto simp: one_each_def)
  from LockFreeQueue_returns [OF _ this _ r, of 3 6] r s show ?thesis by simp
qed

end
