(* ===== verification/Decimal.thy ===== *)
theory Decimal
  imports Prelude
begin

text \<open>
  Decimal numbers as text, as the C library reads and writes them: the classes of characters,
  \<open>strtoull\<close>, \<open>atoll\<close> and \<open>%llu\<close>.
\<close>

section \<open>Definitions\<close>

definition isdigit :: "char \<Rightarrow> bool" where
  "isdigit c \<longleftrightarrow> of_char c \<in> {48 .. 57 :: nat}"

definition isspace :: "char \<Rightarrow> bool" where
  "isspace c \<longleftrightarrow> of_char c = (32 :: nat) \<or> of_char c \<in> {9 .. 13 :: nat}"

definition digit_val :: "char \<Rightarrow> nat" where
  "digit_val c = of_char c - 48"

fun digits_val :: "nat \<Rightarrow> string \<Rightarrow> nat" where
  "digits_val acc [] = acc"
| "digits_val acc (c # cs) = (if isdigit c then digits_val (10 * acc + digit_val c) cs else acc)"

text \<open>\<open>strtoull(s, nullptr, 10)\<close>: blanks, a sign, digits; too large a value gives the maximum.\<close>

definition strtoull :: "string \<Rightarrow> nat" where
  "strtoull s =
     (let t = dropWhile isspace s;
          neg = (t \<noteq> [] \<and> hd t = CHR ''-'');
          u = (if t \<noteq> [] \<and> (hd t = CHR ''-'' \<or> hd t = CHR ''+'') then tl t else t);
          n = digits_val 0 u
      in if n \<ge> 2 ^ 64 then 2 ^ 64 - 1 else if neg then sub64 0 n else n)"

fun decimal :: "nat \<Rightarrow> string" where
  "decimal n = (if n < 10 then [char_of (48 + n)] else decimal (n div 10) @ [char_of (48 + n mod 10)])"

declare decimal.simps [simp del]

text \<open>\<open>atoll\<close>: as \<open>strtoll\<close>, a number out of range gives the nearest one in range.\<close>

definition atoll :: "string \<Rightarrow> 64 word" where
  "atoll s =
     (let t = dropWhile isspace s;
          neg = (t \<noteq> [] \<and> hd t = CHR ''-'');
          u = (if t \<noteq> [] \<and> (hd t = CHR ''-'' \<or> hd t = CHR ''+'') then tl t else t);
          n = int (digits_val 0 u)
      in word_of_int (if neg then max (- (2 ^ 63)) (- n) else min (2 ^ 63 - 1) n))"

section \<open>Reading what was written\<close>

lemma isdigit_char: "n < 10 \<Longrightarrow> isdigit (char_of (48 + n :: nat))"
  by (simp add: isdigit_def)

lemma digits_val_snoc:
  "\<forall>c \<in> set s. isdigit c \<Longrightarrow> digits_val acc (s @ t) = digits_val (digits_val acc s) t"
  by (induction s arbitrary: acc) auto

lemma decimal_digits: "\<forall>c \<in> set (decimal n). isdigit c"
  by (induction n rule: decimal.induct) (subst decimal.simps, auto simp: isdigit_char)

lemma digits_val_decimal: "digits_val 0 (decimal n) = n"
proof (induction n rule: decimal.induct)
  case (1 n)
  have d: "digits_val acc [char_of (48 + k)] = 10 * acc + k" if "k < 10" for acc k :: nat
    using that by (simp add: isdigit_char digit_val_def)
  show ?case
  proof (cases "n < 10")
    case True
    then show ?thesis by (subst decimal.simps) (use d [of n 0] in simp)
  next
    case False
    then show ?thesis
      using 1 d [of "n mod 10" "n div 10"] decimal_digits [of "n div 10"]
      by (subst decimal.simps) (simp add: digits_val_snoc)
  qed
qed

lemma digit_not_special: "isdigit c \<Longrightarrow> \<not> isspace c \<and> c \<noteq> CHR ''-'' \<and> c \<noteq> CHR ''+''"
  by (auto simp: isdigit_def isspace_def)

lemma decimal_nonempty: "decimal n \<noteq> []"
  by (subst decimal.simps) simp

lemma strtoull_prefix:
  assumes "t = [] \<or> \<not> isdigit (hd t)"
  shows "strtoull (decimal n @ t) = (if n \<ge> 2 ^ 64 then 2 ^ 64 - 1 else n)"
proof -
  obtain c cs where d: "decimal n @ t = c # cs" using decimal_nonempty by (cases "decimal n @ t") auto
  then have "c = hd (decimal n)" using decimal_nonempty [of n] by (cases "decimal n") auto
  then have "isdigit c" using decimal_digits [of n] decimal_nonempty [of n] by simp
  then have c: "\<not> isspace c" "c \<noteq> CHR ''-''" "c \<noteq> CHR ''+''" using digit_not_special by auto
  have "digits_val n t = n" using assms by (cases t) auto
  then have "digits_val 0 (c # cs) = n"
    using digits_val_decimal [of n] digits_val_snoc [OF decimal_digits, of 0 n t] d by simp
  with c show ?thesis by (simp add: strtoull_def d del: digits_val.simps)
qed

lemma strtoull_decimal: "strtoull (decimal n) = (if n \<ge> 2 ^ 64 then 2 ^ 64 - 1 else n)"
  using strtoull_prefix [of "[]" n] by simp

end
