(* ===== verification/Arguments.thy ===== *)
theory Arguments
  imports Decimal
begin

text \<open>
  \<open>bdblob/Argument\<close> and \<open>bdblob/ArgumentParser\<close>: the typed arguments of a command and the parser
  of its command line. An argument carries its type beside its value, as the class hierarchy does;
  a failed assertion (an \<open>As\<close> method of another type, a name registered twice) is \<open>None\<close>.
\<close>

section \<open>Arguments\<close>

datatype ArgumentType = STRING | INTEGER | BOOLEAN

datatype arg_value = VString string | VInt "64 word" | VBool bool

record Argument =
  arg_type :: ArgumentType
  arg_value :: arg_value
  arg_isSet :: bool
  arg_required :: bool
  arg_anonymouse :: bool
  arg_abbrev :: char
  arg_description :: string

text \<open>The type a template instance is constructed with.\<close>

definition type_of :: "arg_value \<Rightarrow> ArgumentType" where
  "type_of v = (case v of VString _ \<Rightarrow> STRING | VInt _ \<Rightarrow> INTEGER | VBool _ \<Rightarrow> BOOLEAN)"

definition Argument_SetValue :: "arg_value \<Rightarrow> Argument \<Rightarrow> Argument" where
  "Argument_SetValue v x = x\<lparr>arg_value := v, arg_isSet := True\<rparr>"

definition AsString :: "Argument \<Rightarrow> string option" where
  "AsString x = (case arg_value x of VString s \<Rightarrow> Some s | _ \<Rightarrow> None)"

definition AsInt :: "Argument \<Rightarrow> 64 word option" where
  "AsInt x = (case arg_value x of VInt i \<Rightarrow> Some i | _ \<Rightarrow> None)"

definition AsBoolean :: "Argument \<Rightarrow> bool option" where
  "AsBoolean x = (case arg_value x of VBool b \<Rightarrow> Some b | _ \<Rightarrow> None)"

section \<open>The parser\<close>

record ArgumentParser =
  arg_abbrevs :: "(char, string) stdmap"
  args :: "(string, Argument) stdmap"
  anonymouse :: "string list"

definition ArgumentParser_new :: ArgumentParser where
  "ArgumentParser_new = \<lparr>arg_abbrevs = [], args = [], anonymouse = []\<rparr>"

definition Register :: "string \<Rightarrow> bool \<Rightarrow> char \<Rightarrow> string \<Rightarrow> bool \<Rightarrow> arg_value \<Rightarrow> ArgumentParser \<Rightarrow> ArgumentParser option" where
  "Register name required abbrev description isAnonymouse defaultValue p =
     (if name = [] \<or> map_find (args p) name \<noteq> None \<or> (abbrev \<noteq> CHR 0x00 \<and> map_find (arg_abbrevs p) abbrev \<noteq> None) then None
      else Some (p\<lparr>arg_abbrevs := (if abbrev \<noteq> CHR 0x00 then map_put abbrev name (arg_abbrevs p) else arg_abbrevs p),
                   args := map_put name \<lparr>arg_type = type_of defaultValue, arg_value = defaultValue, arg_isSet = False,
                       arg_required = required, arg_anonymouse = isAnonymouse, arg_abbrev = abbrev, arg_description = description\<rparr> (args p),
                   anonymouse := (if isAnonymouse then anonymouse p @ [name] else anonymouse p)\<rparr>))"

text \<open>The key and the value of an option; both stay empty when \<open>=\<close> is its first or its last character.\<close>

definition parseParam :: "string \<Rightarrow> string \<times> string" where
  "parseParam input =
     (let key = takeWhile (\<lambda>c. c \<noteq> CHR ''='') input; pos = length key
      in if input = [] then ([], [])
         else if pos = length input then (input, [])
         else if pos = 0 \<or> pos = length input - 1 then ([], [])
         else (key, drop (pos + 1) input))"

text \<open>The names an abbreviated key stands for.\<close>

fun expand :: "ArgumentParser \<Rightarrow> string \<Rightarrow> string list option" where
  "expand p [] = Some []"
| "expand p (c # cs) =
     (case map_find (arg_abbrevs p) c of
        None \<Rightarrow> None
      | Some name \<Rightarrow> map_option (Cons name) (expand p cs))"

text \<open>
  The loop over the names of one option; \<open>rest\<close> are the words of the command line that follow, of
  which an option without a value takes the next one.
\<close>

fun set_names :: "ArgumentParser \<Rightarrow> bool \<Rightarrow> string \<Rightarrow> string list \<Rightarrow> string list \<Rightarrow> (string, string) stdmap \<Rightarrow>
    (string list \<times> (string, string) stdmap) option" where
  "set_names p several v [] rest params = Some (rest, params)"
| "set_names p several v (name # names) rest params =
     (case map_find (args p) name of
        None \<Rightarrow> None
      | Some x \<Rightarrow>
          if several \<and> arg_type x \<noteq> BOOLEAN then None
          else if arg_type x = BOOLEAN then set_names p several v names rest (map_put name v params)
          else if v \<noteq> [] then set_names p several v names rest (map_put name v params)
          else case rest of
                 [] \<Rightarrow> None
               | w # ws \<Rightarrow> set_names p several v names ws (map_put name w params))"

definition parse_option :: "ArgumentParser \<Rightarrow> string \<Rightarrow> string list \<Rightarrow> (string, string) stdmap \<Rightarrow> (string list \<times> (string, string) stdmap) option" where
  "parse_option p cur rest params =
     (let isAbbrev = (length cur < 2 \<or> cur ! 1 \<noteq> CHR ''-'');
          (key, v) = parseParam (drop (if isAbbrev then 1 else 2) cur)
      in if key = [] \<or> (isAbbrev \<and> length key > 1 \<and> v \<noteq> []) then None
         else case (if isAbbrev then expand p key else Some [key]) of
                None \<Rightarrow> None
              | Some names \<Rightarrow> set_names p (length names > 1) v names rest params)"

lemma set_names_length: "set_names p several v names rest params = Some (rest', params') \<Longrightarrow> length rest' \<le> length rest"
  by (induction p several v names rest params rule: set_names.induct)
    (fastforce split: option.splits if_splits list.splits)+

declare set_names.simps(2) [simp del]

lemma parse_option_length: "parse_option p cur rest params = Some (rest', params') \<Longrightarrow> length rest' \<le> length rest"
  by (auto simp: parse_option_def Let_def split: prod.splits option.splits if_splits dest!: set_names_length)

function parse_args :: "ArgumentParser \<Rightarrow> nat \<Rightarrow> string list \<Rightarrow> (string, string) stdmap \<Rightarrow> (string, string) stdmap option" where
  "parse_args p anonymouseIdx [] params = Some params"
| "parse_args p anonymouseIdx (cur # rest) params =
     (if cur = [] \<or> hd cur \<noteq> CHR ''-''
      then (if anonymouseIdx \<ge> length (anonymouse p) then None
            else parse_args p (Suc anonymouseIdx) rest (map_put (anonymouse p ! anonymouseIdx) cur params))
      else case parse_option p cur rest params of
             None \<Rightarrow> None
           | Some (rest', params') \<Rightarrow> parse_args p anonymouseIdx rest' params')"
  by pat_completeness auto
termination
  by (relation "measure (\<lambda>(p, i, ws, m). length ws)") (auto dest: parse_option_length)

definition value_for :: "ArgumentType \<Rightarrow> string \<Rightarrow> arg_value" where
  "value_for ty s =
     (case ty of STRING \<Rightarrow> VString s | INTEGER \<Rightarrow> VInt (atoll s)
      | BOOLEAN \<Rightarrow> VBool (s = [] \<or> s = ''true'' \<or> s = ''1''))"

fun set_params :: "(string, string) stdmap \<Rightarrow> ArgumentParser \<Rightarrow> bool \<times> ArgumentParser" where
  "set_params [] p = (True, p)"
| "set_params ((name, s) # params) p =
     (case map_find (args p) name of
        None \<Rightarrow> (False, p)
      | Some x \<Rightarrow> set_params params (p\<lparr>args := map_put name (Argument_SetValue (value_for (arg_type x) s) x) (args p)\<rparr>))"

definition ValidateRequired :: "ArgumentParser \<Rightarrow> bool" where
  "ValidateRequired p = list_all (\<lambda>(name, x). arg_required x \<longrightarrow> arg_isSet x) (args p)"

text \<open>\<open>argv\<close> is the list of words; the first is the name of the command.\<close>

definition Parse :: "string list \<Rightarrow> ArgumentParser \<Rightarrow> bool \<times> ArgumentParser" where
  "Parse argv p =
     (case parse_args p 0 (drop 1 argv) [] of
        None \<Rightarrow> (False, p)
      | Some params \<Rightarrow>
          (case set_params params p of
             (False, p1) \<Rightarrow> (False, p1)
           | (True, p1) \<Rightarrow> (ValidateRequired p1, p1)))"

definition GetArgument :: "ArgumentParser \<Rightarrow> string \<Rightarrow> Argument option" where
  "GetArgument p name = map_find (args p) name"

definition IsSet :: "ArgumentParser \<Rightarrow> string \<Rightarrow> bool" where
  "IsSet p name = (case map_find (args p) name of None \<Rightarrow> False | Some x \<Rightarrow> arg_isSet x)"

section \<open>Usage\<close>

text \<open>What \<open>PrintUsage\<close> prints; \<open>%-20s\<close> pads on the right.\<close>

definition pad_right :: "nat \<Rightarrow> string \<Rightarrow> string" where
  "pad_right n s = s @ replicate (n - length s) CHR '' ''"

definition usage_word :: "ArgumentParser \<Rightarrow> string \<Rightarrow> string" where
  "usage_word p name =
     (case map_find (args p) name of
        None \<Rightarrow> []
      | Some x \<Rightarrow> '' '' @ (if arg_required x then ''<'' else ''['') @ arg_description x @ (if arg_required x then ''>'' else '']''))"

definition usage_line :: "string \<times> Argument \<Rightarrow> string" where
  "usage_line = (\<lambda>(name, x).
     ''  '' @ (if arg_abbrev x \<noteq> CHR 0x00 then ''-'' @ [arg_abbrev x] @ '', '' else ''    '') @ ''--'' @ pad_right 20 name @
     (if arg_required x then ''(Required)'' else []) @ arg_description x @ [CHR 0x0A])"

definition Parser_PrintUsage :: "ArgumentParser \<Rightarrow> string \<Rightarrow> string" where
  "Parser_PrintUsage p prefix =
     (let options = filter (\<lambda>(name, x). \<not> arg_anonymouse x) (args p)
      in ''Usage: '' @ prefix @ '' [options]'' @ concat (map (usage_word p) (anonymouse p)) @ [CHR 0x0A] @
         (if options = [] then [] else [CHR 0x0A] @ ''Options:'' @ [CHR 0x0A]) @ concat (map usage_line options))"

section \<open>Every argument keeps its type\<close>

text \<open>
  The invariant of a parser: the maps are ordered, every value has the type of its argument, and the
  abbreviations and positions name arguments.
\<close>

definition well_typed :: "Argument \<Rightarrow> bool" where
  "well_typed x \<longleftrightarrow> type_of (arg_value x) = arg_type x"

definition parser_ok :: "ArgumentParser \<Rightarrow> bool" where
  "parser_ok p \<longleftrightarrow> map_ok (args p) \<and> (\<forall>(name, x) \<in> set (args p). well_typed x) \<and>
     (\<forall>(c, name) \<in> set (arg_abbrevs p). map_find (args p) name \<noteq> None) \<and> (\<forall>name \<in> set (anonymouse p). map_find (args p) name \<noteq> None)"

text \<open>What parsing leaves of a parser: everything but the values and the marks of the arguments that are set.\<close>

definition frame :: "Argument \<Rightarrow> ArgumentType \<times> bool \<times> bool \<times> char \<times> string" where
  "frame x = (arg_type x, arg_required x, arg_anonymouse x, arg_abbrev x, arg_description x)"

definition same_shape :: "ArgumentParser \<Rightarrow> ArgumentParser \<Rightarrow> bool" where
  "same_shape p q \<longleftrightarrow> arg_abbrevs q = arg_abbrevs p \<and> anonymouse q = anonymouse p \<and>
     (\<forall>name. map_option frame (map_find (args q) name) = map_option frame (map_find (args p) name))"

lemma map_put_all: "(\<forall>(k, v) \<in> set m. P v) \<Longrightarrow> P v \<Longrightarrow> \<forall>(k, v) \<in> set (map_put k v m). P v"
  using set_map_put [of k v m] by fast

lemma value_for_typed [simp]: "type_of (value_for ty s) = ty"
  by (cases ty) (simp_all add: value_for_def type_of_def)

lemma parser_ok_new: "parser_ok ArgumentParser_new"
  by (simp add: parser_ok_def ArgumentParser_new_def)

lemma parser_ok_Register:
  assumes "parser_ok p" and "Register name required abbrev description anon v p = Some q"
  shows "parser_ok q"
proof -
  let ?x = "\<lparr>arg_type = type_of v, arg_value = v, arg_isSet = False, arg_required = required, arg_anonymouse = anon,
    arg_abbrev = abbrev, arg_description = description\<rparr>"
  have "\<forall>(k, x) \<in> set (map_put name ?x (args p)). well_typed x"
    by (rule map_put_all) (use assms(1) in \<open>auto simp: parser_ok_def well_typed_def\<close>)
  moreover have "\<forall>(c, k) \<in> set (map_put abbrev name (arg_abbrevs p)). k = name \<or> map_find (args p) k \<noteq> None"
    by (rule map_put_all) (use assms(1) in \<open>auto simp: parser_ok_def\<close>)
  ultimately show ?thesis using assms by (auto simp: Register_def parser_ok_def split: if_splits)
qed

lemma set_params_step:
  assumes "parser_ok p" and "map_find (args p) name = Some x"
  shows "parser_ok (p\<lparr>args := map_put name (Argument_SetValue (value_for (arg_type x) s) x) (args p)\<rparr>)"
    and "same_shape p (p\<lparr>args := map_put name (Argument_SetValue (value_for (arg_type x) s) x) (args p)\<rparr>)"
proof -
  have "\<forall>(k, x) \<in> set (map_put name (Argument_SetValue (value_for (arg_type x) s) x) (args p)). well_typed x"
    by (rule map_put_all) (use assms(1) in \<open>auto simp: parser_ok_def well_typed_def Argument_SetValue_def\<close>)
  with assms show "parser_ok (p\<lparr>args := map_put name (Argument_SetValue (value_for (arg_type x) s) x) (args p)\<rparr>)"
    by (auto simp: parser_ok_def)
  show "same_shape p (p\<lparr>args := map_put name (Argument_SetValue (value_for (arg_type x) s) x) (args p)\<rparr>)"
    using assms(2) by (simp add: same_shape_def frame_def Argument_SetValue_def)
qed

lemma same_shape_trans: "same_shape p q \<Longrightarrow> same_shape q r \<Longrightarrow> same_shape p r"
  by (simp add: same_shape_def)

lemma set_params_ok: "parser_ok p \<Longrightarrow> set_params params p = (b, q) \<Longrightarrow> parser_ok q \<and> same_shape p q"
proof (induction params p rule: set_params.induct)
  case (1 p)
  then show ?case by (simp add: same_shape_def)
next
  case (2 name s params p)
  show ?case
  proof (cases "map_find (args p) name")
    case None
    with 2 show ?thesis by (simp add: same_shape_def)
  next
    case (Some x)
    note step = set_params_step [OF 2(2) Some, of s]
    with 2(1) [OF Some step(1)] 2(3) Some show ?thesis by (auto intro: same_shape_trans)
  qed
qed

lemma Parse_ok:
  assumes "parser_ok p" and "Parse argv p = (b, q)"
  shows "parser_ok q \<and> same_shape p q \<and> (b \<longrightarrow> (\<forall>name x. map_find (args q) name = Some x \<and> arg_required x \<longrightarrow> arg_isSet x))"
proof -
  have r: "ValidateRequired q \<Longrightarrow> map_find (args q) name = Some x \<Longrightarrow> arg_required x \<Longrightarrow> arg_isSet x" for name x
    by (auto simp: ValidateRequired_def list_all_iff map_find_map_of dest!: map_of_SomeD)
  have "same_shape p p" by (simp add: same_shape_def)
  with assms r show ?thesis by (auto simp: Parse_def split: option.splits prod.splits bool.splits dest: set_params_ok)
qed

section \<open>Command lines\<close>

text \<open>The ways to write an argument on a command line, and the words they become.\<close>

datatype item = Long string | LongValue string string | LongNext string string | Flags string | ShortValue char string
  | ShortNext char string | Position string

fun render :: "item \<Rightarrow> string list" where
  "render (Long n) = [''--'' @ n]"
| "render (LongValue n v) = [''--'' @ n @ ''='' @ v]"
| "render (LongNext n v) = [''--'' @ n, v]"
| "render (Flags cs) = [''-'' @ cs]"
| "render (ShortValue c v) = [''-'' @ [c] @ ''='' @ v]"
| "render (ShortNext c v) = [''-'' @ [c], v]"
| "render (Position s) = [s]"

definition flag_of :: "ArgumentParser \<Rightarrow> char \<Rightarrow> string option" where
  "flag_of p c = (if c = CHR ''='' then None else map_find (arg_abbrevs p) c)"

definition type_named :: "ArgumentParser \<Rightarrow> string \<Rightarrow> ArgumentType option" where
  "type_named p name = map_option arg_type (map_find (args p) name)"

fun item_ok :: "ArgumentParser \<Rightarrow> item \<Rightarrow> bool" where
  "item_ok p (Long n) \<longleftrightarrow> n \<noteq> [] \<and> CHR ''='' \<notin> set n \<and> type_named p n = Some BOOLEAN"
| "item_ok p (LongValue n v) \<longleftrightarrow> n \<noteq> [] \<and> CHR ''='' \<notin> set n \<and> type_named p n \<noteq> None \<and> v \<noteq> []"
| "item_ok p (LongNext n v) \<longleftrightarrow> n \<noteq> [] \<and> CHR ''='' \<notin> set n \<and> type_named p n \<in> {Some STRING, Some INTEGER}"
| "item_ok p (Flags cs) \<longleftrightarrow> cs \<noteq> [] \<and> hd cs \<noteq> CHR ''-'' \<and>
     (\<forall>c \<in> set cs. \<exists>n. flag_of p c = Some n \<and> type_named p n = Some BOOLEAN)"
| "item_ok p (ShortValue c v) \<longleftrightarrow> c \<noteq> CHR ''-'' \<and> v \<noteq> [] \<and> (\<exists>n. flag_of p c = Some n \<and> type_named p n \<noteq> None)"
| "item_ok p (ShortNext c v) \<longleftrightarrow> c \<noteq> CHR ''-'' \<and> (\<exists>n. flag_of p c = Some n \<and> type_named p n \<in> {Some STRING, Some INTEGER})"
| "item_ok p (Position s) \<longleftrightarrow> s = [] \<or> hd s \<noteq> CHR ''-''"

text \<open>What the items set; positions count from \<open>i\<close>.\<close>

fun settings :: "ArgumentParser \<Rightarrow> nat \<Rightarrow> item list \<Rightarrow> (string \<times> string) list" where
  "settings p i [] = []"
| "settings p i (Long n # xs) = (n, []) # settings p i xs"
| "settings p i (LongValue n v # xs) = (n, v) # settings p i xs"
| "settings p i (LongNext n v # xs) = (n, v) # settings p i xs"
| "settings p i (Flags cs # xs) = map (\<lambda>c. (the (flag_of p c), [])) cs @ settings p i xs"
| "settings p i (ShortValue c v # xs) = (the (flag_of p c), v) # settings p i xs"
| "settings p i (ShortNext c v # xs) = (the (flag_of p c), v) # settings p i xs"
| "settings p i (Position s # xs) = (anonymouse p ! i, s) # settings p (Suc i) xs"

definition set_all :: "(string \<times> string) list \<Rightarrow> (string, string) stdmap \<Rightarrow> (string, string) stdmap" where
  "set_all kvs m = fold (\<lambda>(k, v). map_put k v) kvs m"

lemma set_all_simps [simp]: "set_all [] m = m" "set_all ((k, v) # kvs) m = set_all kvs (map_put k v m)"
  "set_all (xs @ ys) m = set_all ys (set_all xs m)"
  by (simp_all add: set_all_def)

lemma parseParam_key: "k \<noteq> [] \<Longrightarrow> CHR ''='' \<notin> set k \<Longrightarrow> parseParam k = (k, [])"
proof -
  assume k: "k \<noteq> []" "CHR ''='' \<notin> set k"
  then have t: "takeWhile (\<lambda>c. c \<noteq> CHR ''='') k = k" by (auto simp: takeWhile_eq_all_conv)
  show ?thesis unfolding parseParam_def t Let_def using k by simp
qed

lemma parseParam_key_value: "k \<noteq> [] \<Longrightarrow> CHR ''='' \<notin> set k \<Longrightarrow> v \<noteq> [] \<Longrightarrow> parseParam (k @ CHR ''='' # v) = (k, v)"
proof -
  assume k: "k \<noteq> []" "CHR ''='' \<notin> set k" and v: "v \<noteq> []"
  have t: "takeWhile (\<lambda>c. c \<noteq> CHR ''='') (k @ CHR ''='' # v) = k" using k(2) by (auto simp: takeWhile_append)
  show ?thesis unfolding parseParam_def t Let_def using k v by simp
qed

lemma expand_flags:
  "\<forall>c \<in> set cs. flag_of p c \<noteq> None \<Longrightarrow> expand p cs = Some (map (\<lambda>c. the (flag_of p c)) cs)"
  by (induction cs) (auto simp: flag_of_def split: if_splits)

lemma set_names_flags:
  "\<forall>n \<in> set names. type_named p n = Some BOOLEAN \<Longrightarrow> set_names p b v names rest params = Some (rest, set_all (map (\<lambda>n. (n, v)) names) params)"
  by (induction names arbitrary: params) (auto simp: type_named_def set_names.simps(2))

lemma set_names_one:
  assumes "type_named p n = Some ty"
  shows "v \<noteq> [] \<or> ty = BOOLEAN \<Longrightarrow> set_names p False v [n] rest params = Some (rest, map_put n v params)"
    and "ty \<noteq> BOOLEAN \<Longrightarrow> set_names p False [] [n] (w # rest) params = Some (rest, map_put n w params)"
  using assms by (auto simp: type_named_def set_names.simps)

lemma flag_not_eq: "flag_of p c = Some n \<Longrightarrow> c \<noteq> CHR ''='' \<and> map_find (arg_abbrevs p) c = Some n"
  by (auto simp: flag_of_def split: if_splits)

text \<open>One option on the command line.\<close>

lemma parse_option_item:
  assumes "item_ok p x" and "\<And>s. x \<noteq> Position s"
  shows "\<exists>w ws. render x = w # ws \<and> w \<noteq> [] \<and> hd w = CHR ''-'' \<and>
    parse_option p w (ws @ rest) params = Some (rest, set_all (settings p i [x]) params)"
proof (cases x)
  case (Flags cs)
  have all: "\<forall>c \<in> set cs. flag_of p c \<noteq> None" using assms(1) Flags by auto
  have e: "expand p cs = Some (map (\<lambda>c. the (flag_of p c)) cs)" by (rule expand_flags [OF all])
  have "CHR ''='' \<notin> set cs" using all by (auto simp: flag_of_def)
  then have k: "parseParam cs = (cs, [])" using assms(1) Flags by (intro parseParam_key) auto
  have "\<forall>n \<in> set (map (\<lambda>c. the (flag_of p c)) cs). type_named p n = Some BOOLEAN" using assms(1) Flags by fastforce
  note n = set_names_flags [OF this]
  have "cs \<noteq> [] \<and> cs ! 0 \<noteq> CHR ''-''" using assms(1) Flags by (cases cs) auto
  with Flags k e show ?thesis by (simp add: parse_option_def n comp_def)
next
  case (ShortValue c v)
  then obtain n where n: "flag_of p c = Some n" "type_named p n \<noteq> None" and v: "c \<noteq> CHR ''-''" "v \<noteq> []" using assms(1) by auto
  have "parseParam ([c] @ CHR ''='' # v) = ([c], v)" using flag_not_eq [OF n(1)] v by (intro parseParam_key_value) auto
  with ShortValue n v flag_not_eq [OF n(1)] show ?thesis by (auto simp: parse_option_def set_names_one)
next
  case (ShortNext c v)
  then obtain n where n: "flag_of p c = Some n" "type_named p n \<in> {Some STRING, Some INTEGER}" and v: "c \<noteq> CHR ''-''" using assms(1) by auto
  have "parseParam [c] = ([c], [])" using flag_not_eq [OF n(1)] by (intro parseParam_key) auto
  with ShortNext n v flag_not_eq [OF n(1)] show ?thesis by (auto simp: parse_option_def set_names_one)
qed (use assms in \<open>auto simp: parse_option_def parseParam_key parseParam_key_value set_names_one\<close>)

lemma parse_args_items:
  assumes "\<forall>x \<in> set items. item_ok p x" and "i + length (filter (\<lambda>x. \<exists>s. x = Position s) items) \<le> length (anonymouse p)"
  shows "parse_args p i (concat (map render items)) params = Some (set_all (settings p i items) params)"
  using assms
proof (induction items arbitrary: i params)
  case (Cons x items)
  show ?case
  proof (cases "\<exists>s. x = Position s")
    case True
    with Cons show ?thesis by auto
  next
    case False
    then have s: "settings p i (x # items) = settings p i [x] @ settings p i items" by (cases x) auto
    obtain w ws where w: "render x = w # ws" "w \<noteq> []" "hd w = CHR ''-''"
      "parse_option p w (ws @ concat (map render items)) params = Some (concat (map render items), set_all (settings p i [x]) params)"
      using parse_option_item [of p x "concat (map render items)" params i] Cons(2) False by auto
    from Cons(1) [of i "set_all (settings p i [x]) params"] Cons(2,3) False w show ?thesis by (simp add: s del: settings.simps)
  qed
qed simp

lemma settings_named:
  assumes "parser_ok p" and "\<forall>x \<in> set items. item_ok p x" and "i + length (filter (\<lambda>x. \<exists>s. x = Position s) items) \<le> length (anonymouse p)"
  shows "\<forall>(k, v) \<in> set (settings p i items). map_find (args p) k \<noteq> None"
  using assms
proof (induction p i items rule: settings.induct)
  case (5 p i cs xs)
  then show ?case by (fastforce simp: type_named_def)
next
  case (8 p i s xs)
  then have "anonymouse p ! i \<in> set (anonymouse p)" by simp
  then have "map_find (args p) (anonymouse p ! i) \<noteq> None" using 8(2) unfolding parser_ok_def by blast
  with 8 show ?case by auto
qed (auto simp: type_named_def)

lemma set_all_find: "map_find (set_all kvs m) k = (case map_of (rev kvs) k of None \<Rightarrow> map_find m k | Some v \<Rightarrow> Some v)"
  by (induction kvs arbitrary: m) (auto simp: map_add_def split: option.splits)

lemma set_all_ok: "map_ok m \<Longrightarrow> map_ok (set_all kvs m)"
  by (induction kvs arbitrary: m) auto

lemma set_params_find:
  assumes "map_ok params" and "\<forall>(k, s) \<in> set params. map_find (args p) k \<noteq> None"
  shows "\<exists>q. set_params params p = (True, q) \<and> (\<forall>name. map_find (args q) name =
    (case map_find params name of None \<Rightarrow> map_find (args p) name
     | Some s \<Rightarrow> map_option (\<lambda>x. Argument_SetValue (value_for (arg_type x) s) x) (map_find (args p) name)))"
  using assms
proof (induction params arbitrary: p)
  case (Cons a params)
  obtain k s where a: "a = (k, s)" by (cases a)
  obtain x where x: "map_find (args p) k = Some x" using Cons(3) a by auto
  let ?p = "p\<lparr>args := map_put k (Argument_SetValue (value_for (arg_type x) s) x) (args p)\<rparr>"
  have n: "map_find params k = None" using Cons(2) a by (auto simp: map_find_None_iff)
  have "\<forall>(k, s) \<in> set params. map_find (args ?p) k \<noteq> None" using Cons(3) by auto
  then obtain q where q: "set_params params ?p = (True, q)" "\<forall>name. map_find (args q) name =
    (case map_find params name of None \<Rightarrow> map_find (args ?p) name
     | Some s \<Rightarrow> map_option (\<lambda>x. Argument_SetValue (value_for (arg_type x) s) x) (map_find (args ?p) name))"
    using Cons(1) [of ?p] Cons(2) by auto
  have "map_find (args q) name =
    (case map_find ((k, s) # params) name of None \<Rightarrow> map_find (args p) name
     | Some s \<Rightarrow> map_option (\<lambda>x. Argument_SetValue (value_for (arg_type x) s) x) (map_find (args p) name))" for name
    using q(2) [rule_format, of name] n x by (auto split: option.splits if_splits)
  with q(1) x a show ?case by simp
qed simp

text \<open>What \<open>Parse\<close> makes of a rendered command line: the last setting of an argument wins.\<close>

definition argument_after :: "(string \<times> string) list \<Rightarrow> string \<Rightarrow> Argument \<Rightarrow> Argument" where
  "argument_after kvs name x =
     (case map_of (rev kvs) name of None \<Rightarrow> x | Some s \<Rightarrow> Argument_SetValue (value_for (arg_type x) s) x)"

lemma ValidateRequired_iff:
  "map_ok (args p) \<Longrightarrow> ValidateRequired p \<longleftrightarrow> (\<forall>name x. map_find (args p) name = Some x \<longrightarrow> arg_required x \<longrightarrow> arg_isSet x)"
proof -
  assume "map_ok (args p)"
  then have "distinct (map fst (args p))" by (simp add: strict_sorted_iff)
  then have "(name, x) \<in> set (args p) \<longleftrightarrow> map_find (args p) name = Some x" for name x by (simp add: map_find_map_of)
  then show ?thesis unfolding ValidateRequired_def list_all_iff by fast
qed

lemma Parse_items:
  assumes "parser_ok p" and "\<forall>x \<in> set items. item_ok p x" and "length (filter (\<lambda>x. \<exists>s. x = Position s) items) \<le> length (anonymouse p)"
    and "Parse (cmd # concat (map render items)) p = (b, q)"
  shows "\<forall>name. map_find (args q) name = map_option (argument_after (settings p 0 items) name) (map_find (args p) name)"
    and "b \<longleftrightarrow> (\<forall>name x. map_find (args p) name = Some x \<longrightarrow> arg_required x \<longrightarrow> arg_isSet x \<or> name \<in> fst ` set (settings p 0 items))"
proof -
  let ?kvs = "settings p 0 items"
  have a: "parse_args p 0 (concat (map render items)) [] = Some (set_all ?kvs [])"
    using parse_args_items [OF assms(2), of 0 "[]"] assms(3) by simp
  have "\<forall>(k, v) \<in> set ?kvs. map_find (args p) k \<noteq> None" using settings_named [OF assms(1,2), of 0] assms(3) by simp
  then have n: "k \<in> fst ` set ?kvs \<Longrightarrow> map_find (args p) k \<noteq> None" for k by auto
  have s: "(k, s) \<in> set (set_all ?kvs []) \<Longrightarrow> k \<in> fst ` set ?kvs" for k s
    using map_find_None_iff [of "set_all ?kvs []" k] set_all_find [of ?kvs "[]" k]
    by (force split: option.splits dest!: map_of_SomeD)
  have "\<forall>(k, s) \<in> set (set_all ?kvs []). map_find (args p) k \<noteq> None" using n s by fast
  then obtain q' where q': "set_params (set_all ?kvs []) p = (True, q')" "\<And>name. map_find (args q') name =
    (case map_find (set_all ?kvs []) name of None \<Rightarrow> map_find (args p) name
     | Some s \<Rightarrow> map_option (\<lambda>x. Argument_SetValue (value_for (arg_type x) s) x) (map_find (args p) name))"
    using set_params_find [of "set_all ?kvs []" p] set_all_ok [of "[]"] by auto
  then have q: "q = q'" "b = ValidateRequired q" using assms(4) a by (auto simp: Parse_def)
  show f: "\<forall>name. map_find (args q) name = map_option (argument_after ?kvs name) (map_find (args p) name)"
    using q'(2) unfolding q(1) set_all_find argument_after_def by (auto split: option.splits simp: option.map_ident)
  have "map_ok (args q)" using set_params_ok [OF assms(1) q'(1)] q(1) by (simp add: parser_ok_def)
  then have b: "b \<longleftrightarrow> (\<forall>name x. map_find (args q) name = Some x \<longrightarrow> arg_required x \<longrightarrow> arg_isSet x)" using q(2) by (simp add: ValidateRequired_iff)
  have "arg_required (argument_after ?kvs name x) = arg_required x"
    "arg_isSet (argument_after ?kvs name x) \<longleftrightarrow> arg_isSet x \<or> name \<in> fst ` set ?kvs" for name x
    using map_of_eq_None_iff [of "rev ?kvs" name]
    by (auto simp: argument_after_def Argument_SetValue_def split: option.splits)
  with b f show "b \<longleftrightarrow> (\<forall>name x. map_find (args p) name = Some x \<longrightarrow> arg_required x \<longrightarrow> arg_isSet x \<or> name \<in> fst ` set ?kvs)" by (simp add: all_conj_distrib) blast
qed

end
