(* ===== verification/BlobMap.thy ===== *)
theory BlobMap
  imports Streams
begin

text \<open>
  \<open>bdblob/BlobMetadata\<close> and \<open>bdblob/BlobMap\<close>: the description of a blob, its image on a stream,
  and the map from blob ids to values that lives in a local file. The file only grows: a new value
  is appended and the index of its key moved there. \<open>fileLimit\<close> is the size at which the disk
  under the file is full, so that \<open>fwrite\<close> may be short. Seeking in the file does not fail, and
  memory for a buffer is available.
\<close>

section \<open>Metadata\<close>

record PartitionInfo =
  info_name :: string
  info_provider :: string

record BlobMetadata =
  md_size :: u64
  md_blockSize :: u64
  md_partitions :: "PartitionInfo list"

definition BlobMetadata_new :: BlobMetadata where
  "BlobMetadata_new = \<lparr>md_size = 0, md_blockSize = 0, md_partitions = []\<rparr>"

definition write_info :: "ostream \<Rightarrow> PartitionInfo \<Rightarrow> bool \<times> ostream" where
  "write_info s p = write_seq [\<lambda>s. WriteString s (info_name p), \<lambda>s. WriteString s (info_provider p)] s"

definition Metadata_Serialize :: "ostream \<Rightarrow> BlobMetadata \<Rightarrow> bool \<times> ostream" where
  "Metadata_Serialize s m = write_seq
     [\<lambda>s. WriteUInt64 s (md_size m), \<lambda>s. WriteUInt64 s (md_blockSize m),
      \<lambda>s. WriteUInt32 s (word_of_nat (length (md_partitions m))), write_all write_info (md_partitions m)] s"

definition read_info :: "istream \<Rightarrow> PartitionInfo option \<times> istream" where
  "read_info s =
     (if Remainder s < 4 then (None, s)
      else let (_, name, s1) = ReadString s []
           in if Remainder s1 < 4 then (None, s1)
              else let (_, provider, s2) = ReadString s1 []
                   in (Some \<lparr>info_name = name, info_provider = provider\<rparr>, s2))"

text \<open>The partitions read are appended to those the object already has.\<close>

definition Metadata_Deserialize :: "BlobMetadata \<Rightarrow> istream \<Rightarrow> bool \<times> BlobMetadata \<times> istream" where
  "Metadata_Deserialize m s =
     (if Remainder s < 20 then (False, m, s)
      else let (sz, s1) = ReadUInt64 s; (bsz, s2) = ReadUInt64 s1; (count, s3) = ReadUInt32 s2;
               (ok, infos, s4) = read_times read_info (unat count) s3
           in (ok, \<lparr>md_size = sz, md_blockSize = bsz, md_partitions = md_partitions m @ infos\<rparr>, s4))"

definition Metadata_GetSerializedSize :: "BlobMetadata \<Rightarrow> nat" where
  "Metadata_GetSerializedSize m =
     20 + sum_list (map (\<lambda>p. (4 + length (info_name p)) + (4 + length (info_provider p))) (md_partitions m))"

definition AddPartition :: "BlobMetadata \<Rightarrow> string \<Rightarrow> string \<Rightarrow> BlobMetadata" where
  "AddPartition m name provider =
     m\<lparr>md_partitions := md_partitions m @ [\<lparr>info_name = name, info_provider = provider\<rparr>]\<rparr>"

section \<open>The map\<close>

record Index =
  ix_offset :: nat
  ix_size :: nat

record BlobMap =
  mapFile :: "byte list option"
  mapFilename :: string
  indexes :: "(string, Index) stdmap"
  fileLimit :: nat

definition BlobMap_new :: "nat \<Rightarrow> BlobMap" where
  "BlobMap_new limit = \<lparr>mapFile = None, mapFilename = [], indexes = [], fileLimit = limit\<rparr>"

text \<open>\<open>can_open\<close> tells whether \<open>fopen(path, "wb+")\<close> succeeds.\<close>

definition BlobMap_Initialize :: "bool \<Rightarrow> BlobMap \<Rightarrow> string \<Rightarrow> bool \<times> BlobMap" where
  "BlobMap_Initialize can_open bm path =
     (if mapFile bm \<noteq> None \<or> path = [] then (False, bm)
      else if \<not> can_open then (False, bm)
      else (True, bm\<lparr>mapFile := Some [], mapFilename := path\<rparr>))"

text \<open>An empty list is the empty \<open>Buffer\<close>.\<close>

definition GetValue :: "BlobMap \<Rightarrow> string \<Rightarrow> byte list" where
  "GetValue bm key =
     (case mapFile bm of
        None \<Rightarrow> []
      | Some f \<Rightarrow>
          if key = [] then []
          else (case map_find (indexes bm) key of
                  None \<Rightarrow> []
                | Some ix \<Rightarrow>
                    if ix_size ix = 0 then []
                    else let result = peek (ix_offset ix) (ix_size ix) f
                         in if length result < ix_size ix then [] else result))"

definition SetValue :: "BlobMap \<Rightarrow> string \<Rightarrow> byte list \<Rightarrow> BlobMap" where
  "SetValue bm key data =
     (case mapFile bm of
        None \<Rightarrow> bm
      | Some f \<Rightarrow>
          if key = [] \<or> data = [] then bm
          else if GetValue bm key = data then bm
          else let n = min (length data) (fileLimit bm - length f);
                   bm1 = bm\<lparr>mapFile := Some (f @ take n data)\<rparr>
               in if n < length data then bm1
                  else bm1\<lparr>indexes := map_put key \<lparr>ix_offset = length f, ix_size = n\<rparr> (indexes bm1)\<rparr>)"

definition SetMetadata :: "BlobMap \<Rightarrow> string \<Rightarrow> BlobMetadata \<Rightarrow> BlobMap" where
  "SetMetadata bm key m =
     (let (ok, s) = Metadata_Serialize BufferedOutputStream m
      in if ok then SetValue bm key (take (ooffset s) (obuffer s)) else bm)"

definition GetMetadata :: "BlobMap \<Rightarrow> string \<Rightarrow> BlobMetadata \<Rightarrow> bool \<times> BlobMetadata" where
  "GetMetadata bm key m =
     (let buffer = GetValue bm key
      in if buffer = [] then (False, m)
         else let (ok, m', _) = Metadata_Deserialize m (BufferedInputStream buffer (length buffer)) in (ok, m'))"

definition HasKey :: "BlobMap \<Rightarrow> string \<Rightarrow> bool" where
  "HasKey bm key \<longleftrightarrow> map_find (indexes bm) key \<noteq> None"

section \<open>The image of metadata\<close>

definition enc_info :: "PartitionInfo \<Rightarrow> byte list" where
  "enc_info p = enc_string (info_name p) @ enc_string (info_provider p)"

definition valid_info :: "PartitionInfo \<Rightarrow> bool" where
  "valid_info p \<longleftrightarrow> length (info_name p) < 2 ^ 32 \<and> length (info_provider p) < 2 ^ 32"

definition enc_metadata :: "BlobMetadata \<Rightarrow> byte list" where
  "enc_metadata m = enc_be (md_size m) @ enc_be (md_blockSize m) @
     enc_be (word_of_nat (length (md_partitions m)) :: u32) @ concat (map enc_info (md_partitions m))"

definition valid_metadata :: "BlobMetadata \<Rightarrow> bool" where
  "valid_metadata m \<longleftrightarrow> length (md_partitions m) < 2 ^ 32 \<and> (\<forall>p \<in> set (md_partitions m). valid_info p)"

definition read_metadata :: "istream \<Rightarrow> BlobMetadata option \<times> istream" where
  "read_metadata s = (let (ok, m, s') = Metadata_Deserialize BlobMetadata_new s in (if ok then Some m else None, s'))"

lemma Remainder_prefix: "istream_inv s \<Longrightarrow> unread s = bs @ rest \<Longrightarrow> \<not> Remainder s < length bs"
  by (simp add: Remainder_unread)

lemma ReadUInt32_parses:
  assumes "istream_inv s" and "isValid s" and "unread s = enc_be w @ rest"
  obtains s' where "ReadUInt32 s = (w, s')" and "istream_inv s'" and "isValid s'" and "unread s' = rest"
proof -
  obtain s' where "read_some ReadUInt32 s = (Some w, s')" "istream_inv s'" "isValid s'" "unread s' = rest"
    by (rule parsesD [OF u32.rd_parses assms]) simp
  then show ?thesis using that by (auto simp: read_some_def split: prod.splits)
qed

lemma ReadUInt64_parses:
  assumes "istream_inv s" and "isValid s" and "unread s = enc_be w @ rest"
  obtains s' where "ReadUInt64 s = (w, s')" and "istream_inv s'" and "isValid s'" and "unread s' = rest"
proof -
  obtain s' where "read_some ReadUInt64 s = (Some w, s')" "istream_inv s'" "isValid s'" "unread s' = rest"
    by (rule parsesD [OF u64.rd_parses assms]) simp
  then show ?thesis using that by (auto simp: read_some_def split: prod.splits)
qed

interpretation info: codec enc_info write_info read_info valid_info
proof
  fix p assume v: "valid_info p"
  have "emits (write_seq [\<lambda>s. WriteString s (info_name p), \<lambda>s. WriteString s (info_provider p)])
      (enc_string (info_name p) @ enc_string (info_provider p) @ [])"
    by (intro emits_Cons emits_Nil emits_WriteString)
  then show "emits (\<lambda>s. write_info s p) (enc_info p)" by (simp add: write_info_def enc_info_def del: write_seq.simps)
  show "parses read_info (enc_info p) p"
    unfolding parses_def
  proof (intro allI impI)
    fix s rest assume s: "istream_inv s" "isValid s" "unread s = enc_info p @ rest"
    then have u: "unread s = enc_string (info_name p) @ enc_string (info_provider p) @ rest" by (simp add: enc_info_def)
    obtain s1 where s1: "ReadString s [] = (4 + length (info_name p), info_name p, s1)" "istream_inv s1" "isValid s1"
        "unread s1 = enc_string (info_provider p) @ rest"
      using ReadString_spec [OF _ s(1,2) u] v by (auto simp: valid_info_def)
    obtain s2 where s2: "ReadString s1 [] = (4 + length (info_provider p), info_provider p, s2)" "istream_inv s2" "isValid s2"
        "unread s2 = rest"
      using ReadString_spec [OF _ s1(2-4)] v by (auto simp: valid_info_def)
    have "\<not> Remainder s < 4" "\<not> Remainder s1 < 4"
      using Remainder_prefix [OF s(1) u] Remainder_prefix [OF s1(2,4)] by simp_all
    then have "read_info s = (Some p, s2)" using s1(1) s2(1) by (simp add: read_info_def)
    with s2 show "fst (read_info s) = Some p \<and> istream_inv (snd (read_info s)) \<and> isValid (snd (read_info s)) \<and> unread (snd (read_info s)) = rest"
      by simp
  qed
qed

lemma length_enc_metadata: "length (enc_metadata m) = Metadata_GetSerializedSize m"
proof -
  have "length (concat (map enc_info ps)) = sum_list (map (\<lambda>p. (4 + length (info_name p)) + (4 + length (info_provider p))) ps)" for ps
    by (induction ps) (simp_all add: enc_info_def)
  then show ?thesis by (simp add: enc_metadata_def Metadata_GetSerializedSize_def)
qed

lemma enc_metadata_nonempty [simp]: "enc_metadata m \<noteq> []"
  using length_enc_metadata [of m] by (auto simp: Metadata_GetSerializedSize_def)

lemma Metadata_Deserialize_spec:
  assumes v: "valid_metadata x" and s: "istream_inv s" "isValid s" "unread s = enc_metadata x @ rest"
  shows "\<exists>s'. Metadata_Deserialize m s = (True, x\<lparr>md_partitions := md_partitions m @ md_partitions x\<rparr>, s') \<and>
    istream_inv s' \<and> isValid s' \<and> unread s' = rest"
proof -
  let ?n = "word_of_nat (length (md_partitions x)) :: u32"
  have u: "unread s = enc_be (md_size x) @ enc_be (md_blockSize x) @ enc_be ?n @ concat (map enc_info (md_partitions x)) @ rest"
    using s(3) by (simp add: enc_metadata_def)
  obtain s1 where s1: "ReadUInt64 s = (md_size x, s1)" "istream_inv s1" "isValid s1"
      "unread s1 = enc_be (md_blockSize x) @ enc_be ?n @ concat (map enc_info (md_partitions x)) @ rest"
    by (rule ReadUInt64_parses [OF s(1,2) u])
  obtain s2 where s2: "ReadUInt64 s1 = (md_blockSize x, s2)" "istream_inv s2" "isValid s2"
      "unread s2 = enc_be ?n @ concat (map enc_info (md_partitions x)) @ rest"
    by (rule ReadUInt64_parses [OF s1(2-4)])
  obtain s3 where s3: "ReadUInt32 s2 = (?n, s3)" "istream_inv s3" "isValid s3" "unread s3 = concat (map enc_info (md_partitions x)) @ rest"
    by (rule ReadUInt32_parses [OF s2(2-4)])
  have n: "unat ?n = length (md_partitions x)" using v by (simp add: valid_metadata_def unat_of_nat)
  obtain s4 where s4: "read_times read_info (length (md_partitions x)) s3 = (True, md_partitions x, s4)"
      "istream_inv s4" "isValid s4" "unread s4 = rest"
    using info.times_parses [OF _ s3(2-4)] v by (auto simp: valid_metadata_def)
  have "\<not> Remainder s < 20"
    using Remainder_prefix [OF s(1,3)] by (simp add: length_enc_metadata Metadata_GetSerializedSize_def)
  then have "Metadata_Deserialize m s = (True, x\<lparr>md_partitions := md_partitions m @ md_partitions x\<rparr>, s4)"
    using s1(1) s2(1) s3(1) s4(1) n by (simp add: Metadata_Deserialize_def)
  with s4 show ?thesis by blast
qed

interpretation metadata: codec enc_metadata Metadata_Serialize read_metadata valid_metadata
proof
  fix x assume v: "valid_metadata x"
  have "emits (write_seq [\<lambda>s. WriteUInt64 s (md_size x), \<lambda>s. WriteUInt64 s (md_blockSize x),
      \<lambda>s. WriteUInt32 s (word_of_nat (length (md_partitions x))), write_all write_info (md_partitions x)])
    (enc_be (md_size x) @ enc_be (md_blockSize x) @ enc_be (word_of_nat (length (md_partitions x)) :: u32) @
      concat (map enc_info (md_partitions x)) @ [])"
    using v by (intro emits_Cons emits_Nil u64.wr_emits u32.wr_emits info.all_emits) (simp_all add: valid_metadata_def)
  then show "emits (\<lambda>s. Metadata_Serialize s x) (enc_metadata x)" by (simp add: Metadata_Serialize_def enc_metadata_def del: write_seq.simps)
  show "parses read_metadata (enc_metadata x) x"
    unfolding parses_def
  proof (intro allI impI)
    fix s rest assume "istream_inv s" "isValid s" "unread s = enc_metadata x @ rest"
    from Metadata_Deserialize_spec [OF v this, of BlobMetadata_new]
    show "fst (read_metadata s) = Some x \<and> istream_inv (snd (read_metadata s)) \<and> isValid (snd (read_metadata s)) \<and>
        unread (snd (read_metadata s)) = rest"
      by (auto simp: read_metadata_def BlobMetadata_new_def)
  qed
qed


section \<open>The laws of a map of values\<close>

text \<open>
  What the users of the map rely on: a value that fits is found again under its key, other keys
  keep theirs, and storing a value takes at most its length of the room that is left.
\<close>

locale value_map =
  fixes get :: "'s \<Rightarrow> string \<Rightarrow> byte list"
    and put :: "'s \<Rightarrow> string \<Rightarrow> byte list \<Rightarrow> 's"
    and ok :: "'s \<Rightarrow> bool"
    and room :: "'s \<Rightarrow> nat"
  assumes put_ok: "ok s \<Longrightarrow> ok (put s k d)"
    and get_put_other: "ok s \<Longrightarrow> j \<noteq> k \<Longrightarrow> get (put s k d) j = get s j"
    and get_put_same: "ok s \<Longrightarrow> k \<noteq> [] \<Longrightarrow> d \<noteq> [] \<Longrightarrow> length d \<le> room s \<Longrightarrow> get (put s k d) k = d"
    and room_put: "ok s \<Longrightarrow> room s \<le> room (put s k d) + length d"
begin

definition put_all :: "(string \<times> byte list) list \<Rightarrow> 's \<Rightarrow> 's" where
  "put_all kds s = fold (\<lambda>(k, d) s. put s k d) kds s"

lemma put_all_ok: "ok s \<Longrightarrow> ok (put_all kds s)"
  by (induction kds arbitrary: s) (auto simp: put_all_def put_ok)

lemma put_all_room: "ok s \<Longrightarrow> room s \<le> room (put_all kds s) + sum_list (map (\<lambda>kd. length (snd kd)) kds)"
proof (induction kds arbitrary: s)
  case (Cons kd kds)
  obtain k d where kd: "kd = (k, d)" by (rule prod.exhaust)
  have "room s \<le> room (put s k d) + length d" by (rule room_put [OF Cons.prems])
  moreover have "room (put s k d) \<le> room (put_all kds (put s k d)) + sum_list (map (\<lambda>kd. length (snd kd)) kds)"
    by (rule Cons.IH [OF put_ok [OF Cons.prems]])
  ultimately show ?case by (simp add: put_all_def kd)
qed (simp add: put_all_def)

lemma get_put_all_other: "ok s \<Longrightarrow> k \<notin> fst ` set kds \<Longrightarrow> get (put_all kds s) k = get s k"
proof (induction kds arbitrary: s)
  case (Cons kd kds)
  obtain j d where kd: "kd = (j, d)" by (rule prod.exhaust)
  show ?case using Cons.IH [OF put_ok [OF Cons.prems(1)], of j d] get_put_other [OF Cons.prems(1), of k j d] Cons.prems(2)
    by (simp add: put_all_def kd)
qed (simp add: put_all_def)

lemma get_put_all:
  assumes "ok s" and "(k, d) \<in> set kds" and "k \<noteq> []" and "d \<noteq> []" and "sum_list (map (\<lambda>kd. length (snd kd)) kds) \<le> room s"
    and "\<forall>d'. (k, d') \<in> set kds \<longrightarrow> d' = d"
  shows "get (put_all kds s) k = d"
  using assms
proof (induction kds arbitrary: s)
  case (Cons kd kds)
  obtain j e where kd: "kd = (j, e)" by (rule prod.exhaust)
  have ok: "ok (put s j e)" by (rule put_ok [OF Cons.prems(1)])
  show ?case
  proof (cases "k \<in> fst ` set kds")
    case True
    then have "(k, d) \<in> set kds" using Cons.prems(6) by (auto simp: kd)
    moreover have "sum_list (map (\<lambda>kd. length (snd kd)) kds) \<le> room (put s j e)"
      using room_put [OF Cons.prems(1), of j e] Cons.prems(5) by (simp add: kd)
    moreover have "\<forall>d'. (k, d') \<in> set kds \<longrightarrow> d' = d" using Cons.prems(6) by simp
    ultimately have "get (put_all kds (put s j e)) k = d" by (rule Cons.IH [OF ok _ Cons.prems(3,4)])
    then show ?thesis by (simp add: put_all_def kd)
  next
    case False
    then have e: "j = k" "e = d" using Cons.prems(2) by (force simp: kd)+
    then have "get (put s j e) k = d" using Cons.prems(3-5) by (simp add: get_put_same [OF Cons.prems(1)] kd)
    then show ?thesis using get_put_all_other [OF ok False] by (simp add: put_all_def kd)
  qed
qed simp

end

section \<open>The blob map keeps the laws\<close>

definition map_inv :: "BlobMap \<Rightarrow> bool" where
  "map_inv bm \<longleftrightarrow> map_ok (indexes bm) \<and>
     (\<exists>f. mapFile bm = Some f \<and> length f \<le> fileLimit bm \<and>
        (\<forall>k ix. map_find (indexes bm) k = Some ix \<longrightarrow> k \<noteq> [] \<and> ix_size ix > 0 \<and> ix_offset ix + ix_size ix \<le> length f))"

definition map_room :: "BlobMap \<Rightarrow> nat" where
  "map_room bm = (case mapFile bm of None \<Rightarrow> 0 | Some f \<Rightarrow> fileLimit bm - length f)"

lemma map_inv_Initialize: "BlobMap_Initialize True (BlobMap_new limit) path = (True, bm) \<Longrightarrow> map_inv bm"
  by (auto simp: BlobMap_Initialize_def BlobMap_new_def map_inv_def split: if_splits)

text \<open>What \<open>SetValue\<close> does to a well-formed map.\<close>

lemma SetValue_cases:
  assumes "map_inv bm"
  obtains "SetValue bm key d = bm" and "key = [] \<or> d = [] \<or> GetValue bm key = d"
  | f where "mapFile bm = Some f" and "length d > map_room bm" and "SetValue bm key d = bm\<lparr>mapFile := Some (f @ take (map_room bm) d)\<rparr>"
  | f where "mapFile bm = Some f" and "key \<noteq> []" and "d \<noteq> []" and "length d \<le> map_room bm"
      and "SetValue bm key d = bm\<lparr>mapFile := Some (f @ d), indexes := map_put key \<lparr>ix_offset = length f, ix_size = length d\<rparr> (indexes bm)\<rparr>"
proof -
  obtain f where f: "mapFile bm = Some f" using assms by (auto simp: map_inv_def)
  show ?thesis
  proof (cases "key = [] \<or> d = [] \<or> GetValue bm key = d")
    case True
    then show ?thesis using that(1) f by (auto simp: SetValue_def)
  next
    case False
    show ?thesis
    proof (cases "length d \<le> map_room bm")
      case True
      with False f show ?thesis by (intro that(3)) (auto simp: SetValue_def map_room_def min_def)
    next
      case long: False
      with False f show ?thesis by (intro that(2)) (auto simp: SetValue_def map_room_def min_def)
    qed
  qed
qed

lemma GetValue_grown:
  assumes "map_inv bm" and "mapFile bm = Some f"
  shows "GetValue (bm\<lparr>mapFile := Some (f @ g)\<rparr>) k = GetValue bm k"
proof (cases "map_find (indexes bm) k")
  case (Some ix)
  then have "ix_offset ix + ix_size ix \<le> length f" using assms by (auto simp: map_inv_def)
  then have "peek (ix_offset ix) (ix_size ix) (f @ g) = peek (ix_offset ix) (ix_size ix) f" by (simp add: peek_def)
  then show ?thesis using assms(2) Some by (simp add: GetValue_def)
qed (use assms(2) in \<open>simp add: GetValue_def\<close>)

lemma GetValue_indexed:
  assumes "map_inv bm" and "mapFile bm = Some f" and "k \<noteq> []" and "d \<noteq> []"
  shows "GetValue (bm\<lparr>mapFile := Some (f @ d), indexes := map_put k \<lparr>ix_offset = length f, ix_size = length d\<rparr> (indexes bm)\<rparr>) j =
    (if j = k then d else GetValue bm j)"
proof (cases "j = k")
  case True
  then show ?thesis using assms(3,4) by (simp add: GetValue_def peek_def)
next
  case False
  then show ?thesis using GetValue_grown [OF assms(1,2), of d j] assms(2) by (auto simp: GetValue_def)
qed

lemma map_inv_SetValue: "map_inv bm \<Longrightarrow> map_inv (SetValue bm key d)"
proof -
  assume i: "map_inv bm"
  then show ?thesis
  proof (cases rule: SetValue_cases [OF i, of key d])
    case (2 f)
    then show ?thesis using i by (fastforce simp: map_inv_def map_room_def)
  next
    case (3 f)
    then show ?thesis using i by (fastforce simp: map_inv_def map_room_def split: if_splits)
  qed simp
qed

interpretation blob_map: value_map GetValue SetValue map_inv map_room
proof
  fix bm :: BlobMap and k j :: string and d :: "byte list"
  assume i: "map_inv bm"
  show "map_inv (SetValue bm k d)" by (rule map_inv_SetValue [OF i])
  show "GetValue (SetValue bm k d) j = GetValue bm j" if "j \<noteq> k"
    by (cases rule: SetValue_cases [OF i, of k d])
      (use that GetValue_grown [OF i] GetValue_indexed [OF i] in simp_all)
  show "GetValue (SetValue bm k d) k = d" if "k \<noteq> []" "d \<noteq> []" "length d \<le> map_room bm"
    by (cases rule: SetValue_cases [OF i, of k d]) (use that GetValue_indexed [OF i] in auto)
  show "map_room bm \<le> map_room (SetValue bm k d) + length d"
    by (cases rule: SetValue_cases [OF i, of k d]) (auto simp: map_room_def)
qed

lemma SetMetadata_SetValue: "valid_metadata m \<Longrightarrow> SetMetadata bm key m = SetValue bm key (enc_metadata m)"
  using emitsD [OF metadata.wr_emits, of m BufferedOutputStream] BufferedOutputStream_inv
  by (cases "Metadata_Serialize BufferedOutputStream m") (auto simp: SetMetadata_def contents_def [symmetric])

lemma Metadata_parses:
  assumes "valid_metadata m" and "Metadata_GetSerializedSize m < 2 ^ 64"
  shows "\<exists>s. Metadata_Deserialize BlobMetadata_new (BufferedInputStream (enc_metadata m) (length (enc_metadata m))) = (True, m, s)"
proof -
  let ?s = "BufferedInputStream (enc_metadata m) (length (enc_metadata m))"
  have i: "istream_inv ?s" "isValid ?s" "unread ?s = enc_metadata m @ []"
    using assms(2) unfolding length_enc_metadata [symmetric] by simp_all
  have "m\<lparr>md_partitions := md_partitions BlobMetadata_new @ md_partitions m\<rparr> = m" by (simp add: BlobMetadata_new_def)
  with Metadata_Deserialize_spec [OF assms(1) i, of BlobMetadata_new] show ?thesis by auto
qed

lemma GetMetadata_value:
  assumes "valid_metadata m" and "GetValue bm key = enc_metadata m" and "Metadata_GetSerializedSize m < 2 ^ 64"
  shows "GetMetadata bm key BlobMetadata_new = (True, m)"
  using Metadata_parses [OF assms(1,3)] assms(2) by (auto simp: GetMetadata_def)

lemma SetMetadata_stored:
  assumes "map_inv bm" and "key \<noteq> []" and "valid_metadata m" and "Metadata_GetSerializedSize m \<le> map_room bm" and "Metadata_GetSerializedSize m < 2 ^ 64"
  shows "GetMetadata (SetMetadata bm key m) key BlobMetadata_new = (True, m)"
    and "GetValue (SetMetadata bm key m) key = enc_metadata m"
proof -
  show v: "GetValue (SetMetadata bm key m) key = enc_metadata m"
    using blob_map.get_put_same [OF assms(1,2)] assms(4) by (simp add: SetMetadata_SetValue [OF assms(3)] length_enc_metadata)
  show "GetMetadata (SetMetadata bm key m) key BlobMetadata_new = (True, m)" by (rule GetMetadata_value [OF assms(3) v assms(5)])
qed

section \<open>Properties\<close>

text \<open>
  C34. Metadata survive the map: what \<open>SetMetadata\<close> stores under a key while there is room in the
  file, \<open>GetMetadata\<close> returns, the other keys keep their values, and the size the class announces
  is the number of bytes it takes.
\<close>

theorem SetMetadata_GetMetadata:
  assumes "map_inv bm" and "valid_metadata m" and "key \<noteq> []" and "Metadata_GetSerializedSize m \<le> map_room bm"
    and "Metadata_GetSerializedSize m < 2 ^ 64"
  shows "GetMetadata (SetMetadata bm key m) key BlobMetadata_new = (True, m) \<and> map_inv (SetMetadata bm key m) \<and>
    (\<forall>k. k \<noteq> key \<longrightarrow> GetValue (SetMetadata bm key m) k = GetValue bm k) \<and>
    length (GetValue (SetMetadata bm key m) key) = Metadata_GetSerializedSize m"
  using SetMetadata_stored [OF assms(1,3,2,4,5)] blob_map.put_ok [OF assms(1)] blob_map.get_put_other [OF assms(1)]
  by (simp add: SetMetadata_SetValue [OF assms(2)] length_enc_metadata)

theorem SetMetadata_GetMetadata_witness:
  "GetMetadata (SetMetadata \<lparr>mapFile = Some [7], mapFilename = ''m'', indexes = [], fileLimit = 100\<rparr> ''id''
     (AddPartition BlobMetadata_new ''p'' ''host'')) ''id'' BlobMetadata_new = (True, AddPartition BlobMetadata_new ''p'' ''host'')"
  by (rule SetMetadata_GetMetadata [THEN conjunct1])
    (simp_all add: map_inv_def valid_metadata_def valid_info_def AddPartition_def BlobMetadata_new_def Metadata_GetSerializedSize_def map_room_def)

end
