(* ===== verification/Blob.thy ===== *)
theory Blob
  imports BlobMap
begin

text \<open>
  \<open>bdblob/IBlob.h\<close>, \<open>BlobProvider.h\<close>, \<open>FileBlob\<close>, \<open>FileBlobProvider\<close> and \<open>File\<close>: blobs, the
  provider that keeps them as files of a directory, and the file object on top. A provider is a
  record of its virtual methods over an environment that holds the provider's own store, the blob
  map of the base class, the clock, the local files and the configured root. \<open>uuid_generate\<close> is
  the sequence \<open>uuids\<close> of the store; a file cannot grow beyond \<open>file_limit\<close>, so that \<open>fwrite\<close> may
  be short. A step with undefined behaviour sets \<open>fault\<close>.

  The locale \<open>blob_io\<close> is the contract of an open blob as its users rely on it: what \<open>Read\<close>
  returns is a range of the contents and an accepted \<open>Write\<close> replaces exactly its range.
\<close>

section \<open>Blobs and providers\<close>

record IBlob =
  blob_id :: string
  blob_size :: nat
  blob_opened :: bool

record 'w blob_env =
  disk :: 'w
  blobMap :: "BlobMap option"
  time_now :: u32
  local_files :: "string \<Rightarrow> byte list option"
  local_open :: "string \<Rightarrow> bool"
  local_room :: nat
  root_id :: string
  root_file :: "string option"
  root_metadata :: "byte list option"
  root_open :: bool
  fault :: bool
  stuck :: bool

record 'w BlobProvider =
  NewBlob :: "nat \<Rightarrow> 'w blob_env \<Rightarrow> IBlob option \<times> 'w blob_env"
  OpenBlob :: "string \<Rightarrow> 'w blob_env \<Rightarrow> IBlob option \<times> 'w blob_env"
  DeleteBlob :: "string \<Rightarrow> 'w blob_env \<Rightarrow> 'w blob_env"
  Blob_Read :: "IBlob \<Rightarrow> nat \<Rightarrow> nat \<Rightarrow> 'w blob_env \<Rightarrow> byte list \<times> 'w blob_env"
  Blob_Write :: "IBlob \<Rightarrow> nat \<Rightarrow> byte list \<Rightarrow> 'w blob_env \<Rightarrow> nat \<times> 'w blob_env"

definition InitializeBlobMap :: "bool \<Rightarrow> nat \<Rightarrow> string \<Rightarrow> 'w blob_env \<Rightarrow> bool \<times> 'w blob_env" where
  "InitializeBlobMap can_open limit path e =
     (let (ok, bm) = BlobMap_Initialize can_open (BlobMap_new limit) path in (ok, e\<lparr>blobMap := Some bm\<rparr>))"

section \<open>Blobs as files\<close>

record dir =
  blobs :: "string \<Rightarrow> byte list option"
  dir_exists :: bool
  openable :: "string \<Rightarrow> bool"
  file_limit :: nat
  uuids :: "nat \<Rightarrow> string"
  issued :: nat

definition FileBlob_new :: "string \<Rightarrow> nat \<Rightarrow> dir blob_env \<Rightarrow> IBlob \<times> dir blob_env" where
  "FileBlob_new ident sz e =
     (let d = disk e
      in if openable d ident
         then (\<lparr>blob_id = ident, blob_size = sz, blob_opened = True\<rparr>,
               if blobs d ident = None then e\<lparr>disk := d\<lparr>blobs := (blobs d)(ident := Some [])\<rparr>\<rparr> else e)
         else (\<lparr>blob_id = ident, blob_size = sz, blob_opened = False\<rparr>, e))"

definition FileBlob_Close :: "IBlob \<Rightarrow> IBlob" where
  "FileBlob_Close b = b\<lparr>blob_opened := False\<rparr>"

definition FileBlob_Read :: "IBlob \<Rightarrow> nat \<Rightarrow> nat \<Rightarrow> dir blob_env \<Rightarrow> byte list \<times> dir blob_env" where
  "FileBlob_Read b offset len e =
     (if \<not> blob_opened b \<or> offset > blob_size b then ([], e)
      else let len' = min len (blob_size b - offset);
               f = (case blobs (disk e) (blob_id b) of None \<Rightarrow> [] | Some f \<Rightarrow> f);
               got = peek offset len' f
           in (got @ replicate (len' - length got) 0, e))"

text \<open>
  When the offset is behind the end of the file, the code passes \<open>fileSize - offset\<close>, which wraps
  around, as the number of bytes to write from a one-byte variable.
\<close>

definition FileBlob_Write :: "IBlob \<Rightarrow> nat \<Rightarrow> byte list \<Rightarrow> dir blob_env \<Rightarrow> nat \<times> dir blob_env" where
  "FileBlob_Write b offset data e =
     (if \<not> blob_opened b \<or> offset > blob_size b then (0, e)
      else case blobs (disk e) (blob_id b) of
             None \<Rightarrow> (min (length data) (blob_size b - offset), e)
           | Some f \<Rightarrow>
               if offset > length f then (0, e\<lparr>fault := True\<rparr>)
               else let len = min (length data) (blob_size b - offset);
                        n = min len (file_limit (disk e) - offset)
                    in (n, e\<lparr>disk := (disk e)\<lparr>blobs := (blobs (disk e))(blob_id b \<mapsto> poke offset (take n data) f)\<rparr>\<rparr>))"

definition File_NewBlob :: "nat \<Rightarrow> dir blob_env \<Rightarrow> IBlob option \<times> dir blob_env" where
  "File_NewBlob sz e =
     (let ident = uuids (disk e) (issued (disk e));
          e1 = e\<lparr>disk := (disk e)\<lparr>issued := Suc (issued (disk e))\<rparr>\<rparr>
      in if \<not> dir_exists (disk e) then (None, e1)
         else case blobMap e1 of
                None \<Rightarrow> (None, e1)
              | Some bm \<Rightarrow>
                  let e2 = e1\<lparr>blobMap := Some (SetMetadata bm ident (BlobMetadata_new\<lparr>md_size := word_of_nat sz\<rparr>))\<rparr>;
                      d = disk e2;
                      e3 = (if openable d ident
                            then e2\<lparr>disk := d\<lparr>blobs := (blobs d)(ident \<mapsto> replicate (min sz (file_limit d)) 0)\<rparr>\<rparr>
                            else e2);
                      (b, e4) = FileBlob_new ident sz e3
                  in (Some b, e4))"

definition File_OpenBlob :: "string \<Rightarrow> dir blob_env \<Rightarrow> IBlob option \<times> dir blob_env" where
  "File_OpenBlob ident e =
     (case blobMap e of
        None \<Rightarrow> (None, e)
      | Some bm \<Rightarrow>
          (case GetMetadata bm ident BlobMetadata_new of
             (False, _) \<Rightarrow> (None, e)
           | (True, m) \<Rightarrow>
               let (b, e1) = FileBlob_new ident (unat (md_size m)) e
               in (if blob_opened b then (Some b, e1) else (None, e1))))"

definition File_DeleteBlob :: "string \<Rightarrow> dir blob_env \<Rightarrow> dir blob_env" where
  "File_DeleteBlob ident e = e\<lparr>disk := (disk e)\<lparr>blobs := (blobs (disk e))(ident := None)\<rparr>\<rparr>"

definition FileBlobProvider :: "dir BlobProvider" where
  "FileBlobProvider =
     \<lparr>NewBlob = File_NewBlob, OpenBlob = File_OpenBlob, DeleteBlob = File_DeleteBlob,
      Blob_Read = FileBlob_Read, Blob_Write = FileBlob_Write\<rparr>"

lemma provider_methods:
  "NewBlob FileBlobProvider = File_NewBlob" "OpenBlob FileBlobProvider = File_OpenBlob" "DeleteBlob FileBlobProvider = File_DeleteBlob"
  "Blob_Read FileBlobProvider = FileBlob_Read" "Blob_Write FileBlobProvider = FileBlob_Write"
  by (simp_all add: FileBlobProvider_def)

section \<open>Files\<close>

record File =
  f_id :: string
  f_blob :: "IBlob option"
  f_size :: nat

definition File_new :: File where
  "File_new = \<lparr>f_id = [], f_blob = None, f_size = 0\<rparr>"

definition IsOpened :: "File \<Rightarrow> bool" where
  "IsOpened f \<longleftrightarrow> f_blob f \<noteq> None"

text \<open>The capacity is a positive multiple of the block size that covers the size.\<close>

definition file_capacity :: "nat \<Rightarrow> nat \<Rightarrow> nat" where
  "file_capacity bs sz = wrap64 ((sub64 (if sz = 0 then 1 else sz) 1 div bs + 1) * bs)"

definition File_Open_new :: "'w BlobProvider \<Rightarrow> nat \<Rightarrow> File \<Rightarrow> nat \<Rightarrow> 'w blob_env \<Rightarrow> bool \<times> File \<times> 'w blob_env" where
  "File_Open_new Pr bs f sz e =
     (if IsOpened f then (False, f, e)
      else case NewBlob Pr (file_capacity bs (f_size f)) e of
             (None, e1) \<Rightarrow> (False, f\<lparr>f_blob := None\<rparr>, e1)
           | (Some b, e1) \<Rightarrow> (True, \<lparr>f_id = blob_id b, f_blob = Some b, f_size = sz\<rparr>, e1))"

definition File_Open :: "'w BlobProvider \<Rightarrow> File \<Rightarrow> string \<Rightarrow> nat \<Rightarrow> 'w blob_env \<Rightarrow> bool \<times> File \<times> 'w blob_env" where
  "File_Open Pr f ident sz e =
     (if IsOpened f then (False, f, e)
      else case OpenBlob Pr ident e of
             (None, e1) \<Rightarrow> (False, f, e1)
           | (Some b, e1) \<Rightarrow>
               if blob_size b < sz then (False, f, e1)
               else (True, \<lparr>f_id = ident, f_blob = Some b, f_size = sz\<rparr>, e1))"

definition File_Read :: "(nat \<Rightarrow> nat \<Rightarrow> 's \<Rightarrow> byte list \<times> 's) \<Rightarrow> File \<Rightarrow> nat \<Rightarrow> nat \<Rightarrow> 's \<Rightarrow> byte list \<times> 's" where
  "File_Read rd f offset len s =
     (if \<not> IsOpened f then ([], s)
      else let start = min offset (f_size f); stop = min (wrap64 (offset + len)) (f_size f)
           in if stop \<le> start then ([], s) else rd start (stop - start) s)"

definition File_Write :: "(nat \<Rightarrow> byte list \<Rightarrow> 's \<Rightarrow> nat \<times> 's) \<Rightarrow> nat \<Rightarrow> File \<Rightarrow> nat \<Rightarrow> byte list \<Rightarrow> 's \<Rightarrow> nat \<times> File \<times> 's" where
  "File_Write wr bs f offset data s =
     (if \<not> IsOpened f then (0, f, s)
      else let capacity = file_capacity bs (f_size f);
               start = min offset capacity; stop = min (wrap64 (offset + length data)) capacity
           in if stop \<le> start then (0, f, s)
              else let (result, s1) = wr start (take (stop - start) data) s
                   in (result, (if f_size f < start + result then f\<lparr>f_size := start + result\<rparr> else f), s1))"

definition File_Close :: "File \<Rightarrow> File" where
  "File_Close f = f\<lparr>f_blob := None\<rparr>"

section \<open>Copying a local file into a blob and back\<close>

text \<open>
  The loops of \<open>BlobApi::Put\<close> and \<open>BlobApi::Get\<close>: \<open>put_loop\<close> gives \<open>totalBytes\<close>, \<open>get_loop\<close> the
  bytes written to the local file. \<open>quota\<close> is what the local disk still takes.
\<close>

function put_loop :: "(nat \<Rightarrow> byte list \<Rightarrow> 's \<Rightarrow> nat \<times> 's) \<Rightarrow> nat \<Rightarrow> byte list \<Rightarrow> nat \<Rightarrow> nat \<Rightarrow> 's \<Rightarrow> nat \<times> 's" where
  "put_loop wr bs rest offset sofar s =
     (let chunk = take bs rest
      in if length chunk = 0 then (sofar, s)
         else let (n, s1) = wr offset chunk s
              in if n < length chunk then (sofar, s1)
                 else put_loop wr bs (drop bs rest) (offset + length chunk) (sofar + length chunk) s1)"
  by pat_completeness auto
termination
  by (relation "measure (\<lambda>(_, _, rest, _, _, _). length rest)") auto

function get_loop :: "(nat \<Rightarrow> nat \<Rightarrow> 's \<Rightarrow> byte list \<times> 's) \<Rightarrow> nat \<Rightarrow> nat \<Rightarrow> nat \<Rightarrow> nat \<Rightarrow> 's \<Rightarrow> byte list \<times> 's" where
  "get_loop rd bs quota offset remaining s =
     (if remaining = 0 then ([], s)
      else let (got, s1) = rd offset bs s
           in if got = [] then ([], s1)
              else let bytes = take remaining got
                   in if quota < length bytes then (take quota bytes, s1)
                      else let (out, s2) = get_loop rd bs (quota - length bytes) (offset + length bytes) (remaining - length bytes) s1
                           in (bytes @ out, s2))"
  by pat_completeness auto
termination
  by (relation "measure (\<lambda>(_, _, _, _, remaining, _). remaining)") (auto simp: min_def)

declare put_loop.simps [simp del] get_loop.simps [simp del]

lemma peek_length: "peek off (length (peek off m xs)) xs = peek off m xs"
  by (cases "m \<le> length xs - off") (auto simp: peek_def min_def)

lemma take_peek: "take k (peek off m xs) = peek off (min k m) xs"
  by (simp add: peek_def)

section \<open>The contract of an open blob\<close>

locale blob_io =
  fixes rd :: "nat \<Rightarrow> nat \<Rightarrow> 's \<Rightarrow> byte list \<times> 's"
    and wr :: "nat \<Rightarrow> byte list \<Rightarrow> 's \<Rightarrow> nat \<times> 's"
    and content :: "'s \<Rightarrow> byte list"
    and ok :: "'s \<Rightarrow> bool"
  assumes write_bound: "ok s \<Longrightarrow> wr off d s = (k, s') \<Longrightarrow> k \<le> length d"
    and read_ok: "ok s \<Longrightarrow> rd off n s = (d, s') \<Longrightarrow> ok s' \<and> content s' = content s"
    and read_range: "ok s \<Longrightarrow> rd off n s = (d, s') \<Longrightarrow> d \<noteq> [] \<Longrightarrow> d = peek off (length d) (content s) \<and> length d \<le> n"
    and write_ok: "ok s \<Longrightarrow> wr off d s = (k, s') \<Longrightarrow> ok s' \<and> length (content s') = length (content s)"
    and write_range: "ok s \<Longrightarrow> wr off d s = (k, s') \<Longrightarrow> k = length d \<Longrightarrow> d \<noteq> [] \<Longrightarrow>
      off + length d \<le> length (content s) \<and> content s' = poke off d (content s)"
begin

text \<open>A copy that reports all bytes has put them into the blob.\<close>

lemma put_loop_stores:
  assumes "put_loop wr bs rest off sofar s = (t, s')" and "ok s" and "t = sofar + length rest" and "bs > 0" and "rest \<noteq> []"
  shows "ok s' \<and> off + length rest \<le> length (content s) \<and> content s' = poke off rest (content s)"
  using assms
proof (induction "length rest" arbitrary: rest off sofar s t s' rule: less_induct)
  case less
  let ?c = "take bs rest" and ?r = "drop bs rest"
  obtain n s1 where w: "wr off ?c s = (n, s1)" by (rule prod.exhaust)
  have c: "?c \<noteq> []" using less.prems by auto
  have n: "\<not> n < length ?c" using less.prems w by (auto simp: put_loop.simps [of _ _ rest])
  then have l: "put_loop wr bs ?r (off + length ?c) (sofar + length ?c) s1 = (t, s')"
    using less.prems(1) w c by (auto simp: put_loop.simps [of _ _ rest])
  have "n = length ?c" using write_bound [OF less.prems(2) w] n by linarith
  then have w1: "off + length ?c \<le> length (content s)" "content s1 = poke off ?c (content s)" "ok s1" "length (content s1) = length (content s)"
    using write_range [OF less.prems(2) w _ c] write_ok [OF less.prems(2) w] by auto
  show ?case
  proof (cases "?r = []")
    case True
    then have "put_loop wr bs [] (off + length ?c) (sofar + length ?c) s1 = (t, s')" using l by simp
    then have "s' = s1" by (simp add: put_loop.simps)
    moreover have "?c = rest" using True by simp
    ultimately show ?thesis using w1 by simp
  next
    case False
    have "t = sofar + length ?c + length ?r" using less.prems(3) by simp
    then have i: "ok s' \<and> off + length ?c + length ?r \<le> length (content s1) \<and> content s' = poke (off + length ?c) ?r (content s1)"
      by (intro less.hyps [OF _ l w1(3) _ less.prems(4) False]) (use c in auto)
    moreover have p: "poke (off + length ?c) ?r (poke off ?c (content s)) = poke off rest (content s)"
      using poke_poke_adjacent [of off "content s" ?c ?r] w1(1) by simp
    moreover have "length rest = length ?c + length ?r" by simp
    then have "off + length rest \<le> length (content s)" using i w1(4) by linarith
    ultimately show ?thesis using w1(2) by simp
  qed
qed

text \<open>What arrives in the local file is a prefix of the range of the blob.\<close>

lemma get_loop_prefix:
  assumes "get_loop rd bs quota off remaining s = (out, s')" and "ok s"
  shows "ok s' \<and> content s' = content s \<and> length out \<le> remaining \<and> out = peek off (length out) (content s)"
  using assms
proof (induction remaining arbitrary: quota off s out s' rule: less_induct)
  case (less remaining)
  obtain got s1 where r: "rd off bs s = (got, s1)" by (rule prod.exhaust)
  have ok: "ok s1" "content s1 = content s" using read_ok [OF less.prems(2) r] by blast+
  let ?b = "take remaining got"
  consider "remaining = 0" "out = []" "s' = s" | "remaining > 0" "got = []" "out = []" "s' = s1"
    | "remaining > 0" "got \<noteq> []" "quota < length ?b" "out = take quota ?b" "s' = s1"
    | out' where "remaining > 0" "got \<noteq> []" "out = ?b @ out'"
      "get_loop rd bs (quota - length ?b) (off + length ?b) (remaining - length ?b) s1 = (out', s')"
    using less.prems(1) r by (auto simp: get_loop.simps [of _ _ _ _ remaining] Let_def split: if_splits prod.splits)
  then show ?case
  proof cases
    case 3
    then have g: "got = peek off (length got) (content s)" using read_range [OF less.prems(2) r] by blast
    have "out = peek off (length out) (content s)" using 3(4) g peek_length take_peek by metis
    moreover have "length out \<le> remaining" using 3(4) by simp
    ultimately show ?thesis using 3(5) ok by blast
  next
    case 4
    then have g: "got = peek off (length got) (content s)" using read_range [OF less.prems(2) r] by blast
    have i: "ok s'" "content s' = content s1" "length out' \<le> remaining - length ?b" "out' = peek (off + length ?b) (length out') (content s1)"
      using less.IH [OF _ 4(4) ok(1)] 4(1,2) by (auto simp: min_def)
    have "?b = peek off (length ?b) (content s)" using g peek_length take_peek by metis
    then have "out = peek off (length ?b) (content s) @ peek (off + length ?b) (length out') (content s)"
      using 4(3) i(4) ok(2) by metis
    also have "\<dots> = peek off (length ?b + length out') (content s)" unfolding peek_def take_add drop_drop by (simp only: add.commute)
    finally have "out = peek off (length out) (content s)" using peek_length by metis
    moreover have "length out \<le> remaining" using i(3) 4(3) by simp
    ultimately show ?thesis using i(1,2) ok(2) by metis
  qed (use ok less.prems(2) in auto)
qed

text \<open>The file object reads back what it accepted.\<close>

lemma file_write_read:
  assumes "ok s" and "IsOpened f" and "File_Write wr bs f off d s = (length d, f', s1)" and "d \<noteq> []"
    and "off + length d < 2 ^ 64" and "File_Read rd f' pos n s1 = (x, s2)" and "x \<noteq> []" and "pos + n < 2 ^ 64"
  shows "x = peek pos (length x) (poke off d (content s)) \<and> pos + length x \<le> f_size f' \<and> f_size f \<le> f_size f' \<and> off + length d \<le> f_size f'"
proof -
  let ?cap = "file_capacity bs (f_size f)"
  have w64: "wrap64 (off + length d) = off + length d" "wrap64 (pos + n) = pos + n" using assms(5,8) by simp_all
  have gt: "\<not> min (off + length d) ?cap \<le> min off ?cap" using assms(2,3,4) w64 by (auto simp: File_Write_def Let_def split: if_splits)
  then have st: "min off ?cap = off" by (simp add: min_def split: if_splits)
  let ?k = "min (off + length d) ?cap - off"
  obtain k s1' where w: "wr off (take ?k d) s = (k, s1')" by (rule prod.exhaust)
  have r: "length d = k" "s1 = s1'" "f' = (if f_size f < off + k then f\<lparr>f_size := off + k\<rparr> else f)"
    using assms(2,3) w gt w64 st by (auto simp: File_Write_def Let_def)
  have "k \<le> length (take ?k d)" by (rule write_bound [OF assms(1) w])
  then have d: "take ?k d = d" using r(1) by simp
  have c: "ok s1" "content s1 = poke off d (content s)"
    using write_ok [OF assms(1) w] write_range [OF assms(1) w] d r assms(4) by simp_all
  have o: "IsOpened f'" using assms(2) r(3) by (simp add: IsOpened_def)
  let ?e = "min (pos + n) (f_size f')"
  have rd: "rd (min pos (f_size f')) (?e - min pos (f_size f')) s1 = (x, s2)" "\<not> ?e \<le> min pos (f_size f')"
    using assms(6,7) o w64 by (auto simp: File_Read_def Let_def split: if_splits)
  then have p: "min pos (f_size f') = pos" by (simp add: min_def split: if_splits)
  have "x = peek pos (length x) (content s1) \<and> length x \<le> ?e - pos" using read_range [OF c(1) rd(1) assms(7)] p by simp
  moreover have "f_size f \<le> f_size f'" "off + length d \<le> f_size f'" using r by auto
  ultimately show ?thesis using c(2) rd(2) p by auto
qed

end

text \<open>A blob on which nothing fails: it takes every range inside and returns what there is.\<close>

locale reliable_blob = blob_io +
  assumes write_full: "ok s \<Longrightarrow> off + length d \<le> length (content s) \<Longrightarrow> fst (wr off d s) = length d"
    and read_full: "ok s \<Longrightarrow> off \<le> length (content s) \<Longrightarrow> length (fst (rd off n s)) = min n (length (content s) - off)"
begin

lemma put_loop_complete:
  assumes "ok s" and "bs > 0" and "off + length rest \<le> length (content s)"
  shows "fst (put_loop wr bs rest off sofar s) = sofar + length rest"
  using assms
proof (induction "length rest" arbitrary: rest off sofar s rule: less_induct)
  case less
  obtain n s1 where w: "wr off (take bs rest) s = (n, s1)" by (rule prod.exhaust)
  show ?case
  proof (cases "rest = []")
    case False
    have n: "n = length (take bs rest)" using write_full [OF less.prems(1), of off "take bs rest"] less.prems(3) w by simp
    have s1: "ok s1" "length (content s1) = length (content s)" using write_ok [OF less.prems(1) w] by blast+
    have "fst (put_loop wr bs (drop bs rest) (off + length (take bs rest)) (sofar + length (take bs rest)) s1) =
        sofar + length (take bs rest) + length (drop bs rest)"
      by (rule less.hyps [OF _ s1(1) less.prems(2)]) (use False less.prems(2,3) s1(2) in auto)
    then show ?thesis using False less.prems(2) w n by (auto simp: put_loop.simps [of _ _ rest] Let_def)
  qed (simp add: put_loop.simps)
qed

lemma get_loop_complete:
  assumes "ok s" and "bs > 0" and "off + remaining \<le> length (content s)" and "remaining \<le> quota"
  shows "fst (get_loop rd bs quota off remaining s) = peek off remaining (content s)"
proof -
  have "length (fst (get_loop rd bs quota off remaining s)) = remaining"
    using assms
  proof (induction remaining arbitrary: quota off s rule: less_induct)
    case (less remaining)
    obtain got s1 where r: "rd off bs s = (got, s1)" by (rule prod.exhaust)
    show ?case
    proof (cases "remaining = 0")
      case False
      have l: "length got = min bs (length (content s) - off)" using read_full [OF less.prems(1), of off bs] less.prems(3) r by simp
      then have ne: "got \<noteq> []" using False less.prems(2,3) by auto
      have s1: "ok s1" "content s1 = content s" using read_ok [OF less.prems(1) r] by blast+
      let ?b = "take remaining got"
      have "length (fst (get_loop rd bs (quota - length ?b) (off + length ?b) (remaining - length ?b) s1)) = remaining - length ?b"
        by (rule less.IH [OF _ s1(1) less.prems(2)]) (use False ne less.prems(3,4) s1(2) in \<open>auto simp: min_def\<close>)
      then show ?thesis using False ne less.prems(4) r
        by (auto simp: get_loop.simps [of _ _ _ _ remaining] split: prod.splits)
    qed (simp add: get_loop.simps)
  qed
  moreover obtain out s' where "get_loop rd bs quota off remaining s = (out, s')" by (rule prod.exhaust)
  ultimately show ?thesis using get_loop_prefix [OF _ assms(1)] by fastforce
qed

end

lemma put_loop_invariant:
  assumes "\<And>off d s. Q s \<Longrightarrow> Q (snd (wr off d s))" and "Q s"
  shows "Q (snd (put_loop wr bs rest off sofar s))"
  using assms(2)
proof (induction "length rest" arbitrary: rest off sofar s rule: less_induct)
  case less
  then show ?case
    using assms(1) [OF less.prems, of off "take bs rest"] by (auto simp: put_loop.simps [of _ _ rest] Let_def split: prod.splits)
qed

section \<open>Blobs as files keep the contract\<close>

definition file_ok :: "IBlob \<Rightarrow> dir blob_env \<Rightarrow> bool" where
  "file_ok b e \<longleftrightarrow> blob_opened b \<and> \<not> fault e \<and> blob_size b \<le> file_limit (disk e) \<and>
     (\<exists>f. blobs (disk e) (blob_id b) = Some f \<and> length f = blob_size b)"

definition file_content :: "IBlob \<Rightarrow> dir blob_env \<Rightarrow> byte list" where
  "file_content b e = the (blobs (disk e) (blob_id b))"

lemma FileBlob_Read_ok:
  assumes "file_ok b e" and "off \<le> blob_size b"
  shows "FileBlob_Read b off n e = (peek off (min n (blob_size b - off)) (file_content b e), e)"
  using assms by (auto simp: FileBlob_Read_def file_ok_def file_content_def)

lemma FileBlob_Write_ok:
  assumes "file_ok b e" and "off + length d \<le> blob_size b"
  shows "FileBlob_Write b off d e =
    (length d, e\<lparr>disk := (disk e)\<lparr>blobs := (blobs (disk e))(blob_id b \<mapsto> poke off d (file_content b e))\<rparr>\<rparr>)"
  using assms by (auto simp: FileBlob_Write_def file_ok_def file_content_def Let_def)

interpretation file_blob: blob_io "FileBlob_Read b" "FileBlob_Write b" "file_content b" "file_ok b" for b
proof
  fix e e' :: "dir blob_env" and off n k :: nat and d :: "byte list"
  assume ok: "file_ok b e"
  then obtain f where f: "blobs (disk e) (blob_id b) = Some f" "length f = blob_size b" "file_content b e = f"
    by (auto simp: file_ok_def file_content_def)
  { assume r: "FileBlob_Read b off n e = (d, e')"
    then have "e' = e" by (auto simp: FileBlob_Read_def Let_def split: if_splits)
    then show "file_ok b e' \<and> file_content b e' = file_content b e" using ok by simp
    show "d = peek off (length d) (file_content b e) \<and> length d \<le> n" if "d \<noteq> []"
    proof -
      have "off \<le> blob_size b" using r that by (auto simp: FileBlob_Read_def split: if_splits)
      then have "d = peek off (min n (blob_size b - off)) f" using r FileBlob_Read_ok [OF ok] f(3) by auto
      then show ?thesis using peek_length [of off "min n (blob_size b - off)" f] f(3) by auto
    qed }
  { assume w: "FileBlob_Write b off d e = (k, e')"
    show "k \<le> length d" using w by (auto simp: FileBlob_Write_def Let_def split: if_splits option.splits)
    have "off > blob_size b \<and> k = 0 \<and> e' = e \<or> off \<le> blob_size b \<and> k = min (length d) (blob_size b - off) \<and>
        e' = e\<lparr>disk := (disk e)\<lparr>blobs := (blobs (disk e))(blob_id b \<mapsto> poke off (take k d) f)\<rparr>\<rparr>"
      using w ok f by (auto simp: FileBlob_Write_def file_ok_def Let_def split: if_splits)
    note cases = this
    from cases show "file_ok b e' \<and> length (file_content b e') = length (file_content b e)"
      using ok f by (auto simp: file_ok_def file_content_def)
    from cases show "off + length d \<le> length (file_content b e) \<and> file_content b e' = poke off d (file_content b e)"
      if "k = length d" "d \<noteq> []"
      using f that by (auto simp: file_content_def) }
qed

interpretation file_blob_full: reliable_blob "FileBlob_Read b" "FileBlob_Write b" "file_content b" "file_ok b" for b
proof
  fix e :: "dir blob_env" and off n :: nat and d :: "byte list"
  assume ok: "file_ok b e"
  then have l: "length (file_content b e) = blob_size b" by (auto simp: file_ok_def file_content_def)
  show "fst (FileBlob_Write b off d e) = length d" if "off + length d \<le> length (file_content b e)"
    using FileBlob_Write_ok [OF ok, of off d] that l by simp
  show "length (fst (FileBlob_Read b off n e)) = min n (length (file_content b e) - off)" if "off \<le> length (file_content b e)"
    using FileBlob_Read_ok [OF ok, of off n] that l by (simp add: peek_def)
qed

section \<open>New and opened blobs\<close>

text \<open>A directory that can take one more blob of this size.\<close>

definition dir_ready :: "nat \<Rightarrow> dir blob_env \<Rightarrow> bool" where
  "dir_ready sz e \<longleftrightarrow>
     (let ident = uuids (disk e) (issued (disk e))
      in dir_exists (disk e) \<and> openable (disk e) ident \<and> sz \<le> file_limit (disk e) \<and> sz < 2 ^ 64 \<and> ident \<noteq> [] \<and> \<not> fault e \<and>
         (\<exists>bm. blobMap e = Some bm \<and> map_inv bm \<and> 20 \<le> map_room bm))"

lemma File_NewBlob_ready:
  assumes "dir_ready sz e"
  obtains bm e' where "blobMap e = Some bm"
    and "File_NewBlob sz e = (Some \<lparr>blob_id = uuids (disk e) (issued (disk e)), blob_size = sz, blob_opened = True\<rparr>, e')"
    and "blobMap e' = Some (SetMetadata bm (uuids (disk e) (issued (disk e))) (BlobMetadata_new\<lparr>md_size := word_of_nat sz\<rparr>))"
    and "disk e' = (disk e)\<lparr>issued := Suc (issued (disk e)),
      blobs := (blobs (disk e))(uuids (disk e) (issued (disk e)) \<mapsto> replicate sz 0)\<rparr>"
    and "\<not> fault e'"
proof -
  obtain bm where "blobMap e = Some bm" using assms by (auto simp: dir_ready_def Let_def)
  with assms show ?thesis
    by (intro that [of bm "snd (File_NewBlob sz e)"]) (auto simp: dir_ready_def File_NewBlob_def FileBlob_new_def Let_def min_def)
qed

lemma new_metadata: "valid_metadata (BlobMetadata_new\<lparr>md_size := x\<rparr>)" "Metadata_GetSerializedSize (BlobMetadata_new\<lparr>md_size := x\<rparr>) = 20"
  by (simp_all add: valid_metadata_def BlobMetadata_new_def Metadata_GetSerializedSize_def)

section \<open>Properties\<close>

text \<open>
  C33. A new blob is a block of zeros that can be opened again: \<open>NewBlob\<close> of a ready directory gives
  an open blob of the size, \<open>OpenBlob\<close> finds it through the blob map with the same size, it reads
  as zeros, and the files of the other blobs are left alone.
\<close>

theorem NewBlob_OpenBlob:
  assumes "dir_ready sz e"
  shows "\<exists>b e'. File_NewBlob sz e = (Some b, e') \<and> File_OpenBlob (blob_id b) e' = (Some b, e') \<and> file_ok b e' \<and>
    blob_size b = sz \<and> file_content b e' = replicate sz 0 \<and>
    (\<forall>j. j \<noteq> blob_id b \<longrightarrow> blobs (disk e') j = blobs (disk e) j)"
proof -
  obtain bm e' where bm: "blobMap e = Some bm"
    and n: "File_NewBlob sz e = (Some \<lparr>blob_id = uuids (disk e) (issued (disk e)), blob_size = sz, blob_opened = True\<rparr>, e')"
    and m: "blobMap e' = Some (SetMetadata bm (uuids (disk e) (issued (disk e))) (BlobMetadata_new\<lparr>md_size := word_of_nat sz\<rparr>))"
    and d: "disk e' = (disk e)\<lparr>issued := Suc (issued (disk e)),
      blobs := (blobs (disk e))(uuids (disk e) (issued (disk e)) \<mapsto> replicate sz 0)\<rparr>" and nf: "\<not> fault e'"
    by (rule File_NewBlob_ready [OF assms])
  let ?id = "uuids (disk e) (issued (disk e))" and ?m = "BlobMetadata_new\<lparr>md_size := word_of_nat sz\<rparr>"
  have r: "map_inv bm" "20 \<le> map_room bm" "?id \<noteq> []" "openable (disk e) ?id" "sz < 2 ^ 64" "sz \<le> file_limit (disk e)"
    using assms bm by (auto simp: dir_ready_def Let_def)
  have "GetValue (SetMetadata bm ?id ?m) ?id = enc_metadata ?m"
    using blob_map.get_put_same [OF r(1,3), of "enc_metadata ?m"] r(2) by (simp add: SetMetadata_SetValue new_metadata length_enc_metadata)
  then have g: "GetMetadata (SetMetadata bm ?id ?m) ?id BlobMetadata_new = (True, ?m)"
    by (rule GetMetadata_value [OF new_metadata(1)]) (simp add: new_metadata)
  have u: "unat (word_of_nat sz :: u64) = sz" using r(5) by (simp add: unat_of_nat)
  have "File_OpenBlob ?id e' = (Some \<lparr>blob_id = ?id, blob_size = sz, blob_opened = True\<rparr>, e')"
    using r(4) by (simp add: File_OpenBlob_def m g FileBlob_new_def d u)
  then show ?thesis using n d nf r(6) by (auto simp: file_ok_def file_content_def)
qed

definition demo_blobs :: "dir blob_env" where
  "demo_blobs =
     \<lparr>disk = \<lparr>blobs = (\<lambda>_. None), dir_exists = True, openable = (\<lambda>_. True), file_limit = 1000,
              uuids = (\<lambda>n. CHR ''b'' # replicate n (CHR ''x'')), issued = 0\<rparr>,
      blobMap = Some \<lparr>mapFile = Some [], mapFilename = ''blob.cache'', indexes = [], fileLimit = 1000\<rparr>,
      time_now = 5, local_files = (\<lambda>_. None), local_open = (\<lambda>_. True), local_room = 1000, root_id = [], root_file = None,
      root_metadata = None, root_open = True, fault = False, stuck = False\<rparr>"

lemma demo_ready: "sz \<le> 1000 \<Longrightarrow> dir_ready sz demo_blobs"
  by (simp add: dir_ready_def demo_blobs_def map_inv_def map_room_def)

theorem NewBlob_OpenBlob_witness:
  "\<exists>b e'. File_NewBlob 64 demo_blobs = (Some b, e') \<and> File_OpenBlob (blob_id b) e' = (Some b, e') \<and> file_content b e' = replicate 64 0"
  using NewBlob_OpenBlob [OF demo_ready [of 64]] by auto

text \<open>
  C40. A file object on a blob keeps what is written to it: after a write that was accepted in full,
  a read returns the bytes of the blob with the written range replaced, and the size of the file
  covers both the old file and the range.
\<close>

theorem File_Write_Read:
  assumes "file_ok b e" and "IsOpened f" and "File_Write (FileBlob_Write b) bs f off d e = (length d, f', e1)" and "d \<noteq> []"
    and "off + length d < 2 ^ 64" and "File_Read (FileBlob_Read b) f' pos n e1 = (x, e2)" and "x \<noteq> []" and "pos + n < 2 ^ 64"
  shows "x = peek pos (length x) (poke off d (file_content b e)) \<and> pos + length x \<le> f_size f' \<and> f_size f \<le> f_size f' \<and>
    off + length d \<le> f_size f'"
  by (rule file_blob.file_write_read [OF assms])

theorem File_Write_Read_witness:
  "\<exists>b e f f' e1 e2. File_Write (FileBlob_Write b) 64 f 3 [8, 9] e = (2, f', e1) \<and> File_Read (FileBlob_Read b) f' 3 2 e1 = ([8, 9], e2)"
proof -
  define b where "b = \<lparr>blob_id = ''a'', blob_size = 64, blob_opened = True\<rparr>"
  define e where "e = demo_blobs\<lparr>disk := (disk demo_blobs)\<lparr>blobs := [''a'' \<mapsto> replicate 64 0]\<rparr>\<rparr>"
  have b: "file_ok b e" "blob_size b = 64" by (simp_all add: b_def e_def file_ok_def demo_blobs_def)
  let ?f = "\<lparr>f_id = blob_id b, f_blob = Some b, f_size = 0\<rparr>"
  let ?e1 = "e\<lparr>disk := (disk e)\<lparr>blobs := (blobs (disk e))(blob_id b \<mapsto> poke 3 [8, 9] (file_content b e))\<rparr>\<rparr>"
  have c: "file_capacity 64 0 = 64" by (simp add: file_capacity_def)
  have w: "File_Write (FileBlob_Write b) 64 ?f 3 [8, 9] e = (length [8, 9 :: byte], ?f\<lparr>f_size := 5\<rparr>, ?e1)"
    using FileBlob_Write_ok [OF b(1), of 3 "[8, 9]"] b(2) by (simp add: File_Write_def IsOpened_def c)
  have ok: "file_ok b ?e1" "length (file_content b e) = 64" using b by (auto simp: file_ok_def file_content_def)
  obtain x where r: "File_Read (FileBlob_Read b) (?f\<lparr>f_size := 5\<rparr>) 3 2 ?e1 = (x, ?e1)" "length x = 2"
    using FileBlob_Read_ok [OF ok(1), of 3 2] b(2) ok(2) by (simp add: File_Read_def IsOpened_def file_content_def)
  have "x = peek 3 (length x) (poke 3 [8, 9] (file_content b e))"
    using File_Write_Read [OF b(1) _ w _ _ r(1), THEN conjunct1] r(2) by (fastforce simp: IsOpened_def)
  moreover have "peek 3 (length [8, 9 :: byte]) (poke 3 [8, 9] (file_content b e)) = [8, 9]" by (rule peek_poke_same) (simp add: ok)
  ultimately have "x = [8, 9]" using r(2) by (simp add: numeral_2_eq_2)
  then have "File_Read (FileBlob_Read b) (?f\<lparr>f_size := 5\<rparr>) 3 2 ?e1 = ([8, 9], ?e1)" using r(1) by simp
  moreover have "File_Write (FileBlob_Write b) 64 ?f 3 [8, 9] e = (2, ?f\<lparr>f_size := 5\<rparr>, ?e1)" using w by (simp add: numeral_2_eq_2)
  ultimately show ?thesis by blast
qed

end
