(* ===== verification/Folder.thy ===== *)
theory Folder
  imports Blob
begin

text \<open>
  \<open>bdblob/Folder\<close>: a folder is a map from names to entries that is kept as the contents of a blob.
  The entry \<open>.\<close> describes the folder itself and \<open>..\<close> its parent. Changing a folder changes the
  entry for it in its parent, which is loaded from its own blob for that purpose, and so on upwards;
  writing a folder back may need a larger blob and then changes its id. The recursion through the
  parents gets fuel, one unit per call; \<open>stuck\<close> records that it ran out, which a cycle of parents
  would cause. The destructor of a folder is its \<open>Flush\<close>, and a call appears wherever the code
  destroys a folder that was changed.
\<close>

section \<open>Entries\<close>

datatype EntryType = FOLDER | FILE

record Entry =
  e_id :: string
  e_type :: EntryType
  e_createTime :: u32
  e_modifyTime :: u32
  e_size :: u64
  e_metadata :: BlobMetadata

definition Entry_new :: Entry where
  "Entry_new = \<lparr>e_id = [], e_type = FOLDER, e_createTime = 0, e_modifyTime = 0, e_size = 0, e_metadata = BlobMetadata_new\<rparr>"

definition type_code :: "EntryType \<Rightarrow> u8" where
  "type_code t = (case t of FOLDER \<Rightarrow> 0 | FILE \<Rightarrow> 1)"

definition SerializeEntry :: "ostream \<Rightarrow> Entry \<Rightarrow> bool \<times> ostream" where
  "SerializeEntry s x = write_seq
     [\<lambda>s. WriteString s (e_id x), \<lambda>s. WriteUInt8 s (type_code (e_type x)), \<lambda>s. WriteUInt32 s (e_createTime x),
      \<lambda>s. WriteUInt32 s (e_modifyTime x), \<lambda>s. WriteUInt64 s (e_size x), \<lambda>s. Metadata_Serialize s (e_metadata x)] s"

definition DeserializeEntry :: "istream \<Rightarrow> Entry option \<times> istream" where
  "DeserializeEntry s =
     (if Remainder s < 4 then (None, s)
      else let (_, ident, s1) = ReadString s []
           in if Remainder s1 < 1 + 4 * 2 + 8 then (None, s1)
              else let (type, s2) = ReadUInt8 s1
                   in if type \<ge> 2 then (None, s2)
                      else let (ct, s3) = ReadUInt32 s2; (mt, s4) = ReadUInt32 s3; (sz, s5) = ReadUInt64 s4;
                               (ok, m, s6) = Metadata_Deserialize BlobMetadata_new s5
                           in (if ok then Some \<lparr>e_id = ident, e_type = (if type = 0 then FOLDER else FILE), e_createTime = ct,
                                                e_modifyTime = mt, e_size = sz, e_metadata = m\<rparr> else None, s6))"

definition GetEntrySerializedSize :: "Entry \<Rightarrow> nat" where
  "GetEntrySerializedSize x = (4 + length (e_id x)) + 1 + 4 + 4 + 8 + Metadata_GetSerializedSize (e_metadata x)"

section \<open>Folders\<close>

record Folder =
  entries :: "(string, Entry) stdmap"
  folder_name :: string
  modified :: bool

definition Folder_empty :: Folder where
  "Folder_empty = \<lparr>entries = [], folder_name = [], modified = False\<rparr>"

definition MAGIC_HEADER :: u32 where
  "MAGIC_HEADER = 0x0a0b0c0d"

definition FOLDER_BLOB_UNIT_SIZE :: nat where
  "FOLDER_BLOB_UNIT_SIZE = 64 * 1024"

definition folder_blob_size :: "nat \<Rightarrow> nat" where
  "folder_blob_size sizeNeeded = ((sizeNeeded - 1) div FOLDER_BLOB_UNIT_SIZE + 1) * FOLDER_BLOB_UNIT_SIZE"

definition write_pair :: "ostream \<Rightarrow> string \<times> Entry \<Rightarrow> bool \<times> ostream" where
  "write_pair s p = write_seq [\<lambda>s. WriteString s (fst p), \<lambda>s. SerializeEntry s (snd p)] s"

definition Folder_Serialize :: "ostream \<Rightarrow> Folder \<Rightarrow> bool \<times> ostream" where
  "Folder_Serialize s F = write_seq
     [\<lambda>s. WriteUInt32 s MAGIC_HEADER, \<lambda>s. WriteString s (folder_name F),
      \<lambda>s. WriteUInt32 s (word_of_nat (length (entries F))), write_all write_pair (entries F)] s"

definition read_pair :: "istream \<Rightarrow> (string \<times> Entry) option \<times> istream" where
  "read_pair s =
     (if Remainder s < 4 then (None, s)
      else let (_, key, s1) = ReadString s []; (x, s2) = DeserializeEntry s1
           in (map_option (Pair key) x, s2))"

definition emplace_all :: "('k::linorder \<times> 'v) list \<Rightarrow> ('k, 'v) stdmap \<Rightarrow> ('k, 'v) stdmap" where
  "emplace_all kvs m = fold (\<lambda>(k, v) m. map_emplace k v m) kvs m"

definition Folder_Deserialize :: "Folder \<Rightarrow> istream \<Rightarrow> bool \<times> Folder \<times> istream" where
  "Folder_Deserialize F s =
     (if Remainder s < 4 then (False, F, s)
      else let (magic, s1) = ReadUInt32 s
           in if magic \<noteq> MAGIC_HEADER \<or> Remainder s1 < 4 then (False, F, s1)
              else let (_, name, s2) = ReadString s1 (folder_name F); F1 = F\<lparr>folder_name := name\<rparr>
                   in if Remainder s2 < 4 then (False, F1, s2)
                      else let (count, s3) = ReadUInt32 s2; (ok, pairs, s4) = read_times read_pair (unat count) s3
                           in (ok, F1\<lparr>entries := emplace_all pairs (entries F1)\<rparr>, s4))"

definition GetSerializedSize :: "Folder \<Rightarrow> nat" where
  "GetSerializedSize F = 4 + (4 + length (folder_name F)) + 4 +
     sum_list (map (\<lambda>(k, x). (4 + length k) + GetEntrySerializedSize x) (entries F))"

definition Parent :: "Folder \<Rightarrow> Entry option" where
  "Parent F = map_find (entries F) ''..''"

definition IsRootFolder :: "Folder \<Rightarrow> bool" where
  "IsRootFolder F \<longleftrightarrow>
     (case Parent F of
        None \<Rightarrow> True
      | Some p \<Rightarrow> (case map_find (entries F) ''.'' of None \<Rightarrow> True | Some x \<Rightarrow> e_id x = e_id p))"

text \<open>\<open>entries["."]\<close> creates the entry when it is missing.\<close>

definition ensure_dot :: "Folder \<Rightarrow> Folder" where
  "ensure_dot F = F\<lparr>entries := map_emplace ''.'' Entry_new (entries F)\<rparr>"

definition dot :: "Folder \<Rightarrow> Entry" where
  "dot F = (case map_find (entries F) ''.'' of None \<Rightarrow> Entry_new | Some x \<Rightarrow> x)"

definition set_dot :: "Entry \<Rightarrow> Folder \<Rightarrow> Folder" where
  "set_dot x F = F\<lparr>entries := map_put ''.'' x (entries F)\<rparr>"

section \<open>Folders and their blobs\<close>

fun cache_entries :: "bool \<Rightarrow> (string \<times> Entry) list \<Rightarrow> BlobMap \<Rightarrow> BlobMap" where
  "cache_entries includeThis [] bm = bm"
| "cache_entries includeThis ((k, x) # xs) bm =
     cache_entries includeThis xs
       (if (k = ''.'' \<and> \<not> includeThis) \<or> k = ''..'' then bm else SetMetadata bm (e_id x) (e_metadata x))"

definition UpdateMetadataCache :: "bool \<Rightarrow> Folder \<Rightarrow> 'w blob_env \<Rightarrow> bool \<times> 'w blob_env" where
  "UpdateMetadataCache includeThis F e =
     (case blobMap e of
        None \<Rightarrow> (False, e)
      | Some bm \<Rightarrow> (True, e\<lparr>blobMap := Some (cache_entries includeThis (entries F) bm)\<rparr>))"

definition LoadFolder :: "'w BlobProvider \<Rightarrow> string \<Rightarrow> 'w blob_env \<Rightarrow> Folder option \<times> 'w blob_env" where
  "LoadFolder Pr ident e =
     (if ident = [] then (None, e)
      else case OpenBlob Pr ident e of
             (None, e1) \<Rightarrow> (None, e1)
           | (Some b, e1) \<Rightarrow>
               if blob_size b = 0 then (None, e1)
               else let (buffer, e2) = Blob_Read Pr b 0 (blob_size b) e1
                    in if buffer = [] then (None, e2)
                       else let (success, F, _) = Folder_Deserialize Folder_empty (BufferedInputStream buffer (length buffer))
                            in if success then (Some F, snd (UpdateMetadataCache False F e2)) else (None, e2))"

definition GetParentFolder :: "'w BlobProvider \<Rightarrow> Folder \<Rightarrow> 'w blob_env \<Rightarrow> Folder option \<times> 'w blob_env" where
  "GetParentFolder Pr F e =
     (if IsRootFolder F then (None, e)
      else case Parent F of None \<Rightarrow> (None, e) | Some p \<Rightarrow> LoadFolder Pr (e_id p) e)"

fun UpdateEntry :: "'w BlobProvider \<Rightarrow> nat \<Rightarrow> Folder \<Rightarrow> string \<Rightarrow> Entry \<Rightarrow> 'w blob_env \<Rightarrow> Folder \<times> 'w blob_env"
  and Flush :: "'w BlobProvider \<Rightarrow> nat \<Rightarrow> Folder \<Rightarrow> 'w blob_env \<Rightarrow> bool \<times> Folder \<times> 'w blob_env" where
  "UpdateEntry Pr 0 F name x e = (F, e\<lparr>stuck := True\<rparr>)"
| "UpdateEntry Pr (Suc n) F name x e =
     (let F0 = ensure_dot F;
          (F1, e1) =
            (if map_find (entries F0) name = None
             then let F' = set_dot ((dot F0)\<lparr>e_size := e_size (dot F0) + 1, e_modifyTime := time_now e\<rparr>) F0;
                      (parent, ea) = GetParentFolder Pr F' e
                  in case parent of
                       None \<Rightarrow> (F', ea)
                     | Some P \<Rightarrow>
                         (let (P1, eb) = UpdateEntry Pr n P (folder_name F') (dot F') ea;
                              (_, _, ec) = Flush Pr n P1 eb
                          in (F', ec))
             else (F0, e));
          F2 = F1\<lparr>entries := map_put name x (entries F1), modified := True\<rparr>;
          (_, F3, e3) = Flush Pr n F2 e1
      in (F3, snd (UpdateMetadataCache False F3 e3)))"
| "Flush Pr 0 F e = (False, F, e\<lparr>stuck := True\<rparr>)"
| "Flush Pr (Suc n) F e =
     (if \<not> modified F then (True, F, e)
      else let sizeNeeded = GetSerializedSize F;
               F0 = ensure_dot F;
               (ob, e1) = OpenBlob Pr (e_id (dot F0)) e;
               (ob2, F1, e2) =
                 (if (case ob of None \<Rightarrow> True | Some b \<Rightarrow> blob_size b < sizeNeeded)
                  then case NewBlob Pr (folder_blob_size sizeNeeded) e1 of
                         (None, ea) \<Rightarrow> (None, F0, ea)
                       | (Some nb, ea) \<Rightarrow>
                           (let oldId = e_id (dot F0);
                                F' = set_dot ((dot F0)\<lparr>e_id := blob_id nb\<rparr>) F0;
                                (parent, eb) = GetParentFolder Pr F' ea
                            in case parent of
                                 None \<Rightarrow> (Some nb, F', DeleteBlob Pr oldId eb)
                               | Some P \<Rightarrow>
                                   (let (P1, ec) = UpdateEntry Pr n P (folder_name F') (dot F') eb;
                                        (_, P2, ed) = Flush Pr n P1 ec;
                                        (_, _, ee) = Flush Pr n P2 (DeleteBlob Pr oldId ed)
                                    in (Some nb, F', ee)))
                  else (ob, F0, e1))
           in case ob2 of
                None \<Rightarrow> (False, F1, e2)
              | Some b \<Rightarrow>
                  (case Folder_Serialize BufferedOutputStream F1 of
                     (False, _) \<Rightarrow> (False, F1, e2)
                   | (True, s) \<Rightarrow>
                       (let (k, e3) = Blob_Write Pr b 0 (take (ooffset s) (obuffer s)) e2
                        in if k < ooffset s then (False, F1, e3)
                           else let F2 = F1\<lparr>modified := False\<rparr>
                                in (True, F2, snd (UpdateMetadataCache True F2 e3)))))"

declare UpdateEntry.simps(2) [simp del] Flush.simps(2) [simp del]

definition RemoveEntry :: "'w BlobProvider \<Rightarrow> nat \<Rightarrow> Folder \<Rightarrow> string \<Rightarrow> 'w blob_env \<Rightarrow> Folder \<times> 'w blob_env" where
  "RemoveEntry Pr n F name e =
     (let F0 = ensure_dot F;
          (F1, e1) =
            (case map_find (entries F0) name of
               None \<Rightarrow> (F0, e)
             | Some _ \<Rightarrow>
                 (let F' = set_dot ((dot F0)\<lparr>e_size := e_size (dot F0) - 1, e_modifyTime := time_now e\<rparr>) F0;
                      (parent, ea) = GetParentFolder Pr F' e;
                      eb = (case parent of
                              None \<Rightarrow> ea
                            | Some P \<Rightarrow>
                                (let (P1, ex) = UpdateEntry Pr n P (folder_name F') (dot F') ea;
                                     (_, _, ey) = Flush Pr n P1 ex
                                 in ey))
                  in (F'\<lparr>entries := map_erase name (entries F'), modified := True\<rparr>, eb)));
          (_, F2, e2) = Flush Pr n F1 e1
      in (F2, e2))"

text \<open>The constructor. \<open>parent\<close> is the folder object that gets the new entry.\<close>

definition Folder_new :: "'w BlobProvider \<Rightarrow> nat \<Rightarrow> string \<Rightarrow> string \<Rightarrow> Folder option \<Rightarrow> 'w blob_env \<Rightarrow> Folder \<times> Folder option \<times> 'w blob_env" where
  "Folder_new Pr n name ident parent e =
     (let buffer = (case blobMap e of None \<Rightarrow> [] | Some bm \<Rightarrow> GetValue bm ident);
          (_, m, _) = Metadata_Deserialize BlobMetadata_new (BufferedInputStream buffer (length buffer));
          properties = \<lparr>e_id = ident, e_type = FOLDER, e_createTime = time_now e, e_modifyTime = time_now e, e_size = 0, e_metadata = m\<rparr>;
          (up, parent', e1) =
            (case parent of
               None \<Rightarrow> ([], None, e)
             | Some P \<Rightarrow>
                 (let (P1, ea) = UpdateEntry Pr n P name properties e;
                      (_, P2, eb) = Flush Pr n P1 ea
                  in ([(''..'', dot P1)], Some P2, eb)));
          F = \<lparr>entries = map_emplace ''.'' properties up, folder_name = name, modified = True\<rparr>;
          (_, F1, e2) = Flush Pr n F e1
      in (F1, parent', e2))"

section \<open>The image of a folder\<close>

definition enc_entry :: "Entry \<Rightarrow> byte list" where
  "enc_entry x = enc_string (e_id x) @ enc_be (type_code (e_type x)) @ enc_be (e_createTime x) @ enc_be (e_modifyTime x) @
     enc_be (e_size x) @ enc_metadata (e_metadata x)"

definition valid_entry :: "Entry \<Rightarrow> bool" where
  "valid_entry x \<longleftrightarrow> length (e_id x) < 2 ^ 32 \<and> valid_metadata (e_metadata x)"

definition enc_pair :: "string \<times> Entry \<Rightarrow> byte list" where
  "enc_pair p = enc_string (fst p) @ enc_entry (snd p)"

definition valid_pair :: "string \<times> Entry \<Rightarrow> bool" where
  "valid_pair p \<longleftrightarrow> length (fst p) < 2 ^ 32 \<and> valid_entry (snd p)"

definition enc_folder :: "Folder \<Rightarrow> byte list" where
  "enc_folder F = enc_be MAGIC_HEADER @ enc_string (folder_name F) @ enc_be (word_of_nat (length (entries F)) :: u32) @
     concat (map enc_pair (entries F))"

definition valid_folder :: "Folder \<Rightarrow> bool" where
  "valid_folder F \<longleftrightarrow> length (folder_name F) < 2 ^ 32 \<and> length (entries F) < 2 ^ 32 \<and> map_ok (entries F) \<and>
     (\<forall>p \<in> set (entries F). valid_pair p)"

lemma length_enc_entry: "length (enc_entry x) = GetEntrySerializedSize x"
  by (simp add: enc_entry_def GetEntrySerializedSize_def length_enc_metadata)

lemma length_enc_folder: "length (enc_folder F) = GetSerializedSize F"
proof -
  have "length (concat (map enc_pair xs)) = sum_list (map (\<lambda>(k, x). (4 + length k) + GetEntrySerializedSize x) xs)" for xs
    by (induction xs) (auto simp: enc_pair_def length_enc_entry)
  then show ?thesis by (simp add: enc_folder_def GetSerializedSize_def)
qed

lemma ReadUInt8_parses:
  assumes "istream_inv s" and "isValid s" and "unread s = enc_be w @ rest"
  obtains s' where "ReadUInt8 s = (w, s')" and "istream_inv s'" and "isValid s'" and "unread s' = rest"
proof -
  obtain s' where "read_some ReadUInt8 s = (Some w, s')" "istream_inv s'" "isValid s'" "unread s' = rest"
    by (rule parsesD [OF u8.rd_parses assms]) simp
  then show ?thesis using that by (auto simp: read_some_def split: prod.splits)
qed

lemma ReadString_parses:
  assumes "length str < 2 ^ 32" and "istream_inv s" and "isValid s" and "unread s = enc_string str @ rest"
  obtains s' where "ReadString s [] = (4 + length str, str, s')" and "istream_inv s'" and "isValid s'" and "unread s' = rest"
proof -
  from ReadString_spec [OF assms] obtain s' where "ReadString s [] = (4 + length str, str, s')" "istream_inv s'" "isValid s'" "unread s' = rest"
    by (elim exE conjE)
  then show ?thesis by (rule that)
qed

lemma type_code_less [simp]: "\<not> type_code t \<ge> 2"
  by (cases t) (simp_all add: type_code_def word_le_nat_alt)

lemma type_code_inverse [simp]: "(if type_code t = 0 then FOLDER else FILE) = t"
  by (cases t) (simp_all add: type_code_def)

lemma DeserializeEntry_parses:
  assumes v: "valid_entry x" and s: "istream_inv s" "isValid s" "unread s = enc_entry x @ rest"
  shows "\<exists>s'. DeserializeEntry s = (Some x, s') \<and> istream_inv s' \<and> isValid s' \<and> unread s' = rest"
proof -
  let ?m = "e_metadata x"
  have u: "unread s = enc_string (e_id x) @ enc_be (type_code (e_type x)) @ enc_be (e_createTime x) @ enc_be (e_modifyTime x) @
     enc_be (e_size x) @ enc_metadata ?m @ rest" using s(3) by (simp add: enc_entry_def)
  obtain s1 where s1: "ReadString s [] = (4 + length (e_id x), e_id x, s1)" "istream_inv s1" "isValid s1"
      "unread s1 = enc_be (type_code (e_type x)) @ enc_be (e_createTime x) @ enc_be (e_modifyTime x) @ enc_be (e_size x) @ enc_metadata ?m @ rest"
    by (rule ReadString_parses [OF _ s(1,2) u]) (use v in \<open>simp_all add: valid_entry_def\<close>)
  obtain s2 where s2: "ReadUInt8 s1 = (type_code (e_type x), s2)" "istream_inv s2" "isValid s2"
      "unread s2 = enc_be (e_createTime x) @ enc_be (e_modifyTime x) @ enc_be (e_size x) @ enc_metadata ?m @ rest"
    by (rule ReadUInt8_parses [OF s1(2-4)])
  obtain s3 where s3: "ReadUInt32 s2 = (e_createTime x, s3)" "istream_inv s3" "isValid s3"
      "unread s3 = enc_be (e_modifyTime x) @ enc_be (e_size x) @ enc_metadata ?m @ rest"
    by (rule ReadUInt32_parses [OF s2(2-4)])
  obtain s4 where s4: "ReadUInt32 s3 = (e_modifyTime x, s4)" "istream_inv s4" "isValid s4"
      "unread s4 = enc_be (e_size x) @ enc_metadata ?m @ rest"
    by (rule ReadUInt32_parses [OF s3(2-4)])
  obtain s5 where s5: "ReadUInt64 s4 = (e_size x, s5)" "istream_inv s5" "isValid s5" "unread s5 = enc_metadata ?m @ rest"
    by (rule ReadUInt64_parses [OF s4(2-4)])
  obtain s6 where s6: "Metadata_Deserialize BlobMetadata_new s5 = (True, ?m, s6)" "istream_inv s6" "isValid s6" "unread s6 = rest"
    using Metadata_Deserialize_spec [OF _ s5(2-4), of BlobMetadata_new] v by (auto simp: valid_entry_def BlobMetadata_new_def)
  have "\<not> Remainder s < 4" using Remainder_prefix [OF s(1) u] by simp
  moreover have "\<not> Remainder s1 < 1 + 4 * 2 + 8" using s1(2,4) by (simp add: Remainder_unread)
  ultimately have "DeserializeEntry s = (Some x, s6)"
    using s1(1) s2(1) s3(1) s4(1) s5(1) s6(1) by (simp add: DeserializeEntry_def)
  with s6 show ?thesis by blast
qed

interpretation pair: codec enc_pair write_pair read_pair valid_pair
proof
  fix p assume v: "valid_pair p"
  have m: "valid_metadata (e_metadata (snd p))" using v by (simp add: valid_pair_def valid_entry_def)
  have "emits (write_seq [\<lambda>s. WriteString s (e_id x), \<lambda>s. WriteUInt8 s (type_code (e_type x)), \<lambda>s. WriteUInt32 s (e_createTime x),
      \<lambda>s. WriteUInt32 s (e_modifyTime x), \<lambda>s. WriteUInt64 s (e_size x), \<lambda>s. Metadata_Serialize s (e_metadata x)])
    (enc_string (e_id x) @ enc_be (type_code (e_type x)) @ enc_be (e_createTime x) @ enc_be (e_modifyTime x) @ enc_be (e_size x) @
      enc_metadata (e_metadata x) @ [])" if "valid_metadata (e_metadata x)" for x
    using that by (intro emits_Cons emits_Nil emits_WriteString u8.wr_emits u32.wr_emits u64.wr_emits metadata.wr_emits) simp_all
  from this [OF m] have "emits (\<lambda>s. SerializeEntry s (snd p)) (enc_entry (snd p))"
    by (simp add: SerializeEntry_def enc_entry_def del: write_seq.simps)
  then have "emits (write_seq [\<lambda>s. WriteString s (fst p), \<lambda>s. SerializeEntry s (snd p)]) (enc_string (fst p) @ enc_entry (snd p) @ [])"
    by (intro emits_Cons emits_Nil emits_WriteString)
  then show "emits (\<lambda>s. write_pair s p) (enc_pair p)" by (simp add: write_pair_def enc_pair_def del: write_seq.simps)
  show "parses read_pair (enc_pair p) p"
    unfolding parses_def
  proof (intro allI impI)
    fix s rest assume s: "istream_inv s" "isValid s" "unread s = enc_pair p @ rest"
    have u: "unread s = enc_string (fst p) @ enc_entry (snd p) @ rest" using s(3) by (simp add: enc_pair_def)
    obtain s1 where s1: "ReadString s [] = (4 + length (fst p), fst p, s1)" "istream_inv s1" "isValid s1" "unread s1 = enc_entry (snd p) @ rest"
      by (rule ReadString_parses [OF _ s(1,2) u]) (use v in \<open>simp_all add: valid_pair_def\<close>)
    obtain s2 where s2: "DeserializeEntry s1 = (Some (snd p), s2)" "istream_inv s2" "isValid s2" "unread s2 = rest"
      using DeserializeEntry_parses [OF _ s1(2-4)] v by (auto simp: valid_pair_def)
    have "\<not> Remainder s < 4" using Remainder_prefix [OF s(1) u] by simp
    then have "read_pair s = (Some p, s2)" using s1(1) s2(1) by (simp add: read_pair_def)
    with s2 show "fst (read_pair s) = Some p \<and> istream_inv (snd (read_pair s)) \<and> isValid (snd (read_pair s)) \<and> unread (snd (read_pair s)) = rest"
      by simp
  qed
qed

lemma emits_folder: "valid_folder F \<Longrightarrow> emits (\<lambda>s. Folder_Serialize s F) (enc_folder F)"
proof -
  assume v: "valid_folder F"
  have "emits (write_seq [\<lambda>s. WriteUInt32 s MAGIC_HEADER, \<lambda>s. WriteString s (folder_name F),
      \<lambda>s. WriteUInt32 s (word_of_nat (length (entries F))), write_all write_pair (entries F)])
    (enc_be MAGIC_HEADER @ enc_string (folder_name F) @ enc_be (word_of_nat (length (entries F)) :: u32) @ concat (map enc_pair (entries F)) @ [])"
    using v by (intro emits_Cons emits_Nil emits_WriteString u32.wr_emits pair.all_emits) (simp_all add: valid_folder_def)
  then show ?thesis by (simp add: Folder_Serialize_def enc_folder_def del: write_seq.simps)
qed

lemma Folder_Serialize_bytes:
  assumes "valid_folder F"
  obtains s where "Folder_Serialize BufferedOutputStream F = (True, s)" and "take (ooffset s) (obuffer s) = enc_folder F"
    and "ooffset s = GetSerializedSize F"
proof -
  obtain ok s where r: "Folder_Serialize BufferedOutputStream F = (ok, s)" by (rule prod.exhaust)
  from emitsD [OF emits_folder [OF assms] _ this] have c: "ok" "ostream_inv s" "contents s = enc_folder F"
    using BufferedOutputStream_inv by auto
  then have "ooffset s = GetSerializedSize F" by (metis contents_def length_enc_folder length_take min_absorb2 ostream_inv_def)
  with r c show ?thesis using that by (simp add: contents_def)
qed

lemma emplace_all_sorted: "map_ok (m @ kvs) \<Longrightarrow> emplace_all kvs m = m @ kvs"
proof (induction kvs arbitrary: m)
  case (Cons kv kvs)
  obtain k v where kv: "kv = (k, v)" by (rule prod.exhaust)
  have "map_emplace k v m = m @ [(k, v)]" using Cons.prems by (intro map_emplace_snoc) (auto simp: kv sorted_wrt_append)
  moreover have "map_ok ((m @ [(k, v)]) @ kvs)" using Cons.prems by (simp add: kv)
  ultimately show ?case using Cons.IH [of "m @ [(k, v)]"] by (simp add: emplace_all_def kv)
qed (simp add: emplace_all_def)

lemma Folder_Deserialize_spec:
  assumes v: "valid_folder F" and s: "istream_inv s" "isValid s" "unread s = enc_folder F @ rest"
  shows "\<exists>s'. Folder_Deserialize Folder_empty s = (True, F\<lparr>modified := False\<rparr>, s') \<and> istream_inv s' \<and> isValid s' \<and> unread s' = rest"
proof -
  let ?n = "word_of_nat (length (entries F)) :: u32"
  have u: "unread s = enc_be MAGIC_HEADER @ enc_string (folder_name F) @ enc_be ?n @ concat (map enc_pair (entries F)) @ rest"
    using s(3) by (simp add: enc_folder_def)
  obtain s1 where s1: "ReadUInt32 s = (MAGIC_HEADER, s1)" "istream_inv s1" "isValid s1"
      "unread s1 = enc_string (folder_name F) @ enc_be ?n @ concat (map enc_pair (entries F)) @ rest"
    by (rule ReadUInt32_parses [OF s(1,2) u])
  obtain s2 where s2: "ReadString s1 [] = (4 + length (folder_name F), folder_name F, s2)" "istream_inv s2" "isValid s2"
      "unread s2 = enc_be ?n @ concat (map enc_pair (entries F)) @ rest"
    by (rule ReadString_parses [OF _ s1(2-4)]) (use v in \<open>simp_all add: valid_folder_def\<close>)
  obtain s3 where s3: "ReadUInt32 s2 = (?n, s3)" "istream_inv s3" "isValid s3" "unread s3 = concat (map enc_pair (entries F)) @ rest"
    by (rule ReadUInt32_parses [OF s2(2-4)])
  obtain s4 where s4: "read_times read_pair (length (entries F)) s3 = (True, entries F, s4)" "istream_inv s4" "isValid s4" "unread s4 = rest"
    using pair.times_parses [OF _ s3(2-4)] v by (auto simp: valid_folder_def)
  have n: "unat ?n = length (entries F)" using v by (simp add: valid_folder_def unat_of_nat)
  have "\<not> Remainder s < 4" "\<not> Remainder s1 < 4" "\<not> Remainder s2 < 4"
    using s(1) u s1(2,4) s2(2,4) by (simp_all add: Remainder_unread)
  moreover have "emplace_all (entries F) [] = entries F" using emplace_all_sorted [of "[]" "entries F"] v by (simp add: valid_folder_def)
  ultimately have "Folder_Deserialize Folder_empty s = (True, F\<lparr>modified := False\<rparr>, s4)"
    using s1(1) s2(1) s3(1) s4(1) n by (simp add: Folder_Deserialize_def Folder_empty_def)
  with s4 show ?thesis by blast
qed

section \<open>The metadata cache\<close>

definition cached :: "bool \<Rightarrow> (string \<times> Entry) list \<Rightarrow> (string \<times> byte list) list" where
  "cached includeThis xs = map (\<lambda>(k, x). (e_id x, enc_metadata (e_metadata x)))
     (filter (\<lambda>(k, x). \<not> ((k = ''.'' \<and> \<not> includeThis) \<or> k = ''..'')) xs)"

lemma cache_entries_put_all:
  "\<forall>p \<in> set xs. valid_pair p \<Longrightarrow> cache_entries incl xs bm = blob_map.put_all (cached incl xs) bm"
proof (induction incl xs bm rule: cache_entries.induct)
  case (2 incl k x xs bm)
  then show ?case
    by (simp add: cached_def blob_map.put_all_def SetMetadata_SetValue valid_pair_def valid_entry_def split: if_splits)
qed (simp add: cached_def blob_map.put_all_def)

definition metadata_bytes :: "Folder \<Rightarrow> nat" where
  "metadata_bytes F = sum_list (map (\<lambda>(k, x). Metadata_GetSerializedSize (e_metadata x)) (entries F))"

lemma cached_bytes: "sum_list (map (\<lambda>kd. length (snd kd)) (cached incl (entries F))) \<le> metadata_bytes F"
proof -
  have "sum_list (map (\<lambda>kd. length (snd kd)) (cached incl xs)) \<le> sum_list (map (\<lambda>(k, x). Metadata_GetSerializedSize (e_metadata x)) xs)" for xs
    by (induction xs) (auto simp: cached_def length_enc_metadata)
  then show ?thesis by (simp add: metadata_bytes_def)
qed

section \<open>A folder and its blob\<close>

definition own_size :: "Folder \<Rightarrow> nat" where
  "own_size F = unat (md_size (e_metadata (dot F)))"

text \<open>
  The folder is well-formed, the blob map knows its blob by the metadata of its own entry, the
  file of the blob has that size, and there is room to cache the metadata of the entries. An entry
  with the id of the folder has the metadata of the folder.
\<close>

definition folder_stored :: "Folder \<Rightarrow> dir blob_env \<Rightarrow> bool" where
  "folder_stored F e \<longleftrightarrow> valid_folder F \<and> map_find (entries F) ''.'' = Some (dot F) \<and> e_id (dot F) \<noteq> [] \<and>
     (\<forall>(k, x) \<in> set (entries F). e_id x = e_id (dot F) \<and> k \<noteq> ''..'' \<longrightarrow> e_metadata x = e_metadata (dot F)) \<and>
     Metadata_GetSerializedSize (e_metadata (dot F)) < 2 ^ 64 \<and>
     openable (disk e) (e_id (dot F)) \<and> own_size F \<le> file_limit (disk e) \<and> \<not> fault e \<and>
     (\<exists>f. blobs (disk e) (e_id (dot F)) = Some f \<and> length f = own_size F) \<and>
     (\<exists>bm. blobMap e = Some bm \<and> map_inv bm \<and> GetValue bm (e_id (dot F)) = enc_metadata (e_metadata (dot F)) \<and>
        metadata_bytes F \<le> map_room bm)"

definition own_blob :: "Folder \<Rightarrow> IBlob" where
  "own_blob F = \<lparr>blob_id = e_id (dot F), blob_size = own_size F, blob_opened = True\<rparr>"

lemma map_find_in: "map_find m k = Some v \<Longrightarrow> (k, v) \<in> set m"
  by (induction m k rule: map_find.induct) (auto split: if_splits)

lemma folder_stored_file: "folder_stored F e \<Longrightarrow> file_ok (own_blob F) e"
  by (auto simp: folder_stored_def file_ok_def own_blob_def)

lemma folder_stored_metadata: "folder_stored F e \<Longrightarrow> valid_metadata (e_metadata (dot F))"
  by (auto simp: folder_stored_def valid_folder_def valid_pair_def valid_entry_def dest!: map_find_in)

lemma File_OpenBlob_known:
  assumes "blobMap e = Some bm" and "GetValue bm ident = enc_metadata m" and "valid_metadata m"
    and "Metadata_GetSerializedSize m < 2 ^ 64" and "openable (disk e) ident" and "blobs (disk e) ident \<noteq> None"
  shows "File_OpenBlob ident e = (Some \<lparr>blob_id = ident, blob_size = unat (md_size m), blob_opened = True\<rparr>, e)"
  using assms GetMetadata_value [OF assms(3,2,4)] by (auto simp: File_OpenBlob_def FileBlob_new_def Let_def)

lemma OpenBlob_stored: "folder_stored F e \<Longrightarrow> File_OpenBlob (e_id (dot F)) e = (Some (own_blob F), e)"
proof -
  assume f: "folder_stored F e"
  then obtain bm where "blobMap e = Some bm" "GetValue bm (e_id (dot F)) = enc_metadata (e_metadata (dot F))"
    "Metadata_GetSerializedSize (e_metadata (dot F)) < 2 ^ 64" "openable (disk e) (e_id (dot F))" "blobs (disk e) (e_id (dot F)) \<noteq> None"
    by (auto simp: folder_stored_def)
  with File_OpenBlob_known [OF _ _ folder_stored_metadata [OF f]] show ?thesis by (simp add: own_blob_def own_size_def)
qed

lemma ensure_dot_stored: "map_find (entries F) ''.'' = Some x \<Longrightarrow> ensure_dot F = F"
  by (simp add: ensure_dot_def map_emplace_def)

text \<open>Caching the metadata of the entries does not change what is known of the folder's own blob.\<close>

lemma cache_keeps_own:
  assumes "valid_folder F" and "map_find (entries F) ''.'' = Some (dot F)" and "e_id (dot F) \<noteq> []"
    and "\<forall>(k, x) \<in> set (entries F). e_id x = e_id (dot F) \<and> k \<noteq> ''..'' \<longrightarrow> e_metadata x = e_metadata (dot F)"
    and "map_inv bm" and "metadata_bytes F \<le> map_room bm" and "incl \<or> GetValue bm (e_id (dot F)) = enc_metadata (e_metadata (dot F))"
  shows "GetValue (cache_entries incl (entries F) bm) (e_id (dot F)) = enc_metadata (e_metadata (dot F)) \<and>
    map_inv (cache_entries incl (entries F) bm)"
proof -
  let ?c = "cached incl (entries F)" and ?id = "e_id (dot F)" and ?d = "enc_metadata (e_metadata (dot F))"
  have p: "cache_entries incl (entries F) bm = blob_map.put_all ?c bm"
    using assms(1) by (intro cache_entries_put_all) (simp add: valid_folder_def)
  have u: "\<forall>d'. (?id, d') \<in> set ?c \<longrightarrow> d' = ?d" using assms(4) by (fastforce simp: cached_def)
  have "GetValue (blob_map.put_all ?c bm) ?id = ?d"
  proof (cases "?id \<in> fst ` set ?c")
    case True
    then have "(?id, ?d) \<in> set ?c" using u by force
    moreover have "sum_list (map (\<lambda>kd. length (snd kd)) ?c) \<le> map_room bm" using cached_bytes [of incl F] assms(6) by simp
    ultimately show ?thesis using blob_map.get_put_all [OF assms(5) _ assms(3) _ _ u] by simp
  next
    case False
    have "incl \<Longrightarrow> ?id \<in> fst ` set ?c" using map_find_in [OF assms(2)] by (force simp: cached_def)
    with False assms(7) show ?thesis using blob_map.get_put_all_other [OF assms(5) False] by auto
  qed
  then show ?thesis using p blob_map.put_all_ok [OF assms(5)] by simp
qed

lemma LoadFolder_stored:
  assumes "valid_folder F" and "GetSerializedSize F < 2 ^ 64" and "e_id (dot F) \<noteq> []"
    and "File_OpenBlob (e_id (dot F)) e = (Some b, e)" and "file_ok b e" and "file_content b e = enc_folder F @ rest" and "blob_size b < 2 ^ 64"
  shows "LoadFolder FileBlobProvider (e_id (dot F)) e = (Some (F\<lparr>modified := False\<rparr>), snd (UpdateMetadataCache False (F\<lparr>modified := False\<rparr>) e))"
proof -
  have l: "length (file_content b e) = blob_size b" using assms(5) by (auto simp: file_ok_def file_content_def)
  then have r: "FileBlob_Read b 0 (blob_size b) e = (enc_folder F @ rest, e)"
    using FileBlob_Read_ok [OF assms(5), of 0 "blob_size b"] assms(6) by (simp add: peek_def)
  have ne: "enc_folder F \<noteq> []" using length_enc_folder [of F] by (auto simp: GetSerializedSize_def)
  let ?s = "BufferedInputStream (enc_folder F @ rest) (length (enc_folder F @ rest))"
  have i: "istream_inv ?s" "isValid ?s" "unread ?s = enc_folder F @ rest"
    using l assms(6,7) BufferedInputStream_inv [of "enc_folder F @ rest"] by simp_all
  have "blob_size b \<noteq> 0" using l assms(6) ne by (metis append_is_Nil_conv length_0_conv)
  with Folder_Deserialize_spec [OF assms(1) i] show ?thesis
    using assms(3,4) r ne by (auto simp: LoadFolder_def FileBlobProvider_def simp del: length_append)
qed

section \<open>Writing a folder back\<close>

lemma Flush_in_place:
  assumes "folder_stored F e" and "modified F" and "GetSerializedSize F \<le> own_size F"
  shows "\<exists>e'. Flush FileBlobProvider (Suc n) F e = (True, F\<lparr>modified := False\<rparr>, e') \<and>
    file_content (own_blob F) e' = poke 0 (enc_folder F) (file_content (own_blob F) e) \<and>
    disk e' = (disk e)\<lparr>blobs := (blobs (disk e))(e_id (dot F) \<mapsto> file_content (own_blob F) e')\<rparr> \<and>
    (\<exists>bm. blobMap e = Some bm \<and> blobMap e' = Some (cache_entries True (entries F) bm)) \<and> fault e' = fault e \<and> stuck e' = stuck e"
proof -
  have v: "valid_folder F" and d: "map_find (entries F) ''.'' = Some (dot F)" using assms(1) by (auto simp: folder_stored_def)
  obtain s where s: "Folder_Serialize BufferedOutputStream F = (True, s)" "take (ooffset s) (obuffer s) = enc_folder F"
    "ooffset s = GetSerializedSize F" by (rule Folder_Serialize_bytes [OF v])
  have o: "File_OpenBlob (e_id (dot F)) e = (Some (own_blob F), e)" by (rule OpenBlob_stored [OF assms(1)])
  have w: "FileBlob_Write (own_blob F) 0 (enc_folder F) e = (GetSerializedSize F,
      e\<lparr>disk := (disk e)\<lparr>blobs := (blobs (disk e))(e_id (dot F) \<mapsto> poke 0 (enc_folder F) (file_content (own_blob F) e))\<rparr>\<rparr>)"
    using FileBlob_Write_ok [OF folder_stored_file [OF assms(1)], of 0 "enc_folder F"] assms(3)
    by (simp add: length_enc_folder own_blob_def)
  obtain bm where "blobMap e = Some bm" using assms(1) by (auto simp: folder_stored_def)
  then show ?thesis
    using s o w assms(2,3) by (simp add: Flush.simps(2) ensure_dot_stored [OF d] FileBlobProvider_def own_blob_def file_content_def UpdateMetadataCache_def)
qed

lemma Flush_in_place_stored:
  assumes "folder_stored F e" and "modified F" and "GetSerializedSize F \<le> own_size F" and "Flush FileBlobProvider (Suc n) F e = (r, F', e')"
  shows "r" and "F' = F\<lparr>modified := False\<rparr>" and "File_OpenBlob (e_id (dot F)) e' = (Some (own_blob F), e')" and "file_ok (own_blob F) e'"
    and "\<exists>rest. file_content (own_blob F) e' = enc_folder F @ rest" and "\<forall>j. j \<noteq> e_id (dot F) \<longrightarrow> blobs (disk e') j = blobs (disk e) j"
    and "stuck e' = stuck e"
proof -
  from Flush_in_place [OF assms(1-3), of n] assms(4) obtain bm where r: "r" "F' = F\<lparr>modified := False\<rparr>"
    and c: "file_content (own_blob F) e' = poke 0 (enc_folder F) (file_content (own_blob F) e)"
    and d: "disk e' = (disk e)\<lparr>blobs := (blobs (disk e))(e_id (dot F) \<mapsto> file_content (own_blob F) e')\<rparr>"
    and bm: "blobMap e = Some bm" "blobMap e' = Some (cache_entries True (entries F) bm)" and f: "fault e' = fault e" "stuck e' = stuck e"
    by auto
  show "r" "F' = F\<lparr>modified := False\<rparr>" "stuck e' = stuck e" by fact+
  have g: "GetValue (cache_entries True (entries F) bm) (e_id (dot F)) = enc_metadata (e_metadata (dot F))"
    using assms(1) bm(1) by (intro cache_keeps_own [THEN conjunct1]) (auto simp: folder_stored_def)
  have s: "openable (disk e) (e_id (dot F))" "Metadata_GetSerializedSize (e_metadata (dot F)) < 2 ^ 64"
    using assms(1) by (auto simp: folder_stored_def)
  show "File_OpenBlob (e_id (dot F)) e' = (Some (own_blob F), e')"
    using File_OpenBlob_known [OF bm(2) g folder_stored_metadata [OF assms(1)] s(2)] s(1) d by (simp add: own_blob_def own_size_def)
  have l: "length (file_content (own_blob F) e) = own_size F" using assms(1) by (auto simp: folder_stored_def file_content_def own_blob_def)
  then have l': "length (file_content (own_blob F) e') = own_size F" using c assms(3) by (simp add: length_enc_folder)
  show "file_ok (own_blob F) e'" using folder_stored_file [OF assms(1)] f d l' by (auto simp: file_ok_def own_blob_def)
  show "\<exists>rest. file_content (own_blob F) e' = enc_folder F @ rest" using c by (simp add: poke_def)
  show "\<forall>j. j \<noteq> e_id (dot F) \<longrightarrow> blobs (disk e') j = blobs (disk e) j" using d by simp
qed

section \<open>A folder that moves to another blob\<close>

lemma map_put_present:
  "map_ok m \<Longrightarrow> map_find m k = Some v \<Longrightarrow> map_put k w m = map (\<lambda>(j, x). (j, if j = k then w else x)) m"
proof (induction k w m rule: map_put.induct)
  case (2 k w a x m)
  have "\<forall>p \<in> set m. fst p \<noteq> a" using 2(2) by auto
  then have same: "map (\<lambda>(j, x). (j, if j = a then w else x)) m = m" by (intro map_idI) auto
  have "\<not> k < a" using 2(2,3) map_find_in [of m k v] by (auto split: if_splits)
  then show ?case using 2 same by auto
qed simp

text \<open>Only the id of the folder's own entry changes, to one of the same length.\<close>

lemma moved_folder:
  assumes "valid_folder F" and "map_find (entries F) ''.'' = Some (dot F)" and "length ident = length (e_id (dot F))"
  defines "F' \<equiv> set_dot ((dot F)\<lparr>e_id := ident\<rparr>) F"
  shows "dot F' = (dot F)\<lparr>e_id := ident\<rparr>" and "map_find (entries F') ''.'' = Some (dot F')" and "valid_folder F'"
    and "GetSerializedSize F' = GetSerializedSize F" and "metadata_bytes F' = metadata_bytes F"
    and "\<And>k x. (k, x) \<in> set (entries F') \<Longrightarrow> (k, x) \<in> set (entries F) \<or> k = ''.'' \<and> x = dot F'"
    and "Parent F' = Parent F" and "folder_name F' = folder_name F"
proof -
  have ok: "map_ok (entries F)" using assms(1) by (simp add: valid_folder_def)
  have e: "entries F' = map (\<lambda>(j, x). (j, if j = ''.'' then (dot F)\<lparr>e_id := ident\<rparr> else x)) (entries F)"
    using map_put_present [OF ok assms(2)] by (simp add: F'_def set_dot_def)
  have own: "x = dot F" if "(''.'', x) \<in> set (entries F)" for x
  proof -
    have "distinct (map fst (entries F))" using ok strict_sorted_iff by blast
    then show ?thesis using that map_find_in [OF assms(2)] by (metis eq_key_imp_eq_value)
  qed
  show 1: "dot F' = (dot F)\<lparr>e_id := ident\<rparr>" by (simp add: F'_def dot_def set_dot_def)
  show "map_find (entries F') ''.'' = Some (dot F')" unfolding 1 by (simp add: F'_def set_dot_def)
  show "Parent F' = Parent F" "folder_name F' = folder_name F" by (simp_all add: F'_def Parent_def set_dot_def)
  show "(k, x) \<in> set (entries F) \<or> k = ''.'' \<and> x = dot F'" if "(k, x) \<in> set (entries F')" for k x
    using that 1 by (auto simp: e split: if_splits)
  have vp: "valid_pair p" if "p \<in> set (entries F)" for p using assms(1) that by (simp add: valid_folder_def)
  have "valid_pair (''.'', (dot F)\<lparr>e_id := ident\<rparr>)" using vp [OF map_find_in [OF assms(2)]] assms(3)
    by (simp add: valid_pair_def valid_entry_def)
  then have "\<forall>p \<in> set (entries F'). valid_pair p" using vp by (auto simp: e)
  moreover have "map_ok (entries F')" unfolding F'_def set_dot_def using ok by simp
  moreover have "length (entries F') = length (entries F)" "folder_name F' = folder_name F" unfolding e by (simp_all add: F'_def set_dot_def)
  ultimately show "valid_folder F'" using assms(1) unfolding valid_folder_def by metis
  have "map (\<lambda>(k, x). (4 + length k) + GetEntrySerializedSize x) (entries F') = map (\<lambda>(k, x). (4 + length k) + GetEntrySerializedSize x) (entries F)"
    unfolding e by (auto simp: GetEntrySerializedSize_def assms(3) dest: own)
  then show "GetSerializedSize F' = GetSerializedSize F" unfolding GetSerializedSize_def by (simp add: F'_def set_dot_def)
  have "map (\<lambda>(k, x). Metadata_GetSerializedSize (e_metadata x)) (entries F') = map (\<lambda>(k, x). Metadata_GetSerializedSize (e_metadata x)) (entries F)"
    unfolding e by (auto dest: own)
  then show "metadata_bytes F' = metadata_bytes F" unfolding metadata_bytes_def by simp
qed

section \<open>A root folder that outgrows its blob\<close>

definition grown :: "Folder \<Rightarrow> string \<Rightarrow> Folder" where
  "grown F ident = set_dot ((dot F)\<lparr>e_id := ident\<rparr>) F"

definition grown_map :: "BlobMap \<Rightarrow> Folder \<Rightarrow> string \<Rightarrow> BlobMap" where
  "grown_map bm F ident =
     SetMetadata bm ident (BlobMetadata_new\<lparr>md_size := word_of_nat (folder_blob_size (GetSerializedSize F))\<rparr>)"

lemma folder_blob_size_covers: "n \<le> folder_blob_size n"
  using dividend_less_times_div [of FOLDER_BLOB_UNIT_SIZE "n - 1"] by (simp add: FOLDER_BLOB_UNIT_SIZE_def folder_blob_size_def)

text \<open>\<open>Flush\<close> writes the folder to a new blob and removes the old one.\<close>

lemma Flush_grown:
  assumes "folder_stored F e" and "modified F" and "own_size F < GetSerializedSize F" and "Parent F = None"
    and "ident = uuids (disk e) (issued (disk e))" and "length ident = length (e_id (dot F))" and "ident \<noteq> e_id (dot F)"
    and "dir_ready (folder_blob_size (GetSerializedSize F)) e" and "blobMap e = Some bm"
  obtains e' where "Flush FileBlobProvider (Suc n) F e = (True, (grown F ident)\<lparr>modified := False\<rparr>, e')"
    and "blobMap e' = Some (cache_entries True (entries (grown F ident)) (grown_map bm F ident))"
    and "blobs (disk e') ident = Some (poke 0 (enc_folder (grown F ident)) (replicate (folder_blob_size (GetSerializedSize F)) 0))"
    and "openable (disk e') = openable (disk e)"
proof -
  let ?sz = "folder_blob_size (GetSerializedSize F)" and ?F = "grown F ident"
  have v: "valid_folder F" and d: "map_find (entries F) ''.'' = Some (dot F)" using assms(1) by (auto simp: folder_stored_def)
  note mv = moved_folder [OF v d assms(6), folded grown_def]
  obtain bm' e1 where "blobMap e = Some bm'"
    and nb: "File_NewBlob ?sz e = (Some \<lparr>blob_id = ident, blob_size = ?sz, blob_opened = True\<rparr>, e1)"
    and "blobMap e1 = Some (SetMetadata bm' ident (BlobMetadata_new\<lparr>md_size := word_of_nat ?sz\<rparr>))"
    and d1: "disk e1 = (disk e)\<lparr>issued := Suc (issued (disk e)), blobs := (blobs (disk e))(ident \<mapsto> replicate ?sz 0)\<rparr>" and f1: "\<not> fault e1"
    unfolding assms(5) by (rule File_NewBlob_ready [OF assms(8)])
  then have m1: "blobMap e1 = Some (grown_map bm F ident)" using assms(9) by (simp add: grown_map_def)
  let ?b = "\<lparr>blob_id = ident, blob_size = ?sz, blob_opened = True\<rparr>"
  have lim: "?sz \<le> file_limit (disk e)" using assms(8) by (auto simp: dir_ready_def Let_def)
  let ?e2 = "File_DeleteBlob (e_id (dot F)) e1"
  have ok2: "file_ok ?b ?e2" "file_content ?b ?e2 = replicate ?sz 0"
    using d1 f1 lim assms(7) by (auto simp: file_ok_def file_content_def File_DeleteBlob_def)
  obtain s where s: "Folder_Serialize BufferedOutputStream ?F = (True, s)" "take (ooffset s) (obuffer s) = enc_folder ?F" "ooffset s = GetSerializedSize F"
    using Folder_Serialize_bytes [OF mv(3)] mv(4) by metis
  let ?e3 = "?e2\<lparr>disk := (disk ?e2)\<lparr>blobs := (blobs (disk ?e2))(ident \<mapsto> poke 0 (enc_folder ?F) (replicate ?sz 0))\<rparr>\<rparr>"
  have w: "FileBlob_Write ?b 0 (enc_folder ?F) ?e2 = (GetSerializedSize F, ?e3)"
    using FileBlob_Write_ok [OF ok2(1), of 0 "enc_folder ?F"] folder_blob_size_covers ok2(2) mv(4) by (simp add: length_enc_folder)
  have o: "File_OpenBlob (e_id (dot F)) e = (Some (own_blob F), e)" by (rule OpenBlob_stored [OF assms(1)])
  have root: "IsRootFolder ?F" using mv(7) assms(4) by (simp add: IsRootFolder_def)
  have "Flush FileBlobProvider (Suc n) F e =
      (True, ?F\<lparr>modified := False\<rparr>, ?e3\<lparr>blobMap := Some (cache_entries True (entries ?F) (grown_map bm F ident))\<rparr>)"
    using assms(2,3) o nb s w root m1 unfolding grown_def
    by (simp add: Flush.simps(2) ensure_dot_stored [OF d] FileBlobProvider_def own_blob_def GetParentFolder_def UpdateMetadataCache_def File_DeleteBlob_def set_dot_def Let_def)
  then show ?thesis by (rule that) (simp_all add: File_DeleteBlob_def d1)
qed

text \<open>The cache then has the metadata of the old blob for the new one.\<close>

lemma grown_cache:
  assumes "folder_stored F e" and "length ident = length (e_id (dot F))" and "ident \<notin> e_id ` snd ` set (entries F)" and "ident \<noteq> []"
    and "map_inv bm" and "metadata_bytes F + 20 \<le> map_room bm"
  shows "GetValue (cache_entries True (entries (grown F ident)) (grown_map bm F ident)) ident = enc_metadata (e_metadata (dot F))"
proof -
  let ?F = "grown F ident" and ?bm = "grown_map bm F ident"
  have v: "valid_folder F" and d: "map_find (entries F) ''.'' = Some (dot F)" using assms(1) by (auto simp: folder_stored_def)
  note mv = moved_folder [OF v d assms(2), folded grown_def]
  have sv: "?bm = SetValue bm ident (enc_metadata (BlobMetadata_new\<lparr>md_size := word_of_nat (folder_blob_size (GetSerializedSize F))\<rparr>))"
    unfolding grown_map_def by (rule SetMetadata_SetValue [OF new_metadata(1)])
  have room: "metadata_bytes ?F \<le> map_room ?bm" and inv: "map_inv ?bm"
    using blob_map.room_put [OF assms(5), of ident "enc_metadata (BlobMetadata_new\<lparr>md_size := word_of_nat (folder_blob_size (GetSerializedSize F))\<rparr>)"]
      blob_map.put_ok [OF assms(5)] assms(6) mv(5)
    unfolding sv by (simp_all add: new_metadata length_enc_metadata)
  have "e_metadata x = e_metadata (dot ?F)" if "(k, x) \<in> set (entries ?F)" "e_id x = e_id (dot ?F)" for k x
  proof -
    have "x \<notin> snd ` set (entries F)" using that(2) assms(3) unfolding mv(1) by auto
    then have "(k, x) \<notin> set (entries F)" by force
    then show ?thesis using mv(6) [OF that(1)] by blast
  qed
  then have "GetValue (cache_entries True (entries ?F) ?bm) (e_id (dot ?F)) = enc_metadata (e_metadata (dot ?F))"
    using cache_keeps_own [OF mv(3,2) _ _ inv room, of True] assms(4) unfolding mv(1) by auto
  then show ?thesis unfolding mv(1) by simp
qed

section \<open>A concrete folder\<close>

definition demo_metadata :: "u64 \<Rightarrow> BlobMetadata" where
  "demo_metadata sz = BlobMetadata_new\<lparr>md_size := sz\<rparr>"

definition demo_folder :: "u64 \<Rightarrow> Folder" where
  "demo_folder sz = \<lparr>entries = [(''.'', \<lparr>e_id = ''a'', e_type = FOLDER, e_createTime = 1, e_modifyTime = 1, e_size = 0,
     e_metadata = demo_metadata sz\<rparr>)], folder_name = [], modified = True\<rparr>"

definition demo_disk :: "u64 \<Rightarrow> dir blob_env" where
  "demo_disk sz = demo_blobs\<lparr>disk := (disk demo_blobs)\<lparr>blobs := [''a'' \<mapsto> replicate (unat sz) 0], file_limit := 100000\<rparr>,
     blobMap := Some \<lparr>mapFile = Some (enc_metadata (demo_metadata sz)), mapFilename = ''blob.cache'',
       indexes = [(''a'', \<lparr>ix_offset = 0, ix_size = 20\<rparr>)], fileLimit = 1000\<rparr>\<rparr>"

lemma length_demo_metadata [simp]: "length (enc_metadata (demo_metadata sz)) = 20"
  unfolding demo_metadata_def by (simp add: length_enc_metadata new_metadata)

lemma demo_map:
  "map_inv \<lparr>mapFile = Some (enc_metadata (demo_metadata sz)), mapFilename = nm, indexes = [(''a'', \<lparr>ix_offset = 0, ix_size = 20\<rparr>)], fileLimit = 1000\<rparr>"
  "GetValue \<lparr>mapFile = Some (enc_metadata (demo_metadata sz)), mapFilename = nm, indexes = [(''a'', \<lparr>ix_offset = 0, ix_size = 20\<rparr>)], fileLimit = 1000\<rparr> ''a'' =
     enc_metadata (demo_metadata sz)"
  "map_room \<lparr>mapFile = Some (enc_metadata (demo_metadata sz)), mapFilename = nm, indexes = [(''a'', \<lparr>ix_offset = 0, ix_size = 20\<rparr>)], fileLimit = 1000\<rparr> = 980"
  by (simp_all add: map_inv_def GetValue_def peek_def map_room_def)

lemma demo_sizes:
  "dot (demo_folder sz) = \<lparr>e_id = ''a'', e_type = FOLDER, e_createTime = 1, e_modifyTime = 1, e_size = 0, e_metadata = demo_metadata sz\<rparr>"
  "own_size (demo_folder sz) = unat sz" "GetSerializedSize (demo_folder sz) = 59" "metadata_bytes (demo_folder sz) = 20"
  by (simp_all add: dot_def demo_folder_def own_size_def demo_metadata_def GetSerializedSize_def GetEntrySerializedSize_def metadata_bytes_def new_metadata)

lemma demo_stored: "unat sz \<le> 1000 \<Longrightarrow> folder_stored (demo_folder sz) (demo_disk sz)"
  unfolding folder_stored_def demo_sizes demo_disk_def
  by (simp add: demo_map demo_blobs_def)
    (simp add: demo_folder_def demo_metadata_def valid_folder_def valid_pair_def valid_entry_def new_metadata)

section \<open>Properties\<close>

text \<open>
  C30. The stream image of a folder is complete: the buffer a folder was serialised to has the size the
  class announces, and reading it gives back the name and all entries with ids, times and metadata.
\<close>

theorem Folder_Serialize_Deserialize:
  assumes "valid_folder F" and "GetSerializedSize F < 2 ^ 64"
  shows "\<exists>s s'. Folder_Serialize BufferedOutputStream F = (True, s) \<and> ooffset s = GetSerializedSize F \<and>
    Folder_Deserialize Folder_empty (BufferedInputStream (obuffer s) (ooffset s)) = (True, F\<lparr>modified := False\<rparr>, s')"
proof -
  obtain s where s: "Folder_Serialize BufferedOutputStream F = (True, s)" "take (ooffset s) (obuffer s) = enc_folder F"
    "ooffset s = GetSerializedSize F" by (rule Folder_Serialize_bytes [OF assms(1)])
  let ?i = "BufferedInputStream (obuffer s) (ooffset s)"
  have "length (take (ooffset s) (obuffer s)) = ooffset s" using s(2,3) by (simp add: length_enc_folder)
  then have "istream_inv ?i" "isValid ?i" "unread ?i = enc_folder F @ []"
    using assms(2) s(2,3) by (auto simp: istream_inv_def BufferedInputStream_def unread_def)
  from Folder_Deserialize_spec [OF assms(1) this] s show ?thesis by blast
qed

theorem Folder_Serialize_Deserialize_witness:
  "\<exists>s s'. Folder_Serialize BufferedOutputStream (demo_folder 64) = (True, s) \<and> ooffset s = 59 \<and>
    Folder_Deserialize Folder_empty (BufferedInputStream (obuffer s) (ooffset s)) = (True, (demo_folder 64)\<lparr>modified := False\<rparr>, s')"
proof -
  have "valid_folder (demo_folder 64)" using demo_stored [of 64] by (simp add: folder_stored_def)
  from Folder_Serialize_Deserialize [OF this] show ?thesis by (simp add: demo_sizes)
qed

text \<open>
  C23. A folder that is written back is found again: for a changed folder that fits into its blob,
  \<open>Flush\<close> succeeds, \<open>LoadFolder\<close> with the folder's id returns the same name and entries, and no
  other blob changes.
\<close>

theorem Flush_LoadFolder:
  assumes "folder_stored F e" and "modified F" and "GetSerializedSize F \<le> own_size F"
  shows "\<exists>e'. Flush FileBlobProvider (Suc n) F e = (True, F\<lparr>modified := False\<rparr>, e') \<and>
    fst (LoadFolder FileBlobProvider (e_id (dot F)) e') = Some (F\<lparr>modified := False\<rparr>) \<and>
    (\<forall>j. j \<noteq> e_id (dot F) \<longrightarrow> blobs (disk e') j = blobs (disk e) j) \<and> stuck e' = stuck e"
proof -
  obtain r F' e' where f: "Flush FileBlobProvider (Suc n) F e = (r, F', e')" by (rule prod_cases3)
  note p = Flush_in_place_stored [OF assms f]
  have v: "valid_folder F" "e_id (dot F) \<noteq> []" using assms(1) by (auto simp: folder_stored_def)
  have sz: "own_size F < 2 ^ 64" using unsigned_less [of "md_size (e_metadata (dot F))"] by (simp add: own_size_def)
  obtain rest where c: "file_content (own_blob F) e' = enc_folder F @ rest" using p(5) by blast
  have "fst (LoadFolder FileBlobProvider (e_id (dot F)) e') = Some (F\<lparr>modified := False\<rparr>)"
    using LoadFolder_stored [OF v(1) _ v(2) p(3,4) c] assms(3) sz by (simp add: own_blob_def)
  with f p show ?thesis by auto
qed

theorem Flush_LoadFolder_witness:
  "\<exists>e'. Flush FileBlobProvider (Suc 0) (demo_folder 64) (demo_disk 64) = (True, (demo_folder 64)\<lparr>modified := False\<rparr>, e') \<and>
     fst (LoadFolder FileBlobProvider ''a'' e') = Some ((demo_folder 64)\<lparr>modified := False\<rparr>)"
proof -
  have "modified (demo_folder 64)" by (simp add: demo_folder_def)
  from Flush_LoadFolder [OF demo_stored this, of 0] show ?thesis by (auto simp: demo_sizes)
qed

text \<open>
  C32. A folder that outgrows its blob is cut off: \<open>Flush\<close> of a root folder that does not fit moves it
  to a larger blob and writes it there completely, but the entry of the folder keeps the metadata of
  the old blob, the cache is filled from it, and opening the new blob gives the size of the old one,
  which is less than the folder needs.
\<close>

theorem Flush_growth_cut_off:
  assumes "folder_stored F e" and "modified F" and "own_size F < GetSerializedSize F" and "Parent F = None"
    and "ident = uuids (disk e) (issued (disk e))" and "length ident = length (e_id (dot F))" and "ident \<notin> e_id ` snd ` set (entries F)"
    and "dir_ready (folder_blob_size (GetSerializedSize F)) e"
    and "blobMap e = Some bm" and "metadata_bytes F + 20 \<le> map_room bm"
  shows "\<exists>F' e' b f. Flush FileBlobProvider (Suc n) F e = (True, F', e') \<and> e_id (dot F') = ident \<and>
    blobs (disk e') ident = Some f \<and> take (GetSerializedSize F') f = enc_folder F' \<and>
    File_OpenBlob ident e' = (Some b, e') \<and> blob_size b = own_size F \<and> blob_size b < GetSerializedSize F'"
proof -
  let ?F = "grown F ident"
  have v: "valid_folder F" and d: "map_find (entries F) ''.'' = Some (dot F)"
    and mb: "Metadata_GetSerializedSize (e_metadata (dot F)) < 2 ^ 64" using assms(1) by (auto simp: folder_stored_def)
  note mv = moved_folder [OF v d assms(6), folded grown_def]
  have ready: "ident \<noteq> []" "map_inv bm" "openable (disk e) ident" using assms(5,8,9) by (auto simp: dir_ready_def Let_def)
  have ne: "ident \<noteq> e_id (dot F)" using assms(7) map_find_in [OF d] by force
  obtain e' where fl: "Flush FileBlobProvider (Suc n) F e = (True, ?F\<lparr>modified := False\<rparr>, e')"
    and m: "blobMap e' = Some (cache_entries True (entries ?F) (grown_map bm F ident))"
    and f: "blobs (disk e') ident = Some (poke 0 (enc_folder ?F) (replicate (folder_blob_size (GetSerializedSize F)) 0))"
    and op: "openable (disk e') = openable (disk e)"
    by (rule Flush_grown [OF assms(1-6) ne assms(8,9)])
  note g = grown_cache [OF assms(1,6,7) ready(1,2) assms(10)]
  have "File_OpenBlob ident e' = (Some \<lparr>blob_id = ident, blob_size = own_size F, blob_opened = True\<rparr>, e')"
    using File_OpenBlob_known [OF m g folder_stored_metadata [OF assms(1)] mb] ready(3) op f by (simp add: own_size_def)
  moreover have "dot (?F\<lparr>modified := False\<rparr>) = dot ?F" "GetSerializedSize (?F\<lparr>modified := False\<rparr>) = GetSerializedSize F" "enc_folder (?F\<lparr>modified := False\<rparr>) = enc_folder ?F"
    using mv(4) by (simp_all add: dot_def GetSerializedSize_def enc_folder_def)
  moreover have "take (GetSerializedSize F) (poke 0 (enc_folder ?F) (replicate (folder_blob_size (GetSerializedSize F)) 0)) = enc_folder ?F"
    using mv(4) by (simp add: poke_def length_enc_folder [symmetric])
  ultimately show ?thesis using fl f assms(3) mv(1) by auto
qed

theorem Flush_growth_cut_off_witness:
  "\<exists>F' e' b. Flush FileBlobProvider (Suc 0) (demo_folder 16) (demo_disk 16) = (True, F', e') \<and>
     File_OpenBlob ''b'' e' = (Some b, e') \<and> blob_size b < GetSerializedSize F'"
proof -
  have "dir_ready (folder_blob_size 59) (demo_disk 16)"
    by (simp add: dir_ready_def demo_disk_def demo_blobs_def demo_map folder_blob_size_def FOLDER_BLOB_UNIT_SIZE_def)
  moreover have "blobMap (demo_disk 16) = Some \<lparr>mapFile = Some (enc_metadata (demo_metadata 16)), mapFilename = ''blob.cache'',
      indexes = [(''a'', \<lparr>ix_offset = 0, ix_size = 20\<rparr>)], fileLimit = 1000\<rparr>" "uuids (disk (demo_disk 16)) (issued (disk (demo_disk 16))) = ''b''"
    by (simp_all add: demo_disk_def demo_blobs_def)
  moreover have "modified (demo_folder 16)" "Parent (demo_folder 16) = None" "''b'' \<notin> e_id ` snd ` set (entries (demo_folder 16))"
    by (simp_all add: demo_folder_def Parent_def)
  ultimately show ?thesis
    using Flush_growth_cut_off [OF demo_stored [of 16], of "''b''" _ 0] by (auto simp: demo_sizes demo_map)
qed

end
