(* ===== verification/FolderTree.thy ===== *)
theory FolderTree
  imports Folder
begin

text \<open>
  Folders in the steady state, in which the blob map already has the metadata of all entries: then
  loading a folder changes nothing, and writing it back changes the file of its own blob and nothing
  else. The lemmas follow a change of a folder up to its parent.
\<close>

section \<open>Maps\<close>

lemma map_put_sum:
  fixes g :: "'k::linorder \<times> 'v \<Rightarrow> nat"
  assumes "map_ok m"
  shows "sum_list (map g (map_put k v m)) + (case map_find m k of None \<Rightarrow> 0 | Some w \<Rightarrow> g (k, w)) = sum_list (map g m) + g (k, v)"
  using assms
proof (induction k v m rule: map_put.induct)
  case (2 k v a w m)
  then show ?case
    using map_find_None_iff [of m k] by (auto split: option.splits dest: map_find_in)
qed simp

lemma map_erase_sum:
  fixes g :: "'k \<times> 'v \<Rightarrow> nat"
  shows "sum_list (map g (map_erase k m)) + (case map_find m k of None \<Rightarrow> 0 | Some w \<Rightarrow> g (k, w)) = sum_list (map g m)"
  by (induction k m rule: map_erase.induct) (auto split: option.splits)

lemma length_map_put_present: "map_ok m \<Longrightarrow> map_find m k = Some v \<Longrightarrow> length (map_put k w m) = length m"
  by (simp add: map_put_present)

section \<open>Steady folders\<close>

definition known :: "dir blob_env \<Rightarrow> Entry \<Rightarrow> bool" where
  "known e x \<longleftrightarrow> valid_entry x \<and>
     (\<exists>bm. blobMap e = Some bm \<and> GetValue bm (e_id x) = enc_metadata (e_metadata x))"

definition steady :: "Folder \<Rightarrow> dir blob_env \<Rightarrow> bool" where
  "steady F e \<longleftrightarrow> valid_folder F \<and> map_find (entries F) ''.'' = Some (dot F) \<and> e_id (dot F) \<noteq> [] \<and>
     (\<forall>(k, x) \<in> set (entries F). k \<noteq> ''..'' \<longrightarrow> known e x) \<and>
     Metadata_GetSerializedSize (e_metadata (dot F)) < 2 ^ 64 \<and>
     openable (disk e) (e_id (dot F)) \<and> own_size F \<le> file_limit (disk e) \<and> \<not> fault e \<and>
     (\<exists>f. blobs (disk e) (e_id (dot F)) = Some f \<and> length f = own_size F)"

definition on_disk :: "Folder \<Rightarrow> dir blob_env \<Rightarrow> bool" where
  "on_disk F e \<longleftrightarrow> steady F e \<and> (\<exists>rest. blobs (disk e) (e_id (dot F)) = Some (enc_folder F @ rest))"

text \<open>The environment in which the file of one blob is replaced.\<close>

definition put_file :: "string \<Rightarrow> byte list \<Rightarrow> dir blob_env \<Rightarrow> dir blob_env" where
  "put_file ident f e = e\<lparr>disk := (disk e)\<lparr>blobs := (blobs (disk e))(ident \<mapsto> f)\<rparr>\<rparr>"

lemma put_file_simps [simp]:
  "blobMap (put_file i f e) = blobMap e" "fault (put_file i f e) = fault e" "stuck (put_file i f e) = stuck e"
  "openable (disk (put_file i f e)) = openable (disk e)" "file_limit (disk (put_file i f e)) = file_limit (disk e)"
  "blobs (disk (put_file i f e)) = (blobs (disk e))(i \<mapsto> f)" "time_now (put_file i f e) = time_now e"
  "root_id (put_file i f e) = root_id e" "local_open (put_file i f e) = local_open e" "local_room (put_file i f e) = local_room e"
  "root_file (put_file i f e) = root_file e" "root_metadata (put_file i f e) = root_metadata e"
  "known (put_file i f e) x = known e x"
  by (simp_all add: put_file_def known_def)

lemma steady_dot: "steady F e \<Longrightarrow> known e (dot F)"
  by (auto simp: steady_def dest!: map_find_in)

lemma cache_steady:
  assumes "\<forall>(k, x) \<in> set xs. k \<noteq> ''..'' \<longrightarrow> known e x" and "blobMap e = Some bm"
  shows "cache_entries incl xs bm = bm"
  using assms
proof (induction incl xs bm rule: cache_entries.induct)
  case (2 incl k x xs bm)
  have "SetMetadata bm (e_id x) (e_metadata x) = bm" if "k \<noteq> ''..''"
    using 2(2,3) that by (auto simp: known_def valid_entry_def SetMetadata_SetValue SetValue_def split: option.splits)
  then show ?case using 2 by auto
qed simp

lemma UpdateMetadataCache_steady: "steady F e \<Longrightarrow> snd (UpdateMetadataCache incl F e) = e"
proof -
  assume s: "steady F e"
  then obtain bm where bm: "blobMap e = Some bm" using steady_dot [OF s] by (auto simp: known_def)
  have "cache_entries incl (entries F) bm = bm" by (rule cache_steady [OF _ bm]) (use s in \<open>simp add: steady_def\<close>)
  then show ?thesis using bm by (simp add: UpdateMetadataCache_def)
qed

lemma steady_frame [simp]: "steady (F\<lparr>modified := b\<rparr>) e = steady F e" "on_disk (F\<lparr>modified := b\<rparr>) e = on_disk F e"
  by (simp_all add: steady_def on_disk_def valid_folder_def dot_def own_size_def enc_folder_def)

lemma modified_frame [simp]:
  "dot (F\<lparr>modified := b\<rparr>) = dot F" "own_size (F\<lparr>modified := b\<rparr>) = own_size F" "enc_folder (F\<lparr>modified := b\<rparr>) = enc_folder F"
  "GetSerializedSize (F\<lparr>modified := b\<rparr>) = GetSerializedSize F"
  by (simp_all add: dot_def own_size_def enc_folder_def GetSerializedSize_def)

lemma OpenBlob_steady: "steady F e \<Longrightarrow> File_OpenBlob (e_id (dot F)) e = (Some (own_blob F), e)"
proof -
  assume s: "steady F e"
  from steady_dot [OF s] obtain bm where bm: "blobMap e = Some bm" "GetValue bm (e_id (dot F)) = enc_metadata (e_metadata (dot F))"
    and v: "valid_metadata (e_metadata (dot F))" by (auto simp: known_def valid_entry_def)
  have "blobs (disk e) (e_id (dot F)) \<noteq> None" "openable (disk e) (e_id (dot F))" "Metadata_GetSerializedSize (e_metadata (dot F)) < 2 ^ 64"
    using s by (auto simp: steady_def)
  with File_OpenBlob_known [OF bm v] show ?thesis by (simp add: own_blob_def own_size_def)
qed

lemma steady_file: "steady F e \<Longrightarrow> file_ok (own_blob F) e"
  by (auto simp: steady_def file_ok_def own_blob_def)

text \<open>Loading a folder that is on disk leaves the environment alone.\<close>

lemma LoadFolder_on_disk:
  assumes "on_disk F e"
  shows "LoadFolder FileBlobProvider (e_id (dot F)) e = (Some (F\<lparr>modified := False\<rparr>), e)"
proof -
  have s: "steady F e" and v: "valid_folder F" "e_id (dot F) \<noteq> []" using assms by (auto simp: on_disk_def steady_def)
  obtain rest where r: "blobs (disk e) (e_id (dot F)) = Some (enc_folder F @ rest)" using assms by (auto simp: on_disk_def)
  have l: "length (enc_folder F @ rest) = own_size F" using s r by (auto simp: steady_def)
  have sz: "own_size F < 2 ^ 64" using unsigned_less [of "md_size (e_metadata (dot F))"] by (simp add: own_size_def)
  have "GetSerializedSize F < 2 ^ 64" using l sz by (simp add: length_enc_folder)
  with LoadFolder_stored [OF v(1) _ v(2) OpenBlob_steady [OF s] steady_file [OF s]] sz r
  show ?thesis using UpdateMetadataCache_steady [of "F\<lparr>modified := False\<rparr>" e False] s by (simp add: own_blob_def file_content_def)
qed

text \<open>Writing a steady folder back replaces the file of its blob.\<close>

lemma Flush_steady:
  assumes "steady F e" and "modified F" and "GetSerializedSize F \<le> own_size F"
  shows "\<exists>f. Flush FileBlobProvider (Suc n) F e = (True, F\<lparr>modified := False\<rparr>, put_file (e_id (dot F)) f e) \<and>
    length f = own_size F \<and> on_disk F (put_file (e_id (dot F)) f e)"
proof -
  have v: "valid_folder F" and d: "map_find (entries F) ''.'' = Some (dot F)" using assms(1) by (auto simp: steady_def)
  obtain s where s: "Folder_Serialize BufferedOutputStream F = (True, s)" "take (ooffset s) (obuffer s) = enc_folder F"
    "ooffset s = GetSerializedSize F" by (rule Folder_Serialize_bytes [OF v])
  let ?f = "poke 0 (enc_folder F) (file_content (own_blob F) e)" and ?id = "e_id (dot F)"
  have l: "length (file_content (own_blob F) e) = own_size F" using assms(1) by (auto simp: steady_def file_content_def own_blob_def)
  have w: "FileBlob_Write (own_blob F) 0 (enc_folder F) e = (GetSerializedSize F, put_file ?id ?f e)"
    using FileBlob_Write_ok [OF steady_file [OF assms(1)], of 0 "enc_folder F"] assms(3)
    by (simp add: length_enc_folder own_blob_def put_file_def)
  have st: "steady F (put_file ?id ?f e)" using assms(1,3) l by (auto simp: steady_def length_enc_folder)
  have "Flush FileBlobProvider (Suc n) F e = (True, F\<lparr>modified := False\<rparr>, put_file ?id ?f e)"
    using s w assms(2,3) OpenBlob_steady [OF assms(1)] UpdateMetadataCache_steady [of "F\<lparr>modified := False\<rparr>" "put_file ?id ?f e" True] st
    by (simp add: Flush.simps(2) ensure_dot_stored [OF d] FileBlobProvider_def own_blob_def)
  moreover have "on_disk F (put_file ?id ?f e)" using st by (auto simp: on_disk_def poke_def)
  moreover have "length ?f = own_size F" using l assms(3) by (simp add: length_enc_folder)
  ultimately show ?thesis by blast
qed

lemma Flush_clean: "\<not> modified F \<Longrightarrow> Flush Pr (Suc n) F e = (True, F, e)"
  by (simp add: Flush.simps(2))

section \<open>Changing entries\<close>

definition entry_bytes :: "string \<times> Entry \<Rightarrow> nat" where
  "entry_bytes p = (4 + length (fst p)) + GetEntrySerializedSize (snd p)"

definition with_entry :: "string \<Rightarrow> Entry \<Rightarrow> Folder \<Rightarrow> Folder" where
  "with_entry k x F = F\<lparr>entries := map_put k x (entries F), modified := True\<rparr>"

definition without_entry :: "string \<Rightarrow> Folder \<Rightarrow> Folder" where
  "without_entry k F = F\<lparr>entries := map_erase k (entries F), modified := True\<rparr>"

lemma GetSerializedSize_entries: "GetSerializedSize F = 12 + length (folder_name F) + sum_list (map entry_bytes (entries F))"
proof -
  have "map (\<lambda>(k, x). (4 + length k) + GetEntrySerializedSize x) (entries F) = map entry_bytes (entries F)" by (auto simp: entry_bytes_def)
  then have "GetSerializedSize F = 4 + (4 + length (folder_name F)) + 4 + sum_list (map entry_bytes (entries F))"
    unfolding GetSerializedSize_def by presburger
  then show ?thesis by simp
qed

lemma size_with_entry:
  "valid_folder F \<Longrightarrow> GetSerializedSize (with_entry k x F) +
     (case map_find (entries F) k of None \<Rightarrow> 0 | Some w \<Rightarrow> entry_bytes (k, w)) = GetSerializedSize F + entry_bytes (k, x)"
  using map_put_sum [of "entries F" entry_bytes k x] by (simp add: GetSerializedSize_entries with_entry_def valid_folder_def)

lemma size_without_entry: "GetSerializedSize (without_entry k F) \<le> GetSerializedSize F"
  using map_erase_sum [of entry_bytes k "entries F"] by (simp add: GetSerializedSize_entries without_entry_def)

lemma entries_change [simp]:
  "map_find (entries (with_entry k x F)) j = (if j = k then Some x else map_find (entries F) j)"
  "folder_name (with_entry k x F) = folder_name F" "folder_name (without_entry k F) = folder_name F"
  "modified (with_entry k x F)" "modified (without_entry k F)"
  by (simp_all add: with_entry_def without_entry_def)

lemma dot_with_entry [simp]: "dot (with_entry k x F) = (if k = ''.'' then x else dot F)"
  by (simp add: dot_def)

lemma steady_with_entry:
  assumes "steady F e" and "known e x \<or> k = ''..''" and "valid_entry x" and "length k < 2 ^ 32" and "map_find (entries F) k \<noteq> None \<or> length (entries F) < 2 ^ 32 - 1"
    and "k = ''.'' \<Longrightarrow> e_id x = e_id (dot F) \<and> e_metadata x = e_metadata (dot F)"
  shows "steady (with_entry k x F) e"
proof -
  have ok: "map_ok (entries F)" and v: "valid_folder F" using assms(1) by (auto simp: steady_def valid_folder_def)
  have "length (map_put k x (entries F)) < 2 ^ 32"
    using assms(5) length_map_put [of k x "entries F"] length_map_put_present [OF ok, of k] v
    by (cases "map_find (entries F) k") (auto simp: valid_folder_def)
  moreover have "\<forall>p \<in> set (map_put k x (entries F)). valid_pair p"
    using set_map_put [of k x "entries F"] v assms(3,4) by (auto simp: valid_folder_def valid_pair_def)
  ultimately have "valid_folder (with_entry k x F)" using v by (simp add: valid_folder_def with_entry_def)
  moreover have "\<forall>(j, y) \<in> set (entries (with_entry k x F)). j \<noteq> ''..'' \<longrightarrow> known e y"
    using assms(1,2) set_map_put [of k x "entries F"] by (auto simp: steady_def with_entry_def)
  moreover have "map_find (entries (with_entry k x F)) ''.'' = Some (dot (with_entry k x F))"
    using assms(1) by (simp add: steady_def)
  moreover have "e_id (dot (with_entry k x F)) = e_id (dot F)" "e_metadata (dot (with_entry k x F)) = e_metadata (dot F)" using assms(6) by auto
  ultimately show ?thesis using assms(1) by (simp add: steady_def own_size_def)
qed

lemma steady_without_entry:
  assumes "steady F e" and "k \<noteq> ''.''"
  shows "steady (without_entry k F) e" and "dot (without_entry k F) = dot F"
proof -
  have ok: "map_ok (entries F)" and v: "valid_folder F" using assms(1) by (auto simp: steady_def valid_folder_def)
  show d: "dot (without_entry k F) = dot F" using assms(2) by (simp add: dot_def without_entry_def map_find_erase [OF ok])
  have "valid_folder (without_entry k F)"
    using v set_map_erase [of k "entries F"] length_map_erase_le [of k "entries F"] by (auto simp: valid_folder_def without_entry_def)
  then show "steady (without_entry k F) e"
    using assms set_map_erase [of k "entries F"] unfolding steady_def d own_size_def
    by (auto simp: without_entry_def map_find_erase [OF ok])
qed

section \<open>Changes that reach the parent\<close>

lemma on_disk_frame: "i \<noteq> e_id (dot F) \<Longrightarrow> on_disk F (put_file i f e) = on_disk F e" "i \<noteq> e_id (dot F) \<Longrightarrow> steady F (put_file i f e) = steady F e"
  by (auto simp: on_disk_def steady_def)

lemma Flush_after: "Flush Pr (Suc n) (F\<lparr>modified := False\<rparr>) e = (True, F\<lparr>modified := False\<rparr>, e)"
  by (simp add: Flush_clean)

text \<open>An entry that is there already is replaced without looking at the parent.\<close>

lemma UpdateEntry_present:
  assumes "steady P e" and "map_find (entries P) k \<noteq> None" and "known e x" and "length k < 2 ^ 32"
    and "k \<noteq> ''.''" and "GetSerializedSize (with_entry k x P) \<le> own_size P"
  shows "\<exists>f. UpdateEntry FileBlobProvider (Suc (Suc n)) P k x e = ((with_entry k x P)\<lparr>modified := False\<rparr>, put_file (e_id (dot P)) f e) \<and>
    on_disk (with_entry k x P) (put_file (e_id (dot P)) f e)"
proof -
  have d: "map_find (entries P) ''.'' = Some (dot P)" using assms(1) by (simp add: steady_def)
  have st: "steady (with_entry k x P) e"
    by (rule steady_with_entry) (use assms in \<open>auto simp: known_def\<close>)
  have sz: "GetSerializedSize (with_entry k x P) \<le> own_size (with_entry k x P)" using assms(5,6) by (simp add: own_size_def)
  obtain f where f: "Flush FileBlobProvider (Suc n) (with_entry k x P) e = (True, (with_entry k x P)\<lparr>modified := False\<rparr>, put_file (e_id (dot P)) f e)"
    "on_disk (with_entry k x P) (put_file (e_id (dot P)) f e)"
    using Flush_steady [OF st _ sz, of n] assms(5) by auto
  have "steady ((with_entry k x P)\<lparr>modified := False\<rparr>) (put_file (e_id (dot P)) f e)" using f(2) by (simp add: on_disk_def)
  note c = UpdateMetadataCache_steady [OF this]
  obtain z where "map_find (entries P) k = Some z" using assms(2) by auto
  with c f(1) have "UpdateEntry FileBlobProvider (Suc (Suc n)) P k x e = ((with_entry k x P)\<lparr>modified := False\<rparr>, put_file (e_id (dot P)) f e)"
    by (simp add: UpdateEntry.simps(2) ensure_dot_stored [OF d] with_entry_def)
  then show ?thesis using f(2) by blast
qed

text \<open>A folder and the parent it has on disk, with its own entry there.\<close>

definition child_of :: "Folder \<Rightarrow> Folder \<Rightarrow> dir blob_env \<Rightarrow> bool" where
  "child_of F P e \<longleftrightarrow> steady F e \<and> on_disk P e \<and> e_id (dot P) \<noteq> e_id (dot F) \<and>
     (\<exists>p. Parent F = Some p \<and> e_id p = e_id (dot P)) \<and>
     folder_name F \<noteq> ''.'' \<and> folder_name F \<noteq> ''..'' \<and> length (folder_name F) < 2 ^ 32 \<and>
     (\<exists>x. map_find (entries P) (folder_name F) = Some x \<and> e_id x = e_id (dot F) \<and> e_metadata x = e_metadata (dot F)) \<and>
     GetSerializedSize P \<le> own_size P"

lemma entry_bytes_same: "e_id x = e_id y \<Longrightarrow> e_metadata x = e_metadata y \<Longrightarrow> entry_bytes (k, x) = entry_bytes (k, y)"
  by (simp add: entry_bytes_def GetEntrySerializedSize_def)

text \<open>Telling the parent of a new description \<open>y\<close> of the folder.\<close>

lemma notify_parent:
  assumes "child_of F P e" and "e_id y = e_id (dot F)" and "e_metadata y = e_metadata (dot F)"
  defines "P' \<equiv> with_entry (folder_name F) y P"
  shows "GetParentFolder FileBlobProvider (set_dot y F) e = (Some (P\<lparr>modified := False\<rparr>), e)"
    and "\<exists>f. UpdateEntry FileBlobProvider (Suc (Suc n)) (P\<lparr>modified := False\<rparr>) (folder_name F) y e =
        (P'\<lparr>modified := False\<rparr>, put_file (e_id (dot P)) f e) \<and> on_disk P' (put_file (e_id (dot P)) f e) \<and>
      steady F (put_file (e_id (dot P)) f e) \<and> GetSerializedSize P' \<le> own_size P'"
proof -
  obtain p where p: "Parent F = Some p" "e_id p = e_id (dot P)" using assms(1) by (auto simp: child_of_def)
  have s: "steady F e" "on_disk P e" "e_id (dot P) \<noteq> e_id (dot F)" using assms(1) by (auto simp: child_of_def)
  have "Parent (set_dot y F) = Some p" using p(1) by (simp add: Parent_def set_dot_def)
  moreover have "map_find (entries (set_dot y F)) ''.'' = Some y" by (simp add: set_dot_def)
  ultimately show "GetParentFolder FileBlobProvider (set_dot y F) e = (Some (P\<lparr>modified := False\<rparr>), e)"
    using LoadFolder_on_disk [OF s(2)] p(2) s(3) assms(2) by (simp add: GetParentFolder_def IsRootFolder_def)
  obtain x where x: "map_find (entries P) (folder_name F) = Some x" "e_id x = e_id (dot F)" "e_metadata x = e_metadata (dot F)"
    and nm: "folder_name F \<noteq> ''.''" "length (folder_name F) < 2 ^ 32" and fit: "GetSerializedSize P \<le> own_size P"
    using assms(1) by (auto simp: child_of_def)
  have k: "known e y" using steady_dot [OF s(1)] assms(2,3) by (simp add: known_def valid_entry_def)
  have v: "valid_folder P" using s(2) by (simp add: on_disk_def steady_def)
  have "GetSerializedSize P' = GetSerializedSize P"
    using size_with_entry [OF v, of "folder_name F" y] x entry_bytes_same [of x y] assms(2,3) by (simp add: P'_def)
  then have sz: "GetSerializedSize P' \<le> own_size P" using fit by simp
  have "steady (P\<lparr>modified := False\<rparr>) e" using s(2) by (simp add: on_disk_def)
  moreover have "with_entry (folder_name F) y (P\<lparr>modified := False\<rparr>) = P'" by (simp add: with_entry_def P'_def)
  ultimately obtain f where f: "UpdateEntry FileBlobProvider (Suc (Suc n)) (P\<lparr>modified := False\<rparr>) (folder_name F) y e =
      (P'\<lparr>modified := False\<rparr>, put_file (e_id (dot P)) f e)" "on_disk P' (put_file (e_id (dot P)) f e)"
    using UpdateEntry_present [of "P\<lparr>modified := False\<rparr>" e "folder_name F" y n] x(1) k nm sz by auto
  moreover have "steady F (put_file (e_id (dot P)) f e)" using s by (simp add: on_disk_frame)
  moreover have "own_size P' = own_size P" using nm(1) by (simp add: own_size_def P'_def)
  ultimately show "\<exists>f. UpdateEntry FileBlobProvider (Suc (Suc n)) (P\<lparr>modified := False\<rparr>) (folder_name F) y e =
        (P'\<lparr>modified := False\<rparr>, put_file (e_id (dot P)) f e) \<and> on_disk P' (put_file (e_id (dot P)) f e) \<and>
      steady F (put_file (e_id (dot P)) f e) \<and> GetSerializedSize P' \<le> own_size P'" using sz by auto
qed

definition touch_dot :: "u64 \<Rightarrow> u32 \<Rightarrow> Folder \<Rightarrow> Entry" where
  "touch_dot sz t F = (dot F)\<lparr>e_size := sz, e_modifyTime := t\<rparr>"

lemma touch_dot_simps [simp]: "e_id (touch_dot sz t F) = e_id (dot F)" "e_metadata (touch_dot sz t F) = e_metadata (dot F)"
  by (simp_all add: touch_dot_def)

lemma dot_set_dot [simp]: "dot (set_dot y F) = y" "folder_name (set_dot y F) = folder_name F"
  by (simp_all add: dot_def set_dot_def)

lemma set_dot_with_entry: "(set_dot y F)\<lparr>modified := True\<rparr> = with_entry ''.'' y F"
  by (simp add: set_dot_def with_entry_def)

lemma steady_set_dot:
  assumes "steady F e"
  shows "steady (set_dot (touch_dot sz t F) F) e" and "GetSerializedSize (set_dot (touch_dot sz t F) F) = GetSerializedSize F"
    and "own_size (set_dot (touch_dot sz t F) F) = own_size F" and "dot (set_dot (touch_dot sz t F) F) = touch_dot sz t F"
proof -
  let ?y = "touch_dot sz t F"
  have d: "map_find (entries F) ''.'' = Some (dot F)" and v: "valid_folder F" using assms by (auto simp: steady_def)
  have k: "known e ?y" using steady_dot [OF assms] by (simp add: known_def valid_entry_def)
  have "steady (with_entry ''.'' ?y F) e"
    by (rule steady_with_entry [OF assms]) (use k d in \<open>auto simp: known_def\<close>)
  then show "steady (set_dot ?y F) e" unfolding set_dot_with_entry [symmetric] by simp
  have "GetSerializedSize (with_entry ''.'' ?y F) = GetSerializedSize F"
    using size_with_entry [OF v, of "''.''" ?y] d entry_bytes_same [of "dot F" ?y] by simp
  then show "GetSerializedSize (set_dot ?y F) = GetSerializedSize F" unfolding set_dot_with_entry [symmetric] by simp
  show dd: "dot (set_dot ?y F) = ?y" by (simp add: dot_def set_dot_def)
  then show "own_size (set_dot ?y F) = own_size F" by (simp add: own_size_def)
qed

text \<open>A new entry in a folder with a parent, and the removal of an entry.\<close>

lemma UpdateEntry_child:
  assumes "child_of F P e" and "map_find (entries F) k = None" and "known e x" and "length k < 2 ^ 32" and "length (entries F) < 2 ^ 32 - 1"
    and "GetSerializedSize F + entry_bytes (k, x) \<le> own_size F"
  defines "y \<equiv> touch_dot (e_size (dot F) + 1) (time_now e) F"
  defines "F' \<equiv> with_entry k x (set_dot y F)" and "P' \<equiv> with_entry (folder_name F) y P"
  shows "\<exists>f1 f2. let e' = put_file (e_id (dot F)) f2 (put_file (e_id (dot P)) f1 e) in
    UpdateEntry FileBlobProvider (Suc (Suc (Suc n))) F k x e = (F'\<lparr>modified := False\<rparr>, e') \<and>
    on_disk F' e' \<and> on_disk P' e' \<and> GetSerializedSize P' \<le> own_size P'"
proof -
  have s: "steady F e" "e_id (dot P) \<noteq> e_id (dot F)" using assms(1) by (auto simp: child_of_def)
  have d: "map_find (entries F) ''.'' = Some (dot F)" using s(1) by (simp add: steady_def)
  have k: "k \<noteq> ''.''" using assms(2) d by auto
  have yi: "e_id y = e_id (dot F)" "e_metadata y = e_metadata (dot F)" by (simp_all add: y_def)
  note np = notify_parent [OF assms(1) yi, folded P'_def]
  obtain f1 where u: "UpdateEntry FileBlobProvider (Suc (Suc n)) (P\<lparr>modified := False\<rparr>) (folder_name F) y e =
      (P'\<lparr>modified := False\<rparr>, put_file (e_id (dot P)) f1 e)" and od: "on_disk P' (put_file (e_id (dot P)) f1 e)"
    and sf: "steady F (put_file (e_id (dot P)) f1 e)" and ps: "GetSerializedSize P' \<le> own_size P'" using np(2) by blast
  let ?e1 = "put_file (e_id (dot P)) f1 e"
  have sd: "steady (set_dot y F) ?e1" "GetSerializedSize (set_dot y F) = GetSerializedSize F" "own_size (set_dot y F) = own_size F"
    "dot (set_dot y F) = y" using steady_set_dot [OF sf] by (simp_all add: y_def)
  have absent: "map_find (entries (set_dot y F)) k = None" using assms(2) k by (simp add: set_dot_def)
  have len: "length (entries (set_dot y F)) = length (entries F)"
    using length_map_put_present [of "entries F" "''.''"] d s(1) by (simp add: set_dot_def steady_def valid_folder_def)
  have st: "steady F' ?e1" unfolding F'_def
    by (rule steady_with_entry [OF sd(1)]) (use assms(3-5) k len in \<open>auto simp: known_def\<close>)
  have dF: "dot F' = y" using sd(4) k by (simp add: F'_def)
  then have os: "own_size F' = own_size F" by (simp add: own_size_def yi)
  have "GetSerializedSize F' \<le> own_size F'"
    using size_with_entry [of "set_dot y F" k x] sd absent assms(6) os by (simp add: F'_def steady_def)
  then obtain f2 where f2: "Flush FileBlobProvider (Suc (Suc n)) F' ?e1 = (True, F'\<lparr>modified := False\<rparr>, put_file (e_id (dot F)) f2 ?e1)"
    "on_disk F' (put_file (e_id (dot F)) f2 ?e1)"
    using Flush_steady [OF st, of "Suc n"] dF yi by (auto simp: F'_def)
  let ?e2 = "put_file (e_id (dot F)) f2 ?e1"
  have c: "snd (UpdateMetadataCache False (F'\<lparr>modified := False\<rparr>) ?e2) = ?e2"
    by (rule UpdateMetadataCache_steady) (use f2(2) in \<open>simp add: on_disk_def\<close>)
  have nm: "folder_name (set_dot y F) = folder_name F" by (simp add: set_dot_def)
  have "UpdateEntry FileBlobProvider (Suc (Suc (Suc n))) F k x e = (F'\<lparr>modified := False\<rparr>, ?e2)"
    using assms(2) np(1) u f2(1) c sd(4) nm
    by (simp add: UpdateEntry.simps(2) [of _ "Suc (Suc n)"] ensure_dot_stored [OF d] y_def [unfolded touch_dot_def, symmetric] Flush_after F'_def with_entry_def)
  moreover have "on_disk P' ?e2"
  proof -
    have "dot P' = dot P" using assms(1) by (simp add: P'_def child_of_def)
    then show ?thesis using od s(2) by (simp add: on_disk_frame)
  qed
  ultimately show ?thesis using f2(2) ps unfolding Let_def by blast
qed

lemma RemoveEntry_child:
  assumes "child_of F P e" and "map_find (entries F) k = Some z" and "k \<noteq> ''.''" and "GetSerializedSize F \<le> own_size F"
  defines "y \<equiv> touch_dot (e_size (dot F) - 1) (time_now e) F"
  defines "F' \<equiv> without_entry k (set_dot y F)" and "P' \<equiv> with_entry (folder_name F) y P"
  shows "\<exists>f1 f2. let e' = put_file (e_id (dot F)) f2 (put_file (e_id (dot P)) f1 e) in
    RemoveEntry FileBlobProvider (Suc (Suc n)) F k e = (F'\<lparr>modified := False\<rparr>, e') \<and> on_disk F' e' \<and> on_disk P' e'"
proof -
  have s: "steady F e" "e_id (dot P) \<noteq> e_id (dot F)" using assms(1) by (auto simp: child_of_def)
  have d: "map_find (entries F) ''.'' = Some (dot F)" using s(1) by (simp add: steady_def)
  have yi: "e_id y = e_id (dot F)" "e_metadata y = e_metadata (dot F)" by (simp_all add: y_def)
  note np = notify_parent [OF assms(1) yi, folded P'_def]
  obtain f1 where u: "UpdateEntry FileBlobProvider (Suc (Suc n)) (P\<lparr>modified := False\<rparr>) (folder_name F) y e =
      (P'\<lparr>modified := False\<rparr>, put_file (e_id (dot P)) f1 e)" and od: "on_disk P' (put_file (e_id (dot P)) f1 e)"
    and sf: "steady F (put_file (e_id (dot P)) f1 e)" using np(2) by blast
  let ?e1 = "put_file (e_id (dot P)) f1 e"
  have sd: "steady (set_dot y F) ?e1" "GetSerializedSize (set_dot y F) = GetSerializedSize F" "own_size (set_dot y F) = own_size F"
    "dot (set_dot y F) = y" using steady_set_dot [OF sf] by (simp_all add: y_def)
  have st: "steady F' ?e1" and dF: "dot F' = y" unfolding F'_def using steady_without_entry [OF sd(1) assms(3)] sd(4) by simp_all
  then have os: "own_size F' = own_size F" by (simp add: own_size_def yi)
  have "GetSerializedSize F' \<le> own_size F'"
    using size_without_entry [of k "set_dot y F"] sd(2) assms(4) os by (simp add: F'_def)
  then obtain f2 where f2: "Flush FileBlobProvider (Suc (Suc n)) F' ?e1 = (True, F'\<lparr>modified := False\<rparr>, put_file (e_id (dot F)) f2 ?e1)"
    "on_disk F' (put_file (e_id (dot F)) f2 ?e1)"
    using Flush_steady [OF st, of "Suc n"] dF yi by (auto simp: F'_def)
  let ?e2 = "put_file (e_id (dot F)) f2 ?e1"
  have nm: "folder_name (set_dot y F) = folder_name F" by (simp add: set_dot_def)
  have "RemoveEntry FileBlobProvider (Suc (Suc n)) F k e = (F'\<lparr>modified := False\<rparr>, ?e2)"
    using assms(2) np(1) u f2(1) sd(4) nm
    by (simp add: RemoveEntry_def ensure_dot_stored [OF d] y_def [unfolded touch_dot_def, symmetric] Flush_after F'_def without_entry_def Let_def)
  moreover have "on_disk P' ?e2"
  proof -
    have "dot P' = dot P" using assms(1) by (simp add: P'_def child_of_def)
    then show ?thesis using od s(2) by (simp add: on_disk_frame)
  qed
  ultimately show ?thesis using f2(2) unfolding Let_def by blast
qed

text \<open>A new entry in a folder without a parent.\<close>

lemma UpdateEntry_root:
  assumes "steady F e" and "Parent F = None" and "map_find (entries F) k = None" and "k \<noteq> ''..''" and "known e x" and "length k < 2 ^ 32"
    and "length (entries F) < 2 ^ 32 - 1" and "GetSerializedSize F + entry_bytes (k, x) \<le> own_size F"
  defines "F' \<equiv> with_entry k x (set_dot (touch_dot (e_size (dot F) + 1) (time_now e) F) F)"
  shows "\<exists>f. UpdateEntry FileBlobProvider (Suc (Suc n)) F k x e = (F'\<lparr>modified := False\<rparr>, put_file (e_id (dot F)) f e) \<and>
    on_disk F' (put_file (e_id (dot F)) f e)"
proof -
  let ?y = "touch_dot (e_size (dot F) + 1) (time_now e) F"
  have d: "map_find (entries F) ''.'' = Some (dot F)" using assms(1) by (simp add: steady_def)
  have k: "k \<noteq> ''.''" using assms(3) d by auto
  note sd = steady_set_dot [OF assms(1), of "e_size (dot F) + 1" "time_now e"]
  have absent: "map_find (entries (set_dot ?y F)) k = None" using assms(3) k by (simp add: set_dot_def)
  have len: "length (entries (set_dot ?y F)) = length (entries F)"
    using length_map_put_present [of "entries F" "''.''"] d assms(1) by (simp add: set_dot_def steady_def valid_folder_def)
  have st: "steady F' e" unfolding F'_def
    by (rule steady_with_entry [OF sd(1)]) (use assms(5-7) k len in \<open>auto simp: known_def\<close>)
  have dF: "dot F' = ?y" "own_size F' = own_size F" using k by (simp_all add: F'_def own_size_def)
  have "GetSerializedSize F' \<le> own_size F'"
    using size_with_entry [of "set_dot ?y F" k x] sd absent assms(8) dF(2) by (simp add: F'_def steady_def)
  then obtain f where f: "Flush FileBlobProvider (Suc n) F' e = (True, F'\<lparr>modified := False\<rparr>, put_file (e_id (dot F)) f e)"
    "on_disk F' (put_file (e_id (dot F)) f e)"
    using Flush_steady [OF st, of n] dF by (auto simp: F'_def)
  have c: "snd (UpdateMetadataCache False (F'\<lparr>modified := False\<rparr>) (put_file (e_id (dot F)) f e)) = put_file (e_id (dot F)) f e"
    by (rule UpdateMetadataCache_steady) (use f(2) in \<open>simp add: on_disk_def\<close>)
  have "IsRootFolder (set_dot ?y F)" using assms(2) by (simp add: IsRootFolder_def Parent_def set_dot_def)
  then have "UpdateEntry FileBlobProvider (Suc (Suc n)) F k x e = (F'\<lparr>modified := False\<rparr>, put_file (e_id (dot F)) f e)"
    using assms(3) f(1) c
    by (simp add: UpdateEntry.simps(2) ensure_dot_stored [OF d] touch_dot_def GetParentFolder_def F'_def with_entry_def)
  then show ?thesis using f(2) by blast
qed

section \<open>A new blob beside a steady folder\<close>

lemma known_new_blob:
  assumes "known e x" and "blobMap e = Some bm" and "map_inv bm" and "e_id x \<noteq> ident" and "blobMap e' = Some (SetMetadata bm ident m)"
    and "valid_metadata m"
  shows "known e' x"
  using assms blob_map.get_put_other [OF assms(3,4), of "enc_metadata m"] by (auto simp: known_def SetMetadata_SetValue)

lemma steady_new_blob:
  assumes "steady F e" and "blobMap e = Some bm" and "map_inv bm" and "ident \<notin> e_id ` snd ` set (entries F)"
    and "blobMap e' = Some (SetMetadata bm ident m)" and "valid_metadata m" and "\<not> fault e'"
    and "disk e' = (disk e)\<lparr>issued := i, blobs := (blobs (disk e))(ident \<mapsto> f)\<rparr>"
  shows "steady F e'"
proof -
  have "known e' x" if "(k, x) \<in> set (entries F)" "k \<noteq> ''..''" for k x
  proof (rule known_new_blob [OF _ assms(2,3) _ assms(5,6)])
    show "known e x" using assms(1) that by (auto simp: steady_def)
    show "e_id x \<noteq> ident" using assms(4) that(1) by force
  qed
  moreover have "(''.'', dot F) \<in> set (entries F)" using assms(1) by (auto simp: steady_def dest!: map_find_in)
  then have "ident \<noteq> e_id (dot F)" using assms(4) by force
  ultimately show ?thesis using assms(1,7,8) by (auto simp: steady_def)
qed

end
