(* ===== verification/Paths.thy ===== *)
theory Paths
  imports Prelude
begin

text \<open>
  The path functions of \<open>bdblob/BlobApi\<close>: splitting a path at \<open>/\<close> and \<open>\\<close> with \<open>.\<close> and \<open>..\<close>
  resolved, joining, the base name, and the wildcard match. \<open>glob\<close> is the usual meaning of
  \<open>?\<close> and \<open>*\<close>.
\<close>

section \<open>Paths\<close>

definition is_delim :: "char \<Rightarrow> bool" where
  "is_delim c \<longleftrightarrow> c = CHR ''/'' \<or> c = CHR 0x5C"

definition push_name :: "string \<Rightarrow> string list \<Rightarrow> string list" where
  "push_name name result =
     (if name = [] then result
      else if name = ''..'' \<and> result \<noteq> [] then butlast result
      else if name \<noteq> ''.'' then result @ [name]
      else result)"

text \<open>\<open>rest\<close> is the path from \<open>offset\<close> on.\<close>

function split_loop :: "string \<Rightarrow> string list \<Rightarrow> string list" where
  "split_loop rest result =
     (if rest = [] then result
      else let name = takeWhile (\<lambda>c. \<not> is_delim c) rest
           in split_loop (drop (length name + 1) rest) (push_name name result))"
  by pat_completeness auto
termination
  by (relation "measure (length \<circ> fst)") auto

declare split_loop.simps [simp del]

definition SplitPath :: "string \<Rightarrow> string list" where
  "SplitPath path = (if path = [] then [] else split_loop (if is_delim (hd path) then tl path else path) [])"

definition JoinPaths :: "string list \<Rightarrow> nat \<Rightarrow> nat \<Rightarrow> string" where
  "JoinPaths parts offset len = concat (map (\<lambda>i. CHR ''/'' # parts ! i) [offset ..< min len (length parts)])"

text \<open>\<open>path.size() - 1\<close> wraps around for the empty path, and is then \<open>npos\<close>.\<close>

definition BaseName :: "string \<Rightarrow> string" where
  "BaseName path =
     (if path = [] then []
      else if is_delim (last path) then []
      else rev (takeWhile (\<lambda>c. \<not> is_delim c) (rev path)))"

section \<open>Wildcards\<close>

fun matchPattern :: "string \<Rightarrow> string \<Rightarrow> bool" where
  "matchPattern [] haystack \<longleftrightarrow> haystack = []"
| "matchPattern (c # needle) haystack \<longleftrightarrow>
     (if c = CHR ''?'' then (case haystack of [] \<Rightarrow> False | _ # h \<Rightarrow> matchPattern needle h)
      else if c = CHR ''*'' then needle = [] \<or> (\<exists>i \<in> {0..<length haystack}. matchPattern needle (drop i haystack))
      else (case haystack of [] \<Rightarrow> False | d # h \<Rightarrow> d = c \<and> matchPattern needle h))"

definition PatternMatch :: "string \<Rightarrow> string \<Rightarrow> bool" where
  "PatternMatch pattern target \<longleftrightarrow> matchPattern (c_str pattern) (c_str target)"

fun glob :: "string \<Rightarrow> string \<Rightarrow> bool" where
  "glob [] t \<longleftrightarrow> t = []"
| "glob (c # p) t \<longleftrightarrow>
     (if c = CHR ''*'' then \<exists>u v. t = u @ v \<and> glob p v
      else \<exists>d v. t = d # v \<and> (c = CHR ''?'' \<or> d = c) \<and> glob p v)"

fun no_double_star :: "string \<Rightarrow> bool" where
  "no_double_star (c # d # p) \<longleftrightarrow> \<not> (c = CHR ''*'' \<and> d = CHR ''*'') \<and> no_double_star (d # p)"
| "no_double_star _ \<longleftrightarrow> True"

section \<open>Normal paths\<close>

definition plain_name :: "string \<Rightarrow> bool" where
  "plain_name p \<longleftrightarrow> p \<noteq> [] \<and> p \<noteq> ''.'' \<and> (\<forall>c \<in> set p. \<not> is_delim c)"

definition normal_path :: "string list \<Rightarrow> bool" where
  "normal_path ps \<longleftrightarrow> (\<forall>p \<in> set ps. plain_name p) \<and> ''..'' \<notin> set (tl ps)"

lemma normal_push: "normal_path r \<Longrightarrow> (\<forall>c \<in> set n. \<not> is_delim c) \<Longrightarrow> normal_path (push_name n r)"
proof -
  assume r: "normal_path r" and n: "\<forall>c \<in> set n. \<not> is_delim c"
  have "set (butlast r) \<subseteq> set r" "set (tl (butlast r)) \<subseteq> set (tl r)"
    using in_set_butlastD by (auto simp: butlast_tl [symmetric] dest: in_set_butlastD)
  with r n show ?thesis
    by (cases r) (auto simp: push_name_def normal_path_def plain_name_def)
qed

lemma normal_split_loop: "normal_path result \<Longrightarrow> normal_path (split_loop rest result)"
proof (induction rest result rule: split_loop.induct)
  case (1 rest result)
  have "\<forall>c \<in> set (takeWhile (\<lambda>c. \<not> is_delim c) rest). \<not> is_delim c" by (auto dest: set_takeWhileD)
  with 1 show ?case by (subst split_loop.simps) (auto simp: Let_def intro: normal_push)
qed

lemma normal_SplitPath: "normal_path (SplitPath path)"
proof -
  have "normal_path []" by (simp add: normal_path_def)
  then show ?thesis using normal_split_loop [of "[]"] by (simp add: SplitPath_def)
qed

lemma split_step:
  assumes "\<forall>c \<in> set p. \<not> is_delim c" and "p \<noteq> []"
  shows "split_loop (p @ CHR ''/'' # rest) r = split_loop rest (push_name p r)" and "split_loop p r = push_name p r"
proof -
  have d: "is_delim (CHR ''/'')" by (simp add: is_delim_def)
  have "takeWhile (\<lambda>c. \<not> is_delim c) (p @ CHR ''/'' # rest) = p" using assms(1) d by (simp add: takeWhile_append2)
  then show "split_loop (p @ CHR ''/'' # rest) r = split_loop rest (push_name p r)" by (subst split_loop.simps) simp
  have "takeWhile (\<lambda>c. \<not> is_delim c) p = p" using assms(1) by (simp add: takeWhile_eq_all_conv)
  with split_loop.simps [of p r] split_loop.simps [of "[]"] show "split_loop p r = push_name p r" using assms(2) by (simp add: Let_def)
qed

lemma push_plain: "plain_name p \<Longrightarrow> p \<noteq> ''..'' \<or> r = [] \<Longrightarrow> push_name p r = r @ [p]"
  by (auto simp: push_name_def plain_name_def)

lemma JoinPaths_all: "len \<ge> length ps \<Longrightarrow> JoinPaths ps 0 len = concat (map (\<lambda>p. CHR ''/'' # p) ps)"
proof -
  assume "len \<ge> length ps"
  then have "map (\<lambda>i. CHR ''/'' # ps ! i) [0..<min len (length ps)] = map (\<lambda>p. CHR ''/'' # p) ps"
    by (intro nth_equalityI) simp_all
  then show ?thesis by (simp add: JoinPaths_def)
qed

lemma split_joined:
  assumes "normal_path (r @ p # ps)"
  shows "split_loop (p @ concat (map (\<lambda>p. CHR ''/'' # p) ps)) r = r @ p # ps"
  using assms
proof (induction ps arbitrary: p r)
  case Nil
  then have p: "plain_name p" "p \<noteq> ''..'' \<or> r = []" by (cases r; auto simp: normal_path_def)+
  then show ?case using split_step(2) [of p r] push_plain [OF p] by (simp add: plain_name_def)
next
  case (Cons q ps)
  then have p: "plain_name p" "p \<noteq> ''..'' \<or> r = []" by (cases r; auto simp: normal_path_def)+
  have "split_loop (p @ CHR ''/'' # (q @ concat (map (\<lambda>p. CHR ''/'' # p) ps))) r =
      split_loop (q @ concat (map (\<lambda>p. CHR ''/'' # p) ps)) (r @ [p])"
    using split_step(1) [of p _ r] push_plain [OF p] p by (simp add: plain_name_def)
  moreover have "normal_path ((r @ [p]) @ q # ps)" using Cons.prems by simp
  ultimately show ?case using Cons.IH [of "r @ [p]" q] by simp
qed

section \<open>Wildcard lemmas\<close>

lemma glob_star: "glob (CHR ''*'' # p) t \<longleftrightarrow> (\<exists>i \<le> length t. glob p (drop i t))"
proof
  assume "glob (CHR ''*'' # p) t"
  then obtain u v where "t = u @ v" "glob p v" by auto
  then show "\<exists>i \<le> length t. glob p (drop i t)" by (intro exI [of _ "length u"]) simp
next
  assume "\<exists>i \<le> length t. glob p (drop i t)"
  then obtain i where "glob p (drop i t)" by blast
  then have "t = take i t @ drop i t \<and> glob p (drop i t)" by simp
  then show "glob (CHR ''*'' # p) t" by (metis glob.simps(2))
qed

lemma matchPattern_glob: "no_double_star p \<Longrightarrow> matchPattern p t = glob p t"
proof (induction p arbitrary: t)
  case (Cons c p)
  have n: "no_double_star p" using Cons.prems by (cases p) auto
  note IH = Cons.IH [OF n]
  show ?case
  proof (cases "c = CHR ''*''")
    case True
    show ?thesis
    proof (cases p)
      case Nil
      then show ?thesis using True by (auto simp: glob_star)
    next
      case (Cons d q)
      then have "d \<noteq> CHR ''*''" using True \<open>no_double_star (c # p)\<close> by simp
      then have "\<not> glob p []" using Cons by simp
      then have "(\<exists>i \<le> length t. glob p (drop i t)) \<longleftrightarrow> (\<exists>i \<in> {0..<length t}. glob p (drop i t))"
        by (metis atLeastLessThan_iff drop_all le_neq_implies_less less_imp_le order_refl zero_le)
      moreover have "p \<noteq> []" using Cons by simp
      ultimately show ?thesis unfolding True glob_star using IH by (simp del: glob.simps)
    qed
  next
    case False
    then show ?thesis using IH by (auto split: list.splits)
  qed
qed simp

section \<open>Properties\<close>

text \<open>
  C38. Splitting and joining: the parts of any path are normal, which means non-empty names without
  delimiters, no \<open>.\<close>, and \<open>..\<close> at most in front; joining normal parts and splitting again gives
  the same parts, so that two paths join to the same string exactly when their parts agree.
\<close>

theorem SplitPath_JoinPaths:
  assumes "normal_path ps" and "normal_path qs"
  shows "normal_path (SplitPath path) \<and> SplitPath (JoinPaths ps 0 (2 ^ 64 - 1 + length ps)) = ps \<and>
    (JoinPaths ps 0 (length ps) = JoinPaths qs 0 (length qs) \<longleftrightarrow> ps = qs)"
proof -
  have s: "SplitPath (concat (map (\<lambda>p. CHR ''/'' # p) xs)) = xs" if "normal_path xs" for xs
  proof (cases xs)
    case (Cons p rest)
    then show ?thesis using split_joined [of "[]" p rest] that by (simp add: SplitPath_def is_delim_def)
  qed (simp add: SplitPath_def)
  have "SplitPath (JoinPaths ps 0 (length ps)) = ps" "SplitPath (JoinPaths qs 0 (length qs)) = qs"
    "SplitPath (JoinPaths ps 0 (2 ^ 64 - 1 + length ps)) = ps"
    using s [OF assms(1)] s [OF assms(2)] by (simp_all add: JoinPaths_all)
  then show ?thesis using normal_SplitPath by metis
qed

theorem SplitPath_JoinPaths_witness: "SplitPath (JoinPaths [''a'', ''b''] 0 (2 ^ 64 - 1 + 2)) = [''a'', ''b'']"
proof -
  have n: "normal_path [''a'', ''b'']" by (simp add: normal_path_def plain_name_def is_delim_def)
  have "length [''a'', ''b''] = 2" by simp
  with SplitPath_JoinPaths [OF n n] show ?thesis by metis
qed

text \<open>
  C39. The wildcard match is the usual one for every pattern without two adjacent stars; two adjacent
  stars fail on the empty rest where one star would match.
\<close>

theorem PatternMatch_glob:
  assumes "no_double_star (c_str p)"
  shows "PatternMatch p t = glob (c_str p) (c_str t) \<and> \<not> PatternMatch ''**'' [] \<and> glob ''**'' []"
proof -
  have "c_str ''**'' = ''**''" "c_str [] = []" by (simp_all add: c_str_def)
  then show ?thesis using matchPattern_glob [OF assms] by (simp add: PatternMatch_def)
qed

theorem PatternMatch_glob_witness: "PatternMatch ''a*c?'' ''abbcd'' = glob ''a*c?'' ''abbcd''"
proof -
  have "c_str ''a*c?'' = ''a*c?''" "c_str ''abbcd'' = ''abbcd''" by (simp_all add: c_str_def)
  then show ?thesis using PatternMatch_glob [of "''a*c?''" "''abbcd''"] by simp
qed

end
