(* ===== verification/BlobApi.thy ===== *)
theory BlobApi
  imports FolderTree Paths
begin

text \<open>
  \<open>bdblob/BlobApi\<close>, \<open>BlobConfig\<close> and \<open>BlobError\<close>: the operations of the blob file system over any
  provider. The root folder is one object for the whole session; every other folder on a path is
  loaded anew from its blob, so that two loads of one folder are two objects. A \<open>folder_ref\<close> says
  which of the two a variable of the code is. A folder object that goes out of scope is flushed.
  Calling a method on a null folder sets \<open>fault\<close>.
\<close>

section \<open>Configuration\<close>

datatype BlobError =
  SUCCESS | GENERIC_FAILURE | NOT_FOUND | IO_ERROR | ALREADY_EXIST | NOT_SUPPORTED | FOLDER_NOT_EMPTY
  | INVALID_NAME | REJECT_DELETE_FOLDER

record BlobConfig =
  cfg_dataBlocks :: nat
  cfg_codeBlocks :: nat
  cfg_blockSize :: nat

definition MinBlobSize :: "BlobConfig \<Rightarrow> nat" where
  "MinBlobSize cfg = wrap64 (cfg_blockSize cfg * cfg_dataBlocks cfg)"

definition SetRootId :: "string \<Rightarrow> 'w blob_env \<Rightarrow> 'w blob_env" where
  "SetRootId v e =
     (if root_id e = v then e
      else let bytes =
                 (case blobMap e of
                    None \<Rightarrow> []
                  | Some bm \<Rightarrow>
                      (case GetMetadata bm v BlobMetadata_new of
                         (False, _) \<Rightarrow> []
                       | (True, m) \<Rightarrow>
                           (let (ok, s) = Metadata_Serialize BufferedOutputStream m
                            in if ok then take (ooffset s) (obuffer s) else [])));
               e1 = (if root_open e then e\<lparr>root_file := Some v, root_metadata := Some bytes\<rparr> else e)
           in e1\<lparr>root_id := v\<rparr>)"

definition BlobConfig_Initialize :: "'w blob_env \<Rightarrow> 'w blob_env" where
  "BlobConfig_Initialize e =
     (let rid = (case root_file e of None \<Rightarrow> [] | Some s \<Rightarrow> s);
          bytes = (case root_metadata e of None \<Rightarrow> [] | Some bs \<Rightarrow> bs);
          e1 = e\<lparr>root_id := rid\<rparr>
      in if bytes = [] then e1
         else case Metadata_Deserialize BlobMetadata_new (BufferedInputStream bytes (length bytes)) of
                (False, _, _) \<Rightarrow> e1
              | (True, m, _) \<Rightarrow> e1\<lparr>blobMap := map_option (\<lambda>bm. SetMetadata bm rid m) (blobMap e1)\<rparr>)"

section \<open>The object\<close>

record BlobApi =
  api_root :: "Folder option"
  api_error :: BlobError

datatype folder_ref = AtRoot | Loaded Folder

definition set_error :: "BlobError \<Rightarrow> BlobApi \<Rightarrow> BlobApi" where
  "set_error err a = a\<lparr>api_error := err\<rparr>"

definition RootId :: "BlobApi \<Rightarrow> string" where
  "RootId a = (case api_root a of None \<Rightarrow> [] | Some F \<Rightarrow> e_id (dot F))"

definition the_folder :: "BlobApi \<Rightarrow> folder_ref \<Rightarrow> Folder" where
  "the_folder a ref = (case ref of AtRoot \<Rightarrow> (case api_root a of None \<Rightarrow> Folder_empty | Some F \<Rightarrow> F) | Loaded F \<Rightarrow> F)"

definition set_folder :: "folder_ref \<Rightarrow> Folder \<Rightarrow> BlobApi \<Rightarrow> folder_ref \<times> BlobApi" where
  "set_folder ref F a = (case ref of AtRoot \<Rightarrow> (AtRoot, a\<lparr>api_root := Some F\<rparr>) | Loaded _ \<Rightarrow> (Loaded F, a))"

text \<open>The end of the scope of a variable that refers to a folder.\<close>

definition release :: "'w BlobProvider \<Rightarrow> nat \<Rightarrow> folder_ref \<Rightarrow> 'w blob_env \<Rightarrow> 'w blob_env" where
  "release Pr n ref e = (case ref of AtRoot \<Rightarrow> e | Loaded F \<Rightarrow> snd (snd (Flush Pr n F e)))"

fun walk :: "'w BlobProvider \<Rightarrow> Folder \<Rightarrow> string list \<Rightarrow> 'w blob_env \<Rightarrow> Folder option \<times> 'w blob_env" where
  "walk Pr parent [] e = (Some parent, e)"
| "walk Pr parent (p # ps) e =
     (case map_find (entries parent) p of
        None \<Rightarrow> (None, e)
      | Some x \<Rightarrow>
          (case LoadFolder Pr (e_id x) e of
             (None, e1) \<Rightarrow> (None, e1)
           | (Some F, e1) \<Rightarrow> walk Pr F ps e1))"

definition Api_GetParentFolder :: "'w BlobProvider \<Rightarrow> BlobApi \<Rightarrow> string list \<Rightarrow> 'w blob_env \<Rightarrow> folder_ref option \<times> 'w blob_env" where
  "Api_GetParentFolder Pr a parts e =
     (if parts = [] then (None, e)
      else if length parts = 1 then (map_option (\<lambda>_. AtRoot) (api_root a), e)
      else case api_root a of
             None \<Rightarrow> (None, e\<lparr>fault := True\<rparr>)
           | Some F \<Rightarrow> (case walk Pr F (butlast parts) e of
                            (None, e1) \<Rightarrow> (None, e1)
                          | (Some G, e1) \<Rightarrow> (Some (Loaded G), e1)))"

section \<open>Operations\<close>

definition Initialize :: "'w BlobProvider \<Rightarrow> BlobConfig \<Rightarrow> nat \<Rightarrow> string \<Rightarrow> 'w blob_env \<Rightarrow> bool \<times> BlobApi \<times> 'w blob_env" where
  "Initialize Pr cfg n rootId e =
     (let a = \<lparr>api_root = None, api_error = SUCCESS\<rparr>
      in if rootId \<noteq> []
         then case LoadFolder Pr rootId e of
                (None, e1) \<Rightarrow> (False, set_error NOT_FOUND a, e1)
              | (Some F, e1) \<Rightarrow> (True, a\<lparr>api_root := Some F\<rparr>, e1)
         else case NewBlob Pr (MinBlobSize cfg) e of
                (None, e1) \<Rightarrow> (False, set_error IO_ERROR a, e1)
              | (Some b, e1) \<Rightarrow>
                  (let (F, _, e2) = Folder_new Pr n [] (blob_id b) None e1
                   in (True, a\<lparr>api_root := Some F\<rparr>, SetRootId (blob_id b) e2)))"

definition List :: "'w BlobProvider \<Rightarrow> BlobApi \<Rightarrow> string \<Rightarrow> 'w blob_env \<Rightarrow> (string, Entry) stdmap \<times> BlobApi \<times> 'w blob_env" where
  "List Pr a0 path e =
     (let a = set_error SUCCESS a0; parts = SplitPath path;
          (ref, e1) = (if parts = [] then (map_option (\<lambda>_. AtRoot) (api_root a), e) else Api_GetParentFolder Pr a parts e)
      in case ref of
           None \<Rightarrow> ([], set_error NOT_FOUND a, e1)
         | Some r \<Rightarrow>
             if parts = [] then (entries (the_folder a r), a, e1)
             else case map_find (entries (the_folder a r)) (last parts) of
                    None \<Rightarrow> ([], set_error NOT_FOUND a, e1)
                  | Some x \<Rightarrow>
                      if e_type x = FILE then ([(last parts, x)], a, e1)
                      else case LoadFolder Pr (e_id x) e1 of
                             (None, e2) \<Rightarrow> ([], set_error IO_ERROR a, e2)
                           | (Some F, e2) \<Rightarrow> (entries F, a, e2))"

definition has_wildcard :: "string \<Rightarrow> bool" where
  "has_wildcard path \<longleftrightarrow> (\<exists>c \<in> set path. c = CHR ''*'' \<or> c = CHR ''?'')"

definition update_root_id :: "BlobApi \<Rightarrow> 'w blob_env \<Rightarrow> 'w blob_env" where
  "update_root_id a e = (if root_id e \<noteq> RootId a then SetRootId (RootId a) e else e)"

definition Mkdir :: "'w BlobProvider \<Rightarrow> BlobConfig \<Rightarrow> nat \<Rightarrow> BlobApi \<Rightarrow> string \<Rightarrow> 'w blob_env \<Rightarrow> bool \<times> BlobApi \<times> 'w blob_env" where
  "Mkdir Pr cfg n a0 path e =
     (let a = set_error SUCCESS a0
      in if has_wildcard path then (False, set_error INVALID_NAME a, e)
         else let parts = SplitPath path
              in if parts = [] then (False, set_error ALREADY_EXIST a, e)
                 else case Api_GetParentFolder Pr a parts e of
                        (None, e1) \<Rightarrow> (False, set_error NOT_FOUND a, e1)
                      | (Some ref, e1) \<Rightarrow>
                          if map_find (entries (the_folder a ref)) (last parts) \<noteq> None
                          then (False, set_error ALREADY_EXIST a, e1)
                          else case NewBlob Pr (MinBlobSize cfg) e1 of
                                 (None, e2) \<Rightarrow> (False, set_error IO_ERROR a, e2)
                               | (Some b, e2) \<Rightarrow>
                                   (let (T, P, e3) = Folder_new Pr n (last parts) (blob_id b) (Some (the_folder a ref)) e2;
                                        (ref1, a1) = set_folder ref (the P) a;
                                        (_, T1, e4) = Flush Pr n T e3;
                                        e5 = update_root_id a1 e4;
                                        (_, _, e6) = Flush Pr n T1 e5
                                    in (True, a1, release Pr n ref1 e6)))"

text \<open>The result of \<open>ParsePutTarget\<close> with its two output parameters.\<close>

definition ParsePutTarget :: "'w BlobProvider \<Rightarrow> BlobApi \<Rightarrow> string \<Rightarrow> string \<Rightarrow> 'w blob_env \<Rightarrow>
    bool \<times> folder_ref option \<times> string \<times> BlobApi \<times> 'w blob_env" where
  "ParsePutTarget Pr a path localPath e =
     (let parts = SplitPath path
      in if parts = [] then (True, map_option (\<lambda>_. AtRoot) (api_root a), BaseName localPath, a, e)
         else case Api_GetParentFolder Pr a parts e of
                (None, e1) \<Rightarrow> (False, None, last parts, set_error NOT_FOUND a, e1)
              | (Some ref, e1) \<Rightarrow>
                  (case map_find (entries (the_folder a ref)) (last parts) of
                     None \<Rightarrow> (True, Some ref, last parts, a, e1)
                   | Some x \<Rightarrow>
                       if e_type x = FILE then (False, Some ref, last parts, set_error ALREADY_EXIST a, e1)
                       else case LoadFolder Pr (e_id x) e1 of
                              (None, e2) \<Rightarrow> (False, None, last parts, set_error IO_ERROR a, e2)
                            | (Some F, e2) \<Rightarrow> (True, Some (Loaded F), BaseName localPath, a, e2)))"

definition blob_size_for :: "BlobConfig \<Rightarrow> nat \<Rightarrow> nat" where
  "blob_size_for cfg fileSize =
     (if fileSize > 0 then wrap64 (((fileSize - 1) div cfg_blockSize cfg + 1) * cfg_blockSize cfg) else MinBlobSize cfg)"

definition Put :: "'w BlobProvider \<Rightarrow> BlobConfig \<Rightarrow> nat \<Rightarrow> BlobApi \<Rightarrow> string \<Rightarrow> string \<Rightarrow> bool \<Rightarrow> 'w blob_env \<Rightarrow> bool \<times> BlobApi \<times> 'w blob_env" where
  "Put Pr cfg n a0 path localPath force e =
     (let a = set_error SUCCESS a0
      in if has_wildcard path then (False, set_error INVALID_NAME a, e)
         else let (ok, oref, filename, a1, e1) = ParsePutTarget Pr a path localPath e
              in if \<not> ok \<and> \<not> (api_error a1 = ALREADY_EXIST \<and> force) then (False, a1, e1)
                 else case oref of
                        None \<Rightarrow> (False, a1, e1\<lparr>fault := True\<rparr>)
                      | Some ref \<Rightarrow>
                          (let old = (if ok then None else map_find (entries (the_folder a1 ref)) filename);
                               a2 = set_error SUCCESS a1
                           in case local_files e1 localPath of
                                None \<Rightarrow> (False, a2, e1)
                              | Some content \<Rightarrow>
                                  (case NewBlob Pr (blob_size_for cfg (length content)) e1 of
                                     (None, e2) \<Rightarrow> (False, set_error IO_ERROR a2, e2)
                                   | (Some b, e2) \<Rightarrow>
                                       (let m = (case blobMap e2 of None \<Rightarrow> BlobMetadata_new
                                                   | Some bm \<Rightarrow> snd (GetMetadata bm (blob_id b) BlobMetadata_new));
                                            ct = (case old of Some x \<Rightarrow> if e_createTime x > 0 then e_createTime x else time_now e2
                                                   | None \<Rightarrow> time_now e2);
                                            x = \<lparr>e_id = blob_id b, e_type = FILE, e_createTime = ct, e_modifyTime = time_now e2,
                                                 e_size = word_of_nat (length content), e_metadata = m\<rparr>;
                                            (F, e3) = UpdateEntry Pr n (the_folder a2 ref) filename x e2;
                                            (ref1, a3) = set_folder ref F a2;
                                            e4 = update_root_id a3 e3;
                                            e5 = (case old of Some y \<Rightarrow> if e_id y \<noteq> [] then DeleteBlob Pr (e_id y) e4 else e4 | None \<Rightarrow> e4);
                                            (totalBytes, e6) = put_loop (Blob_Write Pr b) (cfg_blockSize cfg) content 0 0 e5;
                                            e7 = release Pr n ref1 e6
                                        in if totalBytes < length content then (False, set_error IO_ERROR a3, e7) else (True, a3, e7)))))"

definition Info :: "'w BlobProvider \<Rightarrow> BlobApi \<Rightarrow> string \<Rightarrow> 'w blob_env \<Rightarrow> Entry option \<times> BlobApi \<times> 'w blob_env" where
  "Info Pr a0 path e =
     (let a = set_error SUCCESS a0; parts = SplitPath path;
          (ref, e1) = (if parts = [] then (map_option (\<lambda>_. AtRoot) (api_root a), e) else Api_GetParentFolder Pr a parts e);
          filename = (if parts = [] then ''.'' else last parts)
      in case ref of
           None \<Rightarrow> (None, set_error NOT_FOUND a, e1)
         | Some r \<Rightarrow>
             (case map_find (entries (the_folder a r)) filename of
                None \<Rightarrow> (None, set_error NOT_FOUND a, e1)
              | Some x \<Rightarrow> (Some x, a, e1)))"

definition Api_Get :: "'w BlobProvider \<Rightarrow> BlobConfig \<Rightarrow> BlobApi \<Rightarrow> string \<Rightarrow> string \<Rightarrow> bool \<Rightarrow> 'w blob_env \<Rightarrow> bool \<times> BlobApi \<times> 'w blob_env" where
  "Api_Get Pr cfg a0 path localPath force e =
     (if \<not> force \<and> local_files e localPath \<noteq> None then (False, set_error ALREADY_EXIST a0, e)
      else case Info Pr a0 path e of
             (None, a, e1) \<Rightarrow> (False, a, e1)
           | (Some x, a, e1) \<Rightarrow>
               if e_type x \<noteq> FILE then (False, set_error NOT_SUPPORTED a, e1)
               else case OpenBlob Pr (e_id x) e1 of
                      (None, e2) \<Rightarrow> (False, set_error IO_ERROR a, e2)
                    | (Some b, e2) \<Rightarrow>
                        if \<not> local_open e2 localPath then (False, set_error IO_ERROR a, e2)
                        else let (out, e3) = get_loop (Blob_Read Pr b) (cfg_blockSize cfg) (local_room e2) 0 (unat (e_size x)) e2;
                                 e4 = e3\<lparr>local_files := (local_files e3)(localPath \<mapsto> out)\<rparr>
                             in if length out < unat (e_size x) then (False, set_error IO_ERROR a, e4) else (True, a, e4))"

text \<open>Reading a range of a file. The result has the bytes and the new value of \<open>*size\<close>.\<close>

definition Get_range :: "'w BlobProvider \<Rightarrow> BlobApi \<Rightarrow> string \<Rightarrow> nat \<Rightarrow> nat \<Rightarrow> 'w blob_env \<Rightarrow> bool \<times> byte list \<times> nat \<times> BlobApi \<times> 'w blob_env" where
  "Get_range Pr a0 path offset sz e =
     (let a = set_error SUCCESS a0
      in if sz = 0 then (True, [], 0, a, e)
         else case Info Pr a path e of
                (None, a1, e1) \<Rightarrow> (False, [], sz, a1, e1)
              | (Some x, a1, e1) \<Rightarrow>
                  if e_type x \<noteq> FILE then (False, [], sz, set_error NOT_SUPPORTED a1, e1)
                  else case OpenBlob Pr (e_id x) e1 of
                         (None, e2) \<Rightarrow> (False, [], sz, set_error IO_ERROR a1, e2)
                       | (Some b, e2) \<Rightarrow>
                           if offset \<ge> unat (e_size x) then (True, [], 0, a1, e2)
                           else let remaining = min sz (unat (e_size x) - offset);
                                    (out, e3) = Blob_Read Pr b offset remaining e2
                                in (if length out < remaining then (False, out, length out, set_error IO_ERROR a1, e3)
                                    else (True, out, length out, a1, e3)))"

definition Api_Delete :: "'w BlobProvider \<Rightarrow> nat \<Rightarrow> BlobApi \<Rightarrow> string \<Rightarrow> 'w blob_env \<Rightarrow> bool \<times> BlobApi \<times> 'w blob_env" where
  "Api_Delete Pr n a0 path e =
     (let a = set_error SUCCESS a0; parts = SplitPath path
      in if parts = [] then (False, set_error NOT_SUPPORTED a, e)
         else case Api_GetParentFolder Pr a parts e of
                (None, e1) \<Rightarrow> (True, a, e1\<lparr>fault := True\<rparr>)
              | (Some ref, e1) \<Rightarrow>
                  (case map_find (entries (the_folder a ref)) (last parts) of
                     None \<Rightarrow> (True, a, e1)
                   | Some x \<Rightarrow>
                       (let (full, e2) =
                              (if e_type x = FOLDER
                               then (case LoadFolder Pr (e_id x) e1 of
                                       (None, e2) \<Rightarrow> (False, e2)
                                     | (Some T, e2) \<Rightarrow> (length (entries T) > 2, e2))
                               else (False, e1))
                        in if full then (False, set_error FOLDER_NOT_EMPTY a, e2)
                           else let (F, e3) = RemoveEntry Pr n (the_folder a ref) (last parts) (DeleteBlob Pr (e_id x) e2);
                                    (ref1, a1) = set_folder ref F a
                                in (True, a1, release Pr n ref1 e3))))"

definition joined :: "string list \<Rightarrow> string" where
  "joined parts = JoinPaths parts 0 (2 ^ 64 - 1)"

text \<open>
  The destination of a move: the folder object, the name in it, and whether source and destination
  turn out to be the same path. An existing file is removed when it may be overwritten.
\<close>

definition move_target :: "'w BlobProvider \<Rightarrow> nat \<Rightarrow> BlobApi \<Rightarrow> folder_ref \<Rightarrow> string list \<Rightarrow> string list \<Rightarrow> bool \<Rightarrow> 'w blob_env \<Rightarrow>
    (BlobError + (folder_ref \<times> string \<times> bool)) \<times> BlobApi \<times> 'w blob_env" where
  "move_target Pr n a ref srcParts destParts overwrite e =
     (case map_find (entries (the_folder a ref)) (last destParts) of
        None \<Rightarrow> (Inr (ref, last destParts, False), a, e)
      | Some y \<Rightarrow>
          if e_type y = FILE
          then (if \<not> overwrite then (Inl ALREADY_EXIST, a, e)
                else let (F, e1) = RemoveEntry Pr n (the_folder a ref) (last destParts) (DeleteBlob Pr (e_id y) e);
                         (ref1, a1) = set_folder ref F a
                     in (Inr (ref1, last destParts, False), a1, e1))
          else (case LoadFolder Pr (e_id y) e of
                  (None, e1) \<Rightarrow> (Inl IO_ERROR, a, e1)
                | (Some F, e1) \<Rightarrow>
                    (Inr (Loaded F, last srcParts, joined srcParts = joined (destParts @ [last srcParts])), a, e1)))"

text \<open>
  \<open>srcEntry\<close> is an iterator: when source and destination are both the root object, removing the
  overwritten file may have changed the entry it points to, which is read again here.
\<close>

definition Move :: "'w BlobProvider \<Rightarrow> nat \<Rightarrow> BlobApi \<Rightarrow> string \<Rightarrow> string \<Rightarrow> bool \<Rightarrow> 'w blob_env \<Rightarrow> bool \<times> BlobApi \<times> 'w blob_env" where
  "Move Pr n a0 src dest overwrite e =
     (let a = set_error SUCCESS a0; srcParts = SplitPath src; (srcRef, e1) = Api_GetParentFolder Pr a srcParts e
      in case srcRef of
           None \<Rightarrow> (False, set_error NOT_FOUND a, e1)
         | Some sref \<Rightarrow>
             (case map_find (entries (the_folder a sref)) (last srcParts) of
                None \<Rightarrow> (False, set_error IO_ERROR a, e1)
              | Some x \<Rightarrow>
                  (let destParts = SplitPath dest; (destRef, e2) = Api_GetParentFolder Pr a destParts e1
                   in case destRef of
                        None \<Rightarrow> (False, set_error NOT_FOUND a, e2)
                      | Some dref \<Rightarrow>
                          if joined srcParts = joined destParts then (True, a, e2)
                          else (case move_target Pr n a dref srcParts destParts overwrite e2 of
                                  (Inl err, a1, e3) \<Rightarrow> (False, set_error err a1, e3)
                                | (Inr (dref1, destName, same), a1, e3) \<Rightarrow>
                                    if same then (True, a1, e3)
                                    else let x' = (case map_find (entries (the_folder a1 sref)) (last srcParts) of None \<Rightarrow> x | Some x' \<Rightarrow> x');
                                             (D, e4) = UpdateEntry Pr n (the_folder a1 dref1) destName x' e3;
                                             (dref2, a2) = set_folder dref1 D a1;
                                             (S, e5) = RemoveEntry Pr n (the_folder a2 sref) (last srcParts) e4;
                                             (sref2, a3) = set_folder sref S a2
                                         in (True, a3, release Pr n sref2 (release Pr n dref2 e5))))))"

definition Find :: "Folder \<Rightarrow> string \<Rightarrow> string list" where
  "Find F pattern = filter (\<lambda>k. k \<noteq> ''.'' \<and> k \<noteq> ''..'' \<and> PatternMatch pattern k) (map fst (entries F))"

section \<open>Walking to a folder below the root\<close>

lemma Api_GetParentFolder_below:
  assumes "api_root a = Some R" and "map_find (entries R) d = Some x" and "e_id x = e_id (dot D)" and "on_disk D e"
  shows "Api_GetParentFolder FileBlobProvider a [d, k] e = (Some (Loaded (D\<lparr>modified := False\<rparr>)), e)"
  using assms LoadFolder_on_disk [OF assms(4)] by (simp add: Api_GetParentFolder_def)

lemma steady_put_own:
  assumes "steady F e" and "length f = own_size F"
  shows "steady F (put_file (e_id (dot F)) f e)"
  using assms by (auto simp: steady_def)

lemma joined_two: "a \<noteq> b \<Longrightarrow> joined [d, a] \<noteq> joined [d, b]"
  by (simp add: joined_def JoinPaths_def upt_rec)

section \<open>A new file in the root folder\<close>

lemma blob_size_for_covers:
  assumes "cfg_blockSize cfg > 0" and "n + cfg_blockSize cfg < 2 ^ 64"
  shows "n \<le> blob_size_for cfg n"
proof (cases "n = 0")
  case False
  let ?b = "cfg_blockSize cfg"
  define q where "q = (n - 1) div ?b"
  have "q * ?b + (n - 1) mod ?b = n - 1" "(n - 1) mod ?b < ?b" "(q + 1) * ?b = q * ?b + ?b" using assms(1) by (simp_all add: q_def)
  then have "(q + 1) * ?b < 2 ^ 64" "n \<le> (q + 1) * ?b" using assms(2) False by linarith+
  then show ?thesis using False by (simp add: blob_size_for_def q_def)
qed simp

lemma blob_size_for_u64: "blob_size_for cfg n < 2 ^ 64"
  by (simp add: blob_size_for_def MinBlobSize_def)

text \<open>Writing to a blob leaves the blob map, the other blobs, the local files and the other parts alone.\<close>

definition same_rest :: "string \<Rightarrow> dir blob_env \<Rightarrow> dir blob_env \<Rightarrow> bool" where
  "same_rest ident e0 e \<longleftrightarrow> blobMap e = blobMap e0 \<and> openable (disk e) = openable (disk e0) \<and> file_limit (disk e) = file_limit (disk e0) \<and>
     local_open e = local_open e0 \<and> local_room e = local_room e0 \<and> root_file e = root_file e0 \<and> root_metadata e = root_metadata e0 \<and>
     (\<forall>j. j \<noteq> ident \<longrightarrow> blobs (disk e) j = blobs (disk e0) j)"

lemma same_rest_Write: "same_rest (blob_id b) e0 e \<Longrightarrow> same_rest (blob_id b) e0 (snd (FileBlob_Write b off d e))"
  by (auto simp: same_rest_def FileBlob_Write_def Let_def split: option.splits)

lemma put_file_content:
  assumes "file_ok b e" and "bs > 0" and "length c \<le> blob_size b"
  obtains e' where "put_loop (FileBlob_Write b) bs c 0 0 e = (length c, e')" and "file_ok b e'" and "same_rest (blob_id b) e e'"
    and "take (length c) (file_content b e') = c"
proof -
  obtain t e' where p: "put_loop (FileBlob_Write b) bs c 0 0 e = (t, e')" by (rule prod.exhaust)
  have l: "length (file_content b e) = blob_size b" using assms(1) by (auto simp: file_ok_def file_content_def)
  have t: "t = length c" using file_blob_full.put_loop_complete [OF assms(1,2), of 0 c 0] assms(3) l p by simp
  have s: "same_rest (blob_id b) e e'"
    using put_loop_invariant [of "same_rest (blob_id b) e" "FileBlob_Write b" e bs c 0 0] same_rest_Write p by (simp add: same_rest_def)
  show ?thesis
  proof (cases "c = []")
    case True
    then show ?thesis using that [of e'] p t s assms(1) by (simp add: put_loop.simps)
  next
    case False
    from file_blob.put_loop_stores [OF p assms(1) _ assms(2) False] t
    show ?thesis using that [of e'] p t s by (simp add: poke_def)
  qed
qed

lemma on_disk_same_rest:
  assumes "on_disk F e" and "same_rest ident e e'" and "ident \<noteq> e_id (dot F)" and "\<not> fault e'"
  shows "on_disk F e'"
  using assms by (auto simp: on_disk_def steady_def same_rest_def known_def)

lemma File_NewBlob_frame:
  assumes "File_NewBlob sz e = (ob, e')"
  shows "local_files e' = local_files e" and "local_open e' = local_open e" and "local_room e' = local_room e" and "root_id e' = root_id e"
    and "time_now e' = time_now e" and "root_file e' = root_file e" and "root_metadata e' = root_metadata e"
proof -
  have [simp]: "snd (FileBlob_new ident sz e) = e\<lparr>disk := disk (snd (FileBlob_new ident sz e))\<rparr>" for ident e
    by (simp add: FileBlob_new_def Let_def)
  have e': "e' = snd (File_NewBlob sz e)" using assms by simp
  show "local_files e' = local_files e" "local_open e' = local_open e" "local_room e' = local_room e" "root_id e' = root_id e"
    "time_now e' = time_now e" "root_file e' = root_file e" "root_metadata e' = root_metadata e"
    unfolding e' by (simp_all add: File_NewBlob_def FileBlob_new_def Let_def split: option.splits)
qed

text \<open>The folder \<open>R\<close> with a further entry, as \<open>UpdateEntry\<close> leaves it.\<close>

definition entered :: "u32 \<Rightarrow> string \<Rightarrow> Entry \<Rightarrow> Folder \<Rightarrow> Folder" where
  "entered t name x R = (with_entry name x (set_dot (touch_dot (e_size (dot R) + 1) t R) R))\<lparr>modified := False\<rparr>"

lemma entered_simps [simp]:
  "name \<noteq> ''.'' \<Longrightarrow> e_id (dot (entered t name x R)) = e_id (dot R)" "name \<noteq> ''.'' \<Longrightarrow> e_metadata (dot (entered t name x R)) = e_metadata (dot R)"
  "map_find (entries (entered t name x R)) name = Some x"
  by (simp_all add: entered_def)

lemma metadata_bytes_entered:
  assumes "valid_folder R" and "map_find (entries R) ''.'' = Some (dot R)" and "map_find (entries R) name = None"
  shows "metadata_bytes (entered t name x R) = metadata_bytes R + Metadata_GetSerializedSize (e_metadata x)"
proof -
  let ?g = "\<lambda>(k :: string, x). Metadata_GetSerializedSize (e_metadata x)" and ?y = "touch_dot (e_size (dot R) + 1) t R"
  have ok: "map_ok (entries R)" using assms(1) by (simp add: valid_folder_def)
  have n: "map_find (map_put ''.'' ?y (entries R)) name = None" using assms(2,3) by auto
  show ?thesis
    using map_put_sum [OF ok, of ?g "''.''" ?y] map_put_sum [OF map_ok_put [OF ok, of "''.''" ?y], of ?g name x] n assms(2)
    by (simp add: metadata_bytes_def entered_def with_entry_def set_dot_def)
qed

text \<open>The environment between \<open>NewBlob\<close> and the copy: the entry is in the folder, the blob is open and empty.\<close>

lemma Put_entry:
  assumes "steady R e" and "Parent R = None" and "map_find (entries R) name = None" and "name \<noteq> ''..''" and "length name < 2 ^ 32"
    and "length (entries R) < 2 ^ 32 - 1" and "dir_ready sz e"
    and "ident = uuids (disk e) (issued (disk e))" and "ident \<notin> e_id ` snd ` set (entries R)" and "length ident < 2 ^ 32"
    and "GetSerializedSize R + (45 + length name + length ident) \<le> own_size R"
  obtains e1 m where "File_NewBlob sz e = (Some \<lparr>blob_id = ident, blob_size = sz, blob_opened = True\<rparr>, e1)"
    and "blobMap e1 = Some m" and "GetMetadata m ident BlobMetadata_new = (True, BlobMetadata_new\<lparr>md_size := word_of_nat sz\<rparr>)"
    and "\<forall>x. e_id x = ident \<longrightarrow> e_metadata x = BlobMetadata_new\<lparr>md_size := word_of_nat sz\<rparr> \<longrightarrow>
      (\<exists>f. UpdateEntry FileBlobProvider (Suc (Suc n)) R name x e1 = (entered (time_now e) name x R, put_file (e_id (dot R)) f e1) \<and>
        on_disk (entered (time_now e) name x R) (put_file (e_id (dot R)) f e1))"
    and "ident \<noteq> e_id (dot R)" and "file_ok \<lparr>blob_id = ident, blob_size = sz, blob_opened = True\<rparr> e1" and "openable (disk e1) ident" and "sz < 2 ^ 64"
proof -
  let ?m = "BlobMetadata_new\<lparr>md_size := word_of_nat sz\<rparr>"
  obtain bm e1 where bm: "blobMap e = Some bm" and nb: "File_NewBlob sz e = (Some \<lparr>blob_id = ident, blob_size = sz, blob_opened = True\<rparr>, e1)"
    and m1: "blobMap e1 = Some (SetMetadata bm ident ?m)"
    and d1: "disk e1 = (disk e)\<lparr>issued := Suc (issued (disk e)), blobs := (blobs (disk e))(ident \<mapsto> replicate sz 0)\<rparr>" and f1: "\<not> fault e1"
    unfolding assms(8) by (rule File_NewBlob_ready [OF assms(7)])
  have r: "map_inv bm" "20 \<le> map_room bm" "ident \<noteq> []" "openable (disk e) ident" "sz < 2 ^ 64" "sz \<le> file_limit (disk e)"
    using assms(7,8) bm by (auto simp: dir_ready_def Let_def)
  have g: "GetValue (SetMetadata bm ident ?m) ident = enc_metadata ?m"
    using blob_map.get_put_same [OF r(1,3), of "enc_metadata ?m"] r(2) by (simp add: SetMetadata_SetValue new_metadata length_enc_metadata)
  have st: "steady R e1" by (rule steady_new_blob [OF assms(1) bm r(1) assms(9) m1 new_metadata(1) f1 d1])
  have "\<exists>f. UpdateEntry FileBlobProvider (Suc (Suc n)) R name x e1 = (entered (time_now e) name x R, put_file (e_id (dot R)) f e1) \<and>
      on_disk (entered (time_now e) name x R) (put_file (e_id (dot R)) f e1)"
    if "e_id x = ident" "e_metadata x = ?m" for x
  proof -
    have "known e1 x" using that g m1 new_metadata assms(10) by (simp add: known_def valid_entry_def)
    moreover have "entry_bytes (name, x) = 45 + length name + length ident" by (simp add: that entry_bytes_def GetEntrySerializedSize_def new_metadata)
    ultimately show ?thesis
      using UpdateEntry_root [OF st assms(2-4), of x n] assms(5,6,11) File_NewBlob_frame(5) [OF nb] by (auto simp: entered_def)
  qed
  moreover have "(''.'', dot R) \<in> set (entries R)" using assms(1) by (auto simp: steady_def dest!: map_find_in)
  then have "ident \<noteq> e_id (dot R)" using assms(9) by force
  moreover have "GetMetadata (SetMetadata bm ident ?m) ident BlobMetadata_new = (True, ?m)"
    by (rule GetMetadata_value [OF new_metadata(1) g]) (simp add: new_metadata)
  ultimately show ?thesis using that [OF nb m1] d1 f1 r by (auto simp: file_ok_def)
qed

section \<open>A file of the file system\<close>

text \<open>The path names a file with this content, whose blob can be opened and read.\<close>

definition holds_file :: "BlobApi \<Rightarrow> string \<Rightarrow> byte list \<Rightarrow> dir blob_env \<Rightarrow> bool" where
  "holds_file a path content e \<longleftrightarrow> (\<exists>x b. Info FileBlobProvider a path e = (Some x, set_error SUCCESS a, e) \<and> e_type x = FILE \<and>
     unat (e_size x) = length content \<and> File_OpenBlob (e_id x) e = (Some b, e) \<and> file_ok b e \<and> take (length content) (file_content b e) = content)"

text \<open>The same of a name in a folder and of the directory of the blobs alone.\<close>

definition stored_file :: "Folder \<Rightarrow> string \<Rightarrow> byte list \<Rightarrow> dir \<Rightarrow> bool" where
  "stored_file F name content d \<longleftrightarrow> name \<noteq> ''..'' \<and>
     (\<exists>x f. map_find (entries F) name = Some x \<and> e_type x = FILE \<and> unat (e_size x) = length content \<and>
        Metadata_GetSerializedSize (e_metadata x) < 2 ^ 64 \<and> openable d (e_id x) \<and> blobs d (e_id x) = Some f \<and>
        length f = unat (md_size (e_metadata x)) \<and> length f \<le> file_limit d \<and> take (length content) f = content)"

lemma stored_holds_file:
  assumes "stored_file R name content (disk e)" and "steady R e" and "api_root a = Some R" and "SplitPath path = [name]"
  shows "holds_file a path content e"
proof -
  obtain x f where x: "name \<noteq> ''..''" "map_find (entries R) name = Some x" "e_type x = FILE" "unat (e_size x) = length content"
      "Metadata_GetSerializedSize (e_metadata x) < 2 ^ 64"
    and f: "openable (disk e) (e_id x)" "blobs (disk e) (e_id x) = Some f" "length f = unat (md_size (e_metadata x))" "length f \<le> file_limit (disk e)"
      "take (length content) f = content"
    using assms(1) by (auto simp: stored_file_def)
  have "(name, x) \<in> set (entries R)" by (rule map_find_in [OF x(2)])
  then have "known e x" using assms(2) x(1) by (auto simp: steady_def)
  then obtain bm where bm: "blobMap e = Some bm" "GetValue bm (e_id x) = enc_metadata (e_metadata x)" and v: "valid_metadata (e_metadata x)"
    by (auto simp: known_def valid_entry_def)
  let ?b = "\<lparr>blob_id = e_id x, blob_size = unat (md_size (e_metadata x)), blob_opened = True\<rparr>"
  have "File_OpenBlob (e_id x) e = (Some ?b, e)" using File_OpenBlob_known [OF bm v x(5)] f by simp
  moreover have "file_ok ?b e" "file_content ?b e = f" using f assms(2) by (auto simp: file_ok_def file_content_def steady_def)
  moreover have "Info FileBlobProvider a path e = (Some x, set_error SUCCESS a, e)"
    using assms(3,4) x(2) by (simp add: Info_def Api_GetParentFolder_def the_folder_def set_error_def Let_def)
  ultimately show ?thesis using x f(5) unfolding holds_file_def by metis
qed

lemma Put_stores:
  assumes "api_root a = Some R" and "steady R e" and "Parent R = None" and "root_id e = e_id (dot R)"
    and "SplitPath path = [name]" and "\<not> has_wildcard path" and "map_find (entries R) name = None" and "name \<noteq> ''..''" and "length name < 2 ^ 32"
    and "length (entries R) < 2 ^ 32 - 1" and "local_files e source = Some content" and "cfg_blockSize cfg > 0"
    and "length content + cfg_blockSize cfg < 2 ^ 64" and "dir_ready (blob_size_for cfg (length content)) e"
    and "ident = uuids (disk e) (issued (disk e))" and "ident \<notin> e_id ` snd ` set (entries R)" and "length ident < 2 ^ 32"
    and "GetSerializedSize R + (45 + length name + length ident) \<le> own_size R"
  obtains a1 e1 x where "Put FileBlobProvider cfg (Suc (Suc n)) a path source force e = (True, a1, e1)"
    and "api_root a1 = Some (entered (time_now e) name x R)" and "on_disk (entered (time_now e) name x R) e1"
    and "stored_file (entered (time_now e) name x R) name content (disk e1)" and "Metadata_GetSerializedSize (e_metadata x) = 20"
    and "local_open e1 = local_open e" and "local_room e1 = local_room e" and "root_file e1 = root_file e" and "root_metadata e1 = root_metadata e"
proof -
  let ?sz = "blob_size_for cfg (length content)" and ?b = "\<lparr>blob_id = ident, blob_size = blob_size_for cfg (length content), blob_opened = True\<rparr>"
  let ?m = "BlobMetadata_new\<lparr>md_size := word_of_nat ?sz\<rparr>"
  obtain e1 bm where nb: "File_NewBlob ?sz e = (Some ?b, e1)" and bm: "blobMap e1 = Some bm" "GetMetadata bm ident BlobMetadata_new = (True, ?m)"
    and up: "\<forall>x. e_id x = ident \<longrightarrow> e_metadata x = ?m \<longrightarrow>
      (\<exists>f. UpdateEntry FileBlobProvider (Suc (Suc n)) R name x e1 = (entered (time_now e) name x R, put_file (e_id (dot R)) f e1) \<and>
        on_disk (entered (time_now e) name x R) (put_file (e_id (dot R)) f e1))"
    and ne: "ident \<noteq> e_id (dot R)" and ok1: "file_ok ?b e1" and op: "openable (disk e1) ident" and lt: "?sz < 2 ^ 64"
    by (rule Put_entry [OF assms(2,3,7-10,14-18), where n = n])
  note fr = File_NewBlob_frame [OF nb]
  let ?x = "\<lparr>e_id = ident, e_type = FILE, e_createTime = time_now e, e_modifyTime = time_now e, e_size = word_of_nat (length content), e_metadata = ?m\<rparr>"
  let ?R = "entered (time_now e) name ?x R"
  obtain f where u: "UpdateEntry FileBlobProvider (Suc (Suc n)) R name ?x e1 = (?R, put_file (e_id (dot R)) f e1)"
    and d2: "on_disk ?R (put_file (e_id (dot R)) f e1)" using up [rule_format, of ?x] by auto
  let ?e2 = "put_file (e_id (dot R)) f e1"
  have ok2: "file_ok ?b ?e2" using ok1 ne by (auto simp: file_ok_def)
  obtain e3 where p: "put_loop (FileBlob_Write ?b) (cfg_blockSize cfg) content 0 0 ?e2 = (length content, e3)" and ok3: "file_ok ?b e3"
    and s3: "same_rest ident ?e2 e3" and c3: "take (length content) (file_content ?b e3) = content"
    by (rule put_file_content [OF ok2 assms(12)]) (use blob_size_for_covers [OF assms(12,13)] in simp_all)
  let ?a = "(set_error SUCCESS a)\<lparr>api_root := Some ?R\<rparr>"
  have nd: "name \<noteq> ''.''" using assms(2,7) by (auto simp: steady_def)
  have put: "Put FileBlobProvider cfg (Suc (Suc n)) a path source force e = (True, ?a, e3)"
    using u p nb bm fr nd assms(1,4-7,11)
    by (simp add: Put_def ParsePutTarget_def Api_GetParentFolder_def the_folder_def set_folder_def release_def set_error_def
        update_root_id_def RootId_def provider_methods Let_def)
  have u64: "unat (word_of_nat ?sz :: u64) = ?sz" "unat (word_of_nat (length content) :: u64) = length content"
    using lt assms(13) by (simp_all add: unat_of_nat)
  have "on_disk ?R e3" using on_disk_same_rest [OF d2 s3] ne nd ok3 by (simp add: file_ok_def)
  moreover have "stored_file ?R name content (disk e3)"
    using assms(8) u64 op s3 ok3 c3 by (auto simp: stored_file_def new_metadata same_rest_def file_ok_def file_content_def)
  moreover have "root_file e3 = root_file e" "root_metadata e3 = root_metadata e" "local_open e3 = local_open e" "local_room e3 = local_room e"
    using s3 fr by (simp_all add: same_rest_def)
  ultimately show ?thesis using that [OF put] by (simp add: new_metadata)
qed

lemma Put_holds_file:
  assumes "api_root a = Some R" and "steady R e" and "Parent R = None" and "root_id e = e_id (dot R)"
    and "SplitPath path = [name]" and "\<not> has_wildcard path" and "map_find (entries R) name = None" and "name \<noteq> ''..''" and "length name < 2 ^ 32"
    and "length (entries R) < 2 ^ 32 - 1" and "local_files e source = Some content" and "cfg_blockSize cfg > 0"
    and "length content + cfg_blockSize cfg < 2 ^ 64" and "dir_ready (blob_size_for cfg (length content)) e"
    and "ident = uuids (disk e) (issued (disk e))" and "ident \<notin> e_id ` snd ` set (entries R)" and "length ident < 2 ^ 32"
    and "GetSerializedSize R + (45 + length name + length ident) \<le> own_size R"
  shows "\<exists>a1 e1. Put FileBlobProvider cfg (Suc (Suc n)) a path source force e = (True, a1, e1) \<and> holds_file a1 path content e1 \<and>
    local_open e1 = local_open e \<and> local_room e1 = local_room e"
  by (rule Put_stores [OF assms, of n force]) (use stored_holds_file [OF _ _ _ assms(5)] in \<open>auto simp: on_disk_def\<close>)

lemma Get_holds_file:
  assumes "holds_file a path content e" and "local_open e target" and "length content \<le> local_room e" and "cfg_blockSize cfg > 0"
  shows "\<exists>a' e'. Api_Get FileBlobProvider cfg a path target True e = (True, a', e') \<and> local_files e' target = Some content"
proof -
  obtain x b where i: "Info FileBlobProvider a path e = (Some x, set_error SUCCESS a, e)" "e_type x = FILE" "unat (e_size x) = length content"
    and o: "File_OpenBlob (e_id x) e = (Some b, e)" "file_ok b e" and c: "take (length content) (file_content b e) = content"
    using assms(1) unfolding holds_file_def by blast
  have lc: "length content \<le> length (file_content b e)" using c by (metis length_take min.absorb_iff2)
  have "fst (get_loop (FileBlob_Read b) (cfg_blockSize cfg) (local_room e) 0 (length content) e) = content"
    using file_blob_full.get_loop_complete [OF o(2) assms(4), of 0 "length content" "local_room e"] lc c assms(3) by (simp add: peek_def)
  then obtain e4 where "get_loop (FileBlob_Read b) (cfg_blockSize cfg) (local_room e) 0 (length content) e = (content, e4)"
    by (metis prod.collapse)
  with i o assms(2) show ?thesis by (simp add: Api_Get_def provider_methods Let_def)
qed

section \<open>Starting on what is stored\<close>

text \<open>
  What a process finds of the root folder: the two files of \<open>BlobConfig\<close> name the blob and its
  metadata, and the file of the blob has the image of the folder. The blob map does not matter.
\<close>

definition root_stored :: "Folder \<Rightarrow> dir blob_env \<Rightarrow> bool" where
  "root_stored R e \<longleftrightarrow> valid_folder R \<and> map_find (entries R) ''.'' = Some (dot R) \<and>
     (\<forall>(k, x) \<in> set (entries R). k \<noteq> ''..'' \<longrightarrow> e_id x \<noteq> [] \<and>
        (\<forall>(j, y) \<in> set (entries R). j \<noteq> ''..'' \<longrightarrow> e_id y = e_id x \<longrightarrow> enc_metadata (e_metadata y) = enc_metadata (e_metadata x))) \<and>
     Metadata_GetSerializedSize (e_metadata (dot R)) < 2 ^ 64 \<and>
     openable (disk e) (e_id (dot R)) \<and> own_size R \<le> file_limit (disk e) \<and> \<not> fault e \<and>
     (\<exists>rest. blobs (disk e) (e_id (dot R)) = Some (enc_folder R @ rest) \<and> length (enc_folder R @ rest) = own_size R) \<and>
     root_file e = Some (e_id (dot R)) \<and> root_metadata e = Some (enc_metadata (e_metadata (dot R)))"

lemma on_disk_root_stored:
  assumes "on_disk R e" and "root_file e = Some (e_id (dot R))" and "root_metadata e = Some (enc_metadata (e_metadata (dot R)))"
  shows "root_stored R e"
proof -
  have "GetValue bm [] = []" for bm by (simp add: GetValue_def split: option.split)
  then have n: "e_id x \<noteq> []" if "known e x" for x using that unfolding known_def by (metis enc_metadata_nonempty)
  have u: "enc_metadata (e_metadata y) = enc_metadata (e_metadata x)" if "known e x" "known e y" "e_id y = e_id x" for x y
    using that by (auto simp: known_def)
  have k: "known e x" if "(k, x) \<in> set (entries R)" "k \<noteq> ''..''" for k x using assms(1) that by (auto simp: on_disk_def steady_def)
  have "\<forall>(k, x) \<in> set (entries R). k \<noteq> ''..'' \<longrightarrow> e_id x \<noteq> [] \<and>
      (\<forall>(j, y) \<in> set (entries R). j \<noteq> ''..'' \<longrightarrow> e_id y = e_id x \<longrightarrow> enc_metadata (e_metadata y) = enc_metadata (e_metadata x))"
    by (intro ballI case_prodI2 impI conjI) (metis n k, metis u k)
  then show ?thesis using assms unfolding root_stored_def on_disk_def steady_def by auto
qed

lemma root_stored_ids:
  assumes "root_stored R e" and "(k, x) \<in> set (entries R)" and "k \<noteq> ''..''"
  shows "e_id x \<noteq> []" and "(j, y) \<in> set (entries R) \<Longrightarrow> j \<noteq> ''..'' \<Longrightarrow> e_id y = e_id x \<Longrightarrow> enc_metadata (e_metadata y) = enc_metadata (e_metadata x)"
proof -
  have "\<forall>(k, x) \<in> set (entries R). k \<noteq> ''..'' \<longrightarrow> e_id x \<noteq> [] \<and>
    (\<forall>(j, y) \<in> set (entries R). j \<noteq> ''..'' \<longrightarrow> e_id y = e_id x \<longrightarrow> enc_metadata (e_metadata y) = enc_metadata (e_metadata x))"
    using assms(1) unfolding root_stored_def by (elim conjE)
  from bspec [OF this assms(2)] assms(3) show "e_id x \<noteq> []"
    "(j, y) \<in> set (entries R) \<Longrightarrow> j \<noteq> ''..'' \<Longrightarrow> e_id y = e_id x \<Longrightarrow> enc_metadata (e_metadata y) = enc_metadata (e_metadata x)" by auto
qed

text \<open>The blob map after the metadata of the root and of its entries were stored in it.\<close>

lemma start_map:
  assumes "root_stored R e" and "metadata_bytes R + Metadata_GetSerializedSize (e_metadata (dot R)) \<le> map_room bm"
    and "(j, x) \<in> set (entries R)" and "j \<noteq> ''..''" and "map_inv bm"
  shows "GetValue (blob_map.put_all ((e_id (dot R), enc_metadata (e_metadata (dot R))) # cached False (entries R)) bm) (e_id x) =
    enc_metadata (e_metadata x)"
proof -
  let ?kds = "(e_id (dot R), enc_metadata (e_metadata (dot R))) # cached False (entries R)"
  have v: "valid_folder R" and d: "map_find (entries R) ''.'' = Some (dot R)" using assms(1) by (auto simp: root_stored_def)
  have dm: "(''.'', dot R) \<in> set (entries R)" by (rule map_find_in [OF d])
  note ids = root_stored_ids [OF assms(1,3,4)]
  have jd: "x = dot R" if "j = ''.''"
    using map_of_is_SomeI [of "entries R" j x] assms(3) d v
    by (simp add: that map_find_map_of valid_folder_def strict_sorted_iff)
  have m: "(e_id x, enc_metadata (e_metadata x)) \<in> set (cached False (entries R))" if "j \<noteq> ''.''"
    unfolding cached_def set_map using assms(3,4) that by (intro image_eqI [of _ _ "(j, x)"]) simp_all
  have "(e_id x, enc_metadata (e_metadata x)) \<in> set ?kds"
  proof (cases "j = ''.''")
    case True
    then show ?thesis by (simp add: jd)
  next
    case False
    from m [OF this] show ?thesis by simp
  qed
  moreover have "\<forall>d'. (e_id x, d') \<in> set ?kds \<longrightarrow> d' = enc_metadata (e_metadata x)"
  proof (intro allI impI)
    fix d' assume "(e_id x, d') \<in> set ?kds"
    then obtain i y where "(i, y) \<in> set (entries R)" "i \<noteq> ''..''" "e_id y = e_id x" "d' = enc_metadata (e_metadata y)"
      using dm by (auto simp: cached_def)
    then show "d' = enc_metadata (e_metadata x)" using ids(2) by metis
  qed
  moreover have "sum_list (map (\<lambda>kd. length (snd kd)) ?kds) \<le> map_room bm" using assms(2) cached_bytes [of False R] by (simp add: length_enc_metadata)
  ultimately show ?thesis by (intro blob_map.get_put_all [OF assms(5) _ ids(1) enc_metadata_nonempty])
qed

text \<open>The first lines of \<open>main\<close>: a new blob map, the root from the two files, the root folder from its blob.\<close>

lemma startup:
  assumes "root_stored R e" and "\<not> modified R" and "metadata_bytes R + Metadata_GetSerializedSize (e_metadata (dot R)) + k \<le> limit"
  obtains bm where "Initialize FileBlobProvider cfg n (root_id (BlobConfig_Initialize (snd (InitializeBlobMap True limit ''blob.cache'' e))))
      (BlobConfig_Initialize (snd (InitializeBlobMap True limit ''blob.cache'' e))) =
      (True, \<lparr>api_root = Some R, api_error = SUCCESS\<rparr>, e\<lparr>root_id := e_id (dot R), blobMap := Some bm\<rparr>)"
    and "steady R (e\<lparr>root_id := e_id (dot R), blobMap := Some bm\<rparr>)" and "map_inv bm" and "k \<le> map_room bm"
proof -
  let ?id = "e_id (dot R)" and ?m = "e_metadata (dot R)"
  let ?kds = "(?id, enc_metadata ?m) # cached False (entries R)"
  define bm0 where "bm0 = \<lparr>mapFile = Some [], mapFilename = ''blob.cache'', indexes = [], fileLimit = limit\<rparr>"
  define bm where "bm = blob_map.put_all ?kds bm0"
  have i0: "map_inv bm0" "map_room bm0 = limit" by (simp_all add: bm0_def map_inv_def map_room_def)
  have v: "valid_folder R" and d: "map_find (entries R) ''.'' = Some (dot R)" using assms(1) by (auto simp: root_stored_def)
  have dm: "(''.'', dot R) \<in> set (entries R)" by (rule map_find_in [OF d])
  then have vm: "valid_metadata ?m" using v by (auto simp: valid_folder_def valid_pair_def valid_entry_def)
  have sz: "sum_list (map (\<lambda>kd. length (snd kd)) ?kds) + k \<le> limit"
    using cached_bytes [of False R] assms(3) by (simp add: length_enc_metadata)
  have inv: "map_inv bm" unfolding bm_def by (rule blob_map.put_all_ok [OF i0(1)])
  have room: "k \<le> map_room bm" using blob_map.put_all_room [OF i0(1), of ?kds] sz i0(2) unfolding bm_def by linarith
  have get: "GetValue bm (e_id x) = enc_metadata (e_metadata x)" if "(j, x) \<in> set (entries R)" "j \<noteq> ''..''" for j x
    unfolding bm_def by (rule start_map [OF assms(1) _ that i0(1)]) (use assms(3) i0(2) in simp)
  let ?e = "e\<lparr>root_id := ?id, blobMap := Some bm\<rparr>" and ?start = "e\<lparr>root_id := ?id, blobMap := Some (SetValue bm0 ?id (enc_metadata ?m))\<rparr>"
  have nz: "?id \<noteq> []" by (rule root_stored_ids(1) [OF assms(1) dm]) simp
  have "\<forall>(j, x) \<in> set (entries R). j \<noteq> ''..'' \<longrightarrow> known ?e x" using get v by (auto simp: known_def valid_folder_def valid_pair_def)
  then have st: "steady R ?e" using assms(1) nz unfolding steady_def root_stored_def by auto
  have ms: "Metadata_GetSerializedSize ?m < 2 ^ 64" and op: "openable (disk e) ?id" using assms(1) by (auto simp: root_stored_def)
  obtain rest where r: "blobs (disk e) ?id = Some (enc_folder R @ rest)" "length (enc_folder R @ rest) = own_size R"
    using assms(1) by (auto simp: root_stored_def)
  have osz: "own_size R < 2 ^ 64" using unsigned_less [of "md_size ?m"] by (simp add: own_size_def)
  have sm: "SetMetadata bm0 ?id ?m = SetValue bm0 ?id (enc_metadata ?m)" by (rule SetMetadata_SetValue [OF vm])
  have ib: "snd (InitializeBlobMap True limit ''blob.cache'' e) = e\<lparr>blobMap := Some bm0\<rparr>"
    by (simp add: InitializeBlobMap_def BlobMap_Initialize_def BlobMap_new_def bm0_def)
  obtain s where "Metadata_Deserialize BlobMetadata_new (BufferedInputStream (enc_metadata ?m) (length (enc_metadata ?m))) = (True, ?m, s)"
    using Metadata_parses [OF vm ms] by blast
  then have e0: "BlobConfig_Initialize (snd (InitializeBlobMap True limit ''blob.cache'' e)) = ?start"
    using assms(1) sm unfolding ib root_stored_def BlobConfig_Initialize_def by (simp add: Let_def)
  have "length (enc_metadata ?m) \<le> map_room bm0" using sz i0(2) by simp
  then have g0: "GetValue (SetValue bm0 ?id (enc_metadata ?m)) ?id = enc_metadata ?m" using blob_map.get_put_same [OF i0(1) nz] by simp
  have o: "File_OpenBlob ?id ?start = (Some (own_blob R), ?start)"
    using File_OpenBlob_known [OF _ g0 vm ms, of ?start] op r(1) by (simp add: own_blob_def own_size_def)
  have f: "file_ok (own_blob R) ?start" "file_content (own_blob R) ?start = enc_folder R @ rest"
    using assms(1) r by (auto simp: file_ok_def file_content_def own_blob_def root_stored_def)
  have "GetSerializedSize R < 2 ^ 64" using r(2) osz by (simp add: length_enc_folder)
  have "R\<lparr>modified := False\<rparr> = R" using assms(2) by (cases R) simp
  with LoadFolder_stored [OF v \<open>GetSerializedSize R < 2 ^ 64\<close> nz o f] osz
  have "LoadFolder FileBlobProvider ?id ?start = (Some R, snd (UpdateMetadataCache False R ?start))" by (simp add: own_blob_def)
  moreover have "cache_entries False (entries R) (SetValue bm0 ?id (enc_metadata ?m)) = bm"
    using v cache_entries_put_all [of "entries R" False] by (simp add: bm_def blob_map.put_all_def valid_folder_def)
  ultimately have "LoadFolder FileBlobProvider ?id ?start = (Some R, ?e)" by (simp add: UpdateMetadataCache_def)
  then show ?thesis using that [OF _ st inv room] nz unfolding e0 by (simp add: Initialize_def)
qed

section \<open>Errors\<close>

named_theorems failing

lemma Info_failing [failing]: "Info Pr a path e = (None, a', e') \<Longrightarrow> api_error a' \<noteq> SUCCESS"
  by (auto simp: Info_def set_error_def Let_def split: prod.splits option.splits)

lemma Mkdir_failing [failing]: "Mkdir Pr cfg n a path e = (False, a', e') \<Longrightarrow> api_error a' \<noteq> SUCCESS"
  by (auto simp: Mkdir_def set_error_def Let_def split: prod.splits option.splits if_splits)

lemma Get_failing [failing]: "Api_Get Pr cfg a path target force e = (False, a', e') \<Longrightarrow> api_error a' \<noteq> SUCCESS"
  by (auto simp: Api_Get_def set_error_def Let_def dest: failing split: prod.splits option.splits if_splits)

lemma Get_range_failing [failing]: "Get_range Pr a path off sz e = (False, out, sz', a', e') \<Longrightarrow> api_error a' \<noteq> SUCCESS"
  by (auto simp: Get_range_def set_error_def Let_def dest: failing split: prod.splits option.splits if_splits)

lemma Delete_failing [failing]: "Api_Delete Pr n a path e = (False, a', e') \<Longrightarrow> api_error a' \<noteq> SUCCESS"
  by (auto simp: Api_Delete_def set_error_def Let_def split: prod.splits option.splits if_splits)

lemma move_target_failing [failing]: "move_target Pr n a ref sp dp ow e = (Inl err, a1, e1) \<Longrightarrow> err \<noteq> SUCCESS"
  by (auto simp: move_target_def Let_def split: prod.splits option.splits if_splits)

lemma Move_failing [failing]: "Move Pr n a path dest ow e = (False, a', e') \<Longrightarrow> api_error a' \<noteq> SUCCESS"
  by (auto simp: Move_def set_error_def Let_def dest: failing split: prod.splits option.splits if_splits sum.splits)

lemma ParsePutTarget_failing:
  assumes "ParsePutTarget Pr a path source e = (ok, oref, name, a1, e1)" and "api_root a \<noteq> None" and "api_error a = SUCCESS"
  shows "(\<not> ok \<longrightarrow> api_error a1 \<noteq> SUCCESS) \<and> (oref = None \<longrightarrow> \<not> ok \<and> api_error a1 \<noteq> ALREADY_EXIST)"
  using assms by (auto simp: ParsePutTarget_def set_error_def Let_def split: prod.splits option.splits if_splits)

lemma Put_failing:
  assumes "Put Pr cfg n a path source force e = (False, a', e')" and "api_root a \<noteq> None"
    and "ParsePutTarget Pr (set_error SUCCESS a) path source e = (ok, oref, name, a1, e1)" and "local_files e1 source \<noteq> None"
  shows "api_error a' \<noteq> SUCCESS"
proof -
  have p: "(\<not> ok \<longrightarrow> api_error a1 \<noteq> SUCCESS) \<and> (oref = None \<longrightarrow> \<not> ok \<and> api_error a1 \<noteq> ALREADY_EXIST)"
    by (rule ParsePutTarget_failing [OF assms(3)]) (simp_all add: assms(2) set_error_def)
  show ?thesis
    using assms(1,3,4) p by (auto simp: Put_def set_error_def Let_def split: prod.splits option.splits if_splits)
qed

text \<open>A \<open>Put\<close> that fails without an error and without a crash has not opened the local file.\<close>

lemma Put_silent:
  assumes "Put Pr cfg n a path source force e = (False, a', e')" and "api_error a' = SUCCESS" and "\<not> fault e'"
    and "ParsePutTarget Pr (set_error SUCCESS a) path source e = (ok, oref, name, a1, e1)"
  shows "local_files e1 source = None"
proof -
  have p: "\<not> ok \<longrightarrow> api_error a1 \<noteq> SUCCESS"
    using assms(4) by (auto simp: ParsePutTarget_def set_error_def Let_def split: prod.splits option.splits if_splits)
  show ?thesis
    using assms p by (auto simp: Put_def set_error_def Let_def split: prod.splits option.splits if_splits)
qed

section \<open>A concrete tree\<close>

text \<open>A root folder \<open>r\<close> with a folder \<open>d\<close> that has one file \<open>s\<close>; all blobs have 400 bytes.\<close>

definition demo_entry :: "string \<Rightarrow> EntryType \<Rightarrow> Entry" where
  "demo_entry ident ty = \<lparr>e_id = ident, e_type = ty, e_createTime = 1, e_modifyTime = 1, e_size = 0, e_metadata = demo_metadata 400\<rparr>"

definition demo_root :: Folder where
  "demo_root = \<lparr>entries = [(''.'', demo_entry ''r'' FOLDER), (''d'', demo_entry ''i'' FOLDER)], folder_name = [], modified = False\<rparr>"

definition demo_sub :: Folder where
  "demo_sub = \<lparr>entries = [(''.'', demo_entry ''i'' FOLDER), (''..'', demo_entry ''r'' FOLDER), (''s'', demo_entry ''f'' FILE)],
     folder_name = ''d'', modified = False\<rparr>"

definition demo_tree_map :: BlobMap where
  "demo_tree_map = \<lparr>mapFile = Some (enc_metadata (demo_metadata 400)), mapFilename = ''blob.cache'',
     indexes = [(''f'', \<lparr>ix_offset = 0, ix_size = 20\<rparr>), (''i'', \<lparr>ix_offset = 0, ix_size = 20\<rparr>), (''r'', \<lparr>ix_offset = 0, ix_size = 20\<rparr>)],
     fileLimit = 1000\<rparr>"

definition demo_tree :: "dir blob_env" where
  "demo_tree = demo_blobs\<lparr>disk := (disk demo_blobs)\<lparr>blobs := [''r'' \<mapsto> enc_folder demo_root @ replicate 294 0,
       ''i'' \<mapsto> enc_folder demo_sub @ replicate 245 0, ''f'' \<mapsto> replicate 400 0]\<rparr>,
     blobMap := Some demo_tree_map, root_id := ''r'', local_files := [''in'' \<mapsto> [1, 2, 3]]\<rparr>"

definition demo_api :: BlobApi where
  "demo_api = \<lparr>api_root = Some demo_root, api_error = SUCCESS\<rparr>"

definition demo_config :: BlobConfig where
  "demo_config = \<lparr>cfg_dataBlocks = 2, cfg_codeBlocks = 2, cfg_blockSize = 32\<rparr>"

lemma demo_entry_known: "ident \<in> {''r'', ''i'', ''f''} \<Longrightarrow> known demo_tree (demo_entry ident ty)"
  by (auto simp: known_def valid_entry_def demo_entry_def demo_metadata_def new_metadata demo_tree_def demo_tree_map_def GetValue_def peek_def
      length_enc_metadata)

lemma demo_dots: "dot demo_root = demo_entry ''r'' FOLDER" "dot demo_sub = demo_entry ''i'' FOLDER"
  by (simp_all add: dot_def demo_root_def demo_sub_def)

lemma demo_tree_sizes:
  "GetSerializedSize demo_root = 106" "GetSerializedSize demo_sub = 155" "own_size demo_root = 400" "own_size demo_sub = 400"
  by (simp_all add: GetSerializedSize_def own_size_def demo_dots) (simp_all add: demo_root_def demo_sub_def demo_entry_def GetEntrySerializedSize_def
      demo_metadata_def new_metadata)

lemma demo_valid: "valid_folder demo_root" "valid_folder demo_sub"
  by (simp_all add: valid_folder_def demo_root_def demo_sub_def valid_pair_def valid_entry_def demo_entry_def demo_metadata_def new_metadata)

lemma demo_on_disk: "on_disk demo_root demo_tree" "on_disk demo_sub demo_tree"
proof -
  have m: "Metadata_GetSerializedSize (demo_metadata 400) = 20" by (simp add: demo_metadata_def new_metadata)
  have "\<forall>(k, x) \<in> set (entries demo_root). k \<noteq> ''..'' \<longrightarrow> known demo_tree x" "\<forall>(k, x) \<in> set (entries demo_sub). k \<noteq> ''..'' \<longrightarrow> known demo_tree x"
    by (simp_all add: demo_root_def demo_sub_def demo_entry_known)
  with demo_valid m show "on_disk demo_root demo_tree" "on_disk demo_sub demo_tree"
    unfolding on_disk_def steady_def demo_dots demo_tree_sizes
    by (simp_all add: demo_tree_def demo_blobs_def length_enc_folder demo_tree_sizes demo_entry_def)
      (simp_all add: demo_root_def demo_sub_def demo_entry_def)
qed

lemma demo_child: "child_of demo_sub demo_root demo_tree"
  using demo_on_disk demo_tree_sizes unfolding child_of_def demo_dots
  by (simp add: on_disk_def demo_entry_def) (simp add: demo_sub_def demo_root_def Parent_def demo_entry_def)

section \<open>Properties\<close>

text \<open>
  C4. What is put can be got back: \<open>Put\<close> of a local file under a new name into the root folder
  succeeds when the directory takes a blob of its size and the folder has room for the entry, and a
  later \<open>Get\<close> of that path writes exactly the bytes of the file to the local path it is given, also
  for the empty file.
\<close>

theorem Put_Get:
  assumes "api_root a = Some R" and "steady R e" and "Parent R = None" and "root_id e = e_id (dot R)"
    and "SplitPath path = [name]" and "\<not> has_wildcard path" and "map_find (entries R) name = None" and "name \<noteq> ''..''" and "length name < 2 ^ 32"
    and "length (entries R) < 2 ^ 32 - 1" and "local_files e source = Some content" and "cfg_blockSize cfg > 0"
    and "length content + cfg_blockSize cfg < 2 ^ 64" and "dir_ready (blob_size_for cfg (length content)) e"
    and "ident = uuids (disk e) (issued (disk e))" and "ident \<notin> e_id ` snd ` set (entries R)" and "length ident < 2 ^ 32"
    and "GetSerializedSize R + (45 + length name + length ident) \<le> own_size R"
    and "local_open e target" and "length content \<le> local_room e"
  shows "\<exists>a1 e1 a2 e2. Put FileBlobProvider cfg (Suc (Suc n)) a path source force e = (True, a1, e1) \<and>
    Api_Get FileBlobProvider cfg a1 path target True e1 = (True, a2, e2) \<and> local_files e2 target = Some content"
proof -
  obtain a1 e1 where p: "Put FileBlobProvider cfg (Suc (Suc n)) a path source force e = (True, a1, e1)" "holds_file a1 path content e1"
    "local_open e1 = local_open e" "local_room e1 = local_room e"
    using Put_holds_file [OF assms(1-18)] by blast
  with Get_holds_file [OF p(2), of target cfg] assms(12,19,20) show ?thesis by simp
qed

theorem Put_Get_witness:
  "\<exists>a1 e1 a2 e2. Put FileBlobProvider demo_config 2 demo_api ''n'' ''in'' False demo_tree = (True, a1, e1) \<and>
     Api_Get FileBlobProvider demo_config a1 ''n'' ''out'' True e1 = (True, a2, e2) \<and> local_files e2 ''out'' = Some [1, 2, 3]"
proof -
  have s: "steady demo_root demo_tree" using demo_on_disk(1) by (simp add: on_disk_def)
  have p: "SplitPath ''n'' = [''n'']" by (simp add: SplitPath_def split_loop.simps is_delim_def push_name_def)
  have b: "blob_size_for demo_config (length [1, 2, 3 :: byte]) = 32" by (simp add: blob_size_for_def demo_config_def)
  have r: "dir_ready 32 demo_tree"
    by (simp add: dir_ready_def demo_tree_def demo_blobs_def demo_tree_map_def map_inv_def map_room_def length_enc_metadata demo_metadata_def new_metadata)
  have u: "uuids (disk demo_tree) (issued (disk demo_tree)) = ''b''" by (simp add: demo_tree_def demo_blobs_def)
  have "\<exists>a1 e1 a2 e2. Put FileBlobProvider demo_config (Suc (Suc 0)) demo_api ''n'' ''in'' False demo_tree = (True, a1, e1) \<and>
     Api_Get FileBlobProvider demo_config a1 ''n'' ''out'' True e1 = (True, a2, e2) \<and> local_files e2 ''out'' = Some [1, 2, 3]"
    by (rule Put_Get [where ident = "''b''", OF _ s _ _ p])
      (use b r u in \<open>simp_all add: demo_api_def demo_dots demo_tree_sizes demo_config_def\<close>,
       simp_all add: demo_tree_def demo_blobs_def demo_root_def demo_entry_def Parent_def has_wildcard_def)
  then show ?thesis by (simp add: numeral_2_eq_2)
qed

text \<open>
  C24. Renaming a file inside a folder below the root loses it: \<open>Move\<close> loads the folder once for the
  source and once for the destination; the new name is added to one copy and written, then the old
  name is removed from the other copy, which never had the new name, and that copy is written over
  the first. \<open>Move\<close> reports success, and the folder on disk has neither name while all other
  entries are there.
\<close>

theorem Move_loses_file:
  assumes "api_root a = Some R" and "child_of D P e" and "on_disk D e" and "map_find (entries R) (folder_name D) = Some r" and "e_id r = e_id (dot D)"
    and "SplitPath src = [folder_name D, s]" and "SplitPath dest = [folder_name D, t]" and "s \<noteq> t"
    and "map_find (entries D) s = Some x" and "map_find (entries D) t = None" and "s \<noteq> ''.''" and "s \<noteq> ''..''" and "length t < 2 ^ 32"
    and "length (entries D) < 2 ^ 32 - 1" and "GetSerializedSize D + entry_bytes (t, x) \<le> own_size D"
  shows "\<exists>a' e' D'. Move FileBlobProvider (Suc (Suc (Suc n))) a src dest ow e = (True, a', e') \<and>
    LoadFolder FileBlobProvider (e_id (dot D)) e' = (Some D', e') \<and>
    map_find (entries D') s = None \<and> map_find (entries D') t = None \<and>
    (\<forall>k. k \<noteq> s \<and> k \<noteq> ''.'' \<longrightarrow> map_find (entries D') k = map_find (entries D) k)"
proof -
  let ?n = "Suc (Suc (Suc n))" and ?D = "D\<lparr>modified := False\<rparr>" and ?y = "touch_dot (e_size (dot D) + 1) (time_now e) D"
  have c: "child_of ?D P e" using assms(2) by (simp add: child_of_def Parent_def)
  have st: "steady D e" and idne: "e_id (dot P) \<noteq> e_id (dot D)" using assms(2) by (auto simp: child_of_def)
  have kx: "known e x" using st map_find_in [OF assms(9)] assms(12) by (auto simp: steady_def)
  let ?P = "with_entry (folder_name D) ?y P" and ?F = "with_entry t x (set_dot ?y ?D)"
  obtain f1 f2 where u: "UpdateEntry FileBlobProvider ?n ?D t x e = (?F\<lparr>modified := False\<rparr>, put_file (e_id (dot D)) f2 (put_file (e_id (dot P)) f1 e))"
    and od: "on_disk ?F (put_file (e_id (dot D)) f2 (put_file (e_id (dot P)) f1 e))"
    and op: "on_disk ?P (put_file (e_id (dot D)) f2 (put_file (e_id (dot P)) f1 e))" and ps: "GetSerializedSize ?P \<le> own_size ?P"
    using UpdateEntry_child [OF c, of t x n] assms(10,13-15) kx by (auto simp: Let_def touch_dot_def)
  let ?e1 = "put_file (e_id (dot D)) f2 (put_file (e_id (dot P)) f1 e)"
  have tn: "t \<noteq> ''.''" using st assms(10) by (auto simp: steady_def)
  have dF: "dot ?F = ?y" "own_size ?F = own_size D" using tn by (simp_all add: own_size_def)
  have "length f2 = own_size D" using od dF by (auto simp: on_disk_def steady_def)
  then have "steady D ?e1" using st idne steady_put_own [of D "put_file (e_id (dot P)) f1 e" f2] by (simp add: on_disk_frame)
  then have c1: "child_of ?D ?P ?e1" using c op ps by (auto simp: child_of_def)
  let ?z = "touch_dot (e_size (dot D) - 1) (time_now e) D"
  let ?G = "without_entry s (set_dot ?z ?D)"
  have sz: "GetSerializedSize ?D \<le> own_size ?D" using assms(15) by simp
  obtain g1 g2 where r: "RemoveEntry FileBlobProvider ?n ?D s ?e1 = (?G\<lparr>modified := False\<rparr>, put_file (e_id (dot D)) g2 (put_file (e_id (dot ?P)) g1 ?e1))"
    and og: "on_disk ?G (put_file (e_id (dot D)) g2 (put_file (e_id (dot ?P)) g1 ?e1))"
    using RemoveEntry_child [OF c1, of s x "Suc n"] assms(9,11) sz by (auto simp: Let_def touch_dot_def)
  let ?e2 = "put_file (e_id (dot D)) g2 (put_file (e_id (dot ?P)) g1 ?e1)"
  have pf: "Api_GetParentFolder FileBlobProvider (set_error SUCCESS a) [folder_name D, k] e = (Some (Loaded ?D), e)" for k
    by (rule Api_GetParentFolder_below [OF _ assms(4,5,3)]) (simp add: set_error_def assms(1))
  have mv: "Move FileBlobProvider ?n a src dest ow e = (True, set_error SUCCESS a, ?e2)"
    using u r joined_two [OF assms(8)] assms(6,7,9,10)
    by (simp add: Move_def pf move_target_def the_folder_def set_folder_def release_def Flush_after Let_def)
  have ok: "map_ok (map_put ''.'' ?z (entries D))" using st by (simp add: steady_def valid_folder_def)
  have find: "map_find (entries ?G) k = (if k = s then None else if k = ''.'' then Some ?z else map_find (entries D) k)" for k
    by (simp add: without_entry_def set_dot_def map_find_erase [OF ok])
  have iG: "e_id (dot ?G) = e_id (dot D)" using find [of "''.''"] assms(11) by (simp add: dot_def [of ?G])
  have "LoadFolder FileBlobProvider (e_id (dot D)) ?e2 = (Some (?G\<lparr>modified := False\<rparr>), ?e2)"
    using LoadFolder_on_disk [OF og] iG by simp
  with mv find assms(8,10) tn show ?thesis by auto
qed

theorem Move_loses_file_witness:
  "\<exists>a' e' D'. Move FileBlobProvider 3 demo_api ''d/s'' ''d/t'' False demo_tree = (True, a', e') \<and>
     LoadFolder FileBlobProvider ''i'' e' = (Some D', e') \<and> map_find (entries D') ''s'' = None \<and> map_find (entries D') ''t'' = None"
proof -
  have f: "folder_name demo_sub = ''d''" by (simp add: demo_sub_def)
  have p: "SplitPath ''d/s'' = [folder_name demo_sub, ''s'']" "SplitPath ''d/t'' = [folder_name demo_sub, ''t'']"
    by (simp_all add: f SplitPath_def split_loop.simps is_delim_def push_name_def)
  have "\<exists>a' e' D'. Move FileBlobProvider (Suc (Suc (Suc 0))) demo_api ''d/s'' ''d/t'' False demo_tree = (True, a', e') \<and>
     LoadFolder FileBlobProvider (e_id (dot demo_sub)) e' = (Some D', e') \<and> map_find (entries D') ''s'' = None \<and> map_find (entries D') ''t'' = None \<and>
     (\<forall>k. k \<noteq> ''s'' \<and> k \<noteq> ''.'' \<longrightarrow> map_find (entries D') k = map_find (entries demo_sub) k)"
    by (rule Move_loses_file [where x = "demo_entry ''f'' FILE" and r = "demo_entry ''i'' FOLDER", OF _ demo_child demo_on_disk(2) _ _ p])
      (simp_all add: demo_api_def demo_dots demo_tree_sizes f,
       simp_all add: demo_root_def demo_sub_def demo_entry_def entry_bytes_def GetEntrySerializedSize_def demo_metadata_def new_metadata)
  then show ?thesis by (auto simp: demo_dots demo_entry_def numeral_3_eq_3)
qed

text \<open>
  C25. A refused operation says why: when \<open>Mkdir\<close>, \<open>Get\<close>, the ranged \<open>Get\<close>, \<open>Delete\<close> or \<open>Move\<close> returns
  false, the error is set, whatever the provider does, and so does \<open>Put\<close> when there is a root folder,
  except when the local file cannot be opened, where it returns false with no error.
\<close>

theorem failure_has_error:
  "(Mkdir Pr cfg n a path e = (False, a', e') \<longrightarrow> api_error a' \<noteq> SUCCESS) \<and>
   (Api_Get Pr cfg a path target force e = (False, a', e') \<longrightarrow> api_error a' \<noteq> SUCCESS) \<and>
   (Get_range Pr a path off sz e = (False, out, sz', a', e') \<longrightarrow> api_error a' \<noteq> SUCCESS) \<and>
   (Api_Delete Pr n a path e = (False, a', e') \<longrightarrow> api_error a' \<noteq> SUCCESS) \<and>
   (Move Pr n a path dest ow e = (False, a', e') \<longrightarrow> api_error a' \<noteq> SUCCESS) \<and>
   (Put Pr cfg n a path source force e = (False, a', e') \<and> api_root a \<noteq> None \<and>
      ParsePutTarget Pr (set_error SUCCESS a) path source e = (ok, oref, name, a1, e1) \<and> local_files e1 source \<noteq> None \<longrightarrow> api_error a' \<noteq> SUCCESS)"
  using failing Put_failing by metis

theorem failure_has_error_witness:
  "\<exists>a' e'. Mkdir FileBlobProvider demo_config 2 demo_api ''a*'' demo_tree = (False, a', e') \<and> api_error a' \<noteq> SUCCESS"
proof -
  obtain a' e' where m: "Mkdir FileBlobProvider demo_config 2 demo_api ''a*'' demo_tree = (False, a', e')"
    by (simp add: Mkdir_def has_wildcard_def)
  then have "api_error a' \<noteq> SUCCESS" using failure_has_error [of FileBlobProvider demo_config 2 demo_api "''a*''" demo_tree a' e'] by blast
  with m show ?thesis by blast
qed

end
