(* ===== verification/Commands.thy ===== *)
theory Commands
  imports Arguments BlobApi
begin

text \<open>
  The commands of \<open>bdblob\<close> (\<open>Command.cpp\<close>, \<open>commands/\<close>, the dispatch of \<open>Main.cpp\<close>) over the
  operations of \<open>BlobApi\<close>. A session has the object \<open>g_api\<close>, the world behind it and what has been
  printed. The result of a command is its exit code; \<open>None\<close> is a failed assertion, which the typed
  arguments exclude. What \<open>stat\<close> says of the local files are the parameters \<open>exists\<close> and \<open>is_dir\<close>;
  whether a file can be opened is another matter and up to \<open>local_files\<close> of the world. \<open>localtime\<close>
  gives the fields \<open>tm_year\<close> to \<open>tm_sec\<close>. The recursion of \<open>rm\<close> over folders has fuel, as a folder
  may be its own descendant.
\<close>

section \<open>Sessions\<close>

record 'w session =
  g_api :: BlobApi
  world :: "'w blob_env"
  printed :: string
  complaints :: string

definition error_code :: "BlobError \<Rightarrow> int" where
  "error_code err =
     (case err of SUCCESS \<Rightarrow> 0 | GENERIC_FAILURE \<Rightarrow> 1 | NOT_FOUND \<Rightarrow> 2 | IO_ERROR \<Rightarrow> 3 | ALREADY_EXIST \<Rightarrow> 4 | NOT_SUPPORTED \<Rightarrow> 5
      | FOLDER_NOT_EMPTY \<Rightarrow> 6 | INVALID_NAME \<Rightarrow> 7 | REJECT_DELETE_FOLDER \<Rightarrow> 8)"

definition BlobErrorToString :: "BlobError \<Rightarrow> string" where
  "BlobErrorToString err =
     (case err of SUCCESS \<Rightarrow> ''Success.'' | GENERIC_FAILURE \<Rightarrow> ''Some error occurred.'' | NOT_FOUND \<Rightarrow> ''File or folder not found.''
      | IO_ERROR \<Rightarrow> ''I/O error.'' | ALREADY_EXIST \<Rightarrow> ''File or folder already exists.'' | NOT_SUPPORTED \<Rightarrow> ''Operation not supported.''
      | FOLDER_NOT_EMPTY \<Rightarrow> ''Folder is not empty.'' | INVALID_NAME \<Rightarrow> ''Invalid file or directory name.''
      | REJECT_DELETE_FOLDER \<Rightarrow> ''Cannot delete the target as it is a folder.'')"

definition say :: "string \<Rightarrow> 'w session \<Rightarrow> 'w session" where
  "say t s = s\<lparr>printed := printed s @ t\<rparr>"

definition complain :: "string \<Rightarrow> 'w session \<Rightarrow> 'w session" where
  "complain t s = s\<lparr>complaints := complaints s @ t\<rparr>"

text \<open>The message for an error and the exit code that goes with it.\<close>

definition fail_with :: "BlobError \<Rightarrow> 'w session \<Rightarrow> int \<times> 'w session" where
  "fail_with err s = (error_code err, complain (BlobErrorToString err @ [CHR 0x0A]) s)"

definition upd :: "BlobApi \<Rightarrow> 'w blob_env \<Rightarrow> 'w session \<Rightarrow> 'w session" where
  "upd a e s = s\<lparr>g_api := a, world := e\<rparr>"

text \<open>\<open>this->parser[name]\<close> with its conversion.\<close>

definition string_arg :: "ArgumentParser \<Rightarrow> string \<Rightarrow> string option" where
  "string_arg p name = Option.bind (GetArgument p name) AsString"

definition bool_arg :: "ArgumentParser \<Rightarrow> string \<Rightarrow> bool option" where
  "bool_arg p name = Option.bind (GetArgument p name) AsBoolean"

section \<open>The arguments of the commands\<close>

fun register_all :: "(ArgumentParser \<Rightarrow> ArgumentParser option) list \<Rightarrow> ArgumentParser option" where
  "register_all rs = fold (\<lambda>r p. Option.bind p r) rs (Some ArgumentParser_new)"

definition CatCommand_new :: "ArgumentParser option" where
  "CatCommand_new = register_all [Register ''path'' True CHR 0x00 ''path'' True (VString [])]"

definition GetCommand_new :: "ArgumentParser option" where
  "GetCommand_new = register_all
     [Register ''force'' False CHR ''f'' ''overwrite existing local files'' False (VBool False),
      Register ''source'' True CHR 0x00 ''remote source'' True (VString []),
      Register ''target'' False CHR 0x00 ''local target'' True (VString [])]"

definition ListCommand_new :: "ArgumentParser option" where
  "ListCommand_new = register_all
     [Register ''list'' False CHR ''l'' ''show the result in detail list'' False (VBool False),
      Register ''all'' False CHR ''a'' ''show hidden files'' False (VBool False),
      Register ''path'' False CHR 0x00 ''path'' True (VString ''/'')]"

definition MkdirCommand_new :: "ArgumentParser option" where
  "MkdirCommand_new = register_all
     [Register ''recursive'' False CHR ''p'' ''create directories recursively'' False (VBool False),
      Register ''target'' True CHR 0x00 ''target'' True (VString [])]"

definition MvCommand_new :: "ArgumentParser option" where
  "MvCommand_new = register_all
     [Register ''force'' False CHR ''f'' ''overwrite existing file'' False (VBool False),
      Register ''source'' True CHR 0x00 ''source path'' True (VString []),
      Register ''destination'' True CHR 0x00 ''destination path'' True (VString [])]"

definition PutCommand_new :: "ArgumentParser option" where
  "PutCommand_new = register_all
     [Register ''force'' False CHR ''f'' ''overwrite if file already exists'' False (VBool False),
      Register ''source'' True CHR 0x00 ''local source'' True (VString []),
      Register ''target'' False CHR 0x00 ''remote target'' True (VString [])]"

definition RmCommand_new :: "ArgumentParser option" where
  "RmCommand_new = register_all
     [Register ''recursive'' False CHR ''r'' ''delete files or directories'' False (VBool False),
      Register ''force'' False CHR ''f'' ''delete even if directory is not empty'' False (VBool False),
      Register ''target'' True CHR 0x00 ''target'' True (VString [])]"

section \<open>The commands\<close>

lemma Get_range_offset: "Get_range Pr a path offset sz e = (True, out, k, a', e') \<Longrightarrow> k > 0 \<Longrightarrow> offset < 2 ^ 64"
proof -
  assume g: "Get_range Pr a path offset sz e = (True, out, k, a', e')" and k: "k > 0"
  then obtain x where x: "offset < unat (e_size (x :: Entry))"
    by (auto simp: Get_range_def Let_def not_le split: if_splits option.splits prod.splits)
  have "unat (e_size x) < 2 ^ 64" using unsigned_less [of "e_size x"] by simp
  with x show ?thesis by linarith
qed

function cat_loop :: "'w BlobProvider \<Rightarrow> BlobConfig \<Rightarrow> string \<Rightarrow> nat \<Rightarrow> 'w session \<Rightarrow> 'w session" where
  "cat_loop Pr cfg path offset s =
     (case Get_range Pr (g_api s) path offset (cfg_blockSize cfg) (world s) of
        (ok, out, k, a, e) \<Rightarrow>
          if ok \<and> k > 0 then cat_loop Pr cfg path (offset + k) (say (c_str (map char_of_byte out)) (upd a e s))
          else upd a e s)"
  by pat_completeness auto
termination
proof (relation "measure (\<lambda>(Pr, cfg, path, offset, s). 2 ^ 64 - offset)", goal_cases)
  case (2 Pr cfg path offset s ok y out z k w a e)
  then have "offset < 2 ^ 64" using Get_range_offset by metis
  then show ?case using 2(5) by (simp add: diff_less_mono2)
qed simp

declare cat_loop.simps [simp del]

definition CatCommand_Execute :: "'w BlobProvider \<Rightarrow> BlobConfig \<Rightarrow> ArgumentParser \<Rightarrow> 'w session \<Rightarrow> (int \<times> 'w session) option" where
  "CatCommand_Execute Pr cfg p s =
     Option.bind (string_arg p ''path'') (\<lambda>path.
       let s1 = cat_loop Pr cfg path 0 s
       in Some (if api_error (g_api s1) \<noteq> SUCCESS then fail_with (api_error (g_api s1)) s1 else (0, s1)))"

text \<open>A local or remote directory is completed by the base name of the source.\<close>

definition into_folder :: "string \<Rightarrow> string \<Rightarrow> string" where
  "into_folder target source = target @ (if last target = CHR ''/'' then [] else ''/'') @ BaseName source"

definition GetCommand_Execute :: "'w BlobProvider \<Rightarrow> BlobConfig \<Rightarrow> (string \<Rightarrow> bool) \<Rightarrow> ArgumentParser \<Rightarrow> 'w session \<Rightarrow> (int \<times> 'w session) option" where
  "GetCommand_Execute Pr cfg is_dir p s =
     Option.bind (bool_arg p ''force'') (\<lambda>force. Option.bind (string_arg p ''source'') (\<lambda>source. Option.bind (string_arg p ''target'') (\<lambda>target0.
       Some (case Info Pr (g_api s) source (world s) of
         (None, a, e) \<Rightarrow> fail_with (api_error a) (upd a e s)
       | (Some x, a, e) \<Rightarrow>
           if e_type x = FOLDER then fail_with NOT_SUPPORTED (upd a e s)
           else let target1 = (if target0 = [] then ''.'' else target0);
                    target = (if is_dir target1 then into_folder target1 source else target1)
                in case Api_Get Pr cfg a source target force e of
                     (False, a1, e1) \<Rightarrow> fail_with (api_error a1) (upd a1 e1 s)
                   | (True, a1, e1) \<Rightarrow> (0, upd a1 e1 s)))))"

type_synonym tm = "nat \<times> nat \<times> nat \<times> nat \<times> nat \<times> nat"

definition pad_left :: "char \<Rightarrow> nat \<Rightarrow> string \<Rightarrow> string" where
  "pad_left c n t = replicate (n - length t) c @ t"

definition show_time :: "tm \<Rightarrow> string" where
  "show_time t =
     (case t of (tm_year, tm_mon, tm_mday, tm_hour, tm_min, tm_sec) \<Rightarrow>
        decimal (tm_year + 1900) @ ''-'' @ pad_left CHR ''0'' 2 (decimal (tm_mon + 1)) @ ''-'' @ pad_left CHR ''0'' 2 (decimal tm_mday) @ '' '' @
        pad_left CHR ''0'' 2 (decimal tm_hour) @ '':'' @ pad_left CHR ''0'' 2 (decimal tm_min) @ '':'' @ pad_left CHR ''0'' 2 (decimal tm_sec) @ '' '')"

definition show_entry :: "(u32 \<Rightarrow> tm) \<Rightarrow> bool \<Rightarrow> string \<times> Entry \<Rightarrow> string" where
  "show_entry localtime showList = (\<lambda>(name, x).
     if \<not> showList then c_str name @ [CHR 0x09]
     else (if e_type x = FOLDER then ''D '' else ''F '') @ pad_left CHR '' '' 20 (decimal (unat (e_size x))) @ '' '' @
       show_time (localtime (e_modifyTime x)) @ c_str name @ [CHR 0x0A])"

definition shown :: "bool \<Rightarrow> bool \<Rightarrow> string \<Rightarrow> string \<Rightarrow> bool" where
  "shown showAll wildcard pattern name \<longleftrightarrow>
     (showAll \<or> \<not> (name \<noteq> [] \<and> hd name = CHR ''.'')) \<and> (wildcard \<longrightarrow> PatternMatch pattern name)"

definition ListCommand_Execute :: "'w BlobProvider \<Rightarrow> (u32 \<Rightarrow> tm) \<Rightarrow> ArgumentParser \<Rightarrow> 'w session \<Rightarrow> (int \<times> 'w session) option" where
  "ListCommand_Execute Pr localtime p s =
     Option.bind (bool_arg p ''list'') (\<lambda>showList. Option.bind (bool_arg p ''all'') (\<lambda>showAll. Option.bind (string_arg p ''path'') (\<lambda>path.
       let parts = SplitPath path;
           wildcard = (parts \<noteq> [] \<and> has_wildcard (last parts));
           target = (if wildcard then JoinPaths parts 0 (length parts - 1) else path);
           (result, a, e) = BlobApi.List Pr (g_api s) target (world s);
           s1 = upd a e s
       in Some (if api_error a \<noteq> SUCCESS then fail_with (api_error a) s1
           else let lines = filter (\<lambda>(name, x). shown showAll wildcard (last parts) name) result;
                    s2 = say (concat (map (show_entry localtime showList) lines)) s1
                in (0, if lines \<noteq> [] \<and> \<not> showList then say [CHR 0x0A] s2 else s2)))))"

fun mkdir_loop :: "'w BlobProvider \<Rightarrow> BlobConfig \<Rightarrow> nat \<Rightarrow> string \<Rightarrow> string list \<Rightarrow> 'w session \<Rightarrow> int \<times> 'w session" where
  "mkdir_loop Pr cfg n path [] s = (0, s)"
| "mkdir_loop Pr cfg n path (part # parts) s =
     (let path1 = path @ ''/'' @ part
      in case Mkdir Pr cfg n (g_api s) path1 (world s) of
           (ok, a, e) \<Rightarrow>
             if \<not> ok \<and> api_error a \<noteq> ALREADY_EXIST then fail_with (api_error a) (upd a e s)
             else mkdir_loop Pr cfg n path1 parts (upd a e s))"

definition MkdirCommand_Execute :: "'w BlobProvider \<Rightarrow> BlobConfig \<Rightarrow> nat \<Rightarrow> ArgumentParser \<Rightarrow> 'w session \<Rightarrow> (int \<times> 'w session) option" where
  "MkdirCommand_Execute Pr cfg n p s =
     Option.bind (bool_arg p ''recursive'') (\<lambda>recursive. Option.bind (string_arg p ''target'') (\<lambda>target.
       Some (case Mkdir Pr cfg n (g_api s) target (world s) of
         (True, a, e) \<Rightarrow> (0, upd a e s)
       | (False, a, e) \<Rightarrow>
           if api_error a \<noteq> NOT_FOUND \<or> \<not> recursive then fail_with (api_error a) (upd a e s)
           else if SplitPath target = [] then fail_with ALREADY_EXIST (upd a e s)
           else mkdir_loop Pr cfg n [] (SplitPath target) (upd a e s))))"

definition MvCommand_Execute :: "'w BlobProvider \<Rightarrow> nat \<Rightarrow> ArgumentParser \<Rightarrow> 'w session \<Rightarrow> (int \<times> 'w session) option" where
  "MvCommand_Execute Pr n p s =
     Option.bind (bool_arg p ''force'') (\<lambda>force. Option.bind (string_arg p ''source'') (\<lambda>source. Option.bind (string_arg p ''destination'') (\<lambda>target.
       Some (case Move Pr n (g_api s) source target force (world s) of
         (False, a, e) \<Rightarrow> fail_with (api_error a) (upd a e s)
       | (True, a, e) \<Rightarrow> (0, upd a e s)))))"

definition put_target :: "'w BlobProvider \<Rightarrow> string \<Rightarrow> string \<Rightarrow> 'w session \<Rightarrow> string \<times> BlobApi \<times> 'w blob_env" where
  "put_target Pr source target0 s =
     (let target1 = (if target0 = [] then ''/'' else target0);
          (info, a, e) = Info Pr (g_api s) target1 (world s);
          target = (case info of Some x \<Rightarrow> if e_type x = FOLDER then into_folder target1 source else target1 | None \<Rightarrow> target1)
      in (target, a, e))"

definition PutCommand_Execute :: "'w BlobProvider \<Rightarrow> BlobConfig \<Rightarrow> nat \<Rightarrow> (string \<Rightarrow> bool) \<Rightarrow> (string \<Rightarrow> bool) \<Rightarrow> ArgumentParser \<Rightarrow> 'w session \<Rightarrow>
    (int \<times> 'w session) option" where
  "PutCommand_Execute Pr cfg n exists is_dir p s =
     Option.bind (bool_arg p ''force'') (\<lambda>force. Option.bind (string_arg p ''source'') (\<lambda>source. Option.bind (string_arg p ''target'') (\<lambda>target0.
       Some (if \<not> exists source then fail_with NOT_FOUND s
       else if is_dir source then fail_with NOT_SUPPORTED s
       else let (target, a, e) = put_target Pr source target0 s
            in case Put Pr cfg n a target source force e of
                 (False, a1, e1) \<Rightarrow> fail_with (api_error a1) (upd a1 e1 s)
               | (True, a1, e1) \<Rightarrow> (0, upd a1 e1 s)))))"

text \<open>
  \<open>RmCommand::Delete\<close>; \<open>info\<close> is dereferenced without a check, which sets \<open>fault\<close>, and without fuel
  \<open>stuck\<close> is set. The exit code has no meaning when one of the flags is set.
\<close>

fun Rm_Delete :: "'w BlobProvider \<Rightarrow> nat \<Rightarrow> nat \<Rightarrow> string \<Rightarrow> bool \<Rightarrow> bool \<Rightarrow> 'w session \<Rightarrow> int \<times> 'w session"
  and Rm_children :: "'w BlobProvider \<Rightarrow> nat \<Rightarrow> nat \<Rightarrow> string \<Rightarrow> bool \<Rightarrow> bool \<Rightarrow> string list \<Rightarrow> 'w session \<Rightarrow> int \<times> 'w session" where
  "Rm_Delete Pr n 0 path recursive force s = (0, s\<lparr>world := (world s)\<lparr>stuck := True\<rparr>\<rparr>)"
| "Rm_Delete Pr n (Suc k) path recursive force s =
     (case Info Pr (g_api s) path (world s) of
        (None, a, e) \<Rightarrow> (0, upd a (e\<lparr>fault := True\<rparr>) s)
      | (Some x, a, e) \<Rightarrow>
          if e_type x = FOLDER \<and> \<not> recursive then fail_with REJECT_DELETE_FOLDER (upd a e s)
          else case Api_Delete Pr n a path e of
                 (True, a1, e1) \<Rightarrow> (0, upd a1 e1 s)
               | (False, a1, e1) \<Rightarrow>
                   if api_error a1 \<noteq> FOLDER_NOT_EMPTY \<or> \<not> force then fail_with (api_error a1) (upd a1 e1 s)
                   else let (children, a2, e2) = BlobApi.List Pr a1 path e1;
                            (rtn, s1) = Rm_children Pr n k path recursive force (map fst children) (upd a2 e2 s)
                        in if rtn \<noteq> 0 then (rtn, s1)
                           else case Api_Delete Pr n (g_api s1) path (world s1) of
                                  (True, a3, e3) \<Rightarrow> (0, upd a3 e3 s1)
                                | (False, a3, e3) \<Rightarrow> fail_with (api_error a3) (upd a3 e3 s1))"
| "Rm_children Pr n k path recursive force [] s = (0, s)"
| "Rm_children Pr n k path recursive force (child # children) s =
     (if child = ''.'' \<or> child = ''..'' then Rm_children Pr n k path recursive force children s
      else case Rm_Delete Pr n k (path @ ''/'' @ child) recursive force s of
             (rtn, s1) \<Rightarrow> if rtn \<noteq> 0 then (rtn, s1) else Rm_children Pr n k path recursive force children s1)"

fun rm_matched :: "'w BlobProvider \<Rightarrow> nat \<Rightarrow> nat \<Rightarrow> string \<Rightarrow> bool \<Rightarrow> bool \<Rightarrow> string list \<Rightarrow> 'w session \<Rightarrow> int \<times> 'w session" where
  "rm_matched Pr n k parentPath recursive force [] s = (0, s)"
| "rm_matched Pr n k parentPath recursive force (name # names) s =
     (case Rm_Delete Pr n k (parentPath @ ''/'' @ name) recursive force s of
        (rtn, s1) \<Rightarrow> if rtn \<noteq> 0 then (rtn, s1) else rm_matched Pr n k parentPath recursive force names s1)"

text \<open>The folder object \<open>parent\<close> goes out of scope at the end; it was not changed.\<close>

definition RmCommand_Execute :: "'w BlobProvider \<Rightarrow> nat \<Rightarrow> nat \<Rightarrow> ArgumentParser \<Rightarrow> 'w session \<Rightarrow> (int \<times> 'w session) option" where
  "RmCommand_Execute Pr n k p s =
     Option.bind (bool_arg p ''recursive'') (\<lambda>recursive. Option.bind (bool_arg p ''force'') (\<lambda>force. Option.bind (string_arg p ''target'') (\<lambda>target.
       let parts = SplitPath target
       in Some (case Api_GetParentFolder Pr (g_api s) parts (world s) of
            (None, e) \<Rightarrow> (0, s\<lparr>world := e\<rparr>)
          | (Some ref, e) \<Rightarrow>
              let joinedPath = (if parts \<noteq> [] then JoinPaths parts 0 (length parts - 1) else []);
                  parentPath = (if joinedPath = ''/'' then [] else joinedPath)
              in rm_matched Pr n k parentPath recursive force (Find (the_folder (g_api s) ref) (BaseName target)) (s\<lparr>world := e\<rparr>)))))"

section \<open>Running a command\<close>

datatype command = Cat | Get | Ls | MkdirC | Mv | PutC | Rm

definition command_name :: "command \<Rightarrow> string" where
  "command_name c = (case c of Cat \<Rightarrow> ''cat'' | Get \<Rightarrow> ''get'' | Ls \<Rightarrow> ''ls'' | MkdirC \<Rightarrow> ''mkdir'' | Mv \<Rightarrow> ''mv'' | PutC \<Rightarrow> ''put'' | Rm \<Rightarrow> ''rm'')"

definition command_new :: "command \<Rightarrow> ArgumentParser option" where
  "command_new c =
     (case c of Cat \<Rightarrow> CatCommand_new | Get \<Rightarrow> GetCommand_new | Ls \<Rightarrow> ListCommand_new | MkdirC \<Rightarrow> MkdirCommand_new | Mv \<Rightarrow> MvCommand_new
      | PutC \<Rightarrow> PutCommand_new | Rm \<Rightarrow> RmCommand_new)"

text \<open>What the system the tool runs on answers, and the fuel of the two recursions.\<close>

record 'w setting =
  st_provider :: "'w BlobProvider"
  st_config :: BlobConfig
  st_exists :: "string \<Rightarrow> bool"
  st_is_dir :: "string \<Rightarrow> bool"
  st_localtime :: "u32 \<Rightarrow> tm"
  st_depth :: nat
  st_fuel :: nat

definition run_command :: "'w setting \<Rightarrow> command \<Rightarrow> ArgumentParser \<Rightarrow> 'w session \<Rightarrow> (int \<times> 'w session) option" where
  "run_command S c p s =
     (let Pr = st_provider S; cfg = st_config S; n = st_depth S
      in case c of
           Cat \<Rightarrow> CatCommand_Execute Pr cfg p s
         | Get \<Rightarrow> GetCommand_Execute Pr cfg (st_is_dir S) p s
         | Ls \<Rightarrow> ListCommand_Execute Pr (st_localtime S) p s
         | MkdirC \<Rightarrow> MkdirCommand_Execute Pr cfg n p s
         | Mv \<Rightarrow> MvCommand_Execute Pr n p s
         | PutC \<Rightarrow> PutCommand_Execute Pr cfg n (st_exists S) (st_is_dir S) p s
         | Rm \<Rightarrow> RmCommand_Execute Pr n (st_fuel S) p s)"

definition Command_PrintUsage :: "string \<Rightarrow> string \<Rightarrow> ArgumentParser \<Rightarrow> string" where
  "Command_PrintUsage prefix name p =
     Parser_PrintUsage p (prefix @ (if name \<noteq> [] then (if prefix = [] then name else '' '' @ name) else []))"

definition Command_Execute :: "'w setting \<Rightarrow> string \<Rightarrow> command \<Rightarrow> string list \<Rightarrow> 'w session \<Rightarrow> (int \<times> 'w session) option" where
  "Command_Execute S prefix c argv s =
     Option.bind (command_new c) (\<lambda>p.
       case Parse argv p of
         (False, p1) \<Rightarrow> Some (-1, say (Command_PrintUsage prefix (command_name c) p1) (complain (''Invalid arguments.'' @ [CHR 0x0A, CHR 0x0A]) s))
       | (True, p1) \<Rightarrow> run_command S c p1 s)"

definition tool_usage :: "string \<Rightarrow> string" where
  "tool_usage prefix =
     ''Usage: '' @ prefix @ '' <action>'' @ [CHR 0x0A, CHR 0x0A] @ ''Actions:'' @ [CHR 0x0A] @
     concat (map (\<lambda>(name, text). ''  '' @ name @ [CHR 0x09, CHR 0x09, CHR 0x09] @ text @ [CHR 0x0A])
       [(''cat'', ''Show file content.''), (''get'', ''Download file.''), (''ls'', ''List files or directories.''), (''mkdir'', ''Create directory.''),
        (''mv'', ''Move file or directory.''), (''rm'', ''Delete files or directories.''), (''put'', ''Upload file.'')])"

definition dispatch :: "'w setting \<Rightarrow> string list \<Rightarrow> 'w session \<Rightarrow> (int \<times> 'w session) option" where
  "dispatch S argv s =
     (case find (\<lambda>c. command_name c = argv ! 1) [Cat, Get, Ls, MkdirC, Mv, PutC, Rm] of
        None \<Rightarrow> Some (-1, s)
      | Some c \<Rightarrow> Command_Execute S (argv ! 0) c (drop 1 argv) s)"

text \<open>
  \<open>main\<close> from the creation of the provider on. What \<open>Initialize\<close> returns is not looked at. The
  file of the blob map may be impossible to open or limited in size.
\<close>

definition tool_main :: "'w setting \<Rightarrow> bool \<Rightarrow> nat \<Rightarrow> string list \<Rightarrow> 'w blob_env \<Rightarrow> (int \<times> 'w session) option" where
  "tool_main S map_open map_limit argv e =
     (if length argv < 2
      then Some (-1, \<lparr>g_api = \<lparr>api_root = None, api_error = SUCCESS\<rparr>, world = e, printed = tool_usage (argv ! 0), complaints = []\<rparr>)
      else let (_, e1) = InitializeBlobMap map_open map_limit ''blob.cache'' e;
               e2 = BlobConfig_Initialize e1;
               (_, a, e3) = Initialize (st_provider S) (st_config S) (st_depth S) (root_id e2) e2
           in map_option (\<lambda>(rc, s). (rc, if rc = -1 then say (tool_usage (argv ! 0)) s else s))
                (dispatch S argv \<lparr>g_api = a, world = e3, printed = [], complaints = []\<rparr>))"

section \<open>The arguments have their types\<close>

lemma register_all_ok:
  assumes "register_all rs = Some q" and "\<forall>r \<in> set rs. \<forall>p q. parser_ok p \<longrightarrow> r p = Some q \<longrightarrow> parser_ok q"
  shows "parser_ok q"
proof -
  have "\<forall>p. op = Some p \<longrightarrow> parser_ok p \<Longrightarrow> fold (\<lambda>r p. Option.bind p r) rs op = Some q \<Longrightarrow> parser_ok q" for op
    using assms(2)
  proof (induction rs arbitrary: op)
    case (Cons r rs)
    have "\<forall>p. Option.bind op r = Some p \<longrightarrow> parser_ok p" using Cons(2,4) by (cases op) (simp, metis bind.bind_lunit list.set_intros(1))
    moreover have "\<forall>r \<in> set rs. \<forall>p q. parser_ok p \<longrightarrow> r p = Some q \<longrightarrow> parser_ok q" using Cons(4) by (meson list.set_intros(2))
    moreover have "fold (\<lambda>r p. Option.bind p r) rs (Option.bind op r) = Some q" using Cons(3) by (simp only: fold_simps)
    ultimately show ?case by (blast intro: Cons(1))
  qed simp
  from this [of "Some ArgumentParser_new"] assms(1) parser_ok_new show ?thesis by simp
qed

lemmas parser_news = CatCommand_new_def GetCommand_new_def ListCommand_new_def MkdirCommand_new_def MvCommand_new_def PutCommand_new_def
  RmCommand_new_def

definition string_args :: "command \<Rightarrow> string list" where
  "string_args c =
     (case c of Cat \<Rightarrow> [''path''] | Ls \<Rightarrow> [''path''] | MkdirC \<Rightarrow> [''target''] | Mv \<Rightarrow> [''source'', ''destination''] | Rm \<Rightarrow> [''target'']
      | _ \<Rightarrow> [''source'', ''target''])"

definition bool_args :: "command \<Rightarrow> string list" where
  "bool_args c = (case c of Cat \<Rightarrow> [] | Ls \<Rightarrow> [''list'', ''all''] | MkdirC \<Rightarrow> [''recursive''] | Rm \<Rightarrow> [''recursive'', ''force''] | _ \<Rightarrow> [''force''])"

lemma command_new_some: "\<exists>p. command_new c = Some p"
  by (cases c) (simp_all add: command_new_def parser_news Register_def ArgumentParser_new_def)

lemma command_new_ok: "command_new c = Some p \<Longrightarrow> parser_ok p"
  unfolding command_new_def parser_news
  by (cases c; simp only: command.case; erule register_all_ok; simp only: list.set ball_simps simp_thms insert_iff; intro conjI allI impI;
      erule (1) parser_ok_Register)

lemma command_new_types:
  "command_new c = Some p \<Longrightarrow> name \<in> set (string_args c) \<Longrightarrow> type_named p name = Some STRING"
  "command_new c = Some p \<Longrightarrow> name \<in> set (bool_args c) \<Longrightarrow> type_named p name = Some BOOLEAN"
  by (cases c; auto simp: command_new_def parser_news Register_def ArgumentParser_new_def string_args_def bool_args_def type_named_def type_of_def)+

lemma typed_args:
  assumes "parser_ok q" and "same_shape p q"
  shows "type_named p name = Some STRING \<Longrightarrow> string_arg q name \<noteq> None"
    and "type_named p name = Some BOOLEAN \<Longrightarrow> bool_arg q name \<noteq> None"
proof -
  have f: "map_option frame (map_find (args q) name) = map_option frame (map_find (args p) name)" using assms(2) by (simp add: same_shape_def)
  have w: "type_of (arg_value x) = arg_type x" if "map_find (args q) name = Some x" for x
    using assms(1) map_of_SomeD [of "args q" name x] that by (auto simp: parser_ok_def well_typed_def map_find_map_of)
  have x: "\<exists>x. map_find (args q) name = Some x \<and> type_of (arg_value x) = ty" if t: "type_named p name = Some ty" for ty
  proof -
    obtain y where "map_find (args p) name = Some y" "arg_type y = ty" using t by (auto simp: type_named_def)
    with f obtain x where "map_find (args q) name = Some x" "arg_type x = ty" by (auto simp: frame_def)
    with w show ?thesis by auto
  qed
  show "string_arg q name \<noteq> None" if t: "type_named p name = Some STRING"
  proof -
    obtain x where "map_find (args q) name = Some x" "type_of (arg_value x) = STRING" using x [OF t] by blast
    then show ?thesis by (cases "arg_value x") (simp_all add: string_arg_def GetArgument_def AsString_def type_of_def)
  qed
  show "bool_arg q name \<noteq> None" if t: "type_named p name = Some BOOLEAN"
  proof -
    obtain x where "map_find (args q) name = Some x" "type_of (arg_value x) = BOOLEAN" using x [OF t] by blast
    then show ?thesis by (cases "arg_value x") (simp_all add: bool_arg_def GetArgument_def AsBoolean_def type_of_def)
  qed
qed

lemmas execute_defs = CatCommand_Execute_def GetCommand_Execute_def ListCommand_Execute_def MkdirCommand_Execute_def MvCommand_Execute_def
  PutCommand_Execute_def RmCommand_Execute_def

lemma run_command_some:
  assumes "list_all (\<lambda>name. string_arg q name \<noteq> None) (string_args c)" and "list_all (\<lambda>name. bool_arg q name \<noteq> None) (bool_args c)"
  shows "\<exists>r. run_command S c q s = Some r"
  using assms
  by (cases c) (auto simp: run_command_def execute_defs string_args_def bool_args_def Let_def split_beta simp del: split_paired_Ex)

section \<open>Exit codes and messages\<close>

text \<open>A result that tells: the exit code is not zero exactly when there is a message.\<close>

definition tells :: "'w session \<Rightarrow> int \<times> 'w session \<Rightarrow> bool" where
  "tells s r \<longleftrightarrow> (fst r \<noteq> 0 \<longleftrightarrow> complaints (snd r) \<noteq> complaints s)"

lemma upd_simps [simp]: "complaints (upd a e s) = complaints s" "g_api (upd a e s) = a" "world (upd a e s) = e" "printed (upd a e s) = printed s"
  by (simp_all add: upd_def)

lemma say_simps [simp]: "complaints (say t s) = complaints s" "g_api (say t s) = g_api s" "world (say t s) = world s" "printed (say t s) = printed s @ t"
  by (simp_all add: say_def)

lemma error_code_0 [simp]: "error_code err = 0 \<longleftrightarrow> err = SUCCESS"
  by (cases err) (simp_all add: error_code_def)

lemma tells_fail: "err \<noteq> SUCCESS \<Longrightarrow> complaints s1 = complaints s \<Longrightarrow> tells s (fail_with err s1)"
  by (simp add: tells_def fail_with_def complain_def)

lemma tells_done: "complaints s1 = complaints s \<Longrightarrow> tells s (0, s1)"
  by (simp add: tells_def)

lemma cat_loop_quiet: "complaints (cat_loop Pr cfg path offset s) = complaints s"
proof (induction Pr cfg path offset s rule: cat_loop.induct)
  case (1 Pr cfg path offset s)
  then show ?case by (subst cat_loop.simps) (auto split: prod.splits)
qed

lemma tells_trans: "fst r1 = 0 \<Longrightarrow> tells s r1 \<Longrightarrow> tells (snd r1) r \<Longrightarrow> tells s r"
  by (simp add: tells_def)

lemma tells_mkdir_loop: "tells s (mkdir_loop Pr cfg n path parts s)"
proof (induction Pr cfg n path parts s rule: mkdir_loop.induct)
  case (2 Pr cfg n path part parts s)
  obtain ok a e where m: "Mkdir Pr cfg n (g_api s) (path @ ''/'' @ part) (world s) = (ok, a, e)" by (metis prod.exhaust)
  show ?case
  proof (cases "\<not> ok \<and> api_error a \<noteq> ALREADY_EXIST")
    case True
    with m Mkdir_failing have "api_error a \<noteq> SUCCESS" by metis
    with True m show ?thesis by (simp add: tells_fail)
  next
    case False
    with 2 [OF refl m [symmetric] refl] m show ?thesis by (auto simp: tells_def)
  qed
qed (simp add: tells_done)

lemma tells_next: "tells s (rc, s1) \<Longrightarrow> (rc = 0 \<Longrightarrow> tells s1 r) \<Longrightarrow> tells s (if rc \<noteq> 0 then (rc, s1) else r)"
  by (simp add: tells_def)

lemma tells_children:
  assumes "\<And>path s. tells s (Rm_Delete Pr n k path recursive force s)"
  shows "tells s (Rm_children Pr n k path recursive force children s)"
proof (induction children arbitrary: s)
  case (Cons child children)
  obtain rc s1 where r: "Rm_Delete Pr n k (path @ ''/'' @ child) recursive force s = (rc, s1)" by (rule prod.exhaust)
  with assms have "tells s (rc, s1)" by metis
  then have "tells s (if rc \<noteq> 0 then (rc, s1) else Rm_children Pr n k path recursive force children s1)" by (rule tells_next) (rule Cons)
  with Cons r show ?case by simp
qed (simp add: tells_done)

lemma tells_Rm: "tells s (Rm_Delete Pr n k path recursive force s)"
proof (induction k arbitrary: path s)
  case (Suc k)
  obtain i a e where i: "Info Pr (g_api s) path (world s) = (i, a, e)" by (metis prod.exhaust)
  obtain ok a1 e1 where d: "Api_Delete Pr n a path e = (ok, a1, e1)" by (metis prod.exhaust)
  obtain ch a2 e2 where l: "BlobApi.List Pr a1 path e1 = (ch, a2, e2)" by (metis prod.exhaust)
  obtain rc s1 where r: "Rm_children Pr n k path recursive force (map fst ch) (upd a2 e2 s) = (rc, s1)" by (metis prod.exhaust)
  obtain ok2 a3 e3 where d2: "Api_Delete Pr n (g_api s1) path (world s1) = (ok2, a3, e3)" by (metis prod.exhaust)
  have f: "\<not> ok \<Longrightarrow> api_error a1 \<noteq> SUCCESS" "\<not> ok2 \<Longrightarrow> api_error a3 \<noteq> SUCCESS" using d d2 Delete_failing by metis+
  have "tells (upd a2 e2 s) (rc, s1)" using tells_children [OF Suc, where s = "upd a2 e2 s"] r by metis
  then have c: "tells s (rc, s1)" by (simp add: tells_def)
  have "tells s1 (if ok2 then (0, upd a3 e3 s1) else fail_with (api_error a3) (upd a3 e3 s1))" using f(2) by (simp add: tells_done tells_fail)
  note last = tells_next [OF c this]
  show ?case
  proof (cases i)
    case None
    with i show ?thesis by (simp add: tells_done)
  next
    case (Some x)
    with i d l r d2 f(1) last show ?thesis
      by (cases ok; cases ok2; cases force) (auto simp: tells_done tells_fail split: if_splits)
  qed
qed (simp add: tells_done)

lemma tells_rm_matched: "tells s (rm_matched Pr n k parentPath recursive force names s)"
proof (induction names arbitrary: s)
  case (Cons name names)
  obtain rc s1 where r: "Rm_Delete Pr n k (parentPath @ ''/'' @ name) recursive force s = (rc, s1)" by (rule prod.exhaust)
  with tells_Rm have "tells s (rc, s1)" by metis
  then have "tells s (if rc \<noteq> 0 then (rc, s1) else rm_matched Pr n k parentPath recursive force names s1)" by (rule tells_next) (rule Cons)
  with r show ?case by simp
qed (simp add: tells_done)

lemma List_told: "BlobApi.List Pr a path e = (result, a', e') \<Longrightarrow> api_error a' \<noteq> SUCCESS \<Longrightarrow> tells s (fail_with (api_error a') (upd a' e' s))"
  by (simp add: tells_fail)

lemma run_command_tells:
  assumes "run_command S c p s = Some r" and "c \<noteq> PutC"
  shows "tells s r"
proof (cases c)
  case Cat
  with assms(1) obtain path where "r = (let s1 = cat_loop (st_provider S) (st_config S) path 0 s
      in if api_error (g_api s1) \<noteq> SUCCESS then fail_with (api_error (g_api s1)) s1 else (0, s1))"
    by (auto simp: run_command_def CatCommand_Execute_def Let_def bind_eq_Some_conv)
  then show ?thesis by (simp add: Let_def tells_fail tells_done cat_loop_quiet)
next
  case Get
  with assms(1) show ?thesis
    by (auto simp: run_command_def GetCommand_Execute_def Let_def bind_eq_Some_conv intro!: tells_fail tells_done dest: failing
        split: if_splits prod.splits option.splits bool.splits)
next
  case Ls
  with assms(1) show ?thesis
    by (auto simp: run_command_def ListCommand_Execute_def Let_def bind_eq_Some_conv intro!: tells_fail tells_done split: if_splits prod.splits)
next
  case MkdirC
  have loop: "tells s (mkdir_loop Pr cfg n path parts (upd a e s))" for Pr cfg n path parts a e
    using tells_mkdir_loop [of "upd a e s" Pr cfg n path parts] by (simp add: tells_def)
  obtain recursive target where t: "bool_arg p ''recursive'' = Some recursive" "string_arg p ''target'' = Some target"
    using MkdirC assms(1) by (auto simp: run_command_def MkdirCommand_Execute_def Let_def bind_eq_Some_conv)
  obtain ok a e where m: "Mkdir (st_provider S) (st_config S) (st_depth S) (g_api s) target (world s) = (ok, a, e)" by (metis prod.exhaust)
  show ?thesis
  proof (cases ok)
    case True
    with MkdirC assms(1) t m show ?thesis by (auto simp: run_command_def MkdirCommand_Execute_def Let_def tells_done)
  next
    case False
    with m Mkdir_failing have "api_error a \<noteq> SUCCESS" by metis
    with False MkdirC assms(1) t m loop show ?thesis
      by (auto simp: run_command_def MkdirCommand_Execute_def Let_def intro: tells_fail split: if_splits)
  qed
next
  case Mv
  obtain force source target where t: "bool_arg p ''force'' = Some force" "string_arg p ''source'' = Some source" "string_arg p ''destination'' = Some target"
    using Mv assms(1) by (auto simp: run_command_def MvCommand_Execute_def Let_def bind_eq_Some_conv)
  obtain ok a e where m: "Move (st_provider S) (st_depth S) (g_api s) source target force (world s) = (ok, a, e)" by (metis prod.exhaust)
  with Mv assms(1) t show ?thesis
    by (cases ok) (auto simp: run_command_def MvCommand_Execute_def Let_def intro!: tells_fail tells_done dest: Move_failing)
next
  case Rm
  have m: "tells s (rm_matched Pr n k path recursive force names (s\<lparr>world := e\<rparr>))" for Pr n k path recursive force names e
    using tells_rm_matched [of "s\<lparr>world := e\<rparr>" Pr n k path recursive force names] by (simp add: tells_def)
  obtain recursive force target where t: "bool_arg p ''recursive'' = Some recursive" "bool_arg p ''force'' = Some force" "string_arg p ''target'' = Some target"
    using Rm assms(1) by (auto simp: run_command_def RmCommand_Execute_def Let_def bind_eq_Some_conv)
  obtain ref e where "Api_GetParentFolder (st_provider S) (g_api s) (SplitPath target) (world s) = (ref, e)" by (rule prod.exhaust)
  with Rm assms(1) t m show ?thesis by (cases ref) (auto simp: run_command_def RmCommand_Execute_def Let_def intro!: tells_done)
qed (use assms in simp)

text \<open>The source is a file for \<open>stat\<close>, but it cannot be opened when \<open>Put\<close> comes to it.\<close>

definition put_unopened :: "'w setting \<Rightarrow> ArgumentParser \<Rightarrow> 'w session \<Rightarrow> bool" where
  "put_unopened S q s \<longleftrightarrow>
     (case (string_arg q ''source'', string_arg q ''target'') of
        (Some source, Some target0) \<Rightarrow>
          (case put_target (st_provider S) source target0 s of
             (target, a, e) \<Rightarrow>
               (case ParsePutTarget (st_provider S) (set_error SUCCESS a) target source e of
                  (_, _, _, _, e1) \<Rightarrow> st_exists S source \<and> \<not> st_is_dir S source \<and> local_files e1 source = None))
      | _ \<Rightarrow> False)"

lemma Put_tells:
  assumes "run_command S PutC q s = Some (rc, s')" and "\<not> fault (world s')"
  shows "tells s (rc, s') \<or> rc = 0 \<and> complaints s' = complaints s @ ''Success.'' @ [CHR 0x0A] \<and> put_unopened S q s"
proof -
  obtain force source target0 where t: "bool_arg q ''force'' = Some force" "string_arg q ''source'' = Some source" "string_arg q ''target'' = Some target0"
    using assms(1) by (auto simp: run_command_def PutCommand_Execute_def Let_def bind_eq_Some_conv)
  obtain target a e where pt: "put_target (st_provider S) source target0 s = (target, a, e)" by (metis prod.exhaust)
  obtain ok a1 e1 where p: "Put (st_provider S) (st_config S) (st_depth S) a target source force e = (ok, a1, e1)" by (metis prod.exhaust)
  obtain pok oref nm a2 e2 where pp: "ParsePutTarget (st_provider S) (set_error SUCCESS a) target source e = (pok, oref, nm, a2, e2)" by (metis prod.exhaust)
  have r: "(rc, s') = (if \<not> st_exists S source then fail_with NOT_FOUND s else if st_is_dir S source then fail_with NOT_SUPPORTED s
      else if ok then (0, upd a1 e1 s) else fail_with (api_error a1) (upd a1 e1 s))"
    using assms(1) t pt p by (auto simp: run_command_def PutCommand_Execute_def Let_def split: bool.splits)
  show ?thesis
  proof (cases "st_exists S source \<and> \<not> st_is_dir S source \<and> \<not> ok \<and> api_error a1 = SUCCESS")
    case True
    then have s': "rc = 0" "s' = complain (''Success.'' @ [CHR 0x0A]) (upd a1 e1 s)" using r by (simp_all add: fail_with_def BlobErrorToString_def)
    then have "local_files e2 source = None" using True Put_silent [OF _ _ _ pp, of "st_config S" "st_depth S" force a1 e1] p assms(2) by (simp add: complain_def)
    then show ?thesis using True s' t pt pp by (simp add: put_unopened_def complain_def)
  next
    case False
    then have "tells s (rc, s')" unfolding r by (auto intro: tells_fail tells_done)
    then show ?thesis ..
  qed
qed

section \<open>Showing a file\<close>

lemma Get_range_holds_file:
  assumes "holds_file a path content e" and "bs > 0"
  shows "Get_range FileBlobProvider a path off bs e =
    (if off < length content then (True, peek off (min bs (length content - off)) content, min bs (length content - off), set_error SUCCESS a, e)
     else (True, [], 0, set_error SUCCESS a, e))"
proof -
  obtain x b where i: "Info FileBlobProvider a path e = (Some x, set_error SUCCESS a, e)" "e_type x = FILE" "unat (e_size x) = length content"
    and o: "File_OpenBlob (e_id x) e = (Some b, e)" "file_ok b e" and c: "take (length content) (file_content b e) = content"
    using assms(1) unfolding holds_file_def by blast
  have i': "Info FileBlobProvider (set_error SUCCESS a) path e = (Some x, set_error SUCCESS a, e)" using i(1) by (simp add: Info_def set_error_def)
  have l: "length (file_content b e) = blob_size b" using o(2) by (auto simp: file_ok_def file_content_def)
  have lc: "length content \<le> blob_size b" using c l by (metis length_take min.absorb_iff2)
  have p: "peek off k (file_content b e) = peek off k content" if "off + k \<le> length content" for k
    using that by (subst c [symmetric]) (simp add: peek_def drop_take min_def)
  show ?thesis
  proof (cases "off < length content")
    case True
    let ?k = "min bs (length content - off)"
    have "min ?k (blob_size b - off) = ?k" using lc by auto
    then have "FileBlob_Read b off ?k e = (peek off ?k content, e)"
      using FileBlob_Read_ok [OF o(2), of off ?k] True lc p [of ?k] by simp
    with True i' i o assms(2) show ?thesis by (simp add: Get_range_def provider_methods Let_def)
  next
    case False
    with i' i o assms(2) show ?thesis by (simp add: Get_range_def provider_methods Let_def)
  qed
qed

lemma holds_file_set_error: "holds_file (set_error err a) path content e = holds_file a path content e"
  by (simp add: holds_file_def Info_def set_error_def)

lemma c_str_bytes: "0 \<notin> set bs \<Longrightarrow> c_str (map char_of_byte bs) = map char_of_byte bs"
proof -
  assume "0 \<notin> set bs"
  moreover have "byte_of_char (CHR 0x00) = 0" by (simp add: byte_of_char_def)
  then have "char_of_byte b = CHR 0x00 \<Longrightarrow> b = 0" for b by (metis byte_of_char_of_byte)
  ultimately show ?thesis unfolding c_str_def takeWhile_eq_all_conv by auto
qed

lemma cat_loop_prints:
  assumes "holds_file (g_api s) path content (world s)" and "cfg_blockSize cfg > 0" and "0 \<notin> set content"
  shows "\<exists>a. cat_loop FileBlobProvider cfg path off s = say (map char_of_byte (drop off content)) (upd a (world s) s) \<and> api_error a = SUCCESS"
  using assms(1)
proof (induction "length content - off" arbitrary: off s rule: less_induct)
  case less
  note g = Get_range_holds_file [OF less(2) assms(2), of off]
  let ?a = "set_error SUCCESS (g_api s)" and ?k = "min (cfg_blockSize cfg) (length content - off)"
  show ?case
  proof (cases "off < length content")
    case False
    then have "cat_loop FileBlobProvider cfg path off s = upd ?a (world s) s" by (subst cat_loop.simps) (simp add: g)
    with False show ?thesis by (intro exI [of _ ?a]) (simp add: say_def upd_def set_error_def)
  next
    case True
    let ?s = "say (map char_of_byte (peek off ?k content)) (upd ?a (world s) s)"
    have k: "?k > 0" using True assms(2) by simp
    have "0 \<notin> set (peek off ?k content)" using assms(3) by (auto simp: peek_def dest: in_set_takeD in_set_dropD)
    with True k have c: "cat_loop FileBlobProvider cfg path off s = cat_loop FileBlobProvider cfg path (off + ?k) ?s"
      by (subst cat_loop.simps) (simp add: g c_str_bytes)
    have lt: "length content - (off + ?k) < length content - off" using True k by linarith
    have "holds_file (g_api ?s) path content (world ?s)" using less(2) by (simp add: holds_file_set_error)
    then obtain a where "cat_loop FileBlobProvider cfg path (off + ?k) ?s = say (map char_of_byte (drop (off + ?k) content)) (upd a (world ?s) ?s)"
      and a: "api_error a = SUCCESS" using less(1) [OF lt] by blast
    moreover have "peek off ?k content @ drop (off + ?k) content = drop off content"
      by (simp add: peek_def flip: drop_drop) (metis add.commute append_take_drop_id drop_drop)
    ultimately have "cat_loop FileBlobProvider cfg path off s = say (map char_of_byte (drop off content)) (upd a (world s) s)"
      using c by (simp add: say_def upd_def flip: map_append)
    with a show ?thesis by blast
  qed
qed

section \<open>Command lines of positional arguments\<close>

lemma run_positions:
  assumes "command_new c = Some p" and "\<forall>w \<in> set ws. w = [] \<or> hd w \<noteq> CHR ''-''" and "length ws \<le> length (anonymouse p)"
    and "\<forall>name x. map_find (args p) name = Some x \<longrightarrow> arg_required x \<longrightarrow> name \<in> fst ` set (settings p 0 (map Position ws))"
  shows "\<exists>q. Command_Execute S prefix c (cmd # ws) s = run_command S c q s \<and>
    (\<forall>name. map_find (args q) name = map_option (argument_after (settings p 0 (map Position ws)) name) (map_find (args p) name))"
proof -
  have r: "concat (map render (map Position ws)) = ws" by (induction ws) auto
  obtain b q where q: "Parse (cmd # concat (map render (map Position ws))) p = (b, q)" by (rule prod.exhaust)
  have ok: "\<forall>x \<in> set (map Position ws). item_ok p x" using assms(2) by auto
  have n: "length (filter (\<lambda>x. \<exists>s. x = Position s) (map Position ws)) \<le> length (anonymouse p)" using assms(3) by (simp add: filter_map comp_def)
  note i = Parse_items [OF command_new_ok [OF assms(1)] ok n q]
  then have b using assms(4) by blast
  with i(1) q assms(1) show ?thesis unfolding r by (auto simp: Command_Execute_def)
qed

lemma put_arguments:
  assumes "source = [] \<or> hd source \<noteq> CHR ''-''" and "path = [] \<or> hd path \<noteq> CHR ''-''"
  shows "\<exists>q. Command_Execute S prefix PutC [''put'', source, path] s = run_command S PutC q s \<and>
    bool_arg q ''force'' = Some False \<and> string_arg q ''source'' = Some source \<and> string_arg q ''target'' = Some path"
proof -
  obtain p where c: "command_new PutC = Some p" using command_new_some by blast
  have p: "anonymouse p = [''source'', ''target'']" "\<forall>name x. map_find (args p) name = Some x \<longrightarrow> arg_required x \<longrightarrow> name = ''source''"
    "map_option arg_type (map_find (args p) ''source'') = Some STRING" "map_option arg_type (map_find (args p) ''target'') = Some STRING"
    "map_option arg_value (map_find (args p) ''force'') = Some (VBool False)"
    using c by (auto simp: command_new_def parser_news Register_def ArgumentParser_new_def type_of_def split: if_splits)
  have st: "settings p 0 (map Position [source, path]) = [(''source'', source), (''target'', path)]" using p(1) by simp
  obtain q where q: "Command_Execute S prefix PutC [''put'', source, path] s = run_command S PutC q s"
    and f: "\<forall>name. map_find (args q) name = map_option (argument_after [(''source'', source), (''target'', path)] name) (map_find (args p) name)"
    using run_positions [OF c, of "[source, path]" S prefix "''put''" s] assms p(1,2) unfolding st by auto
  have "bool_arg q ''force'' = Some False \<and> string_arg q ''source'' = Some source \<and> string_arg q ''target'' = Some path"
    using p(3-5) by (auto simp: string_arg_def bool_arg_def GetArgument_def f argument_after_def Argument_SetValue_def AsString_def AsBoolean_def value_for_def)
  with q show ?thesis by blast
qed

lemma cat_arguments:
  assumes "path = [] \<or> hd path \<noteq> CHR ''-''"
  shows "\<exists>q. Command_Execute S prefix Cat [''cat'', path] s = run_command S Cat q s \<and> string_arg q ''path'' = Some path"
proof -
  obtain p where c: "command_new Cat = Some p" using command_new_some by blast
  have p: "anonymouse p = [''path'']" "\<forall>name x. map_find (args p) name = Some x \<longrightarrow> name = ''path''"
    "map_option arg_type (map_find (args p) ''path'') = Some STRING"
    using c by (auto simp: command_new_def parser_news Register_def ArgumentParser_new_def type_of_def split: if_splits)
  have st: "settings p 0 (map Position [path]) = [(''path'', path)]" using p(1) by simp
  obtain q where q: "Command_Execute S prefix Cat [''cat'', path] s = run_command S Cat q s"
    and f: "\<forall>name. map_find (args q) name = map_option (argument_after [(''path'', path)] name) (map_find (args p) name)"
    using run_positions [OF c, of "[path]" S prefix "''cat''" s] assms p(1,2) unfolding st by auto
  have "string_arg q ''path'' = Some path"
    using p(3) by (auto simp: string_arg_def GetArgument_def f argument_after_def Argument_SetValue_def AsString_def value_for_def)
  with q show ?thesis by blast
qed

section \<open>Runs of the tool\<close>

lemma put_runs:
  assumes "st_provider S = FileBlobProvider" and "st_exists S source" and "\<not> st_is_dir S source"
    and "source = [] \<or> hd source \<noteq> CHR ''-''" and "path \<noteq> [] \<and> hd path \<noteq> CHR ''-''"
    and "api_root (g_api s) = Some R" and "SplitPath path = [name]" and "map_find (entries R) name = None"
    and "Put FileBlobProvider (st_config S) (st_depth S) (set_error NOT_FOUND (g_api s)) path source False (world s) = (True, a1, e1)"
  shows "Command_Execute S prefix PutC [''put'', source, path] s = Some (0, upd a1 e1 s)"
proof -
  obtain q where q: "Command_Execute S prefix PutC [''put'', source, path] s = run_command S PutC q s"
    and args: "bool_arg q ''force'' = Some False" "string_arg q ''source'' = Some source" "string_arg q ''target'' = Some path"
    using put_arguments [of source path S prefix s] assms(4,5) by blast
  have "Info FileBlobProvider (g_api s) path (world s) = (None, set_error NOT_FOUND (g_api s), world s)"
    using assms(6-8) by (simp add: Info_def Api_GetParentFolder_def the_folder_def set_error_def Let_def)
  with assms(1-3,5,9) args show ?thesis by (simp add: q run_command_def PutCommand_Execute_def put_target_def Let_def)
qed

lemma cat_runs:
  assumes "st_provider S = FileBlobProvider" and "path \<noteq> [] \<and> hd path \<noteq> CHR ''-''" and "holds_file (g_api s) path content (world s)"
    and "cfg_blockSize (st_config S) > 0" and "0 \<notin> set content"
  shows "\<exists>a. Command_Execute S prefix Cat [''cat'', path] s = Some (0, say (map char_of_byte content) (upd a (world s) s))"
proof -
  obtain r where r: "Command_Execute S prefix Cat [''cat'', path] s = run_command S Cat r s" "string_arg r ''path'' = Some path"
    using cat_arguments [of path S prefix s] assms(2) by blast
  obtain a where "cat_loop FileBlobProvider (st_config S) path 0 s = say (map char_of_byte content) (upd a (world s) s)" "api_error a = SUCCESS"
    using cat_loop_prints [OF assms(3-5), of 0] by auto
  with r assms(1) show ?thesis by (auto simp: run_command_def CatCommand_Execute_def Let_def)
qed

text \<open>A process that finds a stored root folder runs its command on that folder.\<close>

lemma tool_main_stored:
  assumes "st_provider S = FileBlobProvider" and "root_stored R e" and "\<not> modified R"
    and "metadata_bytes R + Metadata_GetSerializedSize (e_metadata (dot R)) + k \<le> limit"
  obtains e3 where "steady R e3" and "\<exists>bm. e3 = e\<lparr>root_id := e_id (dot R), blobMap := Some bm\<rparr> \<and> map_inv bm \<and> k \<le> map_room bm"
    and "\<forall>c ws. tool_main S True limit (prog # command_name c # ws) e =
      map_option (\<lambda>(rc, s). (rc, if rc = -1 then say (tool_usage prog) s else s))
        (Command_Execute S prog c (command_name c # ws)
           \<lparr>g_api = \<lparr>api_root = Some R, api_error = SUCCESS\<rparr>, world = e3, printed = [], complaints = []\<rparr>)"
proof -
  obtain bm where i: "Initialize FileBlobProvider (st_config S) (st_depth S) (root_id (BlobConfig_Initialize (snd (InitializeBlobMap True limit ''blob.cache'' e))))
      (BlobConfig_Initialize (snd (InitializeBlobMap True limit ''blob.cache'' e))) =
      (True, \<lparr>api_root = Some R, api_error = SUCCESS\<rparr>, e\<lparr>root_id := e_id (dot R), blobMap := Some bm\<rparr>)"
    and s: "steady R (e\<lparr>root_id := e_id (dot R), blobMap := Some bm\<rparr>)" and m: "map_inv bm" "k \<le> map_room bm"
    by (rule startup [OF assms(2-4), of "st_config S" "st_depth S"])
  have "find (\<lambda>c'. command_name c' = command_name c) [Cat, Get, Ls, MkdirC, Mv, PutC, Rm] = Some c" for c
    by (cases c) (simp_all add: command_name_def)
  then show ?thesis using i assms(1) by (intro that [OF s]) (auto simp: m tool_main_def dispatch_def split_beta Let_def cong: if_cong)
qed

section \<open>A concrete session\<close>

definition demo_setting :: "dir setting" where
  "demo_setting = \<lparr>st_provider = FileBlobProvider, st_config = demo_config, st_exists = (\<lambda>_. True), st_is_dir = (\<lambda>_. False), st_localtime = (\<lambda>_. (100, 0, 1, 0, 0, 0)),
     st_depth = 2, st_fuel = 2\<rparr>"

definition demo_session :: "dir session" where
  "demo_session = \<lparr>g_api = demo_api, world = demo_tree, printed = [], complaints = []\<rparr>"

text \<open>The same directory with the files of \<open>BlobConfig\<close>, before a process starts.\<close>

definition demo_start :: "dir blob_env" where
  "demo_start = demo_tree\<lparr>blobMap := None, root_id := [], root_file := Some ''r'', root_metadata := Some (enc_metadata (demo_metadata 400))\<rparr>"

section \<open>Properties\<close>

text \<open>
  C17. No command line makes a command fail an assertion: whatever words are given, registering the
  arguments succeeds, every value the parser stores has the type its argument was registered with,
  and the command reads its arguments through the conversions of those types.
\<close>

theorem Command_Execute_typed: "\<exists>rc s'. Command_Execute S prefix c argv s = Some (rc, s')"
proof -
  obtain p where p: "command_new c = Some p" using command_new_some by blast
  obtain b q where q: "Parse argv p = (b, q)" by (rule prod.exhaust)
  note k = Parse_ok [OF command_new_ok [OF p] q]
  then have "\<exists>r. run_command S c q s = Some r"
    using typed_args [of q p] command_new_types [OF p] by (intro run_command_some) (simp_all only: list_all_iff, blast+)
  then show ?thesis using p q by (cases b) (auto simp: Command_Execute_def)
qed

text \<open>
  C18. The exit code of a command tells whether it complained: in a run that neither crashes nor is
  cut off for want of fuel, a code other than zero comes with a message, and a message comes with a
  code other than zero. The one exception is a \<open>put\<close> whose source is there and not a directory but
  cannot be opened: it prints \<open>Success.\<close> as its message and exits with zero.
\<close>

theorem exit_code_tells:
  assumes "Command_Execute S prefix c argv s = Some (rc, s')" and "\<not> fault (world s')" and "\<not> stuck (world s')"
  shows "(rc \<noteq> 0 \<longleftrightarrow> complaints s' \<noteq> complaints s) \<or>
    (\<exists>p q. c = PutC \<and> PutCommand_new = Some p \<and> Parse argv p = (True, q) \<and> put_unopened S q s \<and>
       rc = 0 \<and> complaints s' = complaints s @ ''Success.'' @ [CHR 0x0A])"
proof -
  obtain p where p: "command_new c = Some p" using command_new_some by blast
  obtain b q where q: "Parse argv p = (b, q)" by (rule prod.exhaust)
  show ?thesis
  proof (cases b)
    case True
    then have r: "run_command S c q s = Some (rc, s')" using assms(1) p q by (simp add: Command_Execute_def)
    show ?thesis
    proof (cases "c = PutC")
      case put: True
      with p have "PutCommand_new = Some p" by (simp add: command_new_def)
      with put r Put_tells [of S q s rc s'] assms(2) q True show ?thesis by (auto simp: tells_def)
    next
      case False
      from run_command_tells [OF r this] show ?thesis by (simp add: tells_def)
    qed
  next
    case False
    with assms(1) p q show ?thesis by (auto simp: Command_Execute_def complain_def)
  qed
qed

theorem exit_code_tells_witness:
  "\<exists>s'. Command_Execute demo_setting ''bdblob'' Mv [''mv'', ''a''] demo_session = Some (-1, s') \<and> complaints s' \<noteq> []"
proof -
  obtain p where c: "command_new Mv = Some p" using command_new_some by blast
  have i: "\<forall>x \<in> set [Position ''a'']. item_ok p x" "length (filter (\<lambda>x. \<exists>s. x = Position s) [Position ''a'']) \<le> length (anonymouse p)"
    "anonymouse p = [''source'', ''destination'']" "\<exists>x. map_find (args p) ''destination'' = Some x \<and> arg_required x \<and> \<not> arg_isSet x"
    using c by (auto simp: command_new_def parser_news Register_def ArgumentParser_new_def)
  obtain b q where q: "Parse (''mv'' # concat (map render [Position ''a''])) p = (b, q)" by (rule prod.exhaust)
  have "\<not> b" using Parse_items(2) [OF command_new_ok [OF c] i(1,2) q] i(3,4) by auto
  then obtain s' where "Command_Execute demo_setting ''bdblob'' Mv [''mv'', ''a''] demo_session = Some (-1, s')" "world s' = demo_tree"
    using q c by (simp add: Command_Execute_def demo_session_def complain_def)
  with exit_code_tells [OF this(1)] show ?thesis by (simp add: demo_session_def demo_tree_def demo_blobs_def)
qed

text \<open>
  C16. The parser reads a command line the way it is written: options in their long and short forms,
  with the value behind \<open>=\<close> or in the next word, groups of flags, and positional arguments set
  exactly the arguments they name, the last setting of an argument wins and all others keep their
  value, and the command line is accepted exactly when every required argument is set.
\<close>

theorem Parse_render:
  assumes "parser_ok p" and "\<forall>x \<in> set items. item_ok p x" and "length (filter (\<lambda>x. \<exists>s. x = Position s) items) \<le> length (anonymouse p)"
    and "Parse (cmd # concat (map render items)) p = (b, q)"
  shows "(\<forall>name. map_find (args q) name = map_option (argument_after (settings p 0 items) name) (map_find (args p) name)) \<and>
    (b \<longleftrightarrow> (\<forall>name x. map_find (args p) name = Some x \<longrightarrow> arg_required x \<longrightarrow> arg_isSet x \<or> name \<in> fst ` set (settings p 0 items)))"
  using Parse_items [OF assms] by blast

theorem Parse_render_witness:
  "\<exists>p b q. GetCommand_new = Some p \<and> Parse [''get'', ''-f'', ''a'', ''--target=b''] p = (b, q) \<and>
     string_arg q ''target'' = Some ''b'' \<and> string_arg q ''source'' = Some ''a'' \<and> bool_arg q ''force'' = Some True"
proof -
  let ?items = "[Flags ''f'', Position ''a'', LongValue ''target'' ''b'']"
  obtain p where c: "command_new Get = Some p" using command_new_some by blast
  have ok: "\<forall>x \<in> set ?items. item_ok p x" and n: "length (filter (\<lambda>x. \<exists>s. x = Position s) ?items) \<le> length (anonymouse p)"
    and st: "settings p 0 ?items = [(''force'', []), (''source'', ''a''), (''target'', ''b'')]"
    using c by (auto simp: command_new_def parser_news Register_def ArgumentParser_new_def flag_of_def type_named_def type_of_def)
  obtain b q where q: "Parse (''get'' # concat (map render ?items)) p = (b, q)" by (rule prod.exhaust)
  have f: "\<forall>name. map_find (args q) name = map_option (argument_after [(''force'', []), (''source'', ''a''), (''target'', ''b'')] name) (map_find (args p) name)"
    using Parse_render [OF command_new_ok [OF c] ok n q] unfolding st by blast
  have v: "map_option arg_type (map_find (args p) ''target'') = Some STRING" "map_option arg_type (map_find (args p) ''source'') = Some STRING"
    "map_option arg_type (map_find (args p) ''force'') = Some BOOLEAN"
    using command_new_types [OF c] by (simp_all add: type_named_def string_args_def bool_args_def)
  have "string_arg q ''target'' = Some ''b'' \<and> string_arg q ''source'' = Some ''a'' \<and> bool_arg q ''force'' = Some True"
    using v by (auto simp: string_arg_def bool_arg_def GetArgument_def f argument_after_def Argument_SetValue_def AsString_def AsBoolean_def value_for_def)
  with q c show ?thesis by (simp add: command_new_def) blast
qed

text \<open>
  C5. What one run of \<open>bdblob put\<close> stores a later run of \<open>bdblob cat\<close> shows, with blobs as files: on a
  stored root folder with room for the entry, \<open>main\<close> with \<open>put\<close> and a local file without zero bytes
  exits with zero, and whenever \<open>main\<close> is started again with \<open>cat\<close> and the path on the directory and
  the two root files the first run left, it exits with zero and its output is the content of the
  file, of any length. The second run has nothing of the memory of the first, and its blob map is
  empty when it starts.
\<close>

theorem put_cat:
  assumes "st_provider S = FileBlobProvider" and "st_depth S = Suc (Suc n)" and "st_exists S source" and "\<not> st_is_dir S source"
    and "source = [] \<or> hd source \<noteq> CHR ''-''" and "path \<noteq> [] \<and> hd path \<noteq> CHR ''-''"
    and "root_stored R e" and "\<not> modified R" and "Parent R = None"
    and "SplitPath path = [name]" and "\<not> has_wildcard path" and "map_find (entries R) name = None" and "name \<noteq> ''..''" and "length name < 2 ^ 32"
    and "length (entries R) < 2 ^ 32 - 1" and "local_files e source = Some content" and "0 \<notin> set content"
    and "cfg_blockSize (st_config S) > 0" and "length content + cfg_blockSize (st_config S) < 2 ^ 64"
    and "ident = uuids (disk e) (issued (disk e))" and "ident \<notin> e_id ` snd ` set (entries R)" and "ident \<noteq> [] \<and> length ident < 2 ^ 32"
    and "dir_exists (disk e)" and "openable (disk e) ident" and "blob_size_for (st_config S) (length content) \<le> file_limit (disk e)"
    and "GetSerializedSize R + (45 + length name + length ident) \<le> own_size R"
    and "metadata_bytes R + Metadata_GetSerializedSize (e_metadata (dot R)) + 20 \<le> limit"
  shows "\<exists>s1. tool_main S True limit [prog, ''put'', source, path] e = Some (0, s1) \<and>
    (\<forall>e'. disk e' = disk (world s1) \<and> root_file e' = root_file (world s1) \<and> root_metadata e' = root_metadata (world s1) \<and> \<not> fault e' \<longrightarrow>
       (\<exists>s2. tool_main S True limit [prog, ''cat'', path] e' = Some (0, s2) \<and> printed s2 = map char_of_byte content))"
proof -
  obtain e3 where st: "steady R e3" and "\<exists>bm. e3 = e\<lparr>root_id := e_id (dot R), blobMap := Some bm\<rparr> \<and> map_inv bm \<and> 20 \<le> map_room bm"
    and run: "\<forall>c ws. tool_main S True limit (prog # command_name c # ws) e =
      map_option (\<lambda>(rc, s). (rc, if rc = -1 then say (tool_usage prog) s else s))
        (Command_Execute S prog c (command_name c # ws)
           \<lparr>g_api = \<lparr>api_root = Some R, api_error = SUCCESS\<rparr>, world = e3, printed = [], complaints = []\<rparr>)"
    by (rule tool_main_stored [OF assms(1,7,8,27), of prog])
  then obtain bm where e3: "e3 = e\<lparr>root_id := e_id (dot R), blobMap := Some bm\<rparr>" and bm: "map_inv bm" "20 \<le> map_room bm" by blast
  have nf: "\<not> fault e" and rf: "root_file e = Some (e_id (dot R))" "root_metadata e = Some (enc_metadata (e_metadata (dot R)))"
    and R: "valid_folder R" "map_find (entries R) ''.'' = Some (dot R)" using assms(7) by (auto simp: root_stored_def)
  have ready: "dir_ready (blob_size_for (st_config S) (length content)) e3"
    using assms(20,22-25) bm nf blob_size_for_u64 [of "st_config S" "length content"] by (simp add: dir_ready_def e3)
  let ?a = "set_error NOT_FOUND \<lparr>api_root = Some R, api_error = SUCCESS\<rparr>" and ?R = "\<lambda>x. entered (time_now e3) name x R"
  obtain a1 e1 x where put: "Put FileBlobProvider (st_config S) (Suc (Suc n)) ?a path source False e3 = (True, a1, e1)"
    and d: "on_disk (?R x) e1" "stored_file (?R x) name content (disk e1)" and x: "Metadata_GetSerializedSize (e_metadata x) = 20"
    and rf1: "root_file e1 = root_file e3" "root_metadata e1 = root_metadata e3"
    by (rule Put_stores [where a = ?a and R = R and e = e3 and path = path and name = name and source = source and content = content
          and cfg = "st_config S" and ident = ident and n = n and force = False])
      (use assms st ready in \<open>simp_all add: e3 set_error_def\<close>)
  have nd: "name \<noteq> ''.''" using R(2) assms(12) by auto
  note ex = put_runs [OF assms(1,3-6) _ assms(10,12), of "\<lparr>g_api = \<lparr>api_root = Some R, api_error = SUCCESS\<rparr>, world = e3, printed = [], complaints = []\<rparr>" a1 e1 prog]
  obtain s1 where s1: "tool_main S True limit [prog, ''put'', source, path] e = Some (0, s1)" "world s1 = e1"
    using run [rule_format, of PutC "[source, path]"] ex put assms(2) by (simp add: command_name_def)
  have "\<exists>s2. tool_main S True limit [prog, ''cat'', path] e' = Some (0, s2) \<and> printed s2 = map char_of_byte content"
    if e': "disk e' = disk e1" "root_file e' = root_file e1" "root_metadata e' = root_metadata e1" "\<not> fault e'" for e'
  proof -
    have "root_stored (?R x) e1" using on_disk_root_stored [OF d(1)] rf rf1 nd by (simp add: e3)
    then have rs: "root_stored (?R x) e'" using e' by (simp add: root_stored_def)
    have "metadata_bytes (?R x) + Metadata_GetSerializedSize (e_metadata (dot (?R x))) + 0 \<le> limit"
      using metadata_bytes_entered [OF R assms(12)] x assms(27) nd by simp
    then obtain e4 where st4: "steady (?R x) e4" and "\<exists>bm. e4 = e'\<lparr>root_id := e_id (dot (?R x)), blobMap := Some bm\<rparr> \<and> map_inv bm \<and> 0 \<le> map_room bm"
      and run4: "\<forall>c ws. tool_main S True limit (prog # command_name c # ws) e' =
        map_option (\<lambda>(rc, s). (rc, if rc = -1 then say (tool_usage prog) s else s))
          (Command_Execute S prog c (command_name c # ws)
             \<lparr>g_api = \<lparr>api_root = Some (?R x), api_error = SUCCESS\<rparr>, world = e4, printed = [], complaints = []\<rparr>)"
      by (rule tool_main_stored [OF assms(1) rs, of 0 limit prog, rotated]) (simp_all add: entered_def)
    then have "disk e4 = disk e1" using e'(1) by auto
    with d(2) st4 have "holds_file \<lparr>api_root = Some (?R x), api_error = SUCCESS\<rparr> path content e4"
      by (intro stored_holds_file [OF _ st4 _ assms(10)]) simp_all
    then show ?thesis
      using cat_runs [OF assms(1,6) _ assms(18,17), of "\<lparr>g_api = \<lparr>api_root = Some (?R x), api_error = SUCCESS\<rparr>, world = e4, printed = [], complaints = []\<rparr>" prog]
        run4 [rule_format, of Cat "[path]"] by (auto simp: command_name_def)
  qed
  with s1 show ?thesis by auto
qed

theorem put_cat_witness:
  "\<exists>s1 s2. tool_main demo_setting True 1000 [''bdblob'', ''put'', ''in'', ''n''] demo_start = Some (0, s1) \<and>
    tool_main demo_setting True 1000 [''bdblob'', ''cat'', ''n''] (demo_tree\<lparr>disk := disk (world s1), root_file := root_file (world s1),
      root_metadata := root_metadata (world s1)\<rparr>) = Some (0, s2) \<and> printed s2 = map char_of_byte [1, 2, 3]"
proof -
  let ?e = "demo_tree\<lparr>root_file := Some ''r'', root_metadata := Some (enc_metadata (demo_metadata 400))\<rparr>"
  have "on_disk demo_root ?e" using demo_on_disk(1) by (auto simp: on_disk_def steady_def known_def)
  then have "root_stored demo_root ?e" by (rule on_disk_root_stored) (simp_all add: demo_dots demo_entry_def)
  then have s: "root_stored demo_root demo_start" by (simp add: root_stored_def demo_start_def)
  have p: "SplitPath ''n'' = [''n'']" by (simp add: SplitPath_def split_loop.simps is_delim_def push_name_def)
  have b: "blob_size_for demo_config (length [1, 2, 3 :: byte]) = 32" by (simp add: blob_size_for_def demo_config_def)
  have m: "metadata_bytes demo_root = 40" "Metadata_GetSerializedSize (demo_metadata 400) = 20"
    by (simp_all add: metadata_bytes_def demo_root_def demo_entry_def demo_metadata_def new_metadata)
  have u: "uuids (disk demo_start) (issued (disk demo_start)) = ''b''" by (simp add: demo_start_def demo_tree_def demo_blobs_def)
  have "\<exists>s1. tool_main demo_setting True 1000 [''bdblob'', ''put'', ''in'', ''n''] demo_start = Some (0, s1) \<and>
    (\<forall>e'. disk e' = disk (world s1) \<and> root_file e' = root_file (world s1) \<and> root_metadata e' = root_metadata (world s1) \<and> \<not> fault e' \<longrightarrow>
       (\<exists>s2. tool_main demo_setting True 1000 [''bdblob'', ''cat'', ''n''] e' = Some (0, s2) \<and> printed s2 = map char_of_byte [1, 2, 3]))"
    by (rule put_cat [where n = 0 and R = demo_root and name = "''n''" and ident = "''b''"])
      (use s p b m u in \<open>simp_all add: demo_setting_def demo_dots demo_tree_sizes demo_config_def demo_entry_def\<close>,
       simp_all add: demo_start_def demo_tree_def demo_blobs_def demo_root_def demo_entry_def Parent_def has_wildcard_def)
  then show ?thesis by (auto simp: demo_tree_def demo_blobs_def)
qed

end
