(* ===== verification/BitSet.thy ===== *)
theory BitSet
  imports Streams
begin

unbundle bit_operations_syntax

text \<open>
  The bit sets of \<open>src/bdhost/BitSet.cpp\<close> and \<open>src/bdfsclient-lib/BitSet.cpp\<close> (the same class):
  64-bit words, most significant bit first, a \<open>Reference\<close> to one bit, and the byte image in a
  file. A reference outside the set points to the static word \<open>trash_bits\<close>, which all sets share
  and which keeps what is written to it.
\<close>

record BitSet =
  buffer :: "u64 list"
  bits :: nat

datatype bit_ptr = Word nat | Trash

record Reference =
  ptr :: bit_ptr
  bitno :: nat

text \<open>The memory a reference acts on: the set and the static word.\<close>

type_synonym bit_mem = "BitSet \<times> u64"

definition BitSet_new :: "nat \<Rightarrow> BitSet" where
  "BitSet_new sz = \<lparr>buffer = replicate (if sz mod 64 \<noteq> 0 then sz div 64 + 1 else sz div 64) 0, bits = sz\<rparr>"

definition Reference_new :: "BitSet \<Rightarrow> nat \<Rightarrow> Reference" where
  "Reference_new b index =
     \<lparr>ptr = (if index < bits b then Word (index div 64) else Trash), bitno = index mod 64\<rparr>"

definition load :: "bit_mem \<Rightarrow> bit_ptr \<Rightarrow> u64" where
  "load m p = (case p of Word i \<Rightarrow> buffer (fst m) ! i | Trash \<Rightarrow> snd m)"

definition store :: "bit_mem \<Rightarrow> bit_ptr \<Rightarrow> u64 \<Rightarrow> bit_mem" where
  "store m p w = (case p of
     Word i \<Rightarrow> ((fst m)\<lparr>buffer := (buffer (fst m))[i := w]\<rparr>, snd m)
   | Trash \<Rightarrow> (fst m, w))"

definition mask :: "nat \<Rightarrow> u64" where
  "mask b = push_bit (63 - b) 1"

definition Reference_assign :: "bit_mem \<Rightarrow> Reference \<Rightarrow> bool \<Rightarrow> bit_mem" where
  "Reference_assign m r value =
     store m (ptr r) (if value then load m (ptr r) OR mask (bitno r)
                      else load m (ptr r) AND NOT (mask (bitno r)))"

text \<open>
  Assigning a reference tests the other bit with the \<open>int\<close> mask \<open>0x1 << (63 - bit)\<close>: the shift is
  undefined (\<open>None\<close>) unless the bit is one of the last 31.
\<close>

definition Reference_copy :: "bit_mem \<Rightarrow> Reference \<Rightarrow> Reference \<Rightarrow> bit_mem option" where
  "Reference_copy m r other =
     (if 63 - bitno other \<ge> 31 then None
      else Some (Reference_assign m r (load m (ptr other) AND mask (bitno other) \<noteq> 0)))"

definition Reference_not :: "bit_mem \<Rightarrow> Reference \<Rightarrow> bool" where
  "Reference_not m r \<longleftrightarrow> load m (ptr r) AND mask (bitno r) = 0"

definition Reference_bool :: "bit_mem \<Rightarrow> Reference \<Rightarrow> bool" where
  "Reference_bool m r \<longleftrightarrow> load m (ptr r) AND mask (bitno r) \<noteq> 0"

definition Reference_flip :: "bit_mem \<Rightarrow> Reference \<Rightarrow> bit_mem" where
  "Reference_flip m r = store m (ptr r) (load m (ptr r) XOR mask (bitno r))"

definition Get :: "BitSet \<Rightarrow> nat \<Rightarrow> bool" where
  "Get b index =
     (if index \<ge> bits b then False
      else buffer b ! (index div 64) AND mask (index mod 64) \<noteq> 0)"

definition Set :: "BitSet \<Rightarrow> nat \<Rightarrow> bool \<Rightarrow> BitSet" where
  "Set b index value =
     (if index \<ge> bits b then b
      else b\<lparr>buffer := (buffer b)[index div 64 :=
               (if value then buffer b ! (index div 64) OR mask (index mod 64)
                else buffer b ! (index div 64) AND NOT (mask (index mod 64)))]\<rparr>)"

definition remBytes :: "nat \<Rightarrow> nat" where
  "remBytes remBits = (if remBits mod 8 \<noteq> 0 then remBits div 8 + 1 else remBits div 8)"

definition WriteTo :: "BitSet \<Rightarrow> byte list" where
  "WriteTo b =
     (let words = bits b div 64; remBits = bits b mod 64
      in concat (map (\<lambda>w. word_mem (htonll w)) (take words (buffer b))) @
         (if remBits \<noteq> 0 then take (remBytes remBits) (word_mem (htonll (buffer b ! words))) else []))"

text \<open>
  \<open>fread\<close> into \<open>netBytes\<close>: bytes that are missing in the file leave the old ones. \<open>junk\<close> is the
  uninitialised first value.
\<close>

fun read_words :: "nat \<Rightarrow> u64 \<Rightarrow> byte list \<Rightarrow> u64 list \<times> u64 \<times> byte list" where
  "read_words 0 net file = ([], net, file)"
| "read_words (Suc n) net file =
     (let net' = mem_word (poke 0 (take 8 file) (word_mem net));
          (ws, net'', rest) = read_words n net' (drop 8 file)
      in (ntohll net' # ws, net'', rest))"

definition ReadFrom :: "u64 \<Rightarrow> BitSet \<Rightarrow> byte list \<Rightarrow> BitSet" where
  "ReadFrom junk b file =
     (let words = bits b div 64; remBits = bits b mod 64;
          (ws, net, rest) = read_words words junk file;
          buf = poke 0 ws (buffer b)
      in b\<lparr>buffer := (if remBits \<noteq> 0
                     then buf[words := ntohll (mem_word (poke 0 (take (remBytes remBits) rest) (word_mem (0::u64))))]
                     else buf)\<rparr>)"

text \<open>The words cover the set exactly and the bits behind its end are clear.\<close>

definition bitset_ok :: "BitSet \<Rightarrow> bool" where
  "bitset_ok b \<longleftrightarrow> length (buffer b) = (bits b + 63) div 64 \<and>
     (\<forall>i < 64 * length (buffer b). bits b \<le> i \<longrightarrow> \<not> bit (buffer b ! (i div 64)) (63 - i mod 64))"

section \<open>Lemmas\<close>

lemma bit_mask: "k < 64 \<Longrightarrow> bit (mask k) n \<longleftrightarrow> n = 63 - k"
  by (auto simp: mask_def bit_simps)

lemma mask_test: "k < 64 \<Longrightarrow> (w AND mask k \<noteq> 0) = bit w (63 - k)"
  unfolding bit_eq_iff [of "w AND mask k"] by (auto simp: bit_and_iff bit_mask dest: bit_imp_le_length)

lemma words_cover: "i < n \<Longrightarrow> i div 64 < (n + 63) div (64::nat)"
proof -
  assume "i < n"
  then have "(i + 64) div 64 \<le> (n + 63) div 64" by (intro div_le_mono) simp
  then show ?thesis by simp
qed

lemma bufsize: "(if n mod 64 \<noteq> 0 then n div 64 + 1 else n div 64) = (n + 63) div (64::nat)"
proof -
  define q r where qr: "q = n div 64" "r = n mod 64"
  have n: "n = 64 * q + r" "r < 64" by (simp_all add: qr)
  have "(n + 63) div 64 = q + (r + 63) div 64" by (simp add: n(1) add.assoc)
  moreover have "(r + 63) div 64 = (if r \<noteq> 0 then 1 else 0)" using n(2) by (auto intro: div_nat_eqI)
  ultimately show ?thesis by (simp add: qr)
qed

lemma Get_bit: "Get b i \<longleftrightarrow> i < bits b \<and> bit (buffer b ! (i div 64)) (63 - i mod 64)"
  by (simp add: Get_def mask_test)

lemma Get_new [simp]: "\<not> Get (BitSet_new n) i"
  unfolding Get_bit BitSet_new_def bufsize using words_cover [of i n] by auto

lemma bitset_ok_new: "bitset_ok (BitSet_new n)"
  unfolding bitset_ok_def BitSet_new_def bufsize by (auto simp: less_mult_imp_div_less)

lemma in_words: "bitset_ok b \<Longrightarrow> i < bits b \<Longrightarrow> i div 64 < length (buffer b)"
  by (simp add: bitset_ok_def words_cover)

lemma same_bit: "i div 64 = j div 64 \<Longrightarrow> 63 - i mod 64 = 63 - j mod (64::nat) \<Longrightarrow> i = j"
proof -
  assume d: "i div 64 = j div 64" and m: "63 - i mod 64 = 63 - j mod 64"
  have "i mod 64 < 64" "j mod 64 < 64" by simp_all
  with m have "i mod 64 = j mod 64" by linarith
  with d show ?thesis by (metis div_mult_mod_eq)
qed

text \<open>Every update of one word is an update of one bit.\<close>

definition set_bit_word :: "u64 \<Rightarrow> nat \<Rightarrow> bool \<Rightarrow> u64" where
  "set_bit_word w k v = (if v then w OR mask k else w AND NOT (mask k))"

lemma bit_set_bit_word:
  "k < 64 \<Longrightarrow> bit (set_bit_word w k v) n \<longleftrightarrow> (if n = 63 - k then v else bit w n)"
  by (auto simp: set_bit_word_def bit_or_iff bit_and_iff bit_not_iff bit_mask dest: bit_imp_le_length)

lemma update_bit:
  assumes "i < bits b" and "i div 64 < length (buffer b)"
  shows "bit ((buffer b)[i div 64 := set_bit_word (buffer b ! (i div 64)) (i mod 64) v] ! (j div 64)) (63 - j mod 64)
     \<longleftrightarrow> (if j = i then v else bit (buffer b ! (j div 64)) (63 - j mod 64))"
proof (cases "j div 64 = i div 64")
  case True
  have "63 - j mod 64 = 63 - i mod 64 \<longleftrightarrow> j = i" using same_bit [OF True] by auto
  with True assms show ?thesis by (auto simp: bit_set_bit_word)
next
  case False
  then show ?thesis by auto
qed

lemma Set_simp: "Set b i v = (if i < bits b
    then b\<lparr>buffer := (buffer b)[i div 64 := set_bit_word (buffer b ! (i div 64)) (i mod 64) v]\<rparr> else b)"
  by (simp add: Set_def set_bit_word_def)

lemma Get_Set:
  assumes "bitset_ok b"
  shows "Get (Set b i v) j \<longleftrightarrow> (if i = j \<and> i < bits b then v else Get b j)"
proof (cases "i < bits b")
  case True
  have "Get (Set b i v) j \<longleftrightarrow> j < bits b \<and> (if j = i then v else bit (buffer b ! (j div 64)) (63 - j mod 64))"
    using update_bit [OF True in_words [OF assms True], of v j] True by (simp add: Get_bit Set_simp)
  with True show ?thesis by (auto simp: Get_bit)
qed (simp add: Set_simp)

lemma bitset_ok_Set: "bitset_ok b \<Longrightarrow> bitset_ok (Set b i v)"
proof (cases "i < bits b")
  case True
  assume ok: "bitset_ok b"
  have "\<not> bit (buffer (Set b i v) ! (j div 64)) (63 - j mod 64)" if "bits b \<le> j" "j < 64 * length (buffer b)" for j
    using update_bit [OF True in_words [OF ok True], of v j] that ok True by (auto simp: Set_simp bitset_ok_def)
  with ok True show ?thesis by (simp add: bitset_ok_def Set_simp)
qed (simp add: Set_simp)

text \<open>Inside the set, a reference is the bit; outside, assigning it leaves the set alone.\<close>

lemma Reference_inside:
  assumes "i < bits b"
  shows "Reference_bool (b, t) (Reference_new b i) = Get b i"
    and "Reference_assign (b, t) (Reference_new b i) v = (Set b i v, t)"
    and "Reference_not (b, t) (Reference_new b i) = (\<not> Get b i)"
  using assms by (simp_all add: Reference_bool_def Reference_not_def Reference_assign_def Reference_new_def
      load_def store_def Get_def Set_def)

lemma Reference_outside:
  assumes "bits b \<le> i"
  shows "Reference_assign (b, t) (Reference_new b i) v = (b, set_bit_word t (i mod 64) v)"
    and "Reference_bool (b, t) (Reference_new b i) = bit t (63 - i mod 64)"
  using assms by (simp_all add: Reference_bool_def Reference_assign_def Reference_new_def
      load_def store_def set_bit_word_def mask_test)

lemma Reference_flip_Get:
  assumes "bitset_ok b" and "i < bits b"
  shows "Reference_flip (b, t) (Reference_new b i) = (Set b i (\<not> Get b i), t)"
proof -
  have "buffer b ! (i div 64) XOR mask (i mod 64) = set_bit_word (buffer b ! (i div 64)) (i mod 64) (\<not> Get b i)"
    using assms by (intro bit_word_eqI) (auto simp: bit_xor_iff bit_mask bit_set_bit_word Get_bit)
  with assms show ?thesis
    by (simp add: Reference_flip_def Reference_new_def load_def store_def Set_simp)
qed

section \<open>The file image\<close>

lemma ntohll_mem_word: "length bs = 8 \<Longrightarrow> ntohll (mem_word bs) = mem_word (rev bs)"
  by (simp add: ntohll_eq bswap_def)

lemma read_words_image:
  "\<exists>net. read_words (length ws) junk (concat (map (\<lambda>w. word_mem (htonll w)) ws) @ rest) = (ws, net, rest)"
proof (induction ws arbitrary: junk)
  case (Cons w ws)
  have p: "poke 0 (word_mem (htonll w)) (word_mem junk) = word_mem (htonll w)" by simp
  have m: "mem_word (word_mem (htonll w)) = htonll w" by simp
  obtain net where "read_words (length ws) (htonll w) (concat (map (\<lambda>w. word_mem (htonll w)) ws) @ rest) = (ws, net, rest)"
    using Cons by blast
  with p m have "read_words (length (w # ws)) junk (concat (map (\<lambda>w. word_mem (htonll w)) (w # ws)) @ rest) =
      (ntohll (htonll w) # ws, net, rest)"
    by (simp add: Let_def del: mem_word_mem)
  moreover have "ntohll (htonll w) = w" by (simp add: htonll_eq ntohll_eq)
  ultimately show ?case by metis
qed simp

lemma le_bytes_zero: "le_bytes n 0 = replicate n 0"
  by (induction n) auto

lemma low_bytes_clear:
  assumes "k \<le> 8" and "\<And>p. p < 8 * k \<Longrightarrow> \<not> bit (w::u64) p"
  shows "take k (word_mem w) = replicate k 0"
proof -
  have "take_bit (8 * k) w = 0" using assms(2) by (auto simp: bit_eq_iff bit_take_bit_iff)
  then have "unat (take_bit (8 * k) w) = 0" by simp
  then have "take_bit (8 * k) (unat w) = 0" by (simp only: unsigned_take_bit_eq)
  then have z: "unat w mod 256 ^ k = 0" by (simp add: take_bit_eq_mod power_mult)
  have "word_mem w = le_bytes k (unat w) @ le_bytes (8 - k) (unat w div 256 ^ k)"
    using le_bytes_add [of k "8 - k" "unat w"] assms(1) by (simp add: word_mem_def)
  then have "take k (word_mem w) = le_bytes k (unat w mod 256 ^ k)" by (simp add: le_bytes_mod)
  with z show ?thesis by (simp add: le_bytes_zero)
qed

lemma rem_bytes: "0 < r \<Longrightarrow> r < 64 \<Longrightarrow> 0 < remBytes r \<and> remBytes r \<le> 8 \<and> r \<le> 8 * remBytes r"
proof -
  assume "0 < r" "r < 64"
  have "r = 8 * (r div 8) + r mod 8" by simp
  moreover have "r mod 8 < 8" "r div 8 < 8" using \<open>r < 64\<close> by simp_all
  ultimately show ?thesis using \<open>0 < r\<close> by (auto simp: remBytes_def)
qed

lemma last_word_image:
  assumes "k \<le> 8" and "\<And>p. p < 8 * (8 - k) \<Longrightarrow> \<not> bit (w::u64) p"
  shows "ntohll (mem_word (poke 0 (take k (word_mem (htonll w))) (word_mem (0::u64)))) = w"
proof -
  have h: "word_mem (htonll w) = rev (word_mem w)" by (rule htonll_mem)
  have "drop k (rev (word_mem w)) = rev (take (8 - k) (word_mem w))" using assms(1) by (simp add: rev_take)
  also have "\<dots> = replicate (8 - k) 0" using low_bytes_clear [of "8 - k" w] assms by simp
  finally have d: "drop k (rev (word_mem w)) = replicate (8 - k) 0" .
  have "poke 0 (take k (rev (word_mem w))) (word_mem (0::u64)) = take k (rev (word_mem w)) @ replicate (8 - k) 0"
    using assms(1) by (simp add: poke_def word_mem_def le_bytes_zero)
  also have "\<dots> = rev (word_mem w)" using d by (metis append_take_drop_id)
  finally show ?thesis by (simp add: h ntohll_mem_word)
qed

lemma ReadFrom_WriteTo:
  assumes "bitset_ok b" and "bits b0 = bits b" and "length (buffer b0) = length (buffer b)"
  shows "ReadFrom junk b0 (WriteTo b @ rest) = b0\<lparr>buffer := buffer b\<rparr>"
proof -
  let ?n = "bits b div 64" and ?r = "bits b mod 64"
  have len: "length (buffer b) = (if ?r \<noteq> 0 then ?n + 1 else ?n)"
    using assms(1) unfolding bitset_ok_def bufsize by simp
  define tail where "tail = (if ?r \<noteq> 0 then take (remBytes ?r) (word_mem (htonll (buffer b ! ?n))) else []) @ rest"
  have f: "WriteTo b @ rest = concat (map (\<lambda>w. word_mem (htonll w)) (take ?n (buffer b))) @ tail"
    by (simp add: WriteTo_def Let_def tail_def)
  have l: "length (take ?n (buffer b)) = ?n" using len by simp
  obtain net where rw: "read_words ?n junk (WriteTo b @ rest) = (take ?n (buffer b), net, tail)"
    using read_words_image [of "take ?n (buffer b)" junk tail] l f by auto
  show ?thesis
  proof (cases "?r = 0")
    case True
    then have "poke 0 (take ?n (buffer b)) (buffer b0) = buffer b" using len assms(3) by simp
    with rw True assms(2) show ?thesis by (simp add: ReadFrom_def)
  next
    case False
    let ?k = "remBytes ?r" and ?w = "buffer b ! ?n"
    have k: "0 < ?k" "?k \<le> 8" "?r \<le> 8 * ?k" using rem_bytes [of ?r] False by auto
    have "\<not> bit ?w p" if p: "p < 8 * (8 - ?k)" for p
    proof -
      obtain q where q: "q = 63 - p" "q < 64" "63 - q = p" "?r \<le> q" using k p by (intro that [of "63 - p"]) auto
      let ?i = "64 * ?n + q"
      have i: "?i div 64 = ?n" "?i mod 64 = q" "?i < 64 * length (buffer b)"
        using q(2) len False by simp_all
      have "bits b \<le> ?i"
      proof -
        have "bits b = 64 * ?n + ?r" by simp
        with q(4) show ?thesis by linarith
      qed
      with assms(1) i(3) have "\<not> bit (buffer b ! (?i div 64)) (63 - ?i mod 64)" unfolding bitset_ok_def by blast
      then show ?thesis by (simp only: i q(3) not_False_eq_True)
    qed
    then have lw: "ntohll (mem_word (poke 0 (take ?k (word_mem (htonll ?w))) (word_mem (0::u64)))) = ?w"
      by (rule last_word_image [OF k(2)])
    have "take ?k tail = take ?k (word_mem (htonll ?w))" using False k(2) by (simp add: tail_def)
    moreover have "(poke 0 (take ?n (buffer b)) (buffer b0))[?n := ?w] = buffer b"
      using len False assms(3)
      by (intro nth_equalityI) (auto simp: poke_def nth_list_update nth_append less_Suc_eq)
    ultimately show ?thesis using rw False assms(2) lw by (simp add: ReadFrom_def)
  qed
qed

section \<open>Properties\<close>

text \<open>
  A bit set is an array of bits: assigning through a reference inside the set changes exactly
  that bit and keeps the bits behind the end clear; a reference outside the set reaches only the
  shared trash word.
\<close>

theorem Reference_assign_bit:
  assumes "bitset_ok b" and "Reference_assign (b, t) (Reference_new b i) v = (b', t')"
  shows "bitset_ok b' \<and> bits b' = bits b \<and> (\<forall>j. Get b' j = (if j = i \<and> i < bits b then v else Get b j)) \<and>
    (i < bits b \<longrightarrow> t' = t) \<and> (bits b \<le> i \<longrightarrow> b' = b)"
proof (cases "i < bits b")
  case True
  then have "b' = Set b i v" "t' = t" using assms(2) by (simp_all add: Reference_inside)
  moreover have "bits (Set b i v) = bits b" by (simp add: Set_def)
  ultimately show ?thesis using True assms(1) Get_Set [OF assms(1), of i v] bitset_ok_Set [OF assms(1), of i v] by auto
next
  case False
  then have "b' = b" using assms(2) by (simp add: Reference_outside)
  with False assms(1) show ?thesis by simp
qed

theorem Reference_assign_bit_witness:
  "\<forall>j. Get (Set (BitSet_new 70) 66 True) j = (j = 66)"
proof -
  have "Reference_assign (BitSet_new 70, 0) (Reference_new (BitSet_new 70) 66) True = (Set (BitSet_new 70) 66 True, 0)"
    by (rule Reference_inside) (simp add: BitSet_new_def)
  moreover have "bits (BitSet_new 70) = 70" by (simp add: BitSet_new_def)
  ultimately show ?thesis using Reference_assign_bit [OF bitset_ok_new, of 70 0 66 True "Set (BitSet_new 70) 66 True" 0] by auto
qed

text \<open>
  The file image of a bit set is complete: a set of the same size that reads what \<open>WriteTo\<close>
  wrote, whatever follows in the file, has the same bits.
\<close>

theorem WriteTo_ReadFrom:
  assumes "bitset_ok b"
  shows "ReadFrom junk (BitSet_new (bits b)) (WriteTo b @ rest) = b"
proof -
  have "length (buffer (BitSet_new (bits b))) = length (buffer b)"
    using assms bitset_ok_new [of "bits b"] by (simp add: bitset_ok_def BitSet_new_def)
  then have "ReadFrom junk (BitSet_new (bits b)) (WriteTo b @ rest) = (BitSet_new (bits b))\<lparr>buffer := buffer b\<rparr>"
    by (intro ReadFrom_WriteTo [OF assms]) (simp_all add: BitSet_new_def)
  then show ?thesis by (simp add: BitSet_new_def)
qed

theorem WriteTo_ReadFrom_witness:
  "ReadFrom 9 (BitSet_new 70) (WriteTo (Set (BitSet_new 70) 66 True) @ [1, 2]) = Set (BitSet_new 70) 66 True"
proof -
  have "bits (Set (BitSet_new 70) 66 True) = 70" by (simp add: Set_def BitSet_new_def)
  then show ?thesis
    using WriteTo_ReadFrom [of "Set (BitSet_new 70) 66 True" 9 "[1, 2]"] bitset_ok_Set [OF bitset_ok_new, of 70 66 True] by simp
qed

end
