(* ===== verification/BlockStore.thy ===== *)
theory BlockStore
  imports Prelude
begin

text \<open>
  The interface on which the striped volume is built: a matrix of equally sized cells, addressed
  by row and column, with partial reads and writes that may fail. A failing write may leave the
  cell it was aimed at in any state (a lost acknowledgement), but never another cell. A partial
  read is promised to be right in the first \<open>nrows\<close> rows only: past the end of a partition a
  provider answers with an error text, and nothing but its length tells it from data. The direct
  cells of the partitions, the cells behind the write-back cache and the encrypted cells are
  three implementations of it.
\<close>

type_synonym 's cell_read = "nat \<Rightarrow> nat \<Rightarrow> nat \<Rightarrow> nat \<Rightarrow> 's \<Rightarrow> byte list option \<times> 's"
type_synonym 's cell_write = "nat \<Rightarrow> nat \<Rightarrow> byte list \<Rightarrow> nat \<Rightarrow> 's \<Rightarrow> bool \<times> 's"

locale block_store =
  fixes rd :: "'s cell_read"
    and wr :: "'s cell_write"
    and cell :: "'s \<Rightarrow> nat \<Rightarrow> nat \<Rightarrow> byte list"
    and ok :: "'s \<Rightarrow> bool"
    and bs :: nat
    and ncols :: nat
    and nrows :: nat
  assumes cell_len: "ok s \<Longrightarrow> col < ncols \<Longrightarrow> length (cell s row col) = bs"
    and rd_ok: "ok s \<Longrightarrow> col < ncols \<Longrightarrow> off + sz \<le> bs \<Longrightarrow> rd row col sz off s = (r, s') \<Longrightarrow> ok s'"
    and rd_frame: "ok s \<Longrightarrow> col < ncols \<Longrightarrow> off + sz \<le> bs \<Longrightarrow> rd row col sz off s = (r, s') \<Longrightarrow>
        c < ncols \<Longrightarrow> cell s' i c = cell s i c"
    and rd_data: "ok s \<Longrightarrow> col < ncols \<Longrightarrow> off + sz \<le> bs \<Longrightarrow> rd row col sz off s = (Some d, s') \<Longrightarrow>
        row < nrows \<Longrightarrow> d = peek off sz (cell s row col)"
    and rd_whole: "ok s \<Longrightarrow> col < ncols \<Longrightarrow> rd row col bs 0 s = (Some d, s') \<Longrightarrow> d = cell s row col"
    and wr_ok: "ok s \<Longrightarrow> col < ncols \<Longrightarrow> off + length d \<le> bs \<Longrightarrow> wr row col d off s = (b, s') \<Longrightarrow> ok s'"
    and wr_frame: "ok s \<Longrightarrow> col < ncols \<Longrightarrow> off + length d \<le> bs \<Longrightarrow> wr row col d off s = (b, s') \<Longrightarrow>
        c < ncols \<Longrightarrow> (i, c) \<noteq> (row, col) \<Longrightarrow> cell s' i c = cell s i c"
    and wr_data: "ok s \<Longrightarrow> col < ncols \<Longrightarrow> off + length d \<le> bs \<Longrightarrow> wr row col d off s = (True, s') \<Longrightarrow>
        cell s' row col = poke off d (cell s row col)"
begin

lemma rd_length:
  assumes "ok s" and "col < ncols" and "off + sz \<le> bs" and "rd row col sz off s = (Some d, s')"
    and "row < nrows"
  shows "length d = sz"
  using rd_data [OF assms] cell_len [OF assms(1,2)] assms(3) by simp

lemma wr_cell:
  assumes "ok s" and "col < ncols" and "off + length d \<le> bs" and "wr row col d off s = (True, s')" and "c < ncols"
  shows "cell s' i c = (if i = row \<and> c = col then poke off d (cell s row col) else cell s i c)"
  using wr_data [OF assms(1-4)] wr_frame [OF assms(1-5)] by auto

lemma read_after_write:
  assumes "ok s" and "col < ncols" and "off + length d \<le> bs" and "wr row col d off s = (True, s')"
    and "rd row col (length d) off s' = (Some d', s'')" and "row < nrows"
  shows "d' = d"
proof -
  have "ok s'" using assms(1-4) by (rule wr_ok)
  from rd_data [OF this assms(2,3,5,6)] wr_data [OF assms(1-4)] cell_len [OF assms(1,2)] assms(3)
  show ?thesis by simp
qed

end

lemma block_store_fewer:
  assumes "block_store rd wr cell ok bs ncols nrows" and "dc \<le> ncols"
  shows "block_store rd wr cell ok bs dc nrows"
proof -
  from assms(2) have le: "c < dc \<Longrightarrow> c < ncols" for c by simp
  show ?thesis
    by (rule block_store.intro) (use assms(1) [unfolded block_store_def] le in meson)+
qed

lemma block_store_stronger:
  assumes "block_store rd wr cell ok bs ncols nrows" and "\<And>s. ok' s \<Longrightarrow> ok s"
    and "\<And>s col off sz row r s'. ok' s \<Longrightarrow> col < ncols \<Longrightarrow> off + sz \<le> bs \<Longrightarrow> rd row col sz off s = (r, s') \<Longrightarrow> ok' s'"
    and "\<And>s col off d row b s'. ok' s \<Longrightarrow> col < ncols \<Longrightarrow> off + length d \<le> bs \<Longrightarrow> wr row col d off s = (b, s') \<Longrightarrow> ok' s'"
  shows "block_store rd wr cell ok' bs ncols nrows"
proof (rule block_store.intro)
  note B = assms(1) [unfolded block_store_def]
  show "ok' s \<Longrightarrow> col < ncols \<Longrightarrow> length (cell s row col) = bs" for s col row
    using B assms(2) by meson
qed (use assms(1) [unfolded block_store_def] assms(2-) in meson)+

text \<open>A store whose operations do not fail inside its rows.\<close>

locale reliable_store = block_store +
  assumes rd_total: "ok s \<Longrightarrow> row < nrows \<Longrightarrow> col < ncols \<Longrightarrow> off + sz \<le> bs \<Longrightarrow> sz > 0 \<Longrightarrow>
        \<exists>d s'. rd row col sz off s = (Some d, s')"
    and wr_total: "ok s \<Longrightarrow> row < nrows \<Longrightarrow> col < ncols \<Longrightarrow> off + length d \<le> bs \<Longrightarrow> d \<noteq> [] \<Longrightarrow>
        \<exists>s'. wr row col d off s = (True, s')"

end
