(* ===== verification/Cache.thy ===== *)
theory Cache
  imports BlockStore "HOL-Library.Multiset"
begin

text \<open>
  The write-back block cache of the client, \<open>src/bdfsclient-lib/Cache.cpp\<close>. One file per row holds
  the cached blocks of that row as records (8-byte column number, block); \<open>items\<close> remembers for
  every cached row when it was last used and whether it is dirty, \<open>timestamps\<close> orders the rows
  by that time. The requests of all callers are served one after the other by the thread of
  \<open>ThreadProc\<close>, so \<open>ReadImpl\<close> and \<open>WriteImpl\<close> are the atomic steps.

  The cache file of row \<open>r\<close> is \<open>files r\<close>; \<open>openable r\<close> tells whether the operating system lets
  the process open it. Writes to an open file are complete. The clock and the number of waiting
  requests come from the environment \<open>env\<close> (\<open>served\<close> counts the requests so that each has its
  own): \<open>flushTime k\<close> is the clock at the k-th flush of an
  operation and \<open>pending k n\<close> tells whether requests wait after its n-th flushed row.
\<close>

record Item =
  it_timestamp :: nat
  it_dirty :: bool

record cache =
  limit :: nat
  flushPolicy :: nat
  active :: bool
  items :: "(nat, Item) stdmap"
  timestamps :: "(nat \<times> nat) list"
  files :: "nat \<Rightarrow> byte list option"
  openable :: "nat \<Rightarrow> bool"
  served :: nat

record env =
  now :: nat
  flushTime :: "nat \<Rightarrow> nat"
  pending :: "nat \<Rightarrow> nat \<Rightarrow> bool"

section \<open>Cache files\<close>

text \<open>Writing at a position of a file; a position past the end is first reached with zeros.\<close>

definition fwrite_at :: "nat \<Rightarrow> byte list \<Rightarrow> byte list \<Rightarrow> byte list" where
  "fwrite_at pos d f = poke pos d (f @ replicate (pos - length f) 0)"

text \<open>
  The loop both \<open>ReadFileBlock\<close> and \<open>WriteFileBlock\<close> start with: read a column number, stop if it
  is the one looked for, else skip the block. The result is where the block starts, if found,
  and the file position the loop ends at.
\<close>

function scan :: "nat \<Rightarrow> nat \<Rightarrow> byte list \<Rightarrow> nat \<Rightarrow> nat option \<times> nat" where
  "scan bs column file pos =
     (if pos + 8 \<le> length file
      then (if le_val (peek pos 8 file) = column then (Some (pos + 8), pos + 8)
            else scan bs column file (pos + 8 + bs))
      else (None, max pos (length file)))"
  by pat_completeness auto
termination
  by (relation "measure (\<lambda>(bs, column, file, pos). length file - pos)") auto

declare scan.simps [simp del]

definition ReadFileBlock :: "cache \<Rightarrow> nat \<Rightarrow> nat \<Rightarrow> nat \<Rightarrow> byte list option" where
  "ReadFileBlock c bs row column =
     (let d = (if openable c row
               then case files c row of
                      None \<Rightarrow> []
                    | Some f \<Rightarrow> (case scan bs column f 0 of (Some p, _) \<Rightarrow> peek p bs f | (None, _) \<Rightarrow> [])
               else [])
      in if length d = bs then Some d else None)"

definition WriteFileBlock :: "cache \<Rightarrow> nat \<Rightarrow> nat \<Rightarrow> nat \<Rightarrow> byte list \<Rightarrow> bool \<times> cache" where
  "WriteFileBlock c bs row column buf =
     (if openable c row
      then let f = (case files c row of None \<Rightarrow> [] | Some f \<Rightarrow> f);
               f' = (case scan bs column f 0 of
                       (Some p, _) \<Rightarrow> fwrite_at p buf f
                     | (None, p) \<Rightarrow> fwrite_at (p + 8) buf (fwrite_at p (le_bytes 8 column) f))
           in (True, c\<lparr>files := (files c)(row := Some f')\<rparr>)
      else (bs = 0, c))"

section \<open>Flush, eviction and timestamps\<close>

definition dirty :: "cache \<Rightarrow> nat \<Rightarrow> bool" where
  "dirty c row = (case map_find (items c) row of None \<Rightarrow> False | Some it \<Rightarrow> it_dirty it)"

function flush_file :: "'s cell_write \<Rightarrow> nat \<Rightarrow> nat \<Rightarrow> byte list \<Rightarrow> nat \<Rightarrow> 's \<Rightarrow> bool \<times> 's" where
  "flush_file wd bs row file pos st =
     (if pos + 8 \<le> length file
      then let column = le_val (peek pos 8 file); buf = peek (pos + 8) bs file
           in if length buf \<noteq> bs then (False, st)
              else (case wd row column buf 0 st of
                      (False, st') \<Rightarrow> (False, st')
                    | (True, st') \<Rightarrow> flush_file wd bs row file (pos + 8 + bs) st')
      else (True, st))"
  by pat_completeness auto
termination
  by (relation "measure (\<lambda>(wd, bs, row, file, pos, st). length file - pos)") auto

declare flush_file.simps [simp del]

definition set_clean :: "nat \<Rightarrow> (nat, Item) stdmap \<Rightarrow> (nat, Item) stdmap" where
  "set_clean row its = map (\<lambda>(r, it). if r = row then (r, it\<lparr>it_dirty := False\<rparr>) else (r, it)) its"

text \<open>
  One row of \<open>Flush\<close>: the file is opened and its blocks are written; a file that cannot be opened
  leaves everything as it is.
\<close>

definition flush_row :: "'s cell_write \<Rightarrow> nat \<Rightarrow> nat \<Rightarrow> bool \<Rightarrow> cache \<Rightarrow> 's \<Rightarrow> bool \<times> cache \<times> 's" where
  "flush_row wd bs row all c st =
     (if openable c row
      then case files c row of
             None \<Rightarrow> (all, c, st)
           | Some f \<Rightarrow>
               (case flush_file wd bs row f 0 st of
                  (True, st') \<Rightarrow> (all, c\<lparr>items := set_clean row (items c)\<rparr>, st')
                | (False, st') \<Rightarrow> (False, c, st'))
      else (all, c, st))"

fun flush_loop :: "'s cell_write \<Rightarrow> nat \<Rightarrow> bool \<Rightarrow> nat \<Rightarrow> (nat \<Rightarrow> bool) \<Rightarrow> nat \<Rightarrow>
    (nat \<times> nat) list \<Rightarrow> bool \<Rightarrow> cache \<Rightarrow> 's \<Rightarrow> bool \<times> cache \<times> 's" where
  "flush_loop wd bs force expire pend n [] all c st = (all, c, st)"
| "flush_loop wd bs force expire pend n ((t, row) # ts) all c st =
     (if \<not> force \<and> t > expire then (all, c, st)
      else if \<not> dirty c row then flush_loop wd bs force expire pend n ts all c st
      else (let (all', c', st') = flush_row wd bs row all c st
            in if pend n then (ts = [], c', st')
               else flush_loop wd bs force expire pend (Suc n) ts all' c' st'))"

definition Flush :: "'s cell_write \<Rightarrow> nat \<Rightarrow> bool \<Rightarrow> nat \<Rightarrow> (nat \<Rightarrow> bool) \<Rightarrow> cache \<Rightarrow> 's \<Rightarrow> bool \<times> cache \<times> 's" where
  "Flush wd bs force t pend c st =
     flush_loop wd bs force (wrap64 (t + flushPolicy c)) pend 0 (timestamps c) True c st"

text \<open>
  \<open>Pop\<close> walks the timestamps from the oldest until one row is evicted. \<open>kept\<close> are the entries it
  has stepped over (rows that stayed dirty), in reverse.
\<close>

fun pop_loop :: "'s cell_write \<Rightarrow> nat \<Rightarrow> env \<Rightarrow> nat \<Rightarrow> nat \<Rightarrow>
    (nat \<times> nat) list \<Rightarrow> (nat \<times> nat) list \<Rightarrow> cache \<Rightarrow> 's \<Rightarrow> cache \<times> 's" where
  "pop_loop wd bs e k n kept [] c st = (c\<lparr>timestamps := rev kept\<rparr>, st)"
| "pop_loop wd bs e k n kept ((t, row) # ts) c st =
     (let c0 = c\<lparr>timestamps := rev kept @ (t, row) # ts\<rparr>
      in if length (items c) \<noteq> n then (c0, st)
         else if map_find (items c) row = None then pop_loop wd bs e k n kept ts c st
         else let (c1, st1) = (if dirty c row
                               then snd (Flush wd bs False (flushTime e k) (pending e k) c0 st)
                               else (c0, st))
              in if \<not> dirty c1 row
                 then pop_loop wd bs e (Suc k) n kept ts
                        (c1\<lparr>files := (files c1)(row := None), items := map_erase row (items c1)\<rparr>) st1
                 else pop_loop wd bs e (Suc k) n ((t, row) # kept) ts c1 st1)"

definition Pop :: "'s cell_write \<Rightarrow> nat \<Rightarrow> env \<Rightarrow> cache \<Rightarrow> 's \<Rightarrow> cache \<times> 's" where
  "Pop wd bs e c st = pop_loop wd bs e 0 (length (items c)) [] (timestamps c) c st"

text \<open>\<open>std::multimap::emplace\<close> puts an entry behind those with an equal key.\<close>

definition ts_insert :: "nat \<Rightarrow> nat \<Rightarrow> (nat \<times> nat) list \<Rightarrow> (nat \<times> nat) list" where
  "ts_insert t row ts = takeWhile (\<lambda>p. fst p \<le> t) ts @ (t, row) # dropWhile (\<lambda>p. fst p \<le> t) ts"

definition touch :: "nat \<Rightarrow> nat \<Rightarrow> bool \<Rightarrow> cache \<Rightarrow> cache" where
  "touch t row setDirty c =
     (case map_find (items c) row of
        Some it \<Rightarrow>
          c\<lparr>timestamps := ts_insert t row (remove1 (it_timestamp it, row) (timestamps c)),
            items := map_put row \<lparr>it_timestamp = t, it_dirty = (setDirty \<or> it_dirty it)\<rparr> (items c)\<rparr>
      | None \<Rightarrow>
          c\<lparr>timestamps := ts_insert t row (timestamps c),
            items := map_put row \<lparr>it_timestamp = t, it_dirty = setDirty\<rparr> (items c)\<rparr>)"

definition UpdateTimestamp :: "'s cell_write \<Rightarrow> nat \<Rightarrow> env \<Rightarrow> nat \<Rightarrow> bool \<Rightarrow> cache \<Rightarrow> 's \<Rightarrow> cache \<times> 's" where
  "UpdateTimestamp wd bs e row setDirty c st =
     (let c' = touch (now e) row setDirty c
      in if length (items c') > limit c' then Pop wd bs e c' st else (c', st))"

section \<open>Requests\<close>

text \<open>
  \<open>ReadImpl\<close> fetches the whole block (into the caller's buffer when exactly that was asked for,
  into a temporary one otherwise) and hands out the part asked for.
\<close>

definition ReadImpl :: "'s cell_read \<Rightarrow> 's cell_write \<Rightarrow> nat \<Rightarrow> env \<Rightarrow> nat \<Rightarrow> nat \<Rightarrow> nat \<Rightarrow> nat \<Rightarrow>
    cache \<Rightarrow> 's \<Rightarrow> byte list option \<times> cache \<times> 's" where
  "ReadImpl rdd wd bs e row column sz off c st =
     (let (r, c1, st1) =
        (case ReadFileBlock c bs row column of
           Some buf \<Rightarrow> (Some buf, c, st)
         | None \<Rightarrow>
             (case rdd row column bs 0 st of
                (Some buf, st') \<Rightarrow> (Some buf, snd (WriteFileBlock c bs row column buf), st')
              | (None, st') \<Rightarrow> (None, c, st')))
      in let (c2, st2) = UpdateTimestamp wd bs e row False c1 st1
         in (map_option (peek off sz) r, c2, st2))"

definition WriteImpl :: "'s cell_read \<Rightarrow> 's cell_write \<Rightarrow> nat \<Rightarrow> env \<Rightarrow> nat \<Rightarrow> nat \<Rightarrow> byte list \<Rightarrow> nat \<Rightarrow>
    cache \<Rightarrow> 's \<Rightarrow> bool \<times> cache \<times> 's" where
  "WriteImpl rdd wd bs e row column buffer off c st =
     (let (b, c1, st1) =
        (if length buffer = bs \<and> off = 0 then (Some buffer, c, st)
         else let (r, c', st') = ReadImpl rdd wd bs e row column bs 0 c st
              in (map_option (poke off buffer) r, c', st'))
      in case b of
           None \<Rightarrow> (False, c1, st1)
         | Some buf \<Rightarrow>
             (case WriteFileBlock c1 bs row column buf of
                (True, c2) \<Rightarrow> (let (c3, st3) = UpdateTimestamp wd bs e row True c2 st1 in (True, c3, st3))
              | (False, c2) \<Rightarrow> (False, c2, st1)))"

text \<open>
  \<open>Cache::Read\<close> and \<open>Cache::Write\<close>: the checks of the calling thread, then the request is served.
  \<open>ncols\<close> is \<open>DataCount() + CodeCount()\<close>; the state pairs the cache with the world behind it.
  \<open>es k\<close> is the environment while the k-th request is served.
\<close>

definition Cache_Read :: "'s cell_read \<Rightarrow> 's cell_write \<Rightarrow> nat \<Rightarrow> nat \<Rightarrow> (nat \<Rightarrow> env) \<Rightarrow> (cache \<times> 's) cell_read" where
  "Cache_Read rdd wd bs ncols es row column sz off s =
     (let (c, st) = s
      in if \<not> active c \<or> column \<ge> ncols \<or> wrap64 (sz + off) > bs then (None, s)
         else let (r, c', st') = ReadImpl rdd wd bs (es (served c)) row column sz off c st
              in (r, (c'\<lparr>served := Suc (served c)\<rparr>, st')))"

definition Cache_Write :: "'s cell_read \<Rightarrow> 's cell_write \<Rightarrow> nat \<Rightarrow> nat \<Rightarrow> (nat \<Rightarrow> env) \<Rightarrow> (cache \<times> 's) cell_write" where
  "Cache_Write rdd wd bs ncols es row column buffer off s =
     (let (c, st) = s
      in if \<not> active c \<or> column \<ge> ncols \<or> wrap64 (length buffer + off) > bs then (False, s)
         else let (b, c', st') = WriteImpl rdd wd bs (es (served c)) row column buffer off c st
              in (b, (c'\<lparr>served := Suc (served c)\<rparr>, st')))"

text \<open>
  \<open>ThreadProc\<close>: serve everything that is queued, then flush if the last complete flush is old
  enough. The responses are in the order of the requests; \<open>ts\<close> is the time of that last flush.
\<close>

datatype Request =
    ReadRequest (rq_row: nat) (rq_column: nat) (rq_size: nat) (rq_offset: nat)
  | WriteRequest (rq_row: nat) (rq_column: nat) (rq_buffer: "byte list") (rq_offset: nat)

datatype Response = ReadDone "byte list option" | WriteDone bool

fun serve :: "'s cell_read \<Rightarrow> 's cell_write \<Rightarrow> nat \<Rightarrow> nat \<Rightarrow> (nat \<Rightarrow> env) \<Rightarrow> Request \<Rightarrow> cache \<times> 's \<Rightarrow>
    Response \<times> (cache \<times> 's)" where
  "serve rdd wd bs ncols es (ReadRequest row column sz off) s =
     (let (r, s') = Cache_Read rdd wd bs ncols es row column sz off s in (ReadDone r, s'))"
| "serve rdd wd bs ncols es (WriteRequest row column buffer off) s =
     (let (b, s') = Cache_Write rdd wd bs ncols es row column buffer off s in (WriteDone b, s'))"

fun serve_all :: "'s cell_read \<Rightarrow> 's cell_write \<Rightarrow> nat \<Rightarrow> nat \<Rightarrow> (nat \<Rightarrow> env) \<Rightarrow> Request list \<Rightarrow> cache \<times> 's \<Rightarrow>
    Response list \<times> (cache \<times> 's)" where
  "serve_all rdd wd bs ncols es [] s = ([], s)"
| "serve_all rdd wd bs ncols es (q # qs) s =
     (let (r, s') = serve rdd wd bs ncols es q s; (rs, s'') = serve_all rdd wd bs ncols es qs s'
      in (r # rs, s''))"

definition ThreadProc_pass :: "'s cell_read \<Rightarrow> 's cell_write \<Rightarrow> nat \<Rightarrow> nat \<Rightarrow> (nat \<Rightarrow> env) \<Rightarrow>
    Request list \<Rightarrow> nat \<Rightarrow> (nat \<Rightarrow> bool) \<Rightarrow> nat \<Rightarrow> cache \<times> 's \<Rightarrow> Response list \<times> nat \<times> (cache \<times> 's)" where
  "ThreadProc_pass rdd wd bs ncols es reqs t pend ts s =
     (let (rs, s') = serve_all rdd wd bs ncols es reqs s; (c, st) = s'
      in if sub64 t ts < flushPolicy c then (rs, ts, s')
         else let (all, c', st') = Flush wd bs False t pend c st
              in (rs, (if all then t else ts), (c', st')))"

definition Cache_new :: "nat \<Rightarrow> nat \<Rightarrow> (nat \<Rightarrow> byte list option) \<Rightarrow> (nat \<Rightarrow> bool) \<Rightarrow> cache" where
  "Cache_new lim policy fs op =
     \<lparr>limit = lim, flushPolicy = policy, active = True, items = [], timestamps = [],
      files = fs, openable = op, served = 0\<rparr>"

text \<open>The destructor stops the thread and writes everything back.\<close>

definition Cache_destroy :: "'s cell_write \<Rightarrow> nat \<Rightarrow> nat \<Rightarrow> (nat \<Rightarrow> bool) \<Rightarrow> cache \<Rightarrow> 's \<Rightarrow> bool \<times> cache \<times> 's" where
  "Cache_destroy wd bs t pend c st = Flush wd bs True t pend (c\<lparr>active := False\<rparr>) st"

section \<open>What the cache stands for\<close>

definition encode_file :: "(nat \<times> byte list) list \<Rightarrow> byte list" where
  "encode_file al = concat (map (\<lambda>(col, b). le_bytes 8 col @ b) al)"

definition file_rel :: "nat \<Rightarrow> nat \<Rightarrow> byte list \<Rightarrow> (nat \<times> byte list) list \<Rightarrow> bool" where
  "file_rel bs ncols f al \<longleftrightarrow> f = encode_file al \<and> distinct (map fst al) \<and>
     (\<forall>(col, b) \<in> set al. length b = bs \<and> col < ncols)"

definition view :: "nat \<Rightarrow> ('s \<Rightarrow> nat \<Rightarrow> nat \<Rightarrow> byte list) \<Rightarrow> cache \<times> 's \<Rightarrow> nat \<Rightarrow> nat \<Rightarrow> byte list" where
  "view bs cell s row col =
     (case ReadFileBlock (fst s) bs row col of Some b \<Rightarrow> b | None \<Rightarrow> cell (snd s) row col)"

text \<open>
  Coherence: every cache file is a well-formed sequence of records, and the blocks of a row that
  is not dirty agree with the cells behind the cache.
\<close>

definition coherent :: "nat \<Rightarrow> nat \<Rightarrow> ('s \<Rightarrow> nat \<Rightarrow> nat \<Rightarrow> byte list) \<Rightarrow> cache \<times> 's \<Rightarrow> bool" where
  "coherent bs ncols cell s \<longleftrightarrow>
     (\<forall>row f. files (fst s) row = Some f \<longrightarrow> openable (fst s) row \<and>
        (\<exists>al. file_rel bs ncols f al \<and>
           (\<not> dirty (fst s) row \<longrightarrow> (\<forall>(col, b) \<in> set al. cell (snd s) row col = b))))"

text \<open>The index: \<open>timestamps\<close> lists exactly the rows of \<open>items\<close>, each once, oldest first.\<close>

definition index_ok :: "cache \<Rightarrow> bool" where
  "index_ok c \<longleftrightarrow> map_ok (items c) \<and> sorted (map fst (timestamps c)) \<and>
     mset (timestamps c) = mset (map (\<lambda>(row, it). (it_timestamp it, row)) (items c))"

section \<open>What the clients see\<close>

text \<open>
  The specification of the service: a matrix of blocks. A served read returns the bytes of the
  matrix, a served write replaces them, a refused request changes nothing.
\<close>

fun spec_step :: "Request \<Rightarrow> Response \<Rightarrow> (nat \<Rightarrow> nat \<Rightarrow> byte list) \<Rightarrow> (nat \<Rightarrow> nat \<Rightarrow> byte list) option" where
  "spec_step (ReadRequest row col sz off) (ReadDone None) m = Some m"
| "spec_step (ReadRequest row col sz off) (ReadDone (Some d)) m =
     (if d = peek off sz (m row col) then Some m else None)"
| "spec_step (WriteRequest row col d off) (WriteDone b) m =
     Some (if b then m(row := (m row)(col := poke off d (m row col))) else m)"
| "spec_step _ _ m = None"

fun spec_run :: "Request list \<Rightarrow> Response list \<Rightarrow> (nat \<Rightarrow> nat \<Rightarrow> byte list) \<Rightarrow> (nat \<Rightarrow> nat \<Rightarrow> byte list) option" where
  "spec_run [] [] m = Some m"
| "spec_run (q # qs) (r # rs) m = Option.bind (spec_step q r m) (spec_run qs rs)"
| "spec_run _ _ m = None"

text \<open>The end of the range asked for is computed without wrap-around.\<close>

fun request_ok :: "Request \<Rightarrow> bool" where
  "request_ok (ReadRequest row col sz off) = (sz + off < 2 ^ 64)"
| "request_ok (WriteRequest row col d off) = (length d + off < 2 ^ 64)"

definition agree :: "nat \<Rightarrow> (nat \<Rightarrow> nat \<Rightarrow> byte list) \<Rightarrow> (nat \<Rightarrow> nat \<Rightarrow> byte list) \<Rightarrow> bool" where
  "agree ncols m m' \<longleftrightarrow> (\<forall>i k. k < ncols \<longrightarrow> m i k = m' i k)"

section \<open>Cache file lemmas\<close>

lemma encode_file_simps [simp]:
  "encode_file [] = []"
  "encode_file ((col, b) # al) = le_bytes 8 col @ b @ encode_file al"
  "encode_file (al @ bl) = encode_file al @ encode_file bl"
  by (simp_all add: encode_file_def)

lemma length_encode_file:
  "\<forall>(col, b) \<in> set al. length b = bs \<and> P col \<Longrightarrow> length (encode_file al) = (8 + bs) * length al"
  by (induction al) (auto)

lemma peek_skip: "peek (length pre + n) k (pre @ xs) = peek n k xs"
  by (simp add: peek_def)

lemma peek_head: "length xs = k \<Longrightarrow> peek 0 k (xs @ ys) = xs"
  by (simp add: peek_def)

lemma header [simp]: "col < 2 ^ 64 \<Longrightarrow> le_val (peek (length pre) 8 (pre @ le_bytes 8 col @ rest)) = col"
  using peek_skip [of pre 0 8 "le_bytes 8 col @ rest"]
  by (simp add: peek_head)

lemma scan_encode:
  assumes "\<forall>(c, b) \<in> set al. length b = bs \<and> c < 2 ^ 64"
  shows "scan bs col (pre @ encode_file al) (length pre) =
     (if col \<in> fst ` set al
      then let q = length pre + (8 + bs) * length (takeWhile (\<lambda>p. fst p \<noteq> col) al) + 8 in (Some q, q)
      else (None, length pre + (8 + bs) * length al))"
  using assms
proof (induction al arbitrary: pre)
  case Nil
  show ?case by (simp add: scan.simps [of bs col pre])
next
  case (Cons p al)
  obtain c b where p: "p = (c, b)" by fastforce
  with Cons.prems have b: "length b = bs" "c < 2 ^ 64" by auto
  let ?pre = "pre @ le_bytes 8 c @ b"
  have "length (pre @ encode_file (p # al)) \<ge> length pre + 8"
    by (simp add: p)
  moreover have "le_val (peek (length pre) 8 (pre @ encode_file (p # al))) = c"
    using b by (simp add: p)
  ultimately have "scan bs col (pre @ encode_file (p # al)) (length pre) =
      (if c = col then (Some (length pre + 8), length pre + 8)
       else scan bs col (?pre @ encode_file al) (length ?pre))"
    by (subst scan.simps) (simp add: p b algebra_simps)
  with Cons.IH [of ?pre] Cons.prems b show ?case
    by (auto simp: p Let_def algebra_simps)
qed

lemma scan_start:
  assumes "\<forall>(c, b) \<in> set al. length b = bs \<and> c < 2 ^ 64"
  shows "scan bs col (encode_file al) 0 =
     (if col \<in> fst ` set al
      then let q = (8 + bs) * length (takeWhile (\<lambda>p. fst p \<noteq> col) al) + 8 in (Some q, q)
      else (None, (8 + bs) * length al))"
  using scan_encode [OF assms, of col "[]"] by simp

lemma takeWhile_split:
  assumes "col \<in> fst ` set al"
  obtains xs b ys where "al = xs @ (col, b) # ys" and "takeWhile (\<lambda>p. fst p \<noteq> col) al = xs"
    and "col \<notin> fst ` set xs"
proof -
  from assms have "\<exists>p \<in> set al. fst p = col" by auto
  from split_list_first_prop [OF this] obtain xs p ys where
    al: "al = xs @ p # ys" "fst p = col" "\<forall>q \<in> set xs. fst q \<noteq> col" by blast
  show ?thesis
  proof (rule that)
    show "al = xs @ (col, snd p) # ys" using al by auto
    show "takeWhile (\<lambda>p. fst p \<noteq> col) al = xs" using al by (simp add: takeWhile_append2)
    show "col \<notin> fst ` set xs" using al(3) by auto
  qed
qed


lemma map_of_split: "col \<notin> fst ` set xs \<Longrightarrow> map_of (xs @ (col, b) # ys) col = Some b"
proof -
  assume "col \<notin> fst ` set xs"
  then have "map_of xs col = None" by (simp add: map_of_eq_None_iff)
  then show ?thesis by (simp add: map_add_def)
qed

lemma fwrite_at_append: "fwrite_at (length f) d f = f @ d"
  by (simp add: fwrite_at_def)

lemma fwrite_at_mid: "length d = length b \<Longrightarrow> fwrite_at (length pre) d (pre @ b @ rest) = pre @ d @ rest"
  by (simp add: fwrite_at_def poke_def)

lemma read_file_rel:
  assumes "file_rel bs ncols f al" and "ncols \<le> 2 ^ 64" and "bs > 0"
    and "openable c row" and "files c row = Some f"
  shows "ReadFileBlock c bs row col = map_of al col"
proof -
  have al: "\<forall>(c, b) \<in> set al. length b = bs \<and> c < 2 ^ 64" and f: "f = encode_file al"
    using assms(1,2) by (auto simp: file_rel_def)
  show ?thesis
  proof (cases "col \<in> fst ` set al")
    case True
    then obtain xs b ys where x: "al = xs @ (col, b) # ys" "takeWhile (\<lambda>p. fst p \<noteq> col) al = xs"
      "col \<notin> fst ` set xs" by (rule takeWhile_split)
    have b: "length b = bs" using al x(1) by auto
    have pre: "length (encode_file xs) = (8 + bs) * length xs"
      using al x(1) by (simp add: length_encode_file [of xs bs "\<lambda>c. c < 2 ^ 64"])
    have "peek ((8 + bs) * length xs + 8) bs f = b"
      using peek_skip [of "encode_file xs @ le_bytes 8 col" 0 bs "b @ encode_file ys"] b
      by (simp add: f x(1) pre peek_head)
    then show ?thesis
      using True x scan_start [OF al, of col] assms(3,4,5) b map_of_split [OF x(3)]
      by (simp add: ReadFileBlock_def f Let_def)
  next
    case False
    then show ?thesis
      using scan_start [OF al, of col] assms(3,4,5) map_of_eq_None_iff [of al col]
      by (simp add: ReadFileBlock_def f)
  qed
qed

lemma write_file_rel:
  assumes "file_rel bs ncols f al" and "ncols \<le> 2 ^ 64" and "bs > 0"
    and "openable c row" and "files c row = Some f \<or> files c row = None \<and> f = []"
    and "col < ncols" and "length buf = bs"
  obtains f' al' where "WriteFileBlock c bs row col buf = (True, c\<lparr>files := (files c)(row := Some f')\<rparr>)"
    and "file_rel bs ncols f' al'" and "map_of al' = (map_of al)(col \<mapsto> buf)"
proof -
  have al: "\<forall>(c, b) \<in> set al. length b = bs \<and> c < 2 ^ 64" and f: "f = encode_file al"
    using assms(1,2) by (auto simp: file_rel_def)
  have fc: "(case files c row of None \<Rightarrow> [] | Some f \<Rightarrow> f) = f" using assms(5) by auto
  show ?thesis
  proof (cases "col \<in> fst ` set al")
    case True
    then obtain xs b ys where x: "al = xs @ (col, b) # ys" "takeWhile (\<lambda>p. fst p \<noteq> col) al = xs"
      "col \<notin> fst ` set xs" by (rule takeWhile_split)
    let ?al = "xs @ (col, buf) # ys"
    have b: "length b = bs" using al x(1) by auto
    have pre: "length (encode_file xs) = (8 + bs) * length xs"
      using al x(1) by (simp add: length_encode_file [of xs bs "\<lambda>c. c < 2 ^ 64"])
    have w: "fwrite_at ((8 + bs) * length xs + 8) buf f = encode_file ?al"
      using fwrite_at_mid [of buf b "encode_file xs @ le_bytes 8 col" "encode_file ys"] b assms(7) pre
      by (simp add: f x(1))
    show ?thesis
    proof (rule that)
      show "WriteFileBlock c bs row col buf = (True, c\<lparr>files := (files c)(row := Some (encode_file ?al))\<rparr>)"
        using True x scan_start [OF al, of col] assms(4) w
        by (simp add: WriteFileBlock_def Let_def fc f)
      show "file_rel bs ncols (encode_file ?al) ?al"
        using assms(1,7) x(1) by (auto simp: file_rel_def)
      have "col \<notin> fst ` set ys" using assms(1) x(1) by (auto simp: file_rel_def)
      then show "map_of ?al = (map_of al)(col \<mapsto> buf)"
        using x map_of_eq_None_iff [of xs col] by (auto simp: fun_eq_iff map_add_def split: option.splits)
    qed
  next
    case False
    let ?al = "al @ [(col, buf)]"
    have len: "length f = (8 + bs) * length al"
      using al by (simp add: f length_encode_file [of al bs "\<lambda>c. c < 2 ^ 64"])
    have w: "fwrite_at ((8 + bs) * length al + 8) buf (fwrite_at ((8 + bs) * length al) (le_bytes 8 col) f)
        = encode_file ?al"
      using fwrite_at_append [of f "le_bytes 8 col"] fwrite_at_append [of "f @ le_bytes 8 col" buf] len
      by (simp add: f)
    show ?thesis
    proof (rule that)
      show "WriteFileBlock c bs row col buf = (True, c\<lparr>files := (files c)(row := Some (encode_file ?al))\<rparr>)"
        using False scan_start [OF al, of col] assms(4) w
        by (simp add: WriteFileBlock_def Let_def fc f)
      show "file_rel bs ncols (encode_file ?al) ?al"
        using assms(1,6,7) False by (auto simp: file_rel_def)
      have "map_of al col = None" using False by (simp add: map_of_eq_None_iff)
      then show "map_of ?al = (map_of al)(col \<mapsto> buf)"
        by (auto simp: fun_eq_iff map_add_def split: option.splits)
    qed
  qed
qed


section \<open>Frame lemmas\<close>

lemma ReadFileBlock_cong:
  "files c row = files c' row \<Longrightarrow> openable c row = openable c' row \<Longrightarrow>
   ReadFileBlock c bs row col = ReadFileBlock c' bs row col"
  by (simp add: ReadFileBlock_def)

lemma map_find_set_clean:
  "map_find (set_clean row its) r = (case map_find its r of None \<Rightarrow> None
     | Some it \<Rightarrow> Some (if r = row then it\<lparr>it_dirty := False\<rparr> else it))"
  by (induction its r rule: map_find.induct) (auto simp: set_clean_def)

lemma set_clean_frame [simp]:
  "length (set_clean row its) = length its" "map fst (set_clean row its) = map fst its"
  "map (\<lambda>(r, it). (it_timestamp it, r)) (set_clean row its) = map (\<lambda>(r, it). (it_timestamp it, r)) its"
  by (induction its) (auto simp: set_clean_def)

lemma dirty_set_clean: "dirty (c\<lparr>items := set_clean row (items c)\<rparr>) r = (dirty c r \<and> r \<noteq> row)"
  by (auto simp: dirty_def map_find_set_clean split: option.splits)

text \<open>What a flush leaves alone: everything but the dirty flags.\<close>

definition flush_frame :: "cache \<Rightarrow> cache \<Rightarrow> bool" where
  "flush_frame c c' \<longleftrightarrow> files c' = files c \<and> openable c' = openable c \<and> timestamps c' = timestamps c \<and>
     limit c' = limit c \<and> flushPolicy c' = flushPolicy c \<and> active c' = active c \<and>
     map fst (items c') = map fst (items c) \<and>
     map (\<lambda>(r, it). (it_timestamp it, r)) (items c') = map (\<lambda>(r, it). (it_timestamp it, r)) (items c)"

lemma flush_frame_refl [simp]: "flush_frame c c"
  by (simp add: flush_frame_def)

lemma flush_frame_trans: "flush_frame a b \<Longrightarrow> flush_frame b c \<Longrightarrow> flush_frame a c"
  by (simp add: flush_frame_def)

lemma flush_row_frame: "flush_row wd bs row all c st = (a, c', st') \<Longrightarrow> flush_frame c c'"
  by (auto simp: flush_row_def flush_frame_def split: if_splits option.splits prod.splits bool.splits)

lemma flush_loop_frame:
  "flush_loop wd bs force expire pend n ts all c st = (a, c', st') \<Longrightarrow> flush_frame c c'"
proof (induction ts arbitrary: n all c st)
  case (Cons p ts)
  obtain t row where p: "p = (t, row)" by fastforce
  obtain a1 c1 st1 where f: "flush_row wd bs row all c st = (a1, c1, st1)" by (metis prod.collapse)
  from Cons.prems consider "c' = c" | "flush_loop wd bs force expire pend n ts all c st = (a, c', st')"
    | "c' = c1" | "flush_loop wd bs force expire pend (Suc n) ts a1 c1 st1 = (a, c', st')"
    by (auto simp: p f split: if_splits)
  then show ?case
    using Cons.IH flush_row_frame [OF f] by cases (auto intro: flush_frame_trans)
qed simp

lemma Flush_frame: "Flush wd bs force t pend c st = (a, c', st') \<Longrightarrow> flush_frame c c'"
  unfolding Flush_def by (rule flush_loop_frame)

lemma flush_frame_length: "flush_frame c c' \<Longrightarrow> length (items c') = length (items c)"
  by (metis flush_frame_def length_map)

lemma touch_frame:
  "files (touch t row d c) = files c" "openable (touch t row d c) = openable c"
  "limit (touch t row d c) = limit c" "active (touch t row d c) = active c"
  "flushPolicy (touch t row d c) = flushPolicy c"
  by (auto simp: touch_def split: option.splits)

lemma dirty_touch: "dirty (touch t row d c) i = (if i = row then d \<or> dirty c row else dirty c i)"
  by (auto simp: touch_def dirty_def split: option.splits)

lemma pop_loop_frame:
  "pop_loop wd bs e k n kept ts c st = (c', st') \<Longrightarrow>
   active c' = active c \<and> limit c' = limit c \<and> openable c' = openable c"
proof (induction ts arbitrary: k kept c st)
  case (Cons p ts)
  obtain t row where p: "p = (t, row)" by fastforce
  let ?c0 = "c\<lparr>timestamps := rev kept @ (t, row) # ts\<rparr>"
  obtain c1 st1 where f: "(if dirty c row then snd (Flush wd bs False (flushTime e k) (pending e k) ?c0 st)
      else (?c0, st)) = (c1, st1)" by fastforce
  have "flush_frame ?c0 c1"
  proof (cases "dirty c row")
    case True
    then obtain a where "Flush wd bs False (flushTime e k) (pending e k) ?c0 st = (a, c1, st1)"
      using f by (metis prod.collapse)
    then show ?thesis by (rule Flush_frame)
  qed (use f in simp)
  then have c1: "active c1 = active c" "limit c1 = limit c" "openable c1 = openable c"
    by (simp_all add: flush_frame_def)
  let ?c2 = "c1\<lparr>files := (files c1)(row := None), items := map_erase row (items c1)\<rparr>"
  consider "length (items c) \<noteq> n" | "length (items c) = n" "map_find (items c) row = None"
    | "length (items c) = n" "map_find (items c) row \<noteq> None" "\<not> dirty c1 row"
    | "length (items c) = n" "map_find (items c) row \<noteq> None" "dirty c1 row" by blast
  then consider "c' = ?c0" | "pop_loop wd bs e k n kept ts c st = (c', st')"
    | "pop_loop wd bs e (Suc k) n kept ts ?c2 st1 = (c', st')"
    | "pop_loop wd bs e (Suc k) n ((t, row) # kept) ts c1 st1 = (c', st')"
    using Cons.prems by cases (simp_all only: p pop_loop.simps Let_def f if_True if_False simp_thms prod.case prod.inject)
  then show ?case
    by cases (use Cons.IH c1 in \<open>fastforce+\<close>)
qed auto

lemma UpdateTimestamp_frame:
  "UpdateTimestamp wd bs e row d c st = (c', st') \<Longrightarrow>
   active c' = active c \<and> limit c' = limit c \<and> openable c' = openable c"
  by (cases "length (items (touch (now e) row d c)) > limit (touch (now e) row d c)")
     (auto simp: UpdateTimestamp_def Pop_def Let_def touch_frame dest: pop_loop_frame)

section \<open>Write-back\<close>

context block_store
begin

lemma flush_file_spec:
  assumes "ok st" and "\<forall>(c, b) \<in> set al. length b = bs \<and> c < ncols" and "ncols \<le> 2 ^ 64"
    and "distinct (map fst al)"
    and "flush_file wr bs row (pre @ encode_file al) (length pre) st = (r, st')"
  shows "ok st' \<and> (r \<longrightarrow> (\<forall>(c, b) \<in> set al. cell st' row c = b)) \<and>
    (\<forall>i c. c < ncols \<longrightarrow> i \<noteq> row \<or> c \<notin> fst ` set al \<longrightarrow> cell st' i c = cell st i c)"
  using assms
proof (induction al arbitrary: pre st)
  case Nil
  then show ?case by (simp add: flush_file.simps [of wr bs row pre])
next
  case (Cons p al)
  obtain c b where p: "p = (c, b)" by fastforce
  with Cons.prems have b: "length b = bs" "c < ncols" "c < 2 ^ 64" by auto
  let ?f = "pre @ encode_file (p # al)" and ?pre = "pre @ le_bytes 8 c @ b"
  have h: "length pre + 8 \<le> length ?f" "le_val (peek (length pre) 8 ?f) = c"
    using b by (simp_all add: p)
  have d: "peek (length pre + 8) bs ?f = b"
    using peek_skip [of "pre @ le_bytes 8 c" 0 bs "b @ encode_file al"] b by (simp add: p peek_head)
  obtain w st1 where w: "wr row c b 0 st = (w, st1)" by fastforce
  have c0: "length (cell st row c) = bs" using cell_len Cons.prems(1) b by simp
  note frame = wr_frame [OF Cons.prems(1) b(2) _ w] and ok1 = wr_ok [OF Cons.prems(1) b(2) _ w]
  show ?case
  proof (cases w)
    case False
    then have "r = False" "st' = st1"
      using Cons.prems(5) h d b w by (simp_all add: flush_file.simps [of wr bs row ?f])
    with ok1 frame b show ?thesis by (auto simp: p)
  next
    case True
    have w': "wr row c b 0 st = (True, st1)" using w True by simp
    have cellc: "cell st1 row c = b"
      using wr_data [OF Cons.prems(1) b(2) _ w'] b c0 by simp
    have "flush_file wr bs row ?f (length pre) st = flush_file wr bs row ?f (length pre + 8 + bs) st1"
      using h d b w True by (subst flush_file.simps) simp
    then have "flush_file wr bs row (?pre @ encode_file al) (length ?pre) st1 = (r, st')"
      using Cons.prems(5) b by (simp add: p add.assoc)
    from Cons.IH [OF ok1 _ Cons.prems(3) _ this] Cons.prems(2,4) b
    have IH: "ok st'" "r \<longrightarrow> (\<forall>(c, b) \<in> set al. cell st' row c = b)"
        "\<forall>i k. k < ncols \<longrightarrow> i \<noteq> row \<or> k \<notin> fst ` set al \<longrightarrow> cell st' i k = cell st1 i k"
      by (auto simp: p)
    have "c \<notin> fst ` set al" using Cons.prems(4) by (auto simp: p)
    then have "cell st' row c = b" using IH(3) b cellc by auto
    moreover have "cell st' i k = cell st i k" if "k < ncols" "i \<noteq> row \<or> k \<notin> fst ` set (p # al)" for i k
      using IH(3) frame that b by (auto simp: p)
    ultimately show ?thesis using IH by (auto simp: p)
  qed
qed

end


lemma view_pair:
  "view bs cell (c, st) row col = (case ReadFileBlock c bs row col of Some b \<Rightarrow> b | None \<Rightarrow> cell st row col)"
  by (simp add: view_def cong: option.case_cong)

lemma map_find_erase_other: "j \<noteq> k \<Longrightarrow> map_find (map_erase k m) j = map_find m j"
  by (induction k m rule: map_erase.induct) auto

lemma coherentD:
  assumes "coherent bs ncols cell (c, st)" and "files c row = Some f"
  obtains al where "openable c row" and "file_rel bs ncols f al"
    and "\<not> dirty c row \<longrightarrow> (\<forall>(col, b) \<in> set al. cell st row col = b)"
  using assms unfolding coherent_def by fastforce

text \<open>
  The cache on top of a store: the coherence invariant is kept by every operation, and the
  cells seen through the cache change only as the requests say.
\<close>

locale cached_store = block_store +
  fixes es :: "nat \<Rightarrow> env"
  assumes bs_pos: "bs > 0" and ncols_le: "ncols \<le> 2 ^ 64"
begin

lemma read_None: "files c row = None \<Longrightarrow> ReadFileBlock c bs row col = None"
  using bs_pos by (simp add: ReadFileBlock_def)

lemma read_rel:
  "openable c row \<Longrightarrow> files c row = Some f \<Longrightarrow> file_rel bs ncols f al \<Longrightarrow> ReadFileBlock c bs row col = map_of al col"
  using read_file_rel bs_pos ncols_le by blast

lemma view_frame:
  assumes "coherent bs ncols cell (c, st)" and "files c' = files c" and "openable c' = openable c"
    and "\<And>f al. files c row = Some f \<Longrightarrow> file_rel bs ncols f al \<Longrightarrow> col \<notin> fst ` set al \<Longrightarrow> cell st' row col = cell st row col"
    and "files c row = None \<Longrightarrow> cell st' row col = cell st row col"
  shows "view bs cell (c', st') row col = view bs cell (c, st) row col"
proof (cases "files c row")
  case None
  then show ?thesis using assms by (simp add: view_def read_None)
next
  case (Some f)
  from assms(1) this obtain al where al: "openable c row" "file_rel bs ncols f al"
    by (rule coherentD)
  have r: "ReadFileBlock c bs row col = map_of al col" "ReadFileBlock c' bs row col = map_of al col"
    using al Some assms(2,3) by (simp_all add: read_rel)
  show ?thesis
  proof (cases "col \<in> fst ` set al")
    case True
    then obtain b where "map_of al col = Some b" by (metis map_of_eq_None_iff not_None_eq)
    with r show ?thesis by (simp add: view_def)
  next
    case False
    then have "map_of al col = None" by (simp add: map_of_eq_None_iff)
    with r assms(4) [OF Some al(2) False] show ?thesis by (simp add: view_def)
  qed
qed

lemma flush_row_coherent:
  assumes "ok st" and "coherent bs ncols cell (c, st)" and "dirty c row"
    and "flush_row wr bs row all c st = (a, c', st')"
  shows "ok st' \<and> coherent bs ncols cell (c', st') \<and>
    (\<forall>i col. col < ncols \<longrightarrow> view bs cell (c', st') i col = view bs cell (c, st) i col)"
proof (cases "openable c row \<and> files c row \<noteq> None")
  case False
  then have "c' = c \<and> st' = st" using assms(4) by (auto simp: flush_row_def split: if_splits option.splits)
  with assms show ?thesis by simp
next
  case True
  then obtain f where f: "files c row = Some f" by auto
  from assms(2) f obtain al where al: "file_rel bs ncols f al" by (rule coherentD)
  obtain r st1 where r: "flush_file wr bs row f 0 st = (r, st1)" by fastforce
  have st1: "st' = st1" and c': "c' = (if r then c\<lparr>items := set_clean row (items c)\<rparr> else c)"
    using assms(4) True f r by (auto simp: flush_row_def split: bool.splits)
  have fl: "ok st1" "r \<longrightarrow> (\<forall>(c, b) \<in> set al. cell st1 row c = b)"
      "\<forall>i c. c < ncols \<longrightarrow> i \<noteq> row \<or> c \<notin> fst ` set al \<longrightarrow> cell st1 i c = cell st i c"
    using flush_file_spec [OF assms(1) _ ncols_le, of al row "[]" r st1] al r
    by (auto simp: file_rel_def)
  have dirt: "dirty c' i \<longleftrightarrow> dirty c i \<and> (r \<longrightarrow> i \<noteq> row)" for i
    using c' by (auto simp: dirty_set_clean)
  have same: "files c' = files c" "openable c' = openable c" using c' by auto
  have "coherent bs ncols cell (c', st1)"
    unfolding coherent_def
  proof (intro allI impI)
    fix i g assume "files (fst (c', st1)) i = Some g"
    then have g: "files c i = Some g" using same by simp
    from assms(2) g obtain bl where bl: "openable c i" "file_rel bs ncols g bl"
      "\<not> dirty c i \<longrightarrow> (\<forall>(col, b) \<in> set bl. cell st i col = b)" by (rule coherentD)
    show "openable (fst (c', st1)) i \<and> (\<exists>al. file_rel bs ncols g al \<and>
       (\<not> dirty (fst (c', st1)) i \<longrightarrow> (\<forall>(col, b) \<in> set al. cell (snd (c', st1)) i col = b)))"
    proof (cases "i = row")
      case True
      with fl(2) al f g bl(1) same dirt assms(3) show ?thesis by auto
    next
      case False
      then have "\<forall>(col, b) \<in> set bl. cell st1 i col = cell st i col"
        using fl(3) bl(2) by (auto simp: file_rel_def)
      with False bl same dirt show ?thesis by fastforce
    qed
  qed
  moreover have "view bs cell (c', st1) i col = view bs cell (c, st) i col" if "col < ncols" for i col
  proof (rule view_frame [OF assms(2) same])
    fix g bl assume g: "files c i = Some g" "file_rel bs ncols g bl" "col \<notin> fst ` set bl"
    show "cell st1 i col = cell st i col"
    proof (cases "i = row")
      case True
      with g f have "map_of bl col = map_of al col"
        using read_rel [of c row g bl col] read_rel [of c row f al col] al \<open>openable c row \<and> _\<close> by simp
      with g(3) have "col \<notin> fst ` set al" by (simp flip: map_of_eq_None_iff)
      with fl(3) that show ?thesis by simp
    qed (use fl(3) that in simp)
  next
    assume "files c i = None"
    with f have "i \<noteq> row" by auto
    with fl(3) that show "cell st1 i col = cell st i col" by simp
  qed
  ultimately show ?thesis using fl(1) st1 by simp
qed

text \<open>A step that keeps the invariant and the cells seen.\<close>

definition keeps :: "cache \<Rightarrow> 'a \<Rightarrow> cache \<Rightarrow> 'a \<Rightarrow> bool" where
  "keeps c st c' st' \<longleftrightarrow> ok st' \<and> coherent bs ncols cell (c', st') \<and>
     (\<forall>i col. col < ncols \<longrightarrow> view bs cell (c', st') i col = view bs cell (c, st) i col)"

lemma keeps_refl: "ok st \<Longrightarrow> coherent bs ncols cell (c, st) \<Longrightarrow> keeps c st c st"
  by (simp add: keeps_def)

lemma keeps_trans: "keeps a s b t \<Longrightarrow> keeps b t c u \<Longrightarrow> keeps a s c u"
  by (simp add: keeps_def)

lemma keepsD: "keeps c st c' st' \<Longrightarrow> ok st' \<and> coherent bs ncols cell (c', st')"
  by (simp add: keeps_def)

lemma flush_loop_keeps:
  "ok st \<Longrightarrow> coherent bs ncols cell (c, st) \<Longrightarrow>
   flush_loop wr bs force expire pend n ts all c st = (a, c', st') \<Longrightarrow> keeps c st c' st'"
proof (induction ts arbitrary: n all c st)
  case (Cons p ts)
  obtain t row where p: "p = (t, row)" by fastforce
  obtain a1 c1 st1 where f: "flush_row wr bs row all c st = (a1, c1, st1)" by (metis prod.collapse)
  have k: "dirty c row \<Longrightarrow> keeps c st c1 st1"
    using flush_row_coherent [OF Cons.prems(1,2) _ f] by (simp add: keeps_def)
  from Cons.prems(3) consider "c' = c" "st' = st"
    | "flush_loop wr bs force expire pend n ts all c st = (a, c', st')"
    | "dirty c row" "c' = c1" "st' = st1"
    | "dirty c row" "flush_loop wr bs force expire pend (Suc n) ts a1 c1 st1 = (a, c', st')"
    by (auto simp: p f split: if_splits)
  then show ?case
  proof cases
    case 4
    from k [OF 4(1)] Cons.IH [OF _ _ 4(2)] keepsD show ?thesis by (blast intro: keeps_trans)
  qed (use Cons k keeps_refl in auto)
qed (simp add: keeps_refl)

lemma Flush_keeps:
  "ok st \<Longrightarrow> coherent bs ncols cell (c, st) \<Longrightarrow> Flush wr bs force t pend c st = (a, c', st') \<Longrightarrow> keeps c st c' st'"
  unfolding Flush_def by (rule flush_loop_keeps)

lemma coherent_timestamps [simp]: "coherent bs ncols cell (c\<lparr>timestamps := x\<rparr>, st) = coherent bs ncols cell (c, st)"
  by (simp add: coherent_def dirty_def)

lemma view_timestamps [simp]: "view bs cell (c\<lparr>timestamps := x\<rparr>, st) = view bs cell (c, st)"
  by (simp add: fun_eq_iff view_pair ReadFileBlock_def)

lemma keeps_timestamps: "keeps (c\<lparr>timestamps := x\<rparr>) st c' st' = keeps c st c' st'"
  by (simp add: keeps_def)

lemma evict_keeps:
  assumes "ok st" and "coherent bs ncols cell (c, st)" and "\<not> dirty c row"
  shows "keeps c st (c\<lparr>files := (files c)(row := None), items := map_erase row (items c)\<rparr>) st"
proof -
  let ?c = "c\<lparr>files := (files c)(row := None), items := map_erase row (items c)\<rparr>"
  have d: "i \<noteq> row \<Longrightarrow> dirty ?c i = dirty c i" for i
    by (simp add: dirty_def map_find_erase_other)
  have "coherent bs ncols cell (?c, st)"
    using assms(2) d unfolding coherent_def by auto
  moreover have "view bs cell (?c, st) i col = view bs cell (c, st) i col" for i col
  proof (cases "i = row")
    case False
    then have "ReadFileBlock ?c bs i col = ReadFileBlock c bs i col" by (simp add: ReadFileBlock_def)
    then show ?thesis by (simp add: view_pair)
  next
    case True
    have n: "ReadFileBlock ?c bs row col = None" by (simp add: read_None)
    show ?thesis
    proof (cases "files c row")
      case None
      then show ?thesis using n True by (simp add: view_pair read_None)
    next
      case (Some f)
      with assms(2) obtain al where al: "openable c row" "file_rel bs ncols f al"
        "\<not> dirty c row \<longrightarrow> (\<forall>(col, b) \<in> set al. cell st row col = b)" by (rule coherentD)
      have "map_of al col = Some b \<Longrightarrow> cell st row col = b" for b
        using al(3) assms(3) by (auto dest: map_of_SomeD)
      then show ?thesis
        using n True read_rel [OF al(1) Some al(2), of col] by (auto simp: view_pair split: option.splits)
    qed
  qed
  ultimately show ?thesis using assms(1) by (simp add: keeps_def)
qed

lemma pop_loop_keeps:
  "ok st \<Longrightarrow> coherent bs ncols cell (c, st) \<Longrightarrow>
   pop_loop wr bs e k n kept ts c st = (c', st') \<Longrightarrow> keeps c st c' st'"
proof (induction ts arbitrary: k kept c st)
  case Nil
  then show ?case by (auto simp: keeps_def)
next
  case (Cons p ts)
  obtain t row where p: "p = (t, row)" by fastforce
  let ?c0 = "c\<lparr>timestamps := rev kept @ (t, row) # ts\<rparr>"
  obtain c1 st1 where f: "(if dirty c row then snd (Flush wr bs False (flushTime e k) (pending e k) ?c0 st)
      else (?c0, st)) = (c1, st1)" by fastforce
  have k0: "keeps c st ?c0 st" using Cons.prems(1,2) by (simp add: keeps_def)
  have k1: "keeps c st c1 st1"
  proof (cases "dirty c row")
    case True
    then obtain a where "Flush wr bs False (flushTime e k) (pending e k) ?c0 st = (a, c1, st1)"
      using f by (metis prod.collapse)
    with Cons.prems(1,2) have "keeps ?c0 st c1 st1" by (intro Flush_keeps) simp_all
    then show ?thesis by (simp only: keeps_timestamps)
  next
    case False
    with f k0 show ?thesis by simp
  qed
  let ?c2 = "c1\<lparr>files := (files c1)(row := None), items := map_erase row (items c1)\<rparr>"
  consider "length (items c) \<noteq> n" | "length (items c) = n" "map_find (items c) row = None"
    | "length (items c) = n" "map_find (items c) row \<noteq> None" "\<not> dirty c1 row"
    | "length (items c) = n" "map_find (items c) row \<noteq> None" "dirty c1 row" by blast
  then consider "c' = ?c0" "st' = st" | "pop_loop wr bs e k n kept ts c st = (c', st')"
    | "\<not> dirty c1 row" "pop_loop wr bs e (Suc k) n kept ts ?c2 st1 = (c', st')"
    | "pop_loop wr bs e (Suc k) n ((t, row) # kept) ts c1 st1 = (c', st')"
    using Cons.prems(3) by cases (simp_all only: p pop_loop.simps Let_def f if_True if_False simp_thms prod.case prod.inject)
  then show ?case
  proof cases
    case 3
    from k1 have "keeps c1 st1 ?c2 st1" using evict_keeps [OF _ _ 3(1)] by (simp add: keeps_def)
    with k1 have "keeps c st ?c2 st1" by (rule keeps_trans)
    moreover have "keeps ?c2 st1 c' st'" using Cons.IH [OF _ _ 3(2)] calculation keepsD by blast
    ultimately show ?thesis by (rule keeps_trans)
  next
    case 4
    from k1 Cons.IH [OF _ _ 4] keepsD show ?thesis by (blast intro: keeps_trans)
  qed (use Cons k0 in auto)
qed

lemma UpdateTimestamp_keeps:
  assumes "ok st" and "coherent bs ncols cell (touch (now e) row d c, st)"
    and "UpdateTimestamp wr bs e row d c st = (c', st')"
  shows "keeps (touch (now e) row d c) st c' st'"
proof -
  let ?c = "touch (now e) row d c"
  show ?thesis
  proof (cases "length (items ?c) > limit ?c")
    case True
    then have "pop_loop wr bs e 0 (length (items ?c)) [] (timestamps ?c) ?c st = (c', st')"
      using assms(3) by (simp only: UpdateTimestamp_def Pop_def Let_def if_True)
    then show ?thesis by (rule pop_loop_keeps [OF assms(1,2)])
  next
    case False
    then have "c' = ?c \<and> st' = st"
      using assms(3) by (simp only: UpdateTimestamp_def Let_def if_False prod.inject)
    then show ?thesis using assms(1,2) by (simp add: keeps_refl)
  qed
qed

lemma view_touch [simp]: "view bs cell (touch t row d c, st) = view bs cell (c, st)"
  by (simp add: fun_eq_iff view_pair ReadFileBlock_def touch_frame)

lemma coherent_touch:
  assumes "coherent bs ncols cell (c, st)"
  shows "coherent bs ncols cell (touch t row d c, st)"
proof -
  have "\<not> dirty (touch t row d c) i \<Longrightarrow> \<not> dirty c i" for i
    by (auto simp: dirty_touch split: if_splits)
  with assms show ?thesis unfolding coherent_def by (simp add: touch_frame) blast
qed


lemma map_of_file: "file_rel bs ncols f al \<Longrightarrow> (k, b) \<in> set al \<longleftrightarrow> map_of al k = Some b"
  by (simp add: file_rel_def map_of_eq_Some_iff)

text \<open>Storing a block in a row file: the row must be dirty afterwards unless the block is the cell's.\<close>

lemma store_block:
  assumes "coherent bs ncols cell (c, st)" and "openable c row" and "col < ncols" and "length buf = bs"
    and "d \<or> dirty c row \<or> buf = cell st row col"
  obtains c' where "WriteFileBlock c bs row col buf = (True, c')"
    and "\<And>t. coherent bs ncols cell (touch t row d c', st)"
    and "\<not> d \<Longrightarrow> coherent bs ncols cell (c', st)"
    and "\<And>i k. view bs cell (c', st) i k = (if i = row \<and> k = col then buf else view bs cell (c, st) i k)"
    and "items c' = items c" "timestamps c' = timestamps c" "limit c' = limit c" "active c' = active c"
proof -
  obtain f al where f: "files c row = Some f \<or> files c row = None \<and> f = []" "file_rel bs ncols f al"
    and cl: "\<not> dirty c row \<longrightarrow> (\<forall>(col, b) \<in> set al. cell st row col = b)"
    and rd: "\<And>k. ReadFileBlock c bs row k = map_of al k"
  proof (cases "files c row")
    case None
    then show ?thesis by (intro that [of "[]" "[]"]) (auto simp: file_rel_def encode_file_def read_None)
  next
    case (Some f)
    from assms(1) Some obtain al where "openable c row" "file_rel bs ncols f al"
      "\<not> dirty c row \<longrightarrow> (\<forall>(col, b) \<in> set al. cell st row col = b)" by (rule coherentD)
    with Some read_rel show ?thesis by (intro that [of f al]) auto
  qed
  obtain f' al' where w: "WriteFileBlock c bs row col buf = (True, c\<lparr>files := (files c)(row := Some f')\<rparr>)"
    and f': "file_rel bs ncols f' al'" and m: "map_of al' = (map_of al)(col \<mapsto> buf)"
    by (rule write_file_rel [OF f(2) ncols_le bs_pos assms(2) f(1) assms(3,4)])
  let ?c = "c\<lparr>files := (files c)(row := Some f')\<rparr>"
  have dc: "dirty ?c = dirty c" by (simp add: dirty_def fun_eq_iff)
  have clean: "\<forall>(k, b) \<in> set al'. cell st row k = b" if "\<not> d" "\<not> dirty c row"
    using that cl assms(5) map_of_file [OF f'] map_of_file [OF f(2)] m by (fastforce split: if_splits)
  have coh: "coherent bs ncols cell (c', st)"
    if c': "files c' = files ?c" "openable c' = openable ?c" "\<And>i. dirty c' i = (dirty c i \<or> i = row \<and> d)" for c'
    unfolding coherent_def
  proof (intro allI impI)
    fix i g assume g: "files (fst (c', st)) i = Some g"
    show "openable (fst (c', st)) i \<and> (\<exists>al. file_rel bs ncols g al \<and>
       (\<not> dirty (fst (c', st)) i \<longrightarrow> (\<forall>(col, b) \<in> set al. cell (snd (c', st)) i col = b)))"
    proof (cases "i = row")
      case True
      with g c' assms(2) f' clean show ?thesis by auto
    next
      case False
      with g c' have gi: "files c i = Some g" by simp
      from assms(1) gi obtain bl where "openable c i" "file_rel bs ncols g bl"
        "\<not> dirty c i \<longrightarrow> (\<forall>(col, b) \<in> set bl. cell st i col = b)" by (rule coherentD)
      with False c' show ?thesis by auto
    qed
  qed
  show ?thesis
  proof (rule that [OF w])
    show "coherent bs ncols cell (touch t row d ?c, st)" for t
      by (rule coh) (auto simp: touch_frame dirty_touch dc)
    show "coherent bs ncols cell (?c, st)" if "\<not> d"
      using that by (intro coh) (auto simp: dc)
    fix i k
    have "ReadFileBlock ?c bs i k = (if i = row \<and> k = col then Some buf else ReadFileBlock c bs i k)"
    proof (cases "i = row")
      case True
      have "ReadFileBlock ?c bs row k = map_of al' k" using assms(2) f' by (intro read_rel) auto
      with True m rd show ?thesis by simp
    qed (auto intro: ReadFileBlock_cong)
    then show "view bs cell (?c, st) i k = (if i = row \<and> k = col then buf else view bs cell (c, st) i k)"
      by (simp add: view_pair)
  qed auto
qed

lemma store_blockD:
  assumes "coherent bs ncols cell (c, st)" and "openable c row" and "col < ncols" and "length buf = bs"
    and "d \<or> dirty c row \<or> buf = cell st row col" and "WriteFileBlock c bs row col buf = (w, c')"
  shows "w" and "coherent bs ncols cell (touch t row d c', st)"
    and "\<not> d \<Longrightarrow> coherent bs ncols cell (c', st)"
    and "view bs cell (c', st) i k = (if i = row \<and> k = col then buf else view bs cell (c, st) i k)"
  by (rule store_block [OF assms(1-5)]; use assms(6) in simp)+

lemma view_len:
  assumes "ok st" "coherent bs ncols cell (c, st)" "col < ncols"
  shows "length (view bs cell (c, st) row col) = bs"
  using cell_len [OF assms(1,3)] by (simp add: view_pair ReadFileBlock_def Let_def split: option.splits if_splits)

lemma same_cells_keeps:
  assumes "ok st'" and "coherent bs ncols cell (c, st)"
    and eq: "\<And>i k. k < ncols \<Longrightarrow> cell st' i k = cell st i k"
  shows "keeps c st c st'"
proof -
  have "coherent bs ncols cell (c, st')"
    unfolding coherent_def
  proof (intro allI impI)
    fix i g assume "files (fst (c, st')) i = Some g"
    then have g: "files c i = Some g" by simp
    from assms(2) g obtain bl where "openable c i" "file_rel bs ncols g bl"
      "\<not> dirty c i \<longrightarrow> (\<forall>(col, b) \<in> set bl. cell st i col = b)" by (rule coherentD)
    moreover have "\<forall>(col, b) \<in> set bl. cell st' i col = cell st i col"
      using calculation(2) eq by (auto simp: file_rel_def)
    ultimately show "openable (fst (c, st')) i \<and> (\<exists>al. file_rel bs ncols g al \<and>
       (\<not> dirty (fst (c, st')) i \<longrightarrow> (\<forall>(col, b) \<in> set al. cell (snd (c, st')) i col = b)))"
      by fastforce
  qed
  with assms(1) eq show ?thesis by (simp add: keeps_def view_pair split: option.splits)
qed

lemma ReadImpl_spec:
  assumes "ok st" and "coherent bs ncols cell (c, st)" and "col < ncols" and "off + sz \<le> bs"
    and "ReadImpl rd wr bs e row col sz off c st = (r, c', st')"
  shows "keeps c st c' st' \<and> (\<forall>d. r = Some d \<longrightarrow> d = peek off sz (view bs cell (c, st) row col))"
proof -
  obtain b c1 st1 where f: "(case ReadFileBlock c bs row col of
           Some buf \<Rightarrow> (Some buf, c, st)
         | None \<Rightarrow>
             (case rd row col bs 0 st of
                (Some buf, st') \<Rightarrow> (Some buf, snd (WriteFileBlock c bs row col buf), st')
              | (None, st') \<Rightarrow> (None, c, st'))) = (b, c1, st1)" by (rule prod_cases3)
  have fill: "keeps c st c1 st1 \<and> (\<forall>d. b = Some d \<longrightarrow> d = view bs cell (c, st) row col)"
  proof (cases "ReadFileBlock c bs row col")
    case (Some buf)
    with f show ?thesis using assms(1,2) by (auto simp: keeps_refl view_pair)
  next
    case None
    obtain q st2 where q: "rd row col bs 0 st = (q, st2)" by fastforce
    have ok2: "ok st2" and fr: "\<And>i k. k < ncols \<Longrightarrow> cell st2 i k = cell st i k"
      using rd_ok [OF assms(1,3) _ q] rd_frame [OF assms(1,3) _ q] by auto
    have st1: "st1 = st2" using f None q by (auto split: option.splits)
    have k: "keeps c st c st2" using ok2 assms(2) fr by (rule same_cells_keeps)
    show ?thesis
    proof (cases q)
      case qn: None
      with f None q k show ?thesis by simp
    next
      case (Some buf)
      have buf: "buf = cell st row col"
        by (rule rd_whole [OF assms(1,3) q [unfolded Some]])
      have c1: "c1 = snd (WriteFileBlock c bs row col buf)" "b = Some buf" using f None q Some by auto
      have v: "view bs cell (c, st) row col = buf" using None buf by (simp add: view_pair)
      have "keeps c st2 c1 st2"
      proof (cases "openable c row")
        case True
        have len: "length buf = bs" using buf cell_len [OF assms(1,3)] by simp
        have co: "coherent bs ncols cell (c, st2)" using k by (rule keepsD [THEN conjunct2])
        have same: "buf = cell st2 row col" using buf fr assms(3) by simp
        obtain w c2 where w: "WriteFileBlock c bs row col buf = (w, c2)" by fastforce
        note st = store_blockD [OF co True assms(3) len _ w, of False]
        have "coherent bs ncols cell (c2, st2)" using st(3) same by blast
        moreover have "view bs cell (c2, st2) i k = view bs cell (c, st2) i k" for i k
          using st(4) same None by (simp add: view_pair)
        ultimately show ?thesis using c1 ok2 w by (simp add: keeps_def)
      next
        case False
        with c1 k ok2 show ?thesis by (simp add: WriteFileBlock_def keeps_def)
      qed
      with k st1 v c1 show ?thesis using keeps_trans by blast
    qed
  qed
  obtain c2 st2 where u: "UpdateTimestamp wr bs e row False c1 st1 = (c2, st2)" by fastforce
  have res: "r = map_option (peek off sz) b" "c' = c2" "st' = st2"
    using assms(5) u unfolding ReadImpl_def f by simp_all
  have "keeps (touch (now e) row False c1) st1 c2 st2"
    using fill keepsD coherent_touch u by (intro UpdateTimestamp_keeps) blast+
  then have "keeps c1 st1 c2 st2" by (simp add: keeps_def)
  with fill have "keeps c st c' st'" using res keeps_trans by blast
  with fill res(1) show ?thesis by auto
qed


lemma ReadImpl_active: "ReadImpl rd wr bs e row col sz off c st = (r, c', st') \<Longrightarrow> active c' = active c"
proof -
  have w: "active (snd (WriteFileBlock c bs row col buf)) = active c" for c buf
    by (simp add: WriteFileBlock_def Let_def)
  assume "ReadImpl rd wr bs e row col sz off c st = (r, c', st')"
  then show ?thesis
    by (auto simp: ReadImpl_def Let_def w dest!: UpdateTimestamp_frame split: option.splits prod.splits)
qed

lemma write_touch:
  assumes "ok st" and "coherent bs ncols cell (c, st)" and "col < ncols" and "length buf = bs" and "openable c row"
    and "WriteFileBlock c bs row col buf = (True, c1)" and "UpdateTimestamp wr bs e row True c1 st = (c', st')"
  shows "ok st' \<and> coherent bs ncols cell (c', st') \<and>
    (\<forall>i k. k < ncols \<longrightarrow> view bs cell (c', st') i k = (if i = row \<and> k = col then buf else view bs cell (c, st) i k))"
proof -
  note st = store_blockD [OF assms(2,5,3,4) _ assms(6), of True]
  have co: "coherent bs ncols cell (touch (now e) row True c1, st)" using st(2) by blast
  have v: "\<And>i k. view bs cell (c1, st) i k = (if i = row \<and> k = col then buf else view bs cell (c, st) i k)"
    using st(4) by blast
  from UpdateTimestamp_keeps [OF assms(1) co assms(7)] v show ?thesis by (simp add: keeps_def)
qed

lemma WriteImpl_spec:
  assumes "ok st" and "coherent bs ncols cell (c, st)" and "col < ncols" and "off + length d \<le> bs"
    and "WriteImpl rd wr bs e row col d off c st = (b, c', st')"
  shows "if b then ok st' \<and> coherent bs ncols cell (c', st') \<and>
      (\<forall>i k. k < ncols \<longrightarrow> view bs cell (c', st') i k =
         (if i = row \<and> k = col then poke off d (view bs cell (c, st) row col) else view bs cell (c, st) i k))
    else keeps c st c' st'"
proof -
  let ?v = "view bs cell (c, st) row col"
  obtain q c1 st1 where q: "(if length d = bs \<and> off = 0 then (Some d, c, st)
         else let (r, c', st') = ReadImpl rd wr bs e row col bs 0 c st
              in (map_option (poke off d) r, c', st')) = (q, c1, st1)" by (rule prod_cases3)
  have lv: "length ?v = bs" using assms(1-3) by (rule view_len)
  have pre: "keeps c st c1 st1 \<and> (\<forall>x. q = Some x \<longrightarrow> x = poke off d ?v)"
  proof (cases "length d = bs \<and> off = 0")
    case True
    with q assms(1,2) lv show ?thesis by (auto simp: keeps_refl)
  next
    case False
    obtain r c2 st2 where r: "ReadImpl rd wr bs e row col bs 0 c st = (r, c2, st2)" by (rule prod_cases3)
    have "peek 0 bs ?v = ?v" using lv by (simp add: peek_def)
    then show ?thesis using ReadImpl_spec [OF assms(1-3) _ r] False q r by (auto simp: Let_def)
  qed
  show ?thesis
  proof (cases q)
    case None
    with assms(5) q pre show ?thesis unfolding WriteImpl_def q by simp
  next
    case (Some buf)
    have buf: "buf = poke off d ?v" "length buf = bs" using pre Some lv assms(4) by auto
    have st1: "ok st1" "coherent bs ncols cell (c1, st1)" using pre keepsD by blast+
    obtain w c2 where w: "WriteFileBlock c1 bs row col buf = (w, c2)" by fastforce
    show ?thesis
    proof (cases w)
      case True
      then have op: "openable c1 row" using w bs_pos by (auto simp: WriteFileBlock_def split: if_splits)
      obtain c3 st3 where u: "UpdateTimestamp wr bs e row True c2 st1 = (c3, st3)" by fastforce
      have "b" "c' = c3" "st' = st3" using assms(5) Some w True u unfolding WriteImpl_def q by auto
      with write_touch [OF st1 assms(3) buf(2) op _ u] w True pre buf(1)
      show ?thesis by (simp add: keeps_def)
    next
      case False
      then have "c2 = c1" using w by (auto simp: WriteFileBlock_def Let_def split: if_splits)
      then have "\<not> b" "c' = c1" "st' = st1" using assms(5) Some w False unfolding WriteImpl_def q by auto
      with pre show ?thesis by simp
    qed
  qed
qed

lemma served_frame [simp]:
  "coherent bs ncols cell (c\<lparr>served := x\<rparr>, st) = coherent bs ncols cell (c, st)"
  "view bs cell (c\<lparr>served := x\<rparr>, st) = view bs cell (c, st)"
  by (simp_all add: coherent_def dirty_def fun_eq_iff view_pair ReadFileBlock_def)

lemma Cache_Read_spec:
  assumes "ok (snd s)" and "coherent bs ncols cell s" and "col < ncols" and "off + sz \<le> bs"
    and "Cache_Read rd wr bs ncols es row col sz off s = (r, s')"
  shows "ok (snd s') \<and> coherent bs ncols cell s' \<and> (\<forall>i k. k < ncols \<longrightarrow> view bs cell s' i k = view bs cell s i k) \<and>
    (\<forall>d. r = Some d \<longrightarrow> d = peek off sz (view bs cell s row col))"
proof -
  obtain c st where s: "s = (c, st)" by fastforce
  show ?thesis
  proof (cases "\<not> active c \<or> wrap64 (sz + off) > bs")
    case True
    with assms show ?thesis by (auto simp: Cache_Read_def s)
  next
    case False
    obtain q c1 st1 where q: "ReadImpl rd wr bs (es (served c)) row col sz off c st = (q, c1, st1)"
      by (rule prod_cases3)
    with assms(5) False assms(3) have "r = q" "s' = (c1\<lparr>served := Suc (served c)\<rparr>, st1)"
      by (auto simp: Cache_Read_def s)
    with ReadImpl_spec [OF _ _ assms(3,4) q] assms(1,2) s show ?thesis by (simp add: keeps_def)
  qed
qed

lemma Cache_Write_spec:
  assumes "ok (snd s)" and "coherent bs ncols cell s" and "col < ncols" and "off + length d \<le> bs"
    and "Cache_Write rd wr bs ncols es row col d off s = (b, s')"
  shows "ok (snd s') \<and> coherent bs ncols cell s' \<and>
    (\<forall>i k. k < ncols \<longrightarrow> view bs cell s' i k =
       (if b \<and> i = row \<and> k = col then poke off d (view bs cell s row col) else view bs cell s i k))"
proof -
  obtain c st where s: "s = (c, st)" by fastforce
  show ?thesis
  proof (cases "\<not> active c \<or> wrap64 (length d + off) > bs")
    case True
    with assms show ?thesis by (auto simp: Cache_Write_def s)
  next
    case False
    obtain q c1 st1 where q: "WriteImpl rd wr bs (es (served c)) row col d off c st = (q, c1, st1)"
      by (rule prod_cases3)
    with assms(5) False assms(3) have "b = q" "s' = (c1\<lparr>served := Suc (served c)\<rparr>, st1)"
      by (auto simp: Cache_Write_def s)
    with WriteImpl_spec [OF _ _ assms(3,4) q] assms(1,2) s show ?thesis
      by (cases b) (simp_all add: keeps_def)
  qed
qed



lemma Cache_refused:
  assumes "\<not> (col < ncols \<and> off + sz \<le> bs)" and "sz + off < 2 ^ 64"
  shows "Cache_Read rd wr bs ncols es row col sz off s = (None, s)"
    and "length d = sz \<Longrightarrow> Cache_Write rd wr bs ncols es row col d off s = (False, s)"
  using assms by (auto simp: Cache_Read_def Cache_Write_def split_beta)

lemma serve_spec:
  assumes "ok (snd s)" and "coherent bs ncols cell s" and "request_ok q" and "agree ncols (view bs cell s) m"
    and "serve rd wr bs ncols es q s = (r, s')"
  shows "ok (snd s') \<and> coherent bs ncols cell s' \<and>
    (\<exists>m'. spec_step q r m = Some m' \<and> agree ncols (view bs cell s') m')"
proof (cases q)
  case q: (ReadRequest row col sz off)
  obtain x s1 where x: "Cache_Read rd wr bs ncols es row col sz off s = (x, s1)" by (rule prod.exhaust)
  then have r: "r = ReadDone x" "s' = s1" using assms(5) q by auto
  show ?thesis
  proof (cases "col < ncols \<and> off + sz \<le> bs")
    case True
    with Cache_Read_spec [OF assms(1,2) _ _ x] assms(4) r q show ?thesis
      by (cases x) (auto simp: agree_def)
  next
    case False
    with Cache_refused(1) [of col off sz row s] x r q assms show ?thesis by auto
  qed
next
  case q: (WriteRequest row col d off)
  obtain b s1 where b: "Cache_Write rd wr bs ncols es row col d off s = (b, s1)" by (rule prod.exhaust)
  then have r: "r = WriteDone b" "s' = s1" using assms(5) q by auto
  show ?thesis
  proof (cases "col < ncols \<and> off + length d \<le> bs")
    case True
    with Cache_Write_spec [OF assms(1,2) _ _ b] assms(4) r q show ?thesis by (auto simp: agree_def)
  next
    case False
    with Cache_refused(2) [of col off "length d" d row s] b r q assms show ?thesis by auto
  qed
qed

lemma serve_all_spec:
  "ok (snd s) \<Longrightarrow> coherent bs ncols cell s \<Longrightarrow> \<forall>q \<in> set qs. request_ok q \<Longrightarrow> agree ncols (view bs cell s) m \<Longrightarrow>
   serve_all rd wr bs ncols es qs s = (rs, s') \<Longrightarrow>
   ok (snd s') \<and> coherent bs ncols cell s' \<and> (\<exists>m'. spec_run qs rs m = Some m' \<and> agree ncols (view bs cell s') m')"
proof (induction qs arbitrary: s m rs)
  case (Cons q qs)
  obtain r s1 where r: "serve rd wr bs ncols es q s = (r, s1)" by (rule prod.exhaust)
  obtain rs1 where rs: "serve_all rd wr bs ncols es qs s1 = (rs1, s')" "rs = r # rs1"
    using Cons.prems(5) r by (auto split: prod.splits)
  from serve_spec [OF Cons.prems(1,2) _ Cons.prems(4) r] Cons.prems(3)
  obtain m1 where "ok (snd s1)" "coherent bs ncols cell s1" "spec_step q r m = Some m1" "agree ncols (view bs cell s1) m1"
    by auto
  with Cons.IH [OF _ _ _ _ rs(1)] Cons.prems(3) rs(2) show ?case by auto
qed auto

lemma ThreadProc_spec:
  assumes "ok (snd s)" and "coherent bs ncols cell s" and "\<forall>q \<in> set qs. request_ok q"
    and "ThreadProc_pass rd wr bs ncols es qs t pend ts s = (rs, ts', s')"
  shows "ok (snd s') \<and> coherent bs ncols cell s' \<and>
    (\<exists>m'. spec_run qs rs (view bs cell s) = Some m' \<and> agree ncols (view bs cell s') m')"
proof -
  obtain rs1 c st where r: "serve_all rd wr bs ncols es qs s = (rs1, (c, st))" by (metis prod.collapse)
  have "agree ncols (view bs cell s) (view bs cell s)" by (simp add: agree_def)
  from serve_all_spec [OF assms(1-3) this r] obtain m' where m: "ok st" "coherent bs ncols cell (c, st)"
    "spec_run qs rs1 (view bs cell s) = Some m'" "agree ncols (view bs cell (c, st)) m'" by auto
  obtain a c1 st1 where f: "Flush wr bs False t pend c st = (a, c1, st1)" by (rule prod_cases3)
  have "keeps c st c1 st1" by (rule Flush_keeps [OF m(1,2) f])
  with m assms(4) r f show ?thesis
    by (auto simp: ThreadProc_pass_def keeps_def agree_def split: if_splits)
qed

end

sublocale cached_store \<subseteq> through: block_store "Cache_Read rd wr bs ncols es" "Cache_Write rd wr bs ncols es"
  "view bs cell" "\<lambda>s. ok (snd s) \<and> coherent bs ncols cell s" bs ncols nrows
proof
  fix s col row assume "ok (snd s) \<and> coherent bs ncols cell s" "col < ncols"
  then show "length (view bs cell s row col) = bs" by (cases s) (simp add: view_len)
next
  fix s col off sz row r s'
  assume "ok (snd s) \<and> coherent bs ncols cell s" "col < ncols" "off + sz \<le> bs"
    "Cache_Read rd wr bs ncols es row col sz off s = (r, s')"
  then show "ok (snd s') \<and> coherent bs ncols cell s'" using Cache_Read_spec by blast
next
  fix s col off sz row r s' c i
  assume "ok (snd s) \<and> coherent bs ncols cell s" "col < ncols" "off + sz \<le> bs"
    "Cache_Read rd wr bs ncols es row col sz off s = (r, s')" "c < ncols"
  then show "view bs cell s' i c = view bs cell s i c" using Cache_Read_spec by blast
next
  fix s col off sz row d s'
  assume "ok (snd s) \<and> coherent bs ncols cell s" "col < ncols" "off + sz \<le> bs"
    "Cache_Read rd wr bs ncols es row col sz off s = (Some d, s')"
  then show "d = peek off sz (view bs cell s row col)" using Cache_Read_spec by blast
next
  fix s col row d s'
  assume a: "ok (snd s) \<and> coherent bs ncols cell s" "col < ncols" "Cache_Read rd wr bs ncols es row col bs 0 s = (Some d, s')"
  then have "length (view bs cell s row col) = bs" by (cases s) (simp add: view_len)
  with a Cache_Read_spec [of s col 0 bs row "Some d" s'] show "d = view bs cell s row col" by (simp add: peek_def)
next
  fix s col off d row b s'
  assume "ok (snd s) \<and> coherent bs ncols cell s" "col < ncols" "off + length d \<le> bs"
    "Cache_Write rd wr bs ncols es row col d off s = (b, s')"
  then show "ok (snd s') \<and> coherent bs ncols cell s'" using Cache_Write_spec by blast
next
  fix s col off d row b s' c i
  assume "ok (snd s) \<and> coherent bs ncols cell s" "col < ncols" "off + length d \<le> bs"
    "Cache_Write rd wr bs ncols es row col d off s = (b, s')" "c < ncols" "(i, c) \<noteq> (row, col)"
  then show "view bs cell s' i c = view bs cell s i c" using Cache_Write_spec [of s col off d row b s'] by auto
next
  fix s col off d row s'
  assume "ok (snd s) \<and> coherent bs ncols cell s" "col < ncols" "off + length d \<le> bs"
    "Cache_Write rd wr bs ncols es row col d off s = (True, s')"
  then show "view bs cell s' row col = poke off d (view bs cell s row col)" using Cache_Write_spec [of s col off d row True s'] by auto
qed

section \<open>The index of the cached rows\<close>

lemma mset_map_erase: "map_find m k = Some w \<Longrightarrow> mset (map_erase k m) = mset m - {#(k, w)#}"
  by (induction k m rule: map_erase.induct) (auto split: if_splits)

lemma mset_map_put_new: "map_find m k = None \<Longrightarrow> mset (map_put k v m) = add_mset (k, v) (mset m)"
  by (induction k v m rule: map_put.induct) (auto split: if_splits)

lemma mset_map_put_old:
  "map_ok m \<Longrightarrow> map_find m k = Some w \<Longrightarrow> mset (map_put k v m) = add_mset (k, v) (mset m - {#(k, w)#})"
proof (induction k v m rule: map_put.induct)
  case (2 k v a x m)
  show ?case
  proof (cases "k < a")
    case True
    with 2(2,3) have "map_find m k = Some w" by (auto split: if_splits)
    then have "k \<in> fst ` set m" by (metis map_find_None_iff option.distinct(1))
    with 2(2) True show ?thesis by fastforce
  next
    case False
    show ?thesis
    proof (cases "k = a")
      case True
      with 2(3) show ?thesis by simp
    next
      case ne: False
      with False 2 have "mset (map_put k v m) = add_mset (k, v) (mset m - {#(k, w)#})" by simp
      moreover have "(k, w) \<noteq> (a, x)" using ne by simp
      ultimately show ?thesis using ne False by (simp add: add_mset_commute [of "(k, v)"])
    qed
  qed
qed simp

lemma mset_ts_insert [simp]: "mset (ts_insert t row ts) = add_mset (t, row) (mset ts)"
proof -
  have "mset ts = mset (takeWhile (\<lambda>p. fst p \<le> t) ts) + mset (dropWhile (\<lambda>p. fst p \<le> t) ts)"
    by (metis mset_append takeWhile_dropWhile_id)
  then show ?thesis by (simp add: ts_insert_def)
qed

lemma sorted_ts_insert: "sorted (map fst ts) \<Longrightarrow> sorted (map fst (ts_insert t row ts))"
proof (induction ts)
  case (Cons p ts)
  show ?case
  proof (cases "fst p \<le> t")
    case True
    then have "ts_insert t row (p # ts) = p # ts_insert t row ts" by (simp add: ts_insert_def)
    moreover have "set (ts_insert t row ts) = insert (t, row) (set ts)"
      using mset_ts_insert [of t row ts] by (metis set_mset_add_mset_insert set_mset_mset)
    ultimately show ?thesis using Cons True by auto
  qed (use Cons.prems in \<open>auto simp: ts_insert_def\<close>)
qed (simp add: ts_insert_def)

lemma index_ok_row:
  assumes "index_ok c" and "(t, row) \<in> set (timestamps c)"
  obtains it where "map_find (items c) row = Some it" and "it_timestamp it = t"
proof -
  from assms have "(t, row) \<in># mset (map (\<lambda>(row, it). (it_timestamp it, row)) (items c))"
    by (metis index_ok_def set_mset_mset)
  then obtain it where it: "(row, it) \<in> set (items c)" "it_timestamp it = t" by auto
  have "distinct (map fst (items c))" using assms(1) by (simp add: index_ok_def strict_sorted_iff)
  with it show ?thesis by (intro that) (simp_all add: map_find_map_of)
qed

lemma index_ok_frame: "index_ok c \<Longrightarrow> flush_frame c c' \<Longrightarrow> index_ok c'"
  by (simp add: index_ok_def flush_frame_def)

lemma index_ok_evict:
  assumes "index_ok (c\<lparr>timestamps := xs @ (t, row) # ts\<rparr>)"
  shows "index_ok (c\<lparr>timestamps := xs @ ts, files := fs, items := map_erase row (items c)\<rparr>)"
proof -
  let ?c = "c\<lparr>timestamps := xs @ (t, row) # ts\<rparr>" and ?f = "\<lambda>(row, it). (it_timestamp it, row)"
  obtain it where it: "map_find (items c) row = Some it" "it_timestamp it = t"
    using index_ok_row [OF assms, of t row] by auto
  then have "(row, it) \<in># mset (items c)" by (simp add: map_find_map_of map_of_SomeD)
  then have "image_mset ?f (mset (items c) - {#(row, it)#}) = image_mset ?f (mset (items c)) - {#(t, row)#}"
    using it(2) by (simp add: image_mset_Diff)
  moreover have "image_mset ?f (mset (items c)) = mset (xs @ (t, row) # ts)"
    using assms by (simp add: index_ok_def)
  ultimately show ?thesis
    using assms by (simp add: index_ok_def mset_map_erase [OF it(1)] sorted_append)
qed

lemma index_ok_touch:
  assumes "index_ok c"
  shows "index_ok (touch t row d c)"
proof (cases "map_find (items c) row")
  case None
  with assms show ?thesis by (simp add: index_ok_def touch_def mset_map_put_new sorted_ts_insert)
next
  case (Some it)
  let ?f = "\<lambda>(row, it). (it_timestamp it, row)" 
  have "(row, it) \<in># mset (items c)" using Some by (simp add: map_find_map_of map_of_SomeD)
  then have "image_mset ?f (mset (items c) - {#(row, it)#}) = image_mset ?f (mset (items c)) - {#(it_timestamp it, row)#}"
    by (simp add: image_mset_Diff)
  with assms Some show ?thesis
    by (simp add: index_ok_def touch_def mset_map_put_old sorted_ts_insert sorted_map_remove1)
qed

lemma length_map_erase: "map_find m k \<noteq> None \<Longrightarrow> length (map_erase k m) = length m - 1"
proof -
  assume "map_find m k \<noteq> None"
  then obtain w where w: "map_find m k = Some w" by auto
  then have "(k, w) \<in># mset m" by (simp add: map_find_map_of map_of_SomeD)
  then have "size (mset m - {#(k, w)#}) = size (mset m) - 1" by (simp add: size_Diff_singleton)
  then show ?thesis by (metis mset_map_erase [OF w] size_mset)
qed

lemma flush_row_clean: "flush_row wd bs row all c st = (a, c', st') \<Longrightarrow> dirty c' r \<Longrightarrow> dirty c r"
  by (auto simp: flush_row_def dirty_set_clean split: if_splits option.splits prod.splits bool.splits)

lemma flush_loop_clean:
  "flush_loop wd bs force expire pend n ts all c st = (a, c', st') \<Longrightarrow> dirty c' r \<Longrightarrow> dirty c r"
proof (induction ts arbitrary: n all c st)
  case (Cons p ts)
  obtain t row where p: "p = (t, row)" by fastforce
  obtain a1 c1 st1 where f: "flush_row wd bs row all c st = (a1, c1, st1)" by (rule prod_cases3)
  from Cons.prems consider "c' = c" | "flush_loop wd bs force expire pend n ts all c st = (a, c', st')"
    | "c' = c1" | "flush_loop wd bs force expire pend (Suc n) ts a1 c1 st1 = (a, c', st')"
    by (auto simp: p f split: if_splits)
  then show ?case using Cons.IH Cons.prems(2) flush_row_clean [OF f] by cases blast+
qed simp

lemma pop_loop_stop:
  "length (items c) \<noteq> n \<Longrightarrow> pop_loop wd bs e k n kept ts c st = (c\<lparr>timestamps := rev kept @ ts\<rparr>, st)"
  by (cases ts) (auto simp: Let_def)

lemma pop_loop_index:
  assumes "index_ok (c\<lparr>timestamps := rev kept @ ts\<rparr>)" and "pop_loop wd bs e k n kept ts c st = (c', st')"
  shows "index_ok c' \<and> length (items c') \<le> length (items c) \<and> length (items c) \<le> Suc (length (items c'))
    \<and> (length (items c) = n \<and> (\<exists>p \<in> set ts. \<not> dirty c (snd p)) \<longrightarrow> length (items c') < length (items c))"
  using assms
proof (induction ts arbitrary: k kept c st)
  case (Cons p ts)
  obtain t row where p: "p = (t, row)" by fastforce
  let ?c0 = "c\<lparr>timestamps := rev kept @ (t, row) # ts\<rparr>"
  obtain c1 st1 where f: "(if dirty c row then snd (Flush wd bs False (flushTime e k) (pending e k) ?c0 st)
      else (?c0, st)) = (c1, st1)" by fastforce
  have dc: "dirty ?c0 = dirty c" by (simp add: dirty_def fun_eq_iff)
  have ff: "flush_frame ?c0 c1 \<and> (\<forall>r. dirty c1 r \<longrightarrow> dirty c r)"
  proof (cases "dirty c row")
    case True
    then obtain a where fl: "Flush wd bs False (flushTime e k) (pending e k) ?c0 st = (a, c1, st1)"
      using f by (metis prod.collapse)
    have "dirty c1 r \<Longrightarrow> dirty c r" for r
      using flush_loop_clean [OF fl [unfolded Flush_def], of r] by (simp add: dc)
    with Flush_frame [OF fl] show ?thesis by simp
  qed (use f dc in auto)
  have i1: "index_ok c1" using ff Cons.prems(1) p by (auto intro: index_ok_frame)
  have t1: "timestamps c1 = rev kept @ (t, row) # ts" and l1: "length (items c1) = length (items c)"
    using ff flush_frame_length [of ?c0 c1] by (auto simp: flush_frame_def)
  obtain it where "map_find (items ?c0) row = Some it"
    using index_ok_row [of ?c0 t row] Cons.prems(1) p by auto
  then have it: "map_find (items c) row \<noteq> None" by simp
  obtain it1 where it1: "map_find (items c1) row = Some it1"
    using index_ok_row [OF i1, of t row] t1 by auto
  let ?c2 = "c1\<lparr>files := (files c1)(row := None), items := map_erase row (items c1)\<rparr>"
  consider "length (items c) \<noteq> n" | "length (items c) = n" "\<not> dirty c1 row" | "length (items c) = n" "dirty c1 row"
    by blast
  then show ?case
  proof cases
    case 1
    then have "c' = ?c0" using Cons.prems(2) it
      by (simp only: p pop_loop.simps Let_def f if_True if_False simp_thms prod.case prod.inject)
    with 1 Cons.prems(1) p show ?thesis by simp
  next
    case 2
    then have "pop_loop wd bs e (Suc k) n kept ts ?c2 st1 = (c', st')" using Cons.prems(2) it
      by (simp only: p pop_loop.simps Let_def f if_True if_False simp_thms prod.case prod.inject)
    moreover have len: "length (items ?c2) = length (items c) - 1" using it1 l1 by (simp add: length_map_erase)
    moreover have pos: "length (items c) > 0" using it by (cases "items c") auto
    ultimately have c': "c' = ?c2\<lparr>timestamps := rev kept @ ts\<rparr>" using 2 by (subst (asm) pop_loop_stop) auto
    have "c1\<lparr>timestamps := rev kept @ (t, row) # ts\<rparr> = c1" using t1 by simp
    then have "index_ok (?c2\<lparr>timestamps := rev kept @ ts\<rparr>)"
      using index_ok_evict [of "rev kept" t row ts c1 "(files c1)(row := None)"] i1 by (simp add: index_ok_def)
    with c' len pos show ?thesis by auto
  next
    case 3
    then have "pop_loop wd bs e (Suc k) n ((t, row) # kept) ts c1 st1 = (c', st')" using Cons.prems(2) it
      by (simp only: p pop_loop.simps Let_def f if_True if_False simp_thms prod.case prod.inject)
    moreover have i2: "index_ok (c1\<lparr>timestamps := rev ((t, row) # kept) @ ts\<rparr>)"
    proof -
      have "c1\<lparr>timestamps := rev ((t, row) # kept) @ ts\<rparr> = c1" using t1 by simp
      with i1 show ?thesis by simp
    qed
    ultimately have "index_ok c' \<and> length (items c') \<le> length (items c1) \<and> length (items c1) \<le> Suc (length (items c')) \<and>
      (length (items c1) = n \<and> (\<exists>p \<in> set ts. \<not> dirty c1 (snd p)) \<longrightarrow> length (items c') < length (items c1))"
      using Cons.IH [OF i2] by blast
    with l1 ff 3 p show ?thesis by auto
  qed
qed auto

lemma Pop_index:
  assumes "index_ok c" and "Pop wd bs e c st = (c', st')"
  shows "index_ok c' \<and> length (items c') \<le> length (items c) \<and>
    ((\<exists>p \<in> set (timestamps c). \<not> dirty c (snd p)) \<longrightarrow> Suc (length (items c')) = length (items c))"
proof -
  have "index_ok (c\<lparr>timestamps := rev [] @ timestamps c\<rparr>)" using assms(1) by simp
  from pop_loop_index [OF this assms(2) [unfolded Pop_def]] show ?thesis by auto
qed

lemma UpdateTimestamp_index:
  assumes "index_ok c" and "UpdateTimestamp wd bs e row d c st = (c', st')"
  shows "index_ok c'" and "length (items c) \<le> limit c \<Longrightarrow>
      (\<exists>r \<in> fst ` set (items (touch (now e) row d c)). \<not> dirty (touch (now e) row d c) r) \<Longrightarrow>
      length (items c') \<le> limit c"
proof -
  let ?c = "touch (now e) row d c"
  have i: "index_ok ?c" using assms(1) by (rule index_ok_touch)
  have ts: "snd ` set (timestamps ?c) = fst ` set (items ?c)"
  proof -
    have "set (timestamps ?c) = (\<lambda>(row, it). (it_timestamp it, row)) ` set (items ?c)"
      using i by (metis index_ok_def set_map set_mset_mset)
    then show ?thesis by (simp add: image_image split_beta)
  qed
  have sz: "length (items ?c) \<le> Suc (length (items c))"
    by (simp add: touch_def length_map_put split: option.splits)
  show "index_ok c'"
  proof (cases "length (items ?c) > limit ?c")
    case True
    then have "Pop wd bs e ?c st = (c', st')" using assms(2) by (simp add: UpdateTimestamp_def Let_def)
    from Pop_index [OF i this] show ?thesis by simp
  qed (use assms(2) i in \<open>simp add: UpdateTimestamp_def Let_def\<close>)
  assume b: "length (items c) \<le> limit c" "\<exists>r \<in> fst ` set (items ?c). \<not> dirty ?c r"
  show "length (items c') \<le> limit c"
  proof (cases "length (items ?c) > limit ?c")
    case True
    then have p: "Pop wd bs e ?c st = (c', st')" using assms(2) by (simp add: UpdateTimestamp_def Let_def)
    have "\<exists>p \<in> set (timestamps ?c). \<not> dirty ?c (snd p)" using b(2) unfolding ts [symmetric] by blast
    with Pop_index [OF i p] sz b(1) show ?thesis by simp
  qed (use assms(2) touch_frame in \<open>auto simp: UpdateTimestamp_def Let_def\<close>)
qed

text \<open>A read always finds a clean row to evict: at least its own.\<close>

lemma UpdateTimestamp_read_bound:
  assumes "index_ok c" and "length (items c) \<le> limit c" and "UpdateTimestamp wd bs e row False c st = (c', st')"
  shows "length (items c') \<le> limit c"
proof (cases "map_find (items c) row")
  case None
  then have "map_find (items (touch (now e) row False c)) row \<noteq> None" "\<not> dirty (touch (now e) row False c) row"
    by (simp_all add: touch_def dirty_def)
  then show ?thesis
    by (intro UpdateTimestamp_index(2) [OF assms(1,3,2)] bexI [of _ row]) (simp_all add: map_find_None_iff)
next
  case (Some it)
  have "length (map_put row v (items c)) = length (items c)" for v
    using mset_map_put_old [of "items c" row it v] Some assms(1)
    by (metis One_nat_def Suc_pred add_mset_remove_trivial_If index_ok_def insert_DiffM length_pos_if_in_set
        map_find_map_of map_of_SomeD set_mset_mset size_add_mset size_mset)
  with Some assms(2,3) show ?thesis by (auto simp: UpdateTimestamp_def Let_def touch_def)
qed

section \<open>Writing everything back\<close>

lemma flush_row_done:
  assumes "flush_row wd bs row all c st = (True, c', st')"
  shows "all \<and> (\<not> dirty c' row \<or> files c' row = None \<or> \<not> openable c' row)"
  using assms by (auto simp: flush_row_def dirty_set_clean split: if_splits option.splits prod.splits bool.splits)

lemma flush_loop_done:
  "flush_loop wd bs True expire (\<lambda>_. False) n ts all c st = (True, c', st') \<Longrightarrow>
   all \<and> (\<forall>(t, row) \<in> set ts. \<not> dirty c' row \<or> files c' row = None \<or> \<not> openable c' row)"
proof (induction ts arbitrary: n all c st)
  case (Cons p ts)
  obtain t row where p: "p = (t, row)" by fastforce
  obtain a1 c1 st1 where f: "flush_row wd bs row all c st = (a1, c1, st1)" by (rule prod_cases3)
  show ?case
  proof (cases "dirty c row")
    case False
    then have l: "flush_loop wd bs True expire (\<lambda>_. False) n ts all c st = (True, c', st')"
      using Cons.prems p by simp
    have "\<not> dirty c' row" using flush_loop_clean [OF l] False by blast
    with Cons.IH [OF l] p show ?thesis by auto
  next
    case True
    then have l: "flush_loop wd bs True expire (\<lambda>_. False) (Suc n) ts a1 c1 st1 = (True, c', st')"
      using Cons.prems p f by simp
    have "flush_frame c1 c'" using l by (rule flush_loop_frame)
    moreover have "dirty c' row \<Longrightarrow> dirty c1 row" using flush_loop_clean [OF l] .
    moreover have "a1" using Cons.IH [OF l] by simp
    moreover from this have "all \<and> (\<not> dirty c1 row \<or> files c1 row = None \<or> \<not> openable c1 row)"
      using flush_row_done [of wd bs row all c st c1 st1] f by simp
    ultimately show ?thesis using Cons.IH [OF l] p by (auto simp: flush_frame_def)
  qed
qed simp

lemma dirty_in_timestamps:
  assumes "index_ok c" and "dirty c row"
  shows "row \<in> snd ` set (timestamps c)"
proof -
  from assms(2) obtain it where "(row, it) \<in> set (items c)"
    by (auto simp: dirty_def map_find_map_of dest: map_of_SomeD split: option.splits)
  then have "(it_timestamp it, row) \<in># mset (timestamps c)" using assms(1) by (force simp: index_ok_def)
  then show ?thesis by force
qed

context cached_store
begin

lemma clean_view:
  assumes "coherent bs ncols cell (c, st)" and "\<not> dirty c row \<or> files c row = None"
  shows "view bs cell (c, st) row col = cell st row col"
proof (cases "files c row")
  case None
  then show ?thesis by (simp add: view_pair read_None)
next
  case (Some f)
  with assms(1) obtain al where al: "openable c row" "file_rel bs ncols f al"
    "\<not> dirty c row \<longrightarrow> (\<forall>(col, b) \<in> set al. cell st row col = b)" by (rule coherentD)
  have "map_of al col = Some b \<Longrightarrow> cell st row col = b" for b
    using al(3) assms(2) Some by (auto dest: map_of_SomeD)
  then show ?thesis using read_rel [OF al(1) Some al(2), of col] by (auto simp: view_pair split: option.splits)
qed

lemma destroy_writes_back:
  assumes "ok st" and "coherent bs ncols cell (c, st)" and "index_ok c"
    and "Cache_destroy wr bs t (\<lambda>_. False) c st = (True, c', st')" and "col < ncols"
  shows "cell st' row col = view bs cell (c, st) row col"
proof -
  let ?c = "c\<lparr>active := False\<rparr>"
  have dc: "dirty ?c = dirty c" by (simp add: dirty_def fun_eq_iff)
  have co: "coherent bs ncols cell (?c, st)" using assms(2) by (simp add: coherent_def dc)
  note f = assms(4) [unfolded Cache_destroy_def]
  have k: "keeps ?c st c' st'" by (rule Flush_keeps [OF assms(1) co f])
  have v: "view bs cell (?c, st) row col = view bs cell (c, st) row col"
    by (simp add: view_pair ReadFileBlock_def)
  have "\<not> dirty c' row \<or> files c' row = None"
  proof (rule ccontr)
    assume n: "\<not> (\<not> dirty c' row \<or> files c' row = None)"
    then have "openable c' row" using k by (auto simp: keeps_def coherent_def)
    with n flush_loop_done [OF f [unfolded Flush_def]] have "row \<notin> snd ` set (timestamps c)" by fastforce
    moreover have "dirty c row" using flush_loop_clean [OF f [unfolded Flush_def]] n dc by auto
    ultimately show False using dirty_in_timestamps assms(3) by blast
  qed
  then have "view bs cell (c', st') row col = cell st' row col"
    using k keepsD by (intro clean_view) blast+
  with k v assms(5) show ?thesis by (simp add: keeps_def)
qed

end

section \<open>Properties\<close>

text \<open>
  C26. The index of the cache: \<open>UpdateTimestamp\<close>, with the eviction it may start, keeps
  \<open>timestamps\<close> sorted and in step with \<open>items\<close>; if the number of cached rows was within the limit
  and some cached row is clean, it is within the limit afterwards. A read always finds a clean row.
\<close>

theorem UpdateTimestamp_bounded:
  assumes "index_ok c" and "length (items c) \<le> limit c" and "UpdateTimestamp wd bs e row d c st = (c', st')"
    and "d \<longrightarrow> (\<exists>r \<in> fst ` set (items c). r \<noteq> row \<and> \<not> dirty c r)"
  shows "index_ok c' \<and> limit c' = limit c \<and> length (items c') \<le> limit c"
proof -
  have "length (items c') \<le> limit c"
  proof (cases d)
    case True
    with assms(4) obtain r where r: "r \<in> fst ` set (items c)" "r \<noteq> row" "\<not> dirty c r" by blast
    have "map_find (items (touch (now e) row d c)) r = map_find (items c) r"
      using r(2) by (simp add: touch_def split: option.splits)
    then have "r \<in> fst ` set (items (touch (now e) row d c))" using r(1) by (metis map_find_None_iff)
    with r show ?thesis
      by (intro UpdateTimestamp_index(2) [OF assms(1,3,2)]) (auto simp: dirty_touch)
  next
    case False
    with assms(3) have "UpdateTimestamp wd bs e row False c st = (c', st')" by simp
    then show ?thesis by (rule UpdateTimestamp_read_bound [OF assms(1,2)])
  qed
  with UpdateTimestamp_index(1) [OF assms(1,3)] UpdateTimestamp_frame [OF assms(3)] show ?thesis by simp
qed

theorem UpdateTimestamp_bounded_witness:
  "\<exists>c' st'. index_ok c' \<and> length (items c') \<le> 1 \<and>
     UpdateTimestamp (\<lambda>row col d off (n::nat). (True, n)) 4 \<lparr>now = 5, flushTime = (\<lambda>_. 5), pending = (\<lambda>_ _. False)\<rparr> 8 False
       (touch 3 7 False (Cache_new 1 60 (\<lambda>_. None) (\<lambda>_. True))) 0 = (c', st')"
proof -
  let ?c = "touch 3 7 False (Cache_new 1 60 (\<lambda>_. None) (\<lambda>_. True))"
  let ?e = "\<lparr>now = 5, flushTime = (\<lambda>_. 5), pending = (\<lambda>_ _. False)\<rparr>"
  have "index_ok ?c" by (rule index_ok_touch) (simp add: index_ok_def Cache_new_def)
  moreover have "length (items ?c) \<le> limit ?c" "limit ?c = 1" by (simp_all add: touch_def Cache_new_def)
  moreover obtain c' st' where u: "UpdateTimestamp (\<lambda>row col d off (n::nat). (True, n)) 4 ?e 8 False ?c 0 = (c', st')"
    by (rule prod.exhaust)
  ultimately have "index_ok c' \<and> length (items c') \<le> 1" using UpdateTimestamp_bounded [of ?c _ 4 ?e 8 False 0 c' st'] by simp
  with u show ?thesis by blast
qed

text \<open>
  C27. Cache files: after \<open>WriteFileBlock\<close> of a block into a well-formed row file, \<open>ReadFileBlock\<close>
  finds that block, every other block of the row is found as before, and the file stays a
  sequence of records with distinct columns.
\<close>

theorem WriteFileBlock_ReadFileBlock:
  assumes "file_rel bs ncols f al" and "ncols \<le> 2 ^ 64" and "bs > 0" and "openable c row" and "files c row = Some f"
    and "col < ncols" and "length buf = bs"
  shows "\<exists>c' f' al'. WriteFileBlock c bs row col buf = (True, c') \<and> files c' = (files c)(row := Some f') \<and>
    file_rel bs ncols f' al' \<and> (\<forall>k. ReadFileBlock c' bs row k = (if k = col then Some buf else ReadFileBlock c bs row k))"
proof -
  obtain f' al' where w: "WriteFileBlock c bs row col buf = (True, c\<lparr>files := (files c)(row := Some f')\<rparr>)"
    and f': "file_rel bs ncols f' al'" and m: "map_of al' = (map_of al)(col \<mapsto> buf)"
    by (rule write_file_rel [OF assms(1-4) disjI1 [OF assms(5)] assms(6,7)])
  let ?c = "c\<lparr>files := (files c)(row := Some f')\<rparr>"
  have "ReadFileBlock ?c bs row k = map_of al' k" for k
    using read_file_rel [OF f' assms(2,3), of ?c row k] assms(4) by simp
  moreover have "ReadFileBlock c bs row k = map_of al k" for k
    using read_file_rel [OF assms(1-3), of c row k] assms(4,5) by simp
  ultimately have "ReadFileBlock ?c bs row k = (if k = col then Some buf else ReadFileBlock c bs row k)" for k
    using m by simp
  with w f' show ?thesis by (intro exI [of _ ?c] exI [of _ f'] exI [of _ al']) simp
qed

theorem WriteFileBlock_ReadFileBlock_witness:
  "\<exists>c'. ReadFileBlock c' 2 5 1 = Some [7, 8] \<and> ReadFileBlock c' 2 5 0 = Some [1, 2]"
proof -
  let ?al = "[(0, [1, 2])] :: (nat \<times> byte list) list"
  let ?c = "Cache_new 4 60 (\<lambda>_. Some (encode_file ?al)) (\<lambda>_. True)"
  have f: "file_rel 2 3 (encode_file ?al) ?al" by (simp add: file_rel_def)
  have r: "ReadFileBlock ?c 2 5 0 = Some [1, 2]"
    using read_file_rel [OF f, of ?c 5 0] by (simp add: Cache_new_def)
  have c: "openable ?c 5" "files ?c 5 = Some (encode_file ?al)" by (simp_all add: Cache_new_def)
  obtain c' where "\<forall>k. ReadFileBlock c' 2 5 k = (if k = 1 then Some [7, 8] else ReadFileBlock ?c 2 5 k)"
    using WriteFileBlock_ReadFileBlock [OF f _ _ c, of 1 "[7, 8]"] by auto
  with r show ?thesis by (intro exI [of _ c']) simp
qed

end
