(* ===== verification/HostPartition.thy ===== *)
theory HostPartition
  imports Decimal BitSet Cache
begin

text \<open>
  The storage provider, \<open>src/bdhost\<close>: a partition is a directory with one file per block that was
  ever written, the bit map \<open>.partmap\<close> of those blocks and \<open>.config\<close> with its geometry
  (\<open>Partition.cpp\<close>); \<open>PartitionHandler.cpp\<close> serves it over HTTP and keeps account of the reserved
  space (\<open>Util.cpp\<close>).

  \<open>can_open\<close>, \<open>map_open\<close> and \<open>config_open\<close> tell which files the operating system lets the process open; an open
  file takes all that is written. The reservation files hold a JSON object with the number
  \<open>size\<close>: the model keeps that number, \<open>None\<close> when the file is missing. \<open>trash_word\<close> is the static
  word of \<open>BitSet::Reference\<close>, and \<open>uuids k\<close> the k-th identifier \<open>uuidgen\<close> gives.
\<close>

record pdir =
  config :: "byte list option"
  reservedSize :: "nat option"
  blocks :: "nat \<Rightarrow> byte list option"
  partmap :: "byte list option"

record host =
  dirs :: "string \<Rightarrow> pdir option"
  totalReserved :: "nat option"
  hostSize :: nat
  can_open :: "string \<Rightarrow> nat \<Rightarrow> bool"
  map_open :: "string \<Rightarrow> bool"
  config_open :: "string \<Rightarrow> bool"
  trash_word :: u64
  junk_word :: u64
  uuids :: "nat \<Rightarrow> string"
  issued :: nat

definition empty_dir :: pdir where
  "empty_dir = \<lparr>config = None, reservedSize = None, blocks = (\<lambda>_. None), partmap = None\<rparr>"

definition dir_of :: "host \<Rightarrow> string \<Rightarrow> pdir" where
  "dir_of h name = (case dirs h name of None \<Rightarrow> empty_dir | Some d \<Rightarrow> d)"

definition set_dir :: "host \<Rightarrow> string \<Rightarrow> pdir \<Rightarrow> host" where
  "set_dir h name d = h\<lparr>dirs := (dirs h)(name := Some d)\<rparr>"

section \<open>Partitions\<close>

record HPartition =
  hp_id :: string
  hp_blockCount :: nat
  hp_blockSize :: nat
  hp_map :: BitSet

text \<open>The constructor makes the directory and reads the map if there is one.\<close>

definition HPartition_new :: "string \<Rightarrow> nat \<Rightarrow> nat \<Rightarrow> host \<Rightarrow> HPartition \<times> host" where
  "HPartition_new name bc bs h =
     (let d = dir_of h name;
          m = (case partmap d of
                 Some f \<Rightarrow> if map_open h name then ReadFrom (junk_word h) (BitSet_new bc) f else BitSet_new bc
               | None \<Rightarrow> BitSet_new bc)
      in (\<lparr>hp_id = name, hp_blockCount = bc, hp_blockSize = bs, hp_map = m\<rparr>, set_dir h name d))"

definition FlushMap :: "HPartition \<Rightarrow> host \<Rightarrow> bool \<times> host" where
  "FlushMap p h =
     (True, if map_open h (hp_id p)
            then set_dir h (hp_id p) ((dir_of h (hp_id p))\<lparr>partmap := Some (WriteTo (hp_map p))\<rparr>)
            else h)"

text \<open>\<open>partitionMap[index]\<close> as a condition and as the target of an assignment.\<close>

definition map_bit :: "HPartition \<Rightarrow> host \<Rightarrow> nat \<Rightarrow> bool" where
  "map_bit p h index = Reference_bool (hp_map p, trash_word h) (Reference_new (hp_map p) index)"

definition map_assign :: "HPartition \<Rightarrow> host \<Rightarrow> nat \<Rightarrow> bool \<Rightarrow> HPartition \<times> host" where
  "map_assign p h index v =
     (let (m, t) = Reference_assign (hp_map p, trash_word h) (Reference_new (hp_map p) index) v
      in (p\<lparr>hp_map := m\<rparr>, h\<lparr>trash_word := t\<rparr>))"

definition HVerifyBlock :: "HPartition \<Rightarrow> nat \<Rightarrow> host \<Rightarrow> bool" where
  "HVerifyBlock p index h =
     (if index \<ge> hp_blockCount p then False
      else if map_bit p h index
      then (case blocks (dir_of h (hp_id p)) index of None \<Rightarrow> False | Some f \<Rightarrow> length f = hp_blockSize p)
      else True)"

text \<open>The zero-filling loop of \<open>InitBlock\<close>, 4096 bytes at a time.\<close>

function zero_fill :: "nat \<Rightarrow> nat \<Rightarrow> byte list \<Rightarrow> byte list" where
  "zero_fill remaining pos f =
     (if remaining > 0
      then let toWrite = (if remaining > 4096 then 4096 else remaining)
           in zero_fill (remaining - toWrite) (pos + toWrite) (fwrite_at pos (replicate toWrite 0) f)
      else f)"
  by pat_completeness auto
termination
  by (relation "measure (\<lambda>(remaining, pos, f). remaining)") auto

declare zero_fill.simps [simp del]

definition set_block :: "host \<Rightarrow> string \<Rightarrow> nat \<Rightarrow> byte list \<Rightarrow> host" where
  "set_block h name index f =
     set_dir h name ((dir_of h name)\<lparr>blocks := (blocks (dir_of h name))(index := Some f)\<rparr>)"

definition HInitBlock :: "HPartition \<Rightarrow> nat \<Rightarrow> host \<Rightarrow> bool \<times> HPartition \<times> host" where
  "HInitBlock p index h =
     (if can_open h (hp_id p) index
      then let f = (case blocks (dir_of h (hp_id p)) index of None \<Rightarrow> [] | Some f \<Rightarrow> f);
               h1 = set_block h (hp_id p) index (zero_fill (hp_blockSize p) 0 f);
               (p2, h2) = map_assign p h1 index True
           in (True, p2, snd (FlushMap p2 h2))
      else (False, p, h))"

definition block_args_bad :: "HPartition \<Rightarrow> nat \<Rightarrow> nat \<Rightarrow> nat \<Rightarrow> bool" where
  "block_args_bad p index sz offset \<longleftrightarrow>
     index > hp_blockCount p \<or> offset > hp_blockSize p \<or> sz > hp_blockSize p \<or> wrap64 (offset + sz) > hp_blockSize p"

text \<open>
  The caller's buffer is zeroed before \<open>ReadBlock\<close>; \<open>fread\<close> fills what the file has. The result is
  the buffer after the call.
\<close>

definition HReadBlock :: "HPartition \<Rightarrow> nat \<Rightarrow> nat \<Rightarrow> nat \<Rightarrow> host \<Rightarrow> byte list option" where
  "HReadBlock p index sz offset h =
     (if block_args_bad p index sz offset then None
      else if map_bit p h index
      then (case blocks (dir_of h (hp_id p)) index of
              None \<Rightarrow> None
            | Some f \<Rightarrow> (if can_open h (hp_id p) index
                       then Some (poke 0 (peek offset sz f) (replicate sz 0)) else None))
      else Some (replicate sz 0))"

definition HWriteBlock :: "HPartition \<Rightarrow> nat \<Rightarrow> byte list \<Rightarrow> nat \<Rightarrow> host \<Rightarrow> bool \<times> HPartition \<times> host" where
  "HWriteBlock p index d offset h =
     (if block_args_bad p index (length d) offset then (False, p, h)
      else let (p1, h1) = (if map_bit p h index then (p, h) else snd (HInitBlock p index h))
           in if can_open h1 (hp_id p) index
              then let f = (case blocks (dir_of h1 (hp_id p)) index of None \<Rightarrow> [] | Some f \<Rightarrow> f)
                   in (True, p1, set_block h1 (hp_id p) index (fwrite_at offset d f))
              else (False, p1, h1))"

section \<open>Reserved space\<close>

text \<open>
  The empty identifier stands for the file of the whole host. The files are kept as the number that
  \<open>toStyledString\<close> has written into them. The reader takes numbers from 18446744073709551610 on for
  real ones, which are not integral, and nothing counts as reserved then.
\<close>

definition GetReservedSpace :: "host \<Rightarrow> string \<Rightarrow> nat" where
  "GetReservedSpace h reserve_id =
     (case (if reserve_id = [] then totalReserved h
            else Option.bind (dirs h reserve_id) reservedSize) of
        None \<Rightarrow> 0 | Some n \<Rightarrow> if n < 18446744073709551610 then n else 0)"

lemma reserved_total: "totalReserved h = Some n \<Longrightarrow> n < 18446744073709551610 \<Longrightarrow> GetReservedSpace h [] = n"
  by (simp add: GetReservedSpace_def)

lemma reserved_of: "dirs h i = Some d \<Longrightarrow> reservedSize d = Some n \<Longrightarrow> i \<noteq> [] \<Longrightarrow> n < 18446744073709551610 \<Longrightarrow> GetReservedSpace h i = n"
  by (simp add: GetReservedSpace_def)

definition write_reserved :: "host \<Rightarrow> string \<Rightarrow> nat \<Rightarrow> host" where
  "write_reserved h reserve_id n =
     (case dirs h reserve_id of
        None \<Rightarrow> h
      | Some d \<Rightarrow> set_dir h reserve_id (d\<lparr>reservedSize := Some n\<rparr>))"

definition ReserveSpace :: "host \<Rightarrow> nat \<Rightarrow> string \<times> host" where
  "ReserveSpace h sz =
     (let reservedSpace = GetReservedSpace h [] in
      if hostSize h < wrap64 (sz + reservedSpace) then ([], h)
      else let h1 = h\<lparr>totalReserved := Some (wrap64 (sz + reservedSpace)), issued := Suc (issued h)\<rparr>;
               reserveId = uuids h (issued h);
               h2 = set_dir h1 reserveId (dir_of h1 reserveId)
           in (reserveId, write_reserved h2 reserveId (wrap64 (sz + reservedSpace))))"

definition UnreserveSpace :: "host \<Rightarrow> string \<Rightarrow> host" where
  "UnreserveSpace h reserve_id =
     (let total = GetReservedSpace h []; reserved = GetReservedSpace h reserve_id
      in write_reserved (h\<lparr>totalReserved := Some (sub64 total reserved)\<rparr>) reserve_id 0)"

section \<open>Requests\<close>

text \<open>
  A request has a path, decimal parameters and a body; a response is an error with its HTTP code
  and the text in its body (\<open>httpserver/HttpContext.h\<close>), a text, or raw bytes. \<open>PublishStorage\<close>, which advertises the free space, is not part of the
  state.
\<close>

record request =
  rq_path :: string
  rq_param :: "string \<Rightarrow> string"
  rq_body :: "byte list option"

datatype response = HttpError nat string | Text string | Bytes "byte list"

datatype ErrorCode = SUCCESS | GENERIC_ERROR | CODE_NOT_SUPPORTED | ARGUMENT_INVALID | OBJECT_NOT_FOUND | CONTRACT_NOT_FOUND

fun error_number :: "ErrorCode \<Rightarrow> nat" where
  "error_number SUCCESS = 0"
| "error_number GENERIC_ERROR = 1"
| "error_number CODE_NOT_SUPPORTED = 2"
| "error_number ARGUMENT_INVALID = 0x101"
| "error_number OBJECT_NOT_FOUND = 0x201"
| "error_number CONTRACT_NOT_FOUND = 0x202"

fun escape_char :: "char \<Rightarrow> string" where
  "escape_char c =
     (if c = CHR 0x22 then [CHR 0x5C, CHR 0x22] else if c = CHR 0x5C then [CHR 0x5C, CHR 0x5C] else if c = CHR ''/'' then [CHR 0x5C, CHR ''/'']
      else if c = CHR 0x08 then [CHR 0x5C, CHR ''b''] else if c = CHR 0x0C then [CHR 0x5C, CHR ''f'']
      else if c = CHR 0x0A then [CHR 0x5C, CHR ''n''] else if c = CHR 0x0D then [CHR 0x5C, CHR ''r'']
      else if c = CHR 0x09 then [CHR 0x5C, CHR ''t''] else [c])"

definition encodeJsonStr :: "string \<Rightarrow> string" where
  "encodeJsonStr str = [CHR 0x22] @ concat (map escape_char str) @ [CHR 0x22]"

definition writeError :: "string \<Rightarrow> string \<Rightarrow> ErrorCode \<Rightarrow> string" where
  "writeError title details code =
     ''{\"Type\":\"Error\",\"Title\":'' @ encodeJsonStr title @ '',\"Details\":'' @ encodeJsonStr details @
     '',\"Code\":'' @ decimal (error_number code) @ ''}''"

abbreviation failed :: "nat \<Rightarrow> string \<Rightarrow> ErrorCode \<Rightarrow> response" where
  "failed status details code \<equiv> HttpError status (writeError ''Failed'' details code)"

definition OnReadBlock :: "request \<Rightarrow> string \<Rightarrow> nat \<Rightarrow> nat \<Rightarrow> host \<Rightarrow> response \<times> host" where
  "OnReadBlock rq name bc bs h =
     (let blockId = strtoull (rq_param rq ''block'');
          offset = strtoull (rq_param rq ''offset'') mod 2 ^ 32;
          sz = strtoull (rq_param rq ''size'') mod 2 ^ 32
      in if blockId \<ge> bc \<or> offset \<ge> bs \<or> sz > bs - offset then (failed 500 ''Invalid arguments'' ARGUMENT_INVALID, h)
         else let (p, h1) = HPartition_new name bc bs h
              in case HReadBlock p blockId sz offset h1 of
                   Some d \<Rightarrow> (Bytes d, h1)
                 | None \<Rightarrow> (failed 500 ''Failed to read block'' GENERIC_ERROR, h1))"

definition OnWriteBlock :: "request \<Rightarrow> string \<Rightarrow> nat \<Rightarrow> nat \<Rightarrow> host \<Rightarrow> response \<times> host" where
  "OnWriteBlock rq name bc bs h =
     (let blockId = strtoull (rq_param rq ''block'');
          offset = strtoull (rq_param rq ''offset'') mod 2 ^ 32
      in case rq_body rq of
           None \<Rightarrow> (failed 500 ''Invalid arguments'' ARGUMENT_INVALID, h)
         | Some d \<Rightarrow>
             (if blockId \<ge> bc \<or> offset \<ge> bs \<or> length d = 0 then (failed 500 ''Invalid arguments'' ARGUMENT_INVALID, h)
              else let (p, h1) = HPartition_new name bc bs h;
                       (ok, p', h2) = HWriteBlock p blockId d offset h1
                   in (if ok then Text (decimal (length d)) else failed 500 ''Failed to write block'' GENERIC_ERROR, h2)))"

text \<open>\<open>rm -rf workDir/name\<close>\<close>

definition OnDelete :: "string \<Rightarrow> host \<Rightarrow> response \<times> host" where
  "OnDelete name h =
     (let h1 = UnreserveSpace h name in (Text ''true'', h1\<lparr>dirs := (dirs h1)(name := None)\<rparr>))"

definition partition_info :: "string \<Rightarrow> string" where
  "partition_info name =
     ''{\"Name\":\"'' @ name @ ''\",\"Path\":\"host://Partitions/'' @ name @ ''\",\"Type\":\"Partition\"}''"

definition read_config :: "host \<Rightarrow> string \<Rightarrow> (nat \<times> nat) option" where
  "read_config h name =
     (if name \<noteq> [] \<and> name \<noteq> ''.'' \<and> name \<noteq> ''..''
      then case Option.bind (dirs h name) config of
             None \<Rightarrow> None
           | Some f \<Rightarrow> if config_open h name \<and> length f \<ge> 16 then Some (le_val (peek 0 8 f), le_val (peek 8 8 f)) else None
      else None)"

definition OnPartitionRequest :: "request \<Rightarrow> string \<Rightarrow> string \<Rightarrow> host \<Rightarrow> response \<times> host" where
  "OnPartitionRequest rq name action h =
     (case read_config h name of
        None \<Rightarrow> (failed 404 ''Object not found'' OBJECT_NOT_FOUND, h)
      | Some (bc, bs) \<Rightarrow>
          (if action = [] then (Text (partition_info name), h)
           else if action = ''ReadBlock'' then OnReadBlock rq name bc bs h
           else if action = ''WriteBlock'' then OnWriteBlock rq name bc bs h
           else if action = ''Delete'' then OnDelete name h
           else (failed 500 ''Action not supported'' CODE_NOT_SUPPORTED, h)))"

definition OnCreatePartition :: "request \<Rightarrow> host \<Rightarrow> response \<times> host" where
  "OnCreatePartition rq h =
     (let reserveId = rq_param rq ''reserveId'';
          reserved = (if reserveId \<noteq> [] then GetReservedSpace h reserveId else 0)
      in if reserved = 0 then (failed 500 ''Invalid reserveId.'' ARGUMENT_INVALID, h)
         else let bs = strtoull (rq_param rq ''block'')
              in if bs = 0 then (failed 500 ''Block size should not be 0'' ARGUMENT_INVALID, h)
                 else let bc = reserved div bs
                      in if bc = 0 then (failed 500 ''Block size is too large'' ARGUMENT_INVALID, h)
                         else if \<not> config_open h reserveId
                         then (failed 500 ''Failed to initialize partition'' GENERIC_ERROR, set_dir h reserveId (dir_of h reserveId))
                         else (Text (partition_info reserveId),
                               set_dir h reserveId ((dir_of h reserveId)\<lparr>config := Some (le_bytes 8 bc @ le_bytes 8 bs)\<rparr>)))"

definition OnReservePartition :: "request \<Rightarrow> host \<Rightarrow> response \<times> host" where
  "OnReservePartition rq h =
     (let sz = strtoull (rq_param rq ''size'')
      in if sz = 0 then (failed 500 ''Reserve size should not be 0'' ARGUMENT_INVALID, h)
         else let (r, h') = ReserveSpace h sz in (Text r, h'))"

definition OnUnreservePartition :: "request \<Rightarrow> host \<Rightarrow> response \<times> host" where
  "OnUnreservePartition rq h =
     (let reserveId = rq_param rq ''reserveId''
      in if reserveId = [] then (failed 500 ''Invalid reserveId.'' ARGUMENT_INVALID, h)
         else (Text ''true'', UnreserveSpace h reserveId))"

definition OnFolderRequest :: "request \<Rightarrow> string \<Rightarrow> host \<Rightarrow> response \<times> host" where
  "OnFolderRequest rq action h =
     (if action = ''NewPartition'' then OnCreatePartition rq h
      else if action = ''Reserve'' then OnReservePartition rq h
      else if action = ''Unreserve'' then OnUnreservePartition rq h
      else (failed 500 ''Action not supported'' CODE_NOT_SUPPORTED, h))"

definition PATH :: string where "PATH = ''/api/host/Partitions''"

text \<open>\<open>sizeof(PATH)\<close> counts the terminating zero, so it is the index behind the slash.\<close>

definition ProcessRequest :: "request \<Rightarrow> host \<Rightarrow> response \<times> host" where
  "ProcessRequest rq h =
     (let path = rq_path rq
      in if length path \<le> length PATH + 1 \<or> path ! length PATH \<noteq> CHR ''/''
         then (if path = PATH @ ''/''
               then (Text ''{\"Name\":\"Partitions\",\"Path\":\"host://Partitions\",\"Type\":\"PartitionFolder\"}'', h)
               else (failed 404 ''Object not found'' OBJECT_NOT_FOUND, h))
         else let rest = drop (length PATH + 1) path;
                  name = takeWhile (\<lambda>c. c \<noteq> CHR ''/'') rest
              in if name = rest then OnFolderRequest rq rest h
                 else OnPartitionRequest rq name (drop (length name + 1) rest) h)"

section \<open>Blocks\<close>

lemma fwrite_at_inside: "pos \<le> length f \<Longrightarrow> fwrite_at pos d f = poke pos d f"
  by (simp add: fwrite_at_def)

lemma zero_fill_spec: "pos \<le> length f \<Longrightarrow> zero_fill n pos f = poke pos (replicate n 0) f"
proof (induction n pos f rule: zero_fill.induct)
  case (1 n pos f)
  show ?case
  proof (cases "n > 0")
    case False
    then show ?thesis by (subst zero_fill.simps) (simp add: poke_def)
  next
    case True
    let ?k = "if n > 4096 then 4096 else n"
    let ?f = "poke pos (replicate ?k 0) f"
    have "pos + ?k \<le> length ?f" using "1.prems" by (simp add: poke_def)
    then have "zero_fill (n - ?k) (pos + ?k) ?f = poke (pos + ?k) (replicate (n - ?k) 0) ?f"
      using "1.IH" [OF True refl] fwrite_at_inside [OF "1.prems"] by simp
    also have "\<dots> = poke pos (replicate ?k 0 @ replicate (n - ?k) 0) f"
      using poke_poke_adjacent [OF "1.prems", of "replicate ?k 0"] by simp
    also have "replicate ?k 0 @ replicate (n - ?k) 0 = replicate n (0::byte)"
      by (simp flip: replicate_add)
    finally show ?thesis using True fwrite_at_inside [OF "1.prems"] by (subst zero_fill.simps) (simp add: Let_def)
  qed
qed

text \<open>
  The invariant of a partition on disk, with the bit map \<open>m\<close> that its file holds: blocks in the
  map have a file, every block file has the size of a block, and the files can be opened.
\<close>

definition part_ok :: "host \<Rightarrow> string \<Rightarrow> nat \<Rightarrow> nat \<Rightarrow> BitSet \<Rightarrow> bool" where
  "part_ok h name bc bs m \<longleftrightarrow> read_config h name = Some (bc, bs) \<and> map_open h name \<and> (\<forall>i. can_open h name i) \<and>
     bitset_ok m \<and> bits m = bc \<and>
     (case partmap (dir_of h name) of None \<Rightarrow> m = BitSet_new bc | Some f \<Rightarrow> f = WriteTo m) \<and>
     (\<forall>i f. blocks (dir_of h name) i = Some f \<longrightarrow> length f = bs) \<and>
     (\<forall>i. Get m i \<longrightarrow> blocks (dir_of h name) i \<noteq> None)"

text \<open>The map that the next request will load, and the content of a block.\<close>

definition loaded_map :: "host \<Rightarrow> string \<Rightarrow> nat \<Rightarrow> BitSet" where
  "loaded_map h name bc = hp_map (fst (HPartition_new name bc 0 h))"

definition block_data :: "host \<Rightarrow> string \<Rightarrow> nat \<Rightarrow> nat \<Rightarrow> nat \<Rightarrow> byte list" where
  "block_data h name bc bs i =
     (if Get (loaded_map h name bc) i
      then case blocks (dir_of h name) i of None \<Rightarrow> replicate bs 0 | Some f \<Rightarrow> f
      else replicate bs 0)"

lemma set_dir_simps [simp]:
  "dir_of (set_dir h name d) n = (if n = name then d else dir_of h n)"
  "can_open (set_dir h name d) = can_open h" "map_open (set_dir h name d) = map_open h"
  "config_open (set_dir h name d) = config_open h" "trash_word (set_dir h name d) = trash_word h"
  "junk_word (set_dir h name d) = junk_word h"
  by (auto simp: set_dir_def dir_of_def)

lemma set_dir_self: "dirs h name \<noteq> None \<Longrightarrow> set_dir h name (dir_of h name) = h"
  by (auto simp: set_dir_def dir_of_def fun_upd_idem)

lemma part_dir: "read_config h name = Some x \<Longrightarrow> dirs h name \<noteq> None"
  by (cases "dirs h name") (auto simp: read_config_def split: if_splits)

lemma loaded_map_ok:
  assumes "part_ok h name bc bs m"
  shows "loaded_map h name bc = m"
proof (cases "partmap (dir_of h name)")
  case None
  then show ?thesis using assms by (simp add: part_ok_def loaded_map_def HPartition_new_def Let_def)
next
  case (Some f)
  have "ReadFrom (junk_word h) (BitSet_new bc) (WriteTo m @ []) = (BitSet_new bc)\<lparr>buffer := buffer m\<rparr>"
    using assms bitset_ok_new [of bc]
    by (intro ReadFrom_WriteTo) (auto simp: part_ok_def bitset_ok_def BitSet_new_def)
  then have "ReadFrom (junk_word h) (BitSet_new bc) (WriteTo m) = m"
    using assms by (simp add: part_ok_def BitSet_new_def)
  then show ?thesis using assms Some by (simp add: part_ok_def loaded_map_def HPartition_new_def Let_def)
qed

lemma HPartition_new_ok:
  assumes "part_ok h name bc bs m"
  shows "HPartition_new name bc bs h = (\<lparr>hp_id = name, hp_blockCount = bc, hp_blockSize = bs, hp_map = m\<rparr>, h)"
proof -
  have "set_dir h name (dir_of h name) = h"
    using assms part_dir set_dir_self by (auto simp: part_ok_def)
  moreover have "hp_map (fst (HPartition_new name bc bs h)) = m"
    using loaded_map_ok [OF assms] by (simp add: loaded_map_def HPartition_new_def Let_def)
  ultimately show ?thesis by (simp add: HPartition_new_def Let_def)
qed

lemma block_data_ok:
  assumes "part_ok h name bc bs m"
  shows "block_data h name bc bs i = (if Get m i then the (blocks (dir_of h name) i) else replicate bs 0)"
    and "length (block_data h name bc bs i) = bs"
  using assms by (auto simp: block_data_def loaded_map_ok [OF assms] part_ok_def split: option.splits)

lemma map_bit_inside:
  "i < bits (hp_map p) \<Longrightarrow> map_bit p h i = Get (hp_map p) i"
  "i < bits (hp_map p) \<Longrightarrow> map_assign p h i v = (p\<lparr>hp_map := Set (hp_map p) i v\<rparr>, h)"
  by (simp_all add: map_bit_def map_assign_def Reference_inside)

lemma HReadBlock_ok:
  assumes "part_ok h name bc bs m" and "i < bc" and "off + sz \<le> bs" and "bs < 2 ^ 64"
  shows "HReadBlock \<lparr>hp_id = name, hp_blockCount = bc, hp_blockSize = bs, hp_map = m\<rparr> i sz off h
    = Some (peek off sz (block_data h name bc bs i))"
proof -
  have b: "i < bits m" and a: "wrap64 (off + sz) = off + sz" using assms by (auto simp: part_ok_def)
  show ?thesis
  proof (cases "Get m i")
    case True
    then obtain f where f: "blocks (dir_of h name) i = Some f" "length f = bs"
      using assms(1) by (auto simp: part_ok_def)
    have "poke 0 (peek off sz f) (replicate sz 0) = peek off sz f" using f assms(3) by simp
    with True f a b assms show ?thesis
      by (simp add: HReadBlock_def block_args_bad_def map_bit_inside block_data_ok [OF assms(1)] part_ok_def)
  next
    case False
    then show ?thesis using a b assms
      by (simp add: HReadBlock_def block_args_bad_def map_bit_inside block_data_ok [OF assms(1)] peek_def)
  qed
qed

lemma read_config_set_dir:
  "config d = config (dir_of h name) \<Longrightarrow> dirs h name \<noteq> None \<Longrightarrow> read_config (set_dir h name d) n = read_config h n"
  by (auto simp: read_config_def set_dir_def dir_of_def split: option.splits)

text \<open>Replacing the file of a block that is in the map.\<close>

lemma part_ok_set_block:
  assumes "part_ok h name bc bs m" and "Get m i" and "length f = bs"
  shows "part_ok (set_block h name i f) name bc bs m"
    and "block_data (set_block h name i f) name bc bs j = (if j = i then f else block_data h name bc bs j)"
proof -
  have d: "dirs h name \<noteq> None" using assms(1) part_dir by (auto simp: part_ok_def)
  show ok: "part_ok (set_block h name i f) name bc bs m"
    using assms d by (simp add: part_ok_def set_block_def read_config_set_dir)
  show "block_data (set_block h name i f) name bc bs j = (if j = i then f else block_data h name bc bs j)"
    using assms(2) unfolding block_data_ok(1) [OF ok] block_data_ok(1) [OF assms(1)] by (simp add: set_block_def)
qed

text \<open>Initialising a block puts a block of zeros in the map.\<close>

lemma HInitBlock_ok:
  assumes "part_ok h name bc bs m" and "i < bc"
  defines "p \<equiv> \<lparr>hp_id = name, hp_blockCount = bc, hp_blockSize = bs, hp_map = m\<rparr>"
  shows "\<exists>d. HInitBlock p i h = (True, p\<lparr>hp_map := Set m i True\<rparr>, set_dir h name d) \<and>
    part_ok (set_dir h name d) name bc bs (Set m i True) \<and>
    (\<forall>j. block_data (set_dir h name d) name bc bs j = (if j = i then replicate bs 0 else block_data h name bc bs j))"
proof -
  let ?f = "case blocks (dir_of h name) i of None \<Rightarrow> [] | Some f \<Rightarrow> f" and ?m = "Set m i True"
  have m: "bitset_ok m" "bits m = bc" "bits ?m = bc" "bitset_ok ?m"
    using assms(1) bitset_ok_Set by (auto simp: part_ok_def) (simp add: Set_def)
  have d: "dirs h name \<noteq> None" using assms(1) part_dir by (auto simp: part_ok_def)
  have z: "zero_fill bs 0 ?f = replicate bs 0"
    using assms(1) by (auto simp: zero_fill_spec poke_def part_ok_def split: option.splits)
  let ?d = "(dir_of h name)\<lparr>blocks := (blocks (dir_of h name))(i := Some (replicate bs 0)), partmap := Some (WriteTo ?m)\<rparr>"
  have i: "HInitBlock p i h = (True, p\<lparr>hp_map := ?m\<rparr>, set_dir h name ?d)"
    using assms(1,2) m z unfolding p_def
    by (simp add: HInitBlock_def part_ok_def map_bit_inside FlushMap_def set_block_def Let_def)
       (simp add: set_dir_def)
  have g: "Get ?m j = (j = i \<or> Get m j)" for j using Get_Set [OF m(1), of i True j] assms(2) m(2) by auto
  have ok: "part_ok (set_dir h name ?d) name bc bs ?m"
    using assms(1) m g d by (auto simp: part_ok_def read_config_set_dir)
  have "block_data (set_dir h name ?d) name bc bs j = (if j = i then replicate bs 0 else block_data h name bc bs j)" for j
    using g unfolding block_data_ok(1) [OF ok] block_data_ok(1) [OF assms(1)] by simp
  with i ok show ?thesis by blast
qed

lemma HWriteBlock_ok:
  assumes "part_ok h name bc bs m" and "i < bc" and "off + length d \<le> bs" and "bs < 2 ^ 64"
  defines "p \<equiv> \<lparr>hp_id = name, hp_blockCount = bc, hp_blockSize = bs, hp_map = m\<rparr>"
  shows "\<exists>dir p' m'. HWriteBlock p i d off h = (True, p', set_dir h name dir) \<and>
    part_ok (set_dir h name dir) name bc bs m' \<and>
    (\<forall>j. block_data (set_dir h name dir) name bc bs j =
       (if j = i then poke off d (block_data h name bc bs i) else block_data h name bc bs j))"
proof -
  have a: "\<not> block_args_bad p i (length d) off" using assms by (simp add: block_args_bad_def p_def)
  have b: "map_bit p h i = Get m i" using assms(1,2) by (simp add: p_def map_bit_inside part_ok_def)
  have d: "dirs h name \<noteq> None" using assms(1) part_dir by (auto simp: part_ok_def)
  obtain dir1 p1 m1 where s: "(if map_bit p h i then (p, h) else snd (HInitBlock p i h)) = (p1, set_dir h name dir1)"
    and ok1: "part_ok (set_dir h name dir1) name bc bs m1" and g1: "Get m1 i"
    and bd: "\<And>j. block_data (set_dir h name dir1) name bc bs j = block_data h name bc bs j"
  proof (cases "Get m i")
    case True
    with b assms(1) set_dir_self [OF d] show ?thesis by (intro that [of p "dir_of h name" m]) simp_all
  next
    case False
    obtain dir where i: "HInitBlock p i h = (True, p\<lparr>hp_map := Set m i True\<rparr>, set_dir h name dir)"
      "part_ok (set_dir h name dir) name bc bs (Set m i True)"
      "\<forall>j. block_data (set_dir h name dir) name bc bs j = (if j = i then replicate bs 0 else block_data h name bc bs j)"
      using HInitBlock_ok [OF assms(1,2)] unfolding p_def by blast
    moreover have "block_data h name bc bs i = replicate bs 0"
      using False by (simp add: block_data_ok(1) [OF assms(1)])
    moreover have "Get (Set m i True) i" using Get_Set [of m i True i] assms(1,2) by (simp add: part_ok_def)
    ultimately show ?thesis using False b by (intro that) auto
  qed
  let ?h = "set_dir h name dir1"
  obtain f where f: "blocks (dir_of ?h name) i = Some f" "length f = bs"
    using ok1 g1 unfolding part_ok_def by blast
  have fd: "f = block_data h name bc bs i"
    using f g1 bd [of i] by (simp add: block_data_ok(1) [OF ok1])
  let ?f = "poke off d f"
  have w: "fwrite_at off d f = ?f" and l: "length ?f = bs" using f assms(3) by (simp_all add: fwrite_at_inside)
  have "HWriteBlock p i d off h = (True, p1, set_block ?h name i ?f)"
  proof -
    have "hp_id p = name" "can_open h name i" using ok1 by (simp_all add: p_def part_ok_def)
    with a f w show ?thesis unfolding HWriteBlock_def s by simp
  qed
  moreover have "set_block ?h name i ?f = set_dir h name ((dir_of ?h name)\<lparr>blocks := (blocks (dir_of ?h name))(i := Some ?f)\<rparr>)"
    by (simp add: set_block_def) (simp add: set_dir_def)
  ultimately show ?thesis using part_ok_set_block [OF ok1 g1 l] bd fd by (metis (no_types, lifting))
qed

section \<open>Block requests\<close>

lemma config_range:
  assumes "read_config h name = Some (bc, bs)"
  shows "bc < 2 ^ 64"
proof -
  obtain f where "length f \<ge> 16" "bc = le_val (peek 0 8 f)"
    using assms by (auto simp: read_config_def split: if_splits option.splits)
  then show ?thesis using le_val_less [of "peek 0 8 f"] by (simp add: min_def)
qed

lemma OnReadBlock_ok:
  assumes "part_ok h name bc bs m" and "off + sz \<le> bs" and "bs < 2 ^ 32"
    and "strtoull (rq_param rq ''block'') = (if row \<ge> 2 ^ 64 then 2 ^ 64 - 1 else row)"
    and "strtoull (rq_param rq ''offset'') = off" and "strtoull (rq_param rq ''size'') = sz"
  shows "OnReadBlock rq name bc bs h =
    (if row < bc \<and> off < bs then Bytes (peek off sz (block_data h name bc bs row)) else failed 500 ''Invalid arguments'' ARGUMENT_INVALID, h)"
proof -
  have bc: "bc < 2 ^ 64" using assms(1) config_range unfolding part_ok_def by blast
  have "off mod 2 ^ 32 = off" "sz mod 2 ^ 32 = sz" using assms(2,3) by simp_all
  with assms bc HReadBlock_ok [OF assms(1) _ assms(2), of row] show ?thesis
    by (auto simp: OnReadBlock_def HPartition_new_ok [OF assms(1)])
qed

lemma OnWriteBlock_ok:
  assumes "part_ok h name bc bs m" and "off + length d \<le> bs" and "bs < 2 ^ 32"
    and "strtoull (rq_param rq ''block'') = (if row \<ge> 2 ^ 64 then 2 ^ 64 - 1 else row)"
    and "strtoull (rq_param rq ''offset'') = off" and "rq_body rq = Some d"
  obtains (written) dir m' where "row < bc" "d \<noteq> []" "OnWriteBlock rq name bc bs h = (Text (decimal (length d)), set_dir h name dir)"
      "part_ok (set_dir h name dir) name bc bs m'"
      "\<And>j. block_data (set_dir h name dir) name bc bs j =
         (if j = row then poke off d (block_data h name bc bs row) else block_data h name bc bs j)"
  | (refused) "row \<ge> bc \<or> d = []" "OnWriteBlock rq name bc bs h = (failed 500 ''Invalid arguments'' ARGUMENT_INVALID, h)"
proof (cases "row < bc \<and> d \<noteq> []")
  case True
  have bc: "bc < 2 ^ 64" using assms(1) config_range unfolding part_ok_def by blast
  have o: "off mod 2 ^ 32 = off" "off < bs" using assms(2,3) True by (cases d; simp)+
  obtain dir p' m' where w: "HWriteBlock \<lparr>hp_id = name, hp_blockCount = bc, hp_blockSize = bs, hp_map = m\<rparr> row d off h =
      (True, p', set_dir h name dir)"
    and ok: "part_ok (set_dir h name dir) name bc bs m'"
    and bd: "\<forall>j. block_data (set_dir h name dir) name bc bs j =
       (if j = row then poke off d (block_data h name bc bs row) else block_data h name bc bs j)"
    using HWriteBlock_ok [OF assms(1) _ assms(2), of row] True assms(3) by auto
  have "OnWriteBlock rq name bc bs h = (Text (decimal (length d)), set_dir h name dir)"
    using True bc o assms(4-6) w by (simp add: OnWriteBlock_def HPartition_new_ok [OF assms(1)])
  with ok bd True show ?thesis by (intro that(1)) auto
next
  case False
  have bc: "bc < 2 ^ 64" using assms(1) config_range unfolding part_ok_def by blast
  with False assms(4-6) have "OnWriteBlock rq name bc bs h = (failed 500 ''Invalid arguments'' ARGUMENT_INVALID, h)" by (auto simp: OnWriteBlock_def)
  with False show ?thesis by (intro that(2)) auto
qed

section \<open>Properties\<close>

lemma read_config_bytes:
  assumes "name \<noteq> []" "name \<noteq> ''.''" "name \<noteq> ''..''" "config_open h name" "bc < 2 ^ 64" "bs < 2 ^ 64"
  shows "read_config (set_dir h name (d\<lparr>config := Some (le_bytes 8 bc @ le_bytes 8 bs)\<rparr>)) name = Some (bc, bs)"
  using assms by (simp add: read_config_def set_dir_def peek_def)

text \<open>
  C12. A block of a provider keeps what is written to it: a write request inside the block is
  accepted, answers with the number of bytes, and the partition stays well-formed; a later read
  request, served by a partition object built anew from the directory, returns the bytes, and
  all other bytes of the partition are as before.
\<close>

theorem block_request_roundtrip:
  assumes "part_ok h name bc bs m" and "bs < 2 ^ 32" and "row < bc" and "off + length d \<le> bs" and "d \<noteq> []"
    and "strtoull (rq_param wq ''block'') = row" and "strtoull (rq_param wq ''offset'') = off" and "rq_body wq = Some d"
    and "strtoull (rq_param rq ''block'') = i" and "strtoull (rq_param rq ''offset'') = pos"
    and "strtoull (rq_param rq ''size'') = sz" and "i < bc" and "pos < bs" and "pos + sz \<le> bs"
  shows "\<exists>h' m'. OnWriteBlock wq name bc bs h = (Text (decimal (length d)), h') \<and> part_ok h' name bc bs m' \<and>
    OnReadBlock rq name bc bs h' =
      (Bytes (peek pos sz (if i = row then poke off d (block_data h name bc bs row) else block_data h name bc bs i)), h')"
proof -
  have bc: "bc < 2 ^ 64" using assms(1) config_range unfolding part_ok_def by blast
  have w: "strtoull (rq_param wq ''block'') = (if row \<ge> 2 ^ 64 then 2 ^ 64 - 1 else row)"
    and r: "strtoull (rq_param rq ''block'') = (if i \<ge> 2 ^ 64 then 2 ^ 64 - 1 else i)"
    using assms(3,6,9,12) bc by auto
  from assms(1,4,2) w assms(7,8) show ?thesis
  proof (cases rule: OnWriteBlock_ok)
    case (written dir m')
    have "OnReadBlock rq name bc bs (set_dir h name dir) =
      (Bytes (peek pos sz (block_data (set_dir h name dir) name bc bs i)), set_dir h name dir)"
      using OnReadBlock_ok [OF written(4) assms(14,2) r assms(10,11)] assms(12,13) by simp
    with written show ?thesis by auto
  next
    case refused
    with assms(3,5) show ?thesis by simp
  qed
qed

theorem block_request_roundtrip_witness:
  "\<exists>h'. OnReadBlock \<lparr>rq_path = [], rq_param = (\<lambda>k. if k = ''size'' then decimal 4 else decimal 1), rq_body = None\<rparr> ''p'' 3 8 h' =
    (Bytes [5, 6, 0, 0], h')"
proof -
  let ?d = "\<lparr>config = Some (le_bytes 8 3 @ le_bytes 8 8), reservedSize = None, blocks = (\<lambda>_. None), partmap = None\<rparr>"
  let ?h = "\<lparr>dirs = (\<lambda>_. Some ?d), totalReserved = None, hostSize = 9, can_open = (\<lambda>_ _. True), map_open = (\<lambda>_. True),
     config_open = (\<lambda>_. True), trash_word = 0, junk_word = 0, uuids = decimal, issued = 0\<rparr>"
  let ?w = "\<lparr>rq_path = [], rq_param = (\<lambda>k. decimal 1), rq_body = Some [5, 6]\<rparr>"
  let ?r = "\<lparr>rq_path = [], rq_param = (\<lambda>k. if k = ''size'' then decimal 4 else decimal 1), rq_body = None\<rparr>"
  have ok: "part_ok ?h ''p'' 3 8 (BitSet_new 3)"
    by (simp add: part_ok_def bitset_ok_new read_config_def peek_def dir_of_def) (simp add: BitSet_new_def)
  have z: "block_data ?h ''p'' 3 8 1 = replicate 8 0" using block_data_ok(1) [OF ok, of 1] by simp
  have "\<exists>h' m'. OnWriteBlock ?w ''p'' 3 8 ?h = (Text (decimal (length [5, 6 :: byte])), h') \<and> part_ok h' ''p'' 3 8 m' \<and>
    OnReadBlock ?r ''p'' 3 8 h' = (Bytes (peek 1 4 (if (1::nat) = 1 then poke 1 [5, 6] (block_data ?h ''p'' 3 8 1) else block_data ?h ''p'' 3 8 1)), h')"
    by (rule block_request_roundtrip [OF ok]) (simp_all add: strtoull_decimal)
  then have "\<exists>h'. OnReadBlock ?r ''p'' 3 8 h' = (Bytes (peek 1 4 (poke 1 [5, 6] (replicate 8 0))), h')" unfolding z by auto
  then show ?thesis by (simp add: peek_def poke_def numeral_eq_Suc)
qed

lemma OnCreatePartition_reserved:
  assumes "name = rq_param rq ''reserveId''" and "bs = strtoull (rq_param rq ''block'')"
    and "name \<noteq> []" "name \<noteq> ''.''" "name \<noteq> ''..''" and "GetReservedSpace h name < 2 ^ 64"
    and "bs > 0" and "bs \<le> GetReservedSpace h name" and "bs < 2 ^ 64"
    and "config_open h name" and "map_open h name" and "\<forall>i. can_open h name i"
    and "partmap (dir_of h name) = None" and "blocks (dir_of h name) = (\<lambda>_. None)"
    and "h' = set_dir h name ((dir_of h name)\<lparr>config := Some (le_bytes 8 (GetReservedSpace h name div bs) @ le_bytes 8 bs)\<rparr>)"
  shows "OnCreatePartition rq h = (Text (partition_info name), h')"
    and "part_ok h' name (GetReservedSpace h name div bs) bs (BitSet_new (GetReservedSpace h name div bs))"
proof -
  let ?r = "GetReservedSpace h name" let ?bc = "?r div bs"
  have bc: "?bc > 0" "?bc < 2 ^ 64"
    using assms(6-8) div_le_dividend [of ?r bs] by (simp add: div_greater_zero_iff, linarith)
  show "OnCreatePartition rq h = (Text (partition_info name), h')"
    using assms(3,7,8,10) bc(1) by (simp add: assms(15) OnCreatePartition_def Let_def flip: assms(1,2))
  show "part_ok h' name ?bc bs (BitSet_new ?bc)"
    using assms(11-14) bitset_ok_new read_config_bytes [OF assms(3-5,10) bc(2) assms(9)]
    by (simp add: assms(15) part_ok_def) (simp add: BitSet_new_def)
qed

text \<open>
  C28. Opening shop: a reservation that exists and a block size that fits give a partition of
  \<open>reserved div block\<close> blocks that never uses more than the reserved bytes, and the new partition
  is well-formed and all zeros when its directory held no blocks.
\<close>

theorem OnCreatePartition_fresh:
  assumes "name = rq_param rq ''reserveId''" and "bs = strtoull (rq_param rq ''block'')"
    and "name \<noteq> []" "name \<noteq> ''.''" "name \<noteq> ''..''" and "GetReservedSpace h name < 2 ^ 64"
    and "bs > 0" and "bs \<le> GetReservedSpace h name" and "bs < 2 ^ 64"
    and "config_open h name" and "map_open h name" and "\<forall>i. can_open h name i"
    and "partmap (dir_of h name) = None" and "blocks (dir_of h name) = (\<lambda>_. None)"
  shows "\<exists>h'. OnCreatePartition rq h = (Text (partition_info name), h') \<and>
    part_ok h' name (GetReservedSpace h name div bs) bs (BitSet_new (GetReservedSpace h name div bs)) \<and>
    (\<forall>i. block_data h' name (GetReservedSpace h name div bs) bs i = replicate bs 0) \<and>
    GetReservedSpace h name div bs * bs \<le> GetReservedSpace h name"
proof -
  note c = OnCreatePartition_reserved [OF assms refl]
  show ?thesis
    using c block_data_ok(1) [OF c(2)] by (intro exI conjI) (rule c, rule c, auto)
qed

theorem OnCreatePartition_fresh_witness:
  "\<exists>h h'. OnCreatePartition \<lparr>rq_path = [], rq_param = (\<lambda>k. if k = ''block'' then decimal 8 else ''p''), rq_body = None\<rparr> h =
      (Text (partition_info ''p''), h') \<and> part_ok h' ''p'' 3 8 (BitSet_new 3)"
proof -
  let ?d = "\<lparr>config = None, reservedSize = Some 30, blocks = (\<lambda>_. None), partmap = None\<rparr>"
  let ?h = "\<lparr>dirs = (\<lambda>_. Some ?d), totalReserved = None, hostSize = 9, can_open = (\<lambda>_ _. True), map_open = (\<lambda>_. True),
     config_open = (\<lambda>_. True), trash_word = 0, junk_word = 0, uuids = decimal, issued = 0\<rparr>"
  let ?r = "\<lparr>rq_path = [], rq_param = (\<lambda>k. if k = ''block'' then decimal 8 else ''p''), rq_body = None\<rparr>"
  have g: "GetReservedSpace ?h ''p'' = 30" by (simp add: GetReservedSpace_def)
  show ?thesis
    using OnCreatePartition_fresh [of "''p''" ?r 8 ?h] by (simp add: g strtoull_decimal dir_of_def) blast
qed

text \<open>
  C29. Reservations: a reservation that is granted keeps the total within the size of the host, as
  long as the total is below the six largest numbers of 64 bits, which the JSON reader does not give
  back. Its
  own file however records the whole total, so that releasing it right away leaves nothing
  reserved, whatever was reserved before.
\<close>

theorem ReserveSpace_total:
  assumes "ReserveSpace h sz = (reserveId, h')" and "reserveId \<noteq> []" and "sz + GetReservedSpace h [] < 18446744073709551610"
  shows "GetReservedSpace h' [] = sz + GetReservedSpace h [] \<and> GetReservedSpace h' [] \<le> hostSize h \<and>
    GetReservedSpace h' reserveId = sz + GetReservedSpace h [] \<and> GetReservedSpace (UnreserveSpace h' reserveId) [] = 0"
proof -
  have w: "wrap64 (sz + GetReservedSpace h []) = sz + GetReservedSpace h []" using assms(3) by simp
  have g: "\<not> hostSize h < sz + GetReservedSpace h []" and i: "reserveId = uuids h (issued h)"
    using assms(1,2) by (auto simp: ReserveSpace_def Let_def w split: if_splits)
  then have h': "h' = write_reserved (set_dir (h\<lparr>totalReserved := Some (sz + GetReservedSpace h []), issued := Suc (issued h)\<rparr>)
      reserveId (dir_of h reserveId)) reserveId (sz + GetReservedSpace h [])"
    using assms(1) by (simp add: ReserveSpace_def Let_def w dir_of_def)
  have t: "GetReservedSpace h' [] = sz + GetReservedSpace h []"
    and r: "GetReservedSpace h' reserveId = sz + GetReservedSpace h []"
    using assms(2,3) by (simp_all add: h' GetReservedSpace_def write_reserved_def set_dir_def)
  have "totalReserved (UnreserveSpace h' reserveId) = Some (sub64 (GetReservedSpace h' []) (GetReservedSpace h' reserveId))"
    by (simp add: UnreserveSpace_def Let_def write_reserved_def set_dir_def split: option.splits)
  with t r assms(3) have "GetReservedSpace (UnreserveSpace h' reserveId) [] = 0" by (simp add: GetReservedSpace_def [of "UnreserveSpace _ _"])
  with t r g show ?thesis by simp
qed

theorem ReserveSpace_total_witness:
  "\<exists>h'. GetReservedSpace h' [] = 0 \<and> (\<exists>h1. h' = UnreserveSpace h1 ''id'' \<and> GetReservedSpace h1 [] = 70)"
proof -
  let ?h = "\<lparr>dirs = (\<lambda>_. None), totalReserved = Some 40, hostSize = 100, can_open = (\<lambda>_ _. True), map_open = (\<lambda>_. True),
     config_open = (\<lambda>_. True), trash_word = 0, junk_word = 0, uuids = (\<lambda>_. ''id''), issued = 0\<rparr>"
  obtain i h1 where r: "ReserveSpace ?h 30 = (i, h1)" by (rule prod.exhaust)
  then have i: "i = ''id''" by (simp add: ReserveSpace_def GetReservedSpace_def Let_def)
  have "GetReservedSpace h1 [] = 70 \<and> GetReservedSpace (UnreserveSpace h1 ''id'') [] = 0"
    using ReserveSpace_total [OF r [unfolded i]] by (simp add: GetReservedSpace_def)
  then show ?thesis by blast
qed

end
