(* ===== verification/ClientPartition.thy ===== *)
theory ClientPartition
  imports BlockStore
begin

text \<open>
  The client's view of the storage: \<open>dfs::Partition\<close> (a remote partition with its geometry) and
  the part of \<open>dfs::Volume\<close> that owns the partitions and addresses their blocks
  (\<open>src/bdfsclient-lib/Partition.cpp\<close>, \<open>Volume.h\<close>, \<open>Volume.cpp\<close>).

  A \<open>BdPartition\<close> is an object on a remote host; its calls are the parameter \<open>remote\<close>: each
  takes the handle of the object and the state of the outside world, and \<open>None\<close> stands for
  \<open>Wait\<close> giving up before the answer came.
\<close>

record 's remote =
  bd_Read :: "nat \<Rightarrow> nat \<Rightarrow> nat \<Rightarrow> nat \<Rightarrow> 's \<Rightarrow> byte list option \<times> 's"
  bd_Write :: "nat \<Rightarrow> nat \<Rightarrow> nat \<Rightarrow> byte list \<Rightarrow> 's \<Rightarrow> int option \<times> 's"
  bd_Delete :: "nat \<Rightarrow> 's \<Rightarrow> bool option \<times> 's"
  bd_GetTimeout :: "nat \<Rightarrow> u32"

record Partition =
  pt_blockCount :: nat
  pt_blockSize :: nat
  pt_ref :: nat

definition VerifyBlock :: "Partition \<Rightarrow> nat \<Rightarrow> bool" where
  "VerifyBlock p index = True"

definition InitBlock :: "Partition \<Rightarrow> nat \<Rightarrow> bool" where
  "InitBlock p index = True"

definition ReadBlock :: "'s remote \<Rightarrow> Partition \<Rightarrow> nat \<Rightarrow> nat \<Rightarrow> nat \<Rightarrow> 's \<Rightarrow> byte list option \<times> 's" where
  "ReadBlock R p index sz offset st =
     (case bd_Read R (pt_ref p) index offset sz st of
        (Some buf, st') \<Rightarrow> (if length buf = sz then (Some buf, st') else (None, st'))
      | (None, st') \<Rightarrow> (None, st'))"

definition WriteBlock :: "'s remote \<Rightarrow> Partition \<Rightarrow> nat \<Rightarrow> byte list \<Rightarrow> nat \<Rightarrow> 's \<Rightarrow> bool \<times> 's" where
  "WriteBlock R p index buffer offset st =
     (case bd_Write R (pt_ref p) index offset buffer st of
        (Some n, st') \<Rightarrow> (n = int (length buffer), st')
      | (None, st') \<Rightarrow> (False, st'))"

definition Partition_Delete :: "'s remote \<Rightarrow> Partition \<Rightarrow> 's \<Rightarrow> bool \<times> 's" where
  "Partition_Delete R p st =
     (case bd_Delete R (pt_ref p) st of
        (Some b, st') \<Rightarrow> (b, st')
      | (None, st') \<Rightarrow> (False, st'))"

definition Partition_GetTimeout :: "'s remote \<Rightarrow> Partition \<Rightarrow> u32" where
  "Partition_GetTimeout R p = bd_GetTimeout R (pt_ref p)"

section \<open>The volume's partitions\<close>

text \<open>A null pointer in \<open>partitions\<close> is \<open>None\<close>.\<close>

record Volume =
  blockCount :: nat
  dataCount :: nat
  codeCount :: nat
  blockSize :: nat
  partitions :: "Partition option list"

definition Volume_new :: "nat \<Rightarrow> nat \<Rightarrow> nat \<Rightarrow> nat \<Rightarrow> Volume" where
  "Volume_new dc cc bc bs =
     \<lparr>blockCount = bc, dataCount = dc, codeCount = cc, blockSize = bs,
      partitions = replicate (wrap64 (dc + cc)) None\<rparr>"

definition Columns :: "Volume \<Rightarrow> nat" where "Columns v = length (partitions v)"

definition DataSize :: "Volume \<Rightarrow> nat" where
  "DataSize v = wrap64 (dataCount v * blockCount v * blockSize v)"

definition CodeSize :: "Volume \<Rightarrow> nat" where
  "CodeSize v = wrap64 (codeCount v * blockCount v * blockSize v)"

definition TotalSize :: "Volume \<Rightarrow> nat" where
  "TotalSize v = wrap64 (wrap64 (dataCount v + codeCount v) * blockCount v * blockSize v)"

text \<open>
  \<open>SetPartition\<close> compares with \<open>index > partitions.size()\<close>; the index that equals the size passes
  and \<open>partitions[index]\<close> is then out of bounds. The outer \<open>None\<close> is that undefined behaviour.
\<close>

definition SetPartition :: "Volume \<Rightarrow> nat \<Rightarrow> Partition option \<Rightarrow> (bool \<times> Volume) option" where
  "SetPartition v index ptr =
     (case ptr of
        None \<Rightarrow> Some (False, v)
      | Some p \<Rightarrow>
          if index > length (partitions v) \<or> pt_blockSize p \<noteq> blockSize v \<or> pt_blockCount p < blockCount v
          then Some (False, v)
          else if index < length (partitions v)
          then Some (True, v\<lparr>partitions := (partitions v)[index := Some p]\<rparr>)
          else None)"

text \<open>\<open>GetTimeout\<close> and \<open>Delete\<close> dereference every pointer; \<open>None\<close> is the crash on a null one.\<close>

fun timeouts :: "'s remote \<Rightarrow> Partition option list \<Rightarrow> u32 option" where
  "timeouts R [] = Some 0"
| "timeouts R (None # ps) = None"
| "timeouts R (Some p # ps) = map_option (\<lambda>t. Partition_GetTimeout R p + t) (timeouts R ps)"

definition GetTimeout :: "'s remote \<Rightarrow> Volume \<Rightarrow> u32 option" where
  "GetTimeout R v = timeouts R (partitions v)"

fun delete_all :: "'s remote \<Rightarrow> Partition option list \<Rightarrow> bool \<Rightarrow> 's \<Rightarrow> (bool \<times> 's) option" where
  "delete_all R [] success st = Some (success, st)"
| "delete_all R (None # ps) success st = None"
| "delete_all R (Some p # ps) success st =
     (let (b, st') = Partition_Delete R p st in delete_all R ps (success \<and> b) st')"

definition Delete :: "'s remote \<Rightarrow> Volume \<Rightarrow> 's \<Rightarrow> (bool \<times> 's) option" where
  "Delete R v st = delete_all R (partitions v) True st"

text \<open>
  \<open>__ReadDirect\<close> and \<open>__WriteDirect\<close> dereference \<open>partitions[column]\<close>; for a column without a
  partition the code has no defined result and the model answers with failure. Every caller
  checks the column first (\<open>Row::Verify\<close>, \<open>Cache::Read\<close>, \<open>__ReadCell\<close>).
\<close>

definition ReadDirect :: "'s remote \<Rightarrow> Volume \<Rightarrow> 's cell_read" where
  "ReadDirect R v row column sz offset st =
     (if column < length (partitions v)
      then case partitions v ! column of
             Some p \<Rightarrow> ReadBlock R p row sz offset st
           | None \<Rightarrow> (None, st)
      else (None, st))"

definition WriteDirect :: "'s remote \<Rightarrow> Volume \<Rightarrow> 's cell_write" where
  "WriteDirect R v row column buffer offset st =
     (if column < length (partitions v)
      then case partitions v ! column of
             Some p \<Rightarrow> WriteBlock R p row buffer offset st
           | None \<Rightarrow> (False, st)
      else (False, st))"

definition VerifyCell :: "Volume \<Rightarrow> nat \<Rightarrow> nat \<Rightarrow> bool" where
  "VerifyCell v row column =
     (if column \<ge> length (partitions v) then False
      else case partitions v ! column of None \<Rightarrow> False | Some p \<Rightarrow> VerifyBlock p row)"

text \<open>All partitions are set and have the volume's geometry.\<close>

definition volume_ok :: "Volume \<Rightarrow> bool" where
  "volume_ok v \<longleftrightarrow> length (partitions v) = dataCount v + codeCount v \<and>
     (\<forall>p \<in> set (partitions v). p \<noteq> None) \<and> dataCount v > 0 \<and> blockSize v > 0 \<and>
     blockCount v * dataCount v * blockSize v \<le> 2 ^ 63 \<and> dataCount v + codeCount v \<le> 256"

definition geometry_ok :: "Volume \<Rightarrow> bool" where
  "geometry_ok v \<longleftrightarrow> (\<forall>p \<in> set (partitions v).
     case p of None \<Rightarrow> True | Some q \<Rightarrow> pt_blockSize q = blockSize v \<and> blockCount v \<le> pt_blockCount q)"

section \<open>Lemmas\<close>

lemma geometry_new: "geometry_ok (Volume_new dc cc bc bs)"
  by (simp add: geometry_ok_def Volume_new_def)

lemma geometry_SetPartition:
  "geometry_ok v \<Longrightarrow> SetPartition v i p = Some (b, v') \<Longrightarrow> geometry_ok v'"
  by (auto simp: geometry_ok_def SetPartition_def split: option.splits if_splits
      dest!: set_update_subset_insert [THEN subsetD])

lemma Columns_SetPartition: "SetPartition v i p = Some (b, v') \<Longrightarrow> Columns v' = Columns v"
  by (auto simp: SetPartition_def Columns_def split: option.splits if_splits)

section \<open>Properties\<close>

text \<open>
  \<open>SetPartition\<close> admits exactly the partitions that fit the volume and keeps the geometry
  invariant and the number of columns; the index that equals the number of columns passes its
  check and has no defined result.
\<close>

theorem SetPartition_cases:
  assumes "geometry_ok v"
  shows "(case SetPartition v index ptr of
      None \<Rightarrow> index = Columns v \<and> ptr \<noteq> None
    | Some (True, v') \<Rightarrow> index < Columns v \<and> geometry_ok v' \<and> Columns v' = Columns v \<and> partitions v' ! index = ptr \<and>
        (\<forall>i. i \<noteq> index \<longrightarrow> partitions v' ! i = partitions v ! i)
    | Some (False, v') \<Rightarrow> v' = v)"
proof (cases "SetPartition v index ptr")
  case None
  then show ?thesis by (auto simp: SetPartition_def Columns_def split: option.splits if_splits)
next
  case (Some r)
  obtain b v' where r: "r = (b, v')" by (rule prod.exhaust)
  note g = geometry_SetPartition [OF assms Some [unfolded r]] Columns_SetPartition [OF Some [unfolded r]]
  show ?thesis
  proof (cases b)
    case True
    then have "index < length (partitions v)" "v' = v\<lparr>partitions := (partitions v)[index := ptr]\<rparr>"
      using Some r by (auto simp: SetPartition_def split: option.splits if_splits)
    with Some r True g show ?thesis by (simp add: Columns_def)
  next
    case False
    then have "v' = v" using Some r by (auto simp: SetPartition_def split: option.splits if_splits)
    with Some r False show ?thesis by simp
  qed
qed

theorem SetPartition_cases_witness:
  "SetPartition (Volume_new 1 1 4 8) 2 (Some \<lparr>pt_blockCount = 4, pt_blockSize = 8, pt_ref = 0\<rparr>) = None \<and>
   (case SetPartition (Volume_new 1 1 4 8) 1 (Some \<lparr>pt_blockCount = 4, pt_blockSize = 8, pt_ref = 0\<rparr>) of
      Some (True, v') \<Rightarrow> geometry_ok v' | _ \<Rightarrow> False)"
proof -
  let ?p = "\<lparr>pt_blockCount = 4, pt_blockSize = 8, pt_ref = 0\<rparr>"
  obtain v' where s: "SetPartition (Volume_new 1 1 4 8) 1 (Some ?p) = Some (True, v')"
    by (simp add: SetPartition_def Volume_new_def)
  have "geometry_ok v'" using SetPartition_cases [of "Volume_new 1 1 4 8" 1 "Some ?p"] geometry_new s by simp
  moreover have "SetPartition (Volume_new 1 1 4 8) 2 (Some ?p) = None" by (simp add: SetPartition_def Volume_new_def)
  ultimately show ?thesis using s by simp
qed

end
