(* ===== verification/Volume.thy ===== *)
theory Volume
  imports ClientPartition Cache
begin

text \<open>
  The striped volume, \<open>dfs::Volume\<close> with its rows, columns and cells
  (\<open>src/bdfsclient-lib/Volume.cpp\<close>, \<open>VolumeRow.cpp\<close>, \<open>VolumeCell.cpp\<close>, \<open>VolumeColumn.cpp\<close>). The data
  is laid out over the \<open>dataCount\<close> first cells of each row, the other cells of the row hold its
  erasure code. Cells are reached through the optional cache.

  The erasure code (cm256) and AES are libraries: they are the parameters \<open>cm256\<close> and \<open>aes\<close>. A
  failed read leaves the caller's zeroed buffer, so its block counts as zeros in \<open>Encode\<close>.
  \<open>blockSize\<close> and \<open>dataCount\<close> are positive: the code divides by both.
\<close>

record cm256 =
  cm256_encode :: "nat \<Rightarrow> nat \<Rightarrow> nat \<Rightarrow> byte list list \<Rightarrow> byte list option"
  cm256_decode :: "nat \<Rightarrow> nat \<Rightarrow> nat \<Rightarrow> (byte list \<times> nat) list \<Rightarrow> byte list list option"

text \<open>\<open>AES_cbc_encrypt\<close> on a block with the given initialisation vector, in both directions.\<close>

record aes =
  cbc_encrypt :: "byte list \<Rightarrow> byte list \<Rightarrow> byte list"
  cbc_decrypt :: "byte list \<Rightarrow> byte list \<Rightarrow> byte list"

section \<open>Cells through the cache\<close>

type_synonym 's vstate = "cache option \<times> 's"

definition EnableCache :: "cache \<Rightarrow> 's vstate \<Rightarrow> 's vstate" where
  "EnableCache val s = (Some val, snd s)"

definition ReadCached :: "'s remote \<Rightarrow> (nat \<Rightarrow> env) \<Rightarrow> Volume \<Rightarrow> 's vstate cell_read" where
  "ReadCached R es v row column sz offset s =
     (case s of
        (Some c, st) \<Rightarrow>
          (case Cache_Read (ReadDirect R v) (WriteDirect R v) (blockSize v) (dataCount v + codeCount v) es
                  row column sz offset (c, st) of
             (r, (c', st')) \<Rightarrow> (r, (Some c', st')))
      | (None, st) \<Rightarrow>
          (case ReadDirect R v row column sz offset st of (r, st') \<Rightarrow> (r, (None, st'))))"

definition WriteCached :: "'s remote \<Rightarrow> (nat \<Rightarrow> env) \<Rightarrow> Volume \<Rightarrow> 's vstate cell_write" where
  "WriteCached R es v row column buffer offset s =
     (case s of
        (Some c, st) \<Rightarrow>
          (case Cache_Write (ReadDirect R v) (WriteDirect R v) (blockSize v) (dataCount v + codeCount v) es
                  row column buffer offset (c, st) of
             (b, (c', st')) \<Rightarrow> (b, (Some c', st')))
      | (None, st) \<Rightarrow>
          (case WriteDirect R v row column buffer offset st of (b, st') \<Rightarrow> (b, (None, st'))))"

section \<open>Rows\<close>

fun read_row :: "'s cell_read \<Rightarrow> nat \<Rightarrow> nat \<Rightarrow> nat list \<Rightarrow> 's \<Rightarrow> byte list list \<times> 's" where
  "read_row rc bs row [] s = ([], s)"
| "read_row rc bs row (i # is) s =
     (let (r, s1) = rc row i bs 0 s;
          (blocks, s2) = read_row rc bs row is s1
      in ((case r of Some d \<Rightarrow> d | None \<Rightarrow> replicate bs 0) # blocks, s2))"

fun write_codes :: "'s cell_write \<Rightarrow> nat \<Rightarrow> nat \<Rightarrow> nat \<Rightarrow> byte list \<Rightarrow> nat list \<Rightarrow> 's \<Rightarrow> 's" where
  "write_codes wc bs dc row codeBuffer [] s = s"
| "write_codes wc bs dc row codeBuffer (i # is) s =
     write_codes wc bs dc row codeBuffer is (snd (wc row (i + dc) (peek (i * bs) bs codeBuffer) 0 s))"

definition Row_Encode :: "cm256 \<Rightarrow> 's cell_read \<Rightarrow> 's cell_write \<Rightarrow> Volume \<Rightarrow> nat \<Rightarrow> 's \<Rightarrow> bool \<times> 's" where
  "Row_Encode cm rc wc v row s =
     (let (blocks, s1) = read_row rc (blockSize v) row [0..<dataCount v] s
      in case cm256_encode cm (blockSize v) (dataCount v) (codeCount v) blocks of
           None \<Rightarrow> (False, s1)
         | Some codeBuffer \<Rightarrow>
             (True, write_codes wc (blockSize v) (dataCount v) row codeBuffer [0..<codeCount v] s1))"

text \<open>
  The first loop of \<open>Decode\<close>: the verified data cells with their indices, zeros for the others,
  and the list of the missing ones.
\<close>

fun decode_data :: "'s cell_read \<Rightarrow> Volume \<Rightarrow> nat \<Rightarrow> nat list \<Rightarrow> 's \<Rightarrow>
    ((byte list \<times> nat) list \<times> nat list) option \<times> 's" where
  "decode_data rc v row [] s = (Some ([], []), s)"
| "decode_data rc v row (i # is) s =
     (if VerifyCell v row i
      then case rc row i (blockSize v) 0 s of
             (None, s1) \<Rightarrow> (None, s1)
           | (Some d, s1) \<Rightarrow>
               (case decode_data rc v row is s1 of
                  (None, s2) \<Rightarrow> (None, s2)
                | (Some (blocks, missing), s2) \<Rightarrow> (Some ((d, i) # blocks, missing), s2))
      else case decode_data rc v row is s of
             (None, s2) \<Rightarrow> (None, s2)
           | (Some (blocks, missing), s2) \<Rightarrow>
               (Some ((replicate (blockSize v) 0, 0) # blocks, i # missing), s2))"

fun write_recovered :: "'s cell_write \<Rightarrow> nat \<Rightarrow> (byte list \<times> nat) list \<Rightarrow> nat list \<Rightarrow> 's \<Rightarrow> 's" where
  "write_recovered wc row blocks [] s = s"
| "write_recovered wc row blocks (oi # ois) s =
     write_recovered wc row blocks ois (snd (wc row oi (fst (blocks ! oi)) 0 s))"

text \<open>
  The second loop: code cells replace the missing blocks; when there are enough of them the row is
  decoded and the recovered cells are written. \<open>mi\<close> counts the blocks replaced so far.
\<close>

fun decode_code :: "cm256 \<Rightarrow> 's cell_read \<Rightarrow> 's cell_write \<Rightarrow> Volume \<Rightarrow> nat \<Rightarrow> nat list \<Rightarrow> nat \<Rightarrow> nat list \<Rightarrow>
    (byte list \<times> nat) list \<Rightarrow> 's \<Rightarrow> (byte list \<times> nat) list option \<times> 's" where
  "decode_code cm rc wc v row missing mi [] blocks s = (Some blocks, s)"
| "decode_code cm rc wc v row missing mi (i # is) blocks s =
     (if VerifyCell v row (i + dataCount v)
      then case rc row (i + dataCount v) (blockSize v) 0 s of
             (None, s1) \<Rightarrow> (None, s1)
           | (Some d, s1) \<Rightarrow>
               (let blocks1 = blocks[missing ! mi := (d, dataCount v + i)]
                in if Suc mi = length missing
                   then case cm256_decode cm (blockSize v) (dataCount v) (codeCount v) blocks1 of
                          None \<Rightarrow> (None, s1)
                        | Some ds \<Rightarrow>
                            (let blocks2 = zip ds (map snd blocks1)
                             in (Some blocks2, write_recovered wc row blocks2 missing s1))
                   else decode_code cm rc wc v row missing (Suc mi) is blocks1 s1)
      else decode_code cm rc wc v row missing mi is blocks s)"

definition Row_Decode :: "cm256 \<Rightarrow> 's cell_read \<Rightarrow> 's cell_write \<Rightarrow> Volume \<Rightarrow> nat \<Rightarrow> 's \<Rightarrow> bool \<times> 's" where
  "Row_Decode cm rc wc v row s =
     (case decode_data rc v row [0..<dataCount v] s of
        (None, s1) \<Rightarrow> (False, s1)
      | (Some (blocks, missing), s1) \<Rightarrow>
          (case (if missing \<noteq> [] then decode_code cm rc wc v row missing 0 [0..<codeCount v] blocks s1
                 else (Some blocks, s1)) of
             (None, s2) \<Rightarrow> (False, s2)
           | (Some blocks', s2) \<Rightarrow>
               (case cm256_encode cm (blockSize v) (dataCount v) (codeCount v) (map fst blocks') of
                  None \<Rightarrow> (False, s2)
                | Some codeBuffer \<Rightarrow>
                    (True, write_codes wc (blockSize v) (dataCount v) row codeBuffer [0..<codeCount v] s2))))"

fun verify_cols :: "cm256 \<Rightarrow> 's cell_read \<Rightarrow> 's cell_write \<Rightarrow> Volume \<Rightarrow> nat \<Rightarrow> Partition option list \<Rightarrow> 's \<Rightarrow> bool \<times> 's" where
  "verify_cols cm rc wc v row [] s = (True, s)"
| "verify_cols cm rc wc v row (None # ps) s = (False, s)"
| "verify_cols cm rc wc v row (Some p # ps) s =
     (if VerifyBlock p row then verify_cols cm rc wc v row ps s
      else case Row_Decode cm rc wc v row s of
             (False, s1) \<Rightarrow> (False, s1)
           | (True, s1) \<Rightarrow> verify_cols cm rc wc v row ps s1)"

definition Row_Verify :: "cm256 \<Rightarrow> 's cell_read \<Rightarrow> 's cell_write \<Rightarrow> Volume \<Rightarrow> nat \<Rightarrow> 's \<Rightarrow> bool \<times> 's" where
  "Row_Verify cm rc wc v row s = verify_cols cm rc wc v row (partitions v) s"

section \<open>Cells and columns\<close>

record Cell =
  cl_row :: nat
  cl_column :: nat

definition GetCell :: "nat \<Rightarrow> nat \<Rightarrow> Cell" where
  "GetCell row column = \<lparr>cl_row = row, cl_column = column\<rparr>"

text \<open>\<open>Column::GetCell\<close> hands its column to the row parameter.\<close>

definition Column_GetCell :: "nat \<Rightarrow> nat \<Rightarrow> Cell" where
  "Column_GetCell column row = GetCell column row"

definition partition_set :: "Volume \<Rightarrow> nat \<Rightarrow> bool" where
  "partition_set v column \<longleftrightarrow> column < length (partitions v) \<and> partitions v ! column \<noteq> None"

definition WriteCell :: "cm256 \<Rightarrow> 's cell_read \<Rightarrow> 's cell_write \<Rightarrow> Volume \<Rightarrow> nat \<Rightarrow> nat \<Rightarrow> byte list \<Rightarrow> nat \<Rightarrow> 's \<Rightarrow> bool \<times> 's" where
  "WriteCell cm rc wc v row column buffer offset s =
     (if \<not> partition_set v column then (False, s)
      else case (if column < dataCount v then Row_Verify cm rc wc v row s else (True, s)) of
             (False, s1) \<Rightarrow> (False, s1)
           | (True, s1) \<Rightarrow>
               (case wc row column buffer offset s1 of
                  (False, s2) \<Rightarrow> (False, s2)
                | (True, s2) \<Rightarrow> (if column < dataCount v then Row_Encode cm rc wc v row s2 else (True, s2))))"

definition ReadCell :: "cm256 \<Rightarrow> 's cell_read \<Rightarrow> 's cell_write \<Rightarrow> Volume \<Rightarrow> nat \<Rightarrow> nat \<Rightarrow> nat \<Rightarrow> nat \<Rightarrow> 's \<Rightarrow>
    byte list option \<times> 's" where
  "ReadCell cm rc wc v row column sz offset s =
     (if \<not> partition_set v column then (None, s)
      else case rc row column sz offset s of
             (Some d, s1) \<Rightarrow> (Some d, s1)
           | (None, s1) \<Rightarrow>
               (case Row_Verify cm rc wc v row s1 of
                  (False, s2) \<Rightarrow> (None, s2)
                | (True, s2) \<Rightarrow> rc row column sz offset s2))"

definition Cell_Verify :: "Volume \<Rightarrow> Cell \<Rightarrow> bool" where
  "Cell_Verify v cl = VerifyCell v (cl_row cl) (cl_column cl)"

definition Cell_Write :: "cm256 \<Rightarrow> 's cell_read \<Rightarrow> 's cell_write \<Rightarrow> Volume \<Rightarrow> Cell \<Rightarrow> byte list \<Rightarrow> nat \<Rightarrow> 's \<Rightarrow> bool \<times> 's" where
  "Cell_Write cm rc wc v cl buffer offset s = WriteCell cm rc wc v (cl_row cl) (cl_column cl) buffer offset s"

definition Cell_Read :: "cm256 \<Rightarrow> 's cell_read \<Rightarrow> 's cell_write \<Rightarrow> Volume \<Rightarrow> Cell \<Rightarrow> nat \<Rightarrow> nat \<Rightarrow> 's \<Rightarrow> byte list option \<times> 's" where
  "Cell_Read cm rc wc v cl sz offset s = ReadCell cm rc wc v (cl_row cl) (cl_column cl) sz offset s"

section \<open>Reading and writing ranges of bytes\<close>

text \<open>
  The loops of \<open>Read\<close> and \<open>Write\<close>. \<open>blockRemaining\<close> is \<open>blockSize - blockOffset\<close> in every round. A
  round moves at least one byte because the offset lies inside the block; the branch for none
  is not reached.
\<close>

function write_loop :: "nat \<Rightarrow> nat \<Rightarrow> 's cell_write \<Rightarrow> (nat \<Rightarrow> 's \<Rightarrow> bool \<times> 's) \<Rightarrow> (nat \<Rightarrow> 's \<Rightarrow> bool \<times> 's) \<Rightarrow>
    nat \<Rightarrow> nat \<Rightarrow> nat \<Rightarrow> byte list \<Rightarrow> 's \<Rightarrow> bool \<times> 's" where
  "write_loop bs dc wcell encode verify row col blockOffset buffer s =
     (let blockRemaining = bs - blockOffset;
          toWrite = (if length buffer > blockRemaining then blockRemaining else length buffer)
      in case wcell row col (take toWrite buffer) blockOffset s of
           (False, s1) \<Rightarrow> (False, s1)
         | (True, s1) \<Rightarrow>
             (let rest = drop toWrite buffer
              in if rest = [] then encode row s1
                 else if toWrite = 0 then (False, s1)
                 else if Suc col = dc
                 then (case encode row s1 of
                         (False, s2) \<Rightarrow> (False, s2)
                       | (True, s2) \<Rightarrow>
                           (case verify (Suc row) s2 of
                              (False, s3) \<Rightarrow> (False, s3)
                            | (True, s3) \<Rightarrow> write_loop bs dc wcell encode verify (Suc row) 0 0 rest s3))
                 else write_loop bs dc wcell encode verify row (Suc col) 0 rest s1))"
  by pat_completeness auto
termination
  by (relation "measure (\<lambda>(bs, dc, wcell, encode, verify, row, col, blockOffset, buffer, s). length buffer)") auto

function read_loop :: "nat \<Rightarrow> nat \<Rightarrow> 's cell_read \<Rightarrow> (nat \<Rightarrow> 's \<Rightarrow> bool \<times> 's) \<Rightarrow>
    nat \<Rightarrow> nat \<Rightarrow> nat \<Rightarrow> nat \<Rightarrow> 's \<Rightarrow> byte list option \<times> 's" where
  "read_loop bs dc rcell verify row col blockOffset sz s =
     (let blockRemaining = bs - blockOffset;
          toRead = (if sz > blockRemaining then blockRemaining else sz)
      in case rcell row col toRead blockOffset s of
           (None, s1) \<Rightarrow> (None, s1)
         | (Some d, s1) \<Rightarrow>
             (if sz - toRead = 0 then (Some d, s1)
              else if toRead = 0 then (None, s1)
              else case (if Suc col = dc
                         then (case verify (Suc row) s1 of
                                 (False, s2) \<Rightarrow> (None, s2)
                               | (True, s2) \<Rightarrow> read_loop bs dc rcell verify (Suc row) 0 0 (sz - toRead) s2)
                         else read_loop bs dc rcell verify row (Suc col) 0 (sz - toRead) s1) of
                     (None, s3) \<Rightarrow> (None, s3)
                   | (Some ds, s3) \<Rightarrow> (Some (d @ ds), s3)))"
  by pat_completeness auto
termination
  by (relation "measure (\<lambda>(bs, dc, rcell, verify, row, col, blockOffset, sz, s). sz)") auto

declare write_loop.simps [simp del] read_loop.simps [simp del]

definition out_of_range :: "Volume \<Rightarrow> nat \<Rightarrow> nat \<Rightarrow> bool" where
  "out_of_range v sz offset \<longleftrightarrow>
     (let limit = wrap64 (blockCount v * dataCount v * blockSize v)
      in offset \<ge> limit \<or> sz > limit \<or> wrap64 (offset + sz) > limit)"

definition write_striped :: "Volume \<Rightarrow> 's cell_write \<Rightarrow> (nat \<Rightarrow> 's \<Rightarrow> bool \<times> 's) \<Rightarrow> (nat \<Rightarrow> 's \<Rightarrow> bool \<times> 's) \<Rightarrow>
    byte list \<Rightarrow> nat \<Rightarrow> 's \<Rightarrow> bool \<times> 's" where
  "write_striped v wcell encode verify buffer offset s =
     (if buffer = [] then (True, s)
      else let dataBlock = offset div blockSize v;
               blockOffset = offset - dataBlock * blockSize v;
               row = dataBlock div dataCount v;
               col = dataBlock - row * dataCount v
           in if out_of_range v (length buffer) offset then (False, s)
              else case verify row s of
                     (False, s1) \<Rightarrow> (False, s1)
                   | (True, s1) \<Rightarrow>
                       write_loop (blockSize v) (dataCount v) wcell encode verify row col blockOffset buffer s1)"

definition read_striped :: "Volume \<Rightarrow> 's cell_read \<Rightarrow> (nat \<Rightarrow> 's \<Rightarrow> bool \<times> 's) \<Rightarrow> nat \<Rightarrow> nat \<Rightarrow> 's \<Rightarrow> byte list option \<times> 's" where
  "read_striped v rcell verify sz offset s =
     (if sz = 0 then (Some [], s)
      else let dataBlock = offset div blockSize v;
               blockOffset = offset - dataBlock * blockSize v;
               row = dataBlock div dataCount v;
               col = dataBlock - row * dataCount v
           in if out_of_range v sz offset then (None, s)
              else case verify row s of
                     (False, s1) \<Rightarrow> (None, s1)
                   | (True, s1) \<Rightarrow> read_loop (blockSize v) (dataCount v) rcell verify row col blockOffset sz s1)"

definition Volume_Write :: "cm256 \<Rightarrow> 's remote \<Rightarrow> (nat \<Rightarrow> env) \<Rightarrow> Volume \<Rightarrow> byte list \<Rightarrow> nat \<Rightarrow> 's vstate \<Rightarrow> bool \<times> 's vstate" where
  "Volume_Write cm R es v buffer offset s =
     (let rc = ReadCached R es v; wc = WriteCached R es v
      in write_striped v wc (Row_Encode cm rc wc v) (Row_Verify cm rc wc v) buffer offset s)"

definition Volume_Read :: "cm256 \<Rightarrow> 's remote \<Rightarrow> (nat \<Rightarrow> env) \<Rightarrow> Volume \<Rightarrow> nat \<Rightarrow> nat \<Rightarrow> 's vstate \<Rightarrow> byte list option \<times> 's vstate" where
  "Volume_Read cm R es v sz offset s =
     (let rc = ReadCached R es v; wc = WriteCached R es v
      in read_striped v rc (Row_Verify cm rc wc v) sz offset s)"

text \<open>
  The encrypted variants move whole cells. The initialisation vector is the low byte of the row
  number, sixteen times (\<open>memset(iv, row, AES_BLOCK_SIZE)\<close>); the clear buffer of a full block is
  overwritten entirely, so its previous content is given as zeros.
\<close>

definition row_iv :: "nat \<Rightarrow> byte list" where
  "row_iv row = replicate 16 (word_of_nat row)"

definition decrypt_cell :: "aes \<Rightarrow> nat \<Rightarrow> 's cell_read \<Rightarrow> 's cell_read" where
  "decrypt_cell A bs rc row col sz offset s =
     (case rc row col bs 0 s of
        (None, s1) \<Rightarrow> (None, s1)
      | (Some crypt, s1) \<Rightarrow> (Some (peek offset sz (cbc_decrypt A (row_iv row) crypt)), s1))"

definition encrypt_cell :: "aes \<Rightarrow> nat \<Rightarrow> 's cell_read \<Rightarrow> 's cell_write \<Rightarrow> 's cell_write" where
  "encrypt_cell A bs rc wc row col d offset s =
     (case (if length d < bs
            then (case rc row col bs 0 s of
                    (None, s1) \<Rightarrow> (None, s1)
                  | (Some crypt, s1) \<Rightarrow> (Some (cbc_decrypt A (row_iv row) crypt), s1))
            else (Some (replicate bs 0), s)) of
        (None, s1) \<Rightarrow> (False, s1)
      | (Some clear, s1) \<Rightarrow> wc row col (cbc_encrypt A (row_iv row) (poke offset d clear)) 0 s1)"

definition WriteEncrypt :: "cm256 \<Rightarrow> aes \<Rightarrow> 's remote \<Rightarrow> (nat \<Rightarrow> env) \<Rightarrow> Volume \<Rightarrow> byte list \<Rightarrow> nat \<Rightarrow> 's vstate \<Rightarrow> bool \<times> 's vstate" where
  "WriteEncrypt cm A R es v buffer offset s =
     (let rc = ReadCached R es v; wc = WriteCached R es v
      in write_striped v (encrypt_cell A (blockSize v) rc wc) (Row_Encode cm rc wc v) (Row_Verify cm rc wc v) buffer offset s)"

definition ReadDecrypt :: "cm256 \<Rightarrow> aes \<Rightarrow> 's remote \<Rightarrow> (nat \<Rightarrow> env) \<Rightarrow> Volume \<Rightarrow> nat \<Rightarrow> nat \<Rightarrow> 's vstate \<Rightarrow> byte list option \<times> 's vstate" where
  "ReadDecrypt cm A R es v sz offset s =
     (let rc = ReadCached R es v; wc = WriteCached R es v
      in read_striped v (decrypt_cell A (blockSize v) rc) (Row_Verify cm rc wc v) sz offset s)"

section \<open>The volume as one array of bytes\<close>

text \<open>Block \<open>j\<close> of the volume is cell \<open>(j div dc, j mod dc)\<close>; the data is the sequence of its blocks.\<close>

definition blk :: "nat \<Rightarrow> (nat \<Rightarrow> nat \<Rightarrow> byte list) \<Rightarrow> nat \<Rightarrow> byte list" where
  "blk dc m j = m (j div dc) (j mod dc)"

definition flat :: "nat \<Rightarrow> nat \<Rightarrow> (nat \<Rightarrow> nat \<Rightarrow> byte list) \<Rightarrow> byte list" where
  "flat n dc m = concat (map (blk dc m) [0..<n])"

lemma peek_append: "peek off (a + b) xs = peek off a xs @ peek (off + a) b xs"
  by (simp add: peek_def take_add add.commute)

lemma poke_append2:
  "off + length (a @ b) \<le> length xs \<Longrightarrow> poke off (a @ b) xs = poke (off + length a) b (poke off a xs)"
  by (simp add: poke_def add.assoc add.commute [of "length b"])

lemma peek_peek: "a + sz \<le> k \<Longrightarrow> peek a sz (peek off k xs) = peek (off + a) sz xs"
  by (simp add: peek_def drop_take min_def add.commute)

lemma flat_split:
  assumes "j < n"
  shows "flat n dc m = concat (map (blk dc m) [0..<j]) @ blk dc m j @ concat (map (blk dc m) [Suc j..<n])"
proof -
  have "[0..<n] = [0..<j] @ [j..<n]" using assms
    by (metis le_add_diff_inverse less_imp_le upt_add_eq_append zero_le)
  then have "[0..<n] = [0..<j] @ j # [Suc j..<n]" using assms by (simp add: upt_conv_Cons)
  then show ?thesis by (simp add: flat_def)
qed

lemma length_blocks:
  "(\<And>i. i \<in> set js \<Longrightarrow> length (blk dc m i) = bs) \<Longrightarrow> length (concat (map (blk dc m) js)) = length js * bs"
  by (induction js) auto

lemma peek_flat:
  assumes "\<And>i. i < n \<Longrightarrow> length (blk dc m i) = bs" and "j < n" and "off + sz \<le> bs"
  shows "peek (j * bs + off) sz (flat n dc m) = peek off sz (blk dc m j)"
proof -
  have l: "length (concat (map (blk dc m) [0..<j])) = j * bs"
    using assms by (subst length_blocks [of _ dc m bs]) auto
  have "length (blk dc m j) = bs" using assms by simp
  with assms(3) l show ?thesis by (simp add: flat_split [OF assms(2)] peek_def)
qed

lemma poke_flat:
  assumes "\<And>i. i < n \<Longrightarrow> length (blk dc m i) = bs" and "j < n" and "off + length d \<le> bs"
    and "blk dc m' j = poke off d (blk dc m j)" and "\<And>i. i < n \<Longrightarrow> i \<noteq> j \<Longrightarrow> blk dc m' i = blk dc m i"
  shows "flat n dc m' = poke (j * bs + off) d (flat n dc m)"
proof -
  have l: "length (concat (map (blk dc m) [0..<j])) = j * bs"
    using assms by (subst length_blocks [of _ dc m bs]) auto
  have b: "length (blk dc m j) = bs" using assms by simp
  have "concat (map (blk dc m') [0..<j]) = concat (map (blk dc m) [0..<j])"
    "concat (map (blk dc m') [Suc j..<n]) = concat (map (blk dc m) [Suc j..<n])"
    using assms(2,5) by (auto intro!: arg_cong [of _ _ concat])
  with l b assms(3,4) show ?thesis by (simp add: flat_split [OF assms(2)] poke_def add.assoc)
qed

lemma length_flat: "(\<And>i. i < n \<Longrightarrow> length (blk dc m i) = bs) \<Longrightarrow> length (flat n dc m) = n * bs"
  unfolding flat_def by (subst length_blocks [of _ dc m bs]) auto

lemma flat_cong: "(\<And>i. i < n \<Longrightarrow> blk dc m' i = blk dc m i) \<Longrightarrow> flat n dc m' = flat n dc m"
  unfolding flat_def by (auto intro!: arg_cong [of _ _ concat])

lemma next_block:
  assumes "dc > 0"
  shows "Suc (j mod dc) = dc \<Longrightarrow> Suc j div dc = Suc (j div dc) \<and> Suc j mod dc = 0"
    and "Suc (j mod dc) \<noteq> dc \<Longrightarrow> Suc j div dc = j div dc \<and> Suc j mod dc = Suc (j mod dc)"
  by (auto simp: div_Suc mod_Suc)

text \<open>
  The contract of the loops: a store of data cells, and row operations that leave the data cells
  alone.
\<close>

locale striped = block_store rd wr cell ok bs dc nrows
  for rd :: "'s cell_read" and wr :: "'s cell_write" and cell ok bs dc nrows +
  fixes enc :: "nat \<Rightarrow> 's \<Rightarrow> bool \<times> 's" and vrf :: "nat \<Rightarrow> 's \<Rightarrow> bool \<times> 's"
  assumes bs_pos: "bs > 0" and dc_pos: "dc > 0"
    and enc_ok: "ok s \<Longrightarrow> enc row s = (b, s') \<Longrightarrow> ok s'"
    and enc_frame: "ok s \<Longrightarrow> enc row s = (b, s') \<Longrightarrow> c < dc \<Longrightarrow> cell s' i c = cell s i c"
    and vrf_ok: "ok s \<Longrightarrow> vrf row s = (b, s') \<Longrightarrow> ok s'"
    and vrf_frame: "ok s \<Longrightarrow> vrf row s = (b, s') \<Longrightarrow> c < dc \<Longrightarrow> cell s' i c = cell s i c"
begin

lemma blk_len: "ok s \<Longrightarrow> length (blk dc (cell s) i) = bs"
  using cell_len dc_pos by (simp add: blk_def)

lemma len_flat: "ok s \<Longrightarrow> length (flat n dc (cell s)) = n * bs"
  by (intro length_flat blk_len)

lemma enc_blk: "ok s \<Longrightarrow> enc row s = (b, s') \<Longrightarrow> blk dc (cell s') i = blk dc (cell s) i"
  using enc_frame dc_pos by (simp add: blk_def)

lemma vrf_blk: "ok s \<Longrightarrow> vrf row s = (b, s') \<Longrightarrow> blk dc (cell s') i = blk dc (cell s) i"
  using vrf_frame dc_pos by (simp add: blk_def)

lemma wr_blk:
  assumes "ok s" "off + length d \<le> bs" "wr (j div dc) (j mod dc) d off s = (b, s')"
  shows "i \<noteq> j \<Longrightarrow> blk dc (cell s') i = blk dc (cell s) i"
    and "b \<Longrightarrow> blk dc (cell s') j = poke off d (blk dc (cell s) j)"
proof -
  have m: "i mod dc < dc" "j mod dc < dc" using dc_pos by simp_all
  show "blk dc (cell s') i = blk dc (cell s) i" if "i \<noteq> j"
  proof -
    have "(i div dc, i mod dc) \<noteq> (j div dc, j mod dc)" using that by (metis div_mult_mod_eq prod.inject)
    with wr_frame [OF assms(1) m(2) assms(2,3) m(1)] show ?thesis by (simp add: blk_def)
  qed
  show "blk dc (cell s') j = poke off d (blk dc (cell s) j)" if b
    using wr_data [OF assms(1) m(2) assms(2)] assms(3) that by (simp add: blk_def)
qed

text \<open>What a write of \<open>len\<close> bytes at block \<open>j\<close>, offset \<open>off\<close> may touch, and what it does on success.\<close>

definition writes :: "nat \<Rightarrow> nat \<Rightarrow> nat \<Rightarrow> byte list \<Rightarrow> bool \<Rightarrow> 's \<Rightarrow> 's \<Rightarrow> bool" where
  "writes n j off d b s s' \<longleftrightarrow> ok s' \<and>
     (b \<longrightarrow> flat n dc (cell s') = poke (j * bs + off) d (flat n dc (cell s))) \<and>
     (\<forall>i. i < j \<or> j * bs + off + length d \<le> i * bs \<longrightarrow> blk dc (cell s') i = blk dc (cell s) i)"

lemma writes_one:
  assumes "ok s" "j < n" "off + length d \<le> bs" "d \<noteq> []" "wr (j div dc) (j mod dc) d off s = (b, s')"
  shows "writes n j off d b s s'"
proof -
  have "ok s'" using wr_ok [OF assms(1) _ assms(3,5)] dc_pos by simp
  moreover have "flat n dc (cell s') = poke (j * bs + off) d (flat n dc (cell s))" if b
    by (rule poke_flat [OF blk_len [OF assms(1)] assms(2,3)])
       (use wr_blk [OF assms(1,3,5)] that in auto)
  moreover have "i \<noteq> j" if "i < j \<or> j * bs + off + length d \<le> i * bs" for i
    using that assms(4) by auto
  ultimately show ?thesis using wr_blk(1) [OF assms(1,3,5)] by (simp add: writes_def)
qed

lemma writes_then:
  assumes "ok s" and "writes n j off d1 True s s1" and "off + length d1 = bs"
    and same: "\<And>i. blk dc (cell s2) i = blk dc (cell s1) i"
    and "writes n (Suc j) 0 d2 b s2 s'" and "Suc j * bs + length d2 \<le> n * bs"
  shows "writes n j off (d1 @ d2) b s s'"
proof -
  have e: "j * bs + off + length d1 = Suc j * bs" using assms(3) by simp
  have f: "flat n dc (cell s2) = flat n dc (cell s1)" by (rule flat_cong) (rule same)
  have "flat n dc (cell s') = poke (j * bs + off) (d1 @ d2) (flat n dc (cell s))" if b
  proof -
    have "flat n dc (cell s') = poke (Suc j * bs) d2 (poke (j * bs + off) d1 (flat n dc (cell s)))"
      using assms(2,5) that f by (simp add: writes_def)
    also have "\<dots> = poke (j * bs + off) (d1 @ d2) (flat n dc (cell s))"
    proof -
      have "j * bs + off + length (d1 @ d2) \<le> length (flat n dc (cell s))"
        using assms(6) e len_flat [OF assms(1), of n] by (simp only: length_append)
      from poke_append2 [OF this] show ?thesis by (simp only: e)
    qed
    finally show ?thesis .
  qed
  moreover have "blk dc (cell s') i = blk dc (cell s) i"
    if "i < j \<or> j * bs + off + length (d1 @ d2) \<le> i * bs" for i
  proof -
    from that have "i < j \<or> j * bs + off + length d1 \<le> i * bs" "i < Suc j \<or> Suc j * bs + length d2 \<le> i * bs"
      using e by auto
    then have "blk dc (cell s1) i = blk dc (cell s) i" "blk dc (cell s') i = blk dc (cell s2) i"
      using assms(2,5) by (auto simp: writes_def)
    with same show ?thesis by simp
  qed
  ultimately show ?thesis using assms(5) by (simp add: writes_def)
qed

lemma writes_fail:
  assumes "writes n j off d1 w s s1" and "ok s2" and "\<And>i. blk dc (cell s2) i = blk dc (cell s1) i"
  shows "writes n j off (d1 @ d2) False s s2"
  using assms by (auto simp: writes_def)

lemma write_loop_spec:
  assumes "ok s" and "j < n" and "off < bs" and "d \<noteq> []" and "j * bs + off + length d \<le> n * bs"
    and "write_loop bs dc wr enc vrf (j div dc) (j mod dc) off d s = (b, s')"
  shows "writes n j off d b s s'"
  using assms
proof (induction "length d" arbitrary: j off d s rule: less_induct)
  case less
  let ?k = "if length d > bs - off then bs - off else length d"
  let ?d1 = "take ?k d" and ?d2 = "drop ?k d"
  have k: "?k > 0" "?k \<le> length d" "off + length ?d1 \<le> bs" "?d1 \<noteq> []" using less.prems(3,4) by auto
  obtain w s1 where w: "wr (j div dc) (j mod dc) ?d1 off s = (w, s1)" by (rule prod.exhaust)
  have one: "writes n j off ?d1 w s s1" by (rule writes_one [OF less.prems(1,2) k(3,4) w])
  then have ok1: "ok s1" by (simp add: writes_def)
  note unf = less.prems(6) [unfolded write_loop.simps [of bs dc wr enc vrf _ _ off d s] Let_def w]
  show ?case
  proof (cases "w \<and> ?d2 \<noteq> []")
    case False
    show ?thesis
    proof (cases w)
      case f: False
      then have "b = False" "s' = s1" using unf by simp_all
      with writes_fail [OF one ok1, of ?d2] show ?thesis by simp
    next
      case True
      with False have d: "?d2 = []" "?d1 = d" by auto
      then have e: "enc (j div dc) s1 = (b, s')" using unf True by simp
      have "flat n dc (cell s') = flat n dc (cell s1)" by (rule flat_cong) (rule enc_blk [OF ok1 e])
      with one enc_ok [OF ok1 e] enc_blk [OF ok1 e] True d show ?thesis by (simp add: writes_def)
    qed
  next
    case True
    then have full: "?k = bs - off" "off + length ?d1 = bs" and w: w using less.prems(3) by (auto split: if_splits)
    have d: "d = ?d1 @ ?d2" by simp
    have l2: "length ?d2 < length d" using k(1) True by auto
    have pos: "Suc j * bs + length ?d2 \<le> n * bs" using less.prems(5) full by (simp add: algebra_simps)
    have j: "Suc j < n"
    proof -
      have "Suc j * bs < n * bs" using pos True by auto
      then show ?thesis by (simp only: mult_less_cancel2)
    qed
    have step: "writes n j off (?d1 @ ?d2) b s s'"
      if "ok s2" "\<And>i. blk dc (cell s2) i = blk dc (cell s1) i"
        "write_loop bs dc wr enc vrf (Suc j div dc) (Suc j mod dc) 0 ?d2 s2 = (b, s')" for s2
    proof (rule writes_then [OF less.prems(1) _ full(2) that(2) _ pos])
      show "writes n j off ?d1 True s s1" using one w by simp
      show "writes n (Suc j) 0 ?d2 b s2 s'"
        using less.hyps [OF l2 that(1) j bs_pos _ _ that(3)] True pos by simp
    qed
    obtain e s2 where e: "enc (j div dc) s1 = (e, s2)" by (rule prod.exhaust)
    have ok2: "ok s2" and b2: "\<And>i. blk dc (cell s2) i = blk dc (cell s1) i"
      using enc_ok [OF ok1 e] enc_blk [OF ok1 e] by auto
    obtain v s3 where v: "vrf (Suc (j div dc)) s2 = (v, s3)" by (rule prod.exhaust)
    have ok3: "ok s3" and b3: "\<And>i. blk dc (cell s3) i = blk dc (cell s1) i"
      using vrf_ok [OF ok2 v] vrf_blk [OF ok2 v] b2 by auto
    note nx = next_block [OF dc_pos, of j]
    have "writes n j off (?d1 @ ?d2) b s s'"
    proof (cases "Suc (j mod dc) = dc")
      case False
      then have "write_loop bs dc wr enc vrf (Suc j div dc) (Suc j mod dc) 0 ?d2 s1 = (b, s')"
        using unf True k(1) w nx(2) by simp
      from step [OF ok1 _ this] show ?thesis by simp
    next
      case last: True
      consider "\<not> e" | "e" "\<not> v" | "e" "v" by blast
      then show ?thesis
      proof cases
        case 1
        then have "\<not> b" "s' = s2" using unf True k(1) w last e by simp_all
        with writes_fail [OF one ok2 b2, of ?d2] show ?thesis by simp
      next
        case 2
        then have "\<not> b" "s' = s3" using unf True k(1) w last e v by simp_all
        with writes_fail [OF one ok3 b3, of ?d2] show ?thesis by simp
      next
        case 3
        then have "write_loop bs dc wr enc vrf (Suc j div dc) (Suc j mod dc) 0 ?d2 s3 = (b, s')"
          using unf True k(1) w last e v nx(1) by simp
        from step [OF ok3 b3 this] show ?thesis .
      qed
    qed
    with d show ?thesis by simp
  qed
qed

lemma read_loop_spec:
  assumes "ok s" and "j < n" and "off < bs" and "sz > 0" and "j * bs + off + sz \<le> n * bs" and "n \<le> nrows * dc"
    and "read_loop bs dc rd vrf (j div dc) (j mod dc) off sz s = (r, s')"
  shows "ok s' \<and> (\<forall>i. blk dc (cell s') i = blk dc (cell s) i) \<and>
    (\<forall>d. r = Some d \<longrightarrow> d = peek (j * bs + off) sz (flat n dc (cell s)))"
  using assms
proof (induction sz arbitrary: j off s r s' rule: less_induct)
  case (less sz)
  let ?k = "if sz > bs - off then bs - off else sz"
  have k: "?k > 0" "?k \<le> sz" "off + ?k \<le> bs" using less.prems(3,4) by auto
  have m: "j mod dc < dc" using dc_pos by simp
  obtain q s1 where q: "rd (j div dc) (j mod dc) ?k off s = (q, s1)" by (rule prod.exhaust)
  have ok1: "ok s1" and b1: "\<And>i. blk dc (cell s1) i = blk dc (cell s) i"
    using rd_ok [OF less.prems(1) m k(3) q] rd_frame [OF less.prems(1) m k(3) q] dc_pos by (auto simp: blk_def)
  have row: "j div dc < nrows" using less.prems(2,6) dc_pos by (simp add: div_less_iff_less_mult)
  have d1: "d = peek (j * bs + off) ?k (flat n dc (cell s))" if "q = Some d" for d
    using rd_data [OF less.prems(1) m k(3) _ row] q that peek_flat [OF blk_len [OF less.prems(1)] less.prems(2) k(3)]
    by (simp add: blk_def)
  note unf = less.prems(7) [unfolded read_loop.simps [of bs dc rd vrf _ _ off sz s] Let_def q]
  show ?case
  proof (cases q)
    case None
    then have "r = None" "s' = s1" using unf by simp_all
    with ok1 b1 show ?thesis by simp
  next
    case (Some d)
    show ?thesis
    proof (cases "sz - ?k = 0")
      case True
      then have "r = Some d" "s' = s1" using unf Some by simp_all
      moreover have "?k = sz" using True k by simp
      ultimately show ?thesis using ok1 b1 d1 [OF Some] by simp
    next
      case False
      then have full: "off + ?k = bs" using less.prems(3) by (auto split: if_splits)
      let ?r = "sz - ?k"
      have pos: "Suc j * bs + ?r \<le> n * bs" and e: "j * bs + off + ?k = Suc j * bs"
        using less.prems(5) full k(2) by (simp_all add: algebra_simps)
      have j: "Suc j < n"
      proof -
        have "Suc j * bs < n * bs" using pos False by linarith
        then show ?thesis by (simp only: mult_less_cancel2)
      qed
      have pk: "peek (j * bs + off) sz (flat n dc (cell s)) = d @ peek (Suc j * bs) ?r (flat n dc (cell s))"
        using peek_append [of "j * bs + off" ?k ?r "flat n dc (cell s)"] d1 [OF Some] e k(2) by simp
      have step: "ok s3 \<and> (\<forall>i. blk dc (cell s3) i = blk dc (cell s) i) \<and>
          (\<forall>ds. q3 = Some ds \<longrightarrow> d @ ds = peek (j * bs + off) sz (flat n dc (cell s)))"
        if "ok s2" and b2: "\<And>i. blk dc (cell s2) i = blk dc (cell s) i"
          and "read_loop bs dc rd vrf (Suc j div dc) (Suc j mod dc) 0 ?r s2 = (q3, s3)" for s2 q3 s3
      proof -
        have "flat n dc (cell s2) = flat n dc (cell s)" by (rule flat_cong) (rule b2)
        with less.IH [OF _ that(1) j bs_pos _ _ less.prems(6) that(3)] False k pos pk b2 show ?thesis by auto
      qed
      obtain v s2 where v: "vrf (Suc (j div dc)) s1 = (v, s2)" by (rule prod.exhaust)
      have ok2: "ok s2" and b2: "\<And>i. blk dc (cell s2) i = blk dc (cell s) i"
        using vrf_ok [OF ok1 v] vrf_blk [OF ok1 v] b1 by auto
      note nx = next_block [OF dc_pos, of j]
      obtain q1 s31 where l1: "read_loop bs dc rd vrf (Suc j div dc) (Suc j mod dc) 0 ?r s1 = (q1, s31)"
        by (rule prod.exhaust)
      obtain q2 s32 where l2: "read_loop bs dc rd vrf (Suc j div dc) (Suc j mod dc) 0 ?r s2 = (q2, s32)"
        by (rule prod.exhaust)
      consider "Suc (j mod dc) \<noteq> dc" | "Suc (j mod dc) = dc" "\<not> v" | "Suc (j mod dc) = dc" v by blast
      then show ?thesis
      proof cases
        case 1
        then have "(r, s') = (map_option ((@) d) q1, s31)"
          using unf Some False k(1) nx(2) l1 by (simp split: option.splits)
        with step [OF ok1 b1 l1] show ?thesis by auto
      next
        case 2
        then have "r = None" "s' = s2" using unf Some False k(1) v by (simp_all)
        with ok2 b2 show ?thesis by simp
      next
        case 3
        then have "(r, s') = (map_option ((@) d) q2, s32)"
          using unf Some False k(1) nx(1) v l2 by (simp split: option.splits)
        with step [OF ok2 b2 l2] show ?thesis by auto
      qed
    qed
  qed
qed

end

lemma out_of_range_iff:
  assumes "blockCount v * dataCount v * blockSize v \<le> 2 ^ 63"
  shows "out_of_range v sz offset \<longleftrightarrow>
    blockCount v * dataCount v * blockSize v \<le> offset \<or> blockCount v * dataCount v * blockSize v < offset + sz"
proof -
  have w: "wrap64 (blockCount v * dataCount v * blockSize v) = blockCount v * dataCount v * blockSize v"
    using assms by (intro wrap64_id) simp
  have "wrap64 (offset + sz) = offset + sz"
    if "offset < blockCount v * dataCount v * blockSize v" "sz \<le> blockCount v * dataCount v * blockSize v"
    using assms that by (intro wrap64_id) simp
  then show ?thesis
    by (cases "offset < blockCount v * dataCount v * blockSize v \<and> sz \<le> blockCount v * dataCount v * blockSize v")
       (auto simp: out_of_range_def Let_def w not_less not_le)
qed

locale striped_volume = striped rd wr cell ok bs dc "blockCount v" enc vrf
  for rd :: "'s cell_read" and wr :: "'s cell_write" and cell ok bs dc enc vrf and v :: Volume +
  assumes v_bs: "blockSize v = bs" and v_dc: "dataCount v = dc" and v_size: "blockCount v * dc * bs \<le> 2 ^ 63"
begin

abbreviation contents :: "'s \<Rightarrow> byte list" where
  "contents s \<equiv> flat (blockCount v * dc) dc (cell s)"

lemma range_iff: "out_of_range v sz offset \<longleftrightarrow> blockCount v * dc * bs \<le> offset \<or> blockCount v * dc * bs < offset + sz"
  using out_of_range_iff [of v] v_bs v_dc v_size by simp

lemma position:
  assumes "\<not> out_of_range v sz offset"
  shows "offset div bs < blockCount v * dc" and "offset div bs * bs + (offset - offset div bs * bs) = offset"
    and "offset - offset div bs * bs < bs" and "offset div bs - offset div bs div dc * dc = offset div bs mod dc"
proof -
  have "offset < blockCount v * dc * bs" using assms by (simp add: range_iff)
  then show "offset div bs < blockCount v * dc" using bs_pos by (simp add: div_less_iff_less_mult)
  show "offset div bs * bs + (offset - offset div bs * bs) = offset" by simp
  show "offset - offset div bs * bs < bs" using bs_pos by (simp add: minus_div_mult_eq_mod)
  show "offset div bs - offset div bs div dc * dc = offset div bs mod dc" by (simp add: minus_div_mult_eq_mod)
qed

lemma write_striped_spec:
  assumes "ok s" and "write_striped v wr enc vrf d offset s = (b, s')"
  shows "ok s' \<and> (b \<longrightarrow> contents s' = poke offset d (contents s) \<and> (d \<noteq> [] \<longrightarrow> offset + length d \<le> length (contents s))) \<and>
    (\<forall>i. Suc i * bs \<le> offset \<or> offset + length d \<le> i * bs \<longrightarrow> blk dc (cell s') i = blk dc (cell s) i)"
proof (cases "d = [] \<or> out_of_range v (length d) offset")
  case True
  with assms show ?thesis by (auto simp: write_striped_def Let_def poke_def split: if_splits)
next
  case False
  let ?j = "offset div bs" and ?o = "offset - offset div bs * bs"
  note p = position [of "length d" offset]
  have r: "offset + length d \<le> blockCount v * dc * bs" using False by (simp add: range_iff)
  obtain q s1 where q: "vrf (?j div dc) s = (q, s1)" by (rule prod.exhaust)
  have ok1: "ok s1" and b1: "\<And>i. blk dc (cell s1) i = blk dc (cell s) i"
    using vrf_ok [OF assms(1) q] vrf_blk [OF assms(1) q] by auto
  have f1: "contents s1 = contents s" by (rule flat_cong) (rule b1)
  show ?thesis
  proof (cases q)
    case f: False
    then have "\<not> b" "s' = s1" using assms(2) False q by (auto simp: write_striped_def Let_def v_bs v_dc)
    with ok1 b1 show ?thesis by simp
  next
    case True
    then have l: "write_loop bs dc wr enc vrf (?j div dc) (?j mod dc) ?o d s1 = (b, s')"
      using assms(2) False q p(4) by (simp add: write_striped_def Let_def v_bs v_dc)
    have w: "writes (blockCount v * dc) ?j ?o d b s1 s'"
      using write_loop_spec [OF ok1 p(1,3) _ _ l] False r p(2) by simp
    have "blk dc (cell s') i = blk dc (cell s) i" if i: "Suc i * bs \<le> offset \<or> offset + length d \<le> i * bs" for i
    proof -
      have "i < ?j" if "Suc i * bs \<le> offset"
        using that bs_pos by (metis Suc_le_eq div_le_mono nonzero_mult_div_cancel_right less_numeral_extra(3))
      with i have "i < ?j \<or> ?j * bs + ?o + length d \<le> i * bs" using p(2) False by auto
      with w have "blk dc (cell s') i = blk dc (cell s1) i" by (auto simp: writes_def)
      with b1 show ?thesis by simp
    qed
    with w f1 r len_flat [OF assms(1)] p(2) False show ?thesis by (simp add: writes_def)
  qed
qed

lemma read_striped_spec:
  assumes "ok s" and "read_striped v rd vrf sz offset s = (r, s')"
  shows "ok s' \<and> (\<forall>i. blk dc (cell s') i = blk dc (cell s) i) \<and>
    (\<forall>d. r = Some d \<longrightarrow> d = peek offset sz (contents s) \<and> length d = sz)"
proof (cases "sz = 0 \<or> out_of_range v sz offset")
  case True
  with assms show ?thesis by (auto simp: read_striped_def Let_def split: if_splits)
next
  case False
  let ?j = "offset div bs" and ?o = "offset - offset div bs * bs"
  note p = position [of sz offset]
  have r: "offset + sz \<le> blockCount v * dc * bs" using False by (simp add: range_iff)
  obtain q s1 where q: "vrf (?j div dc) s = (q, s1)" by (rule prod.exhaust)
  have ok1: "ok s1" and b1: "\<And>i. blk dc (cell s1) i = blk dc (cell s) i"
    using vrf_ok [OF assms(1) q] vrf_blk [OF assms(1) q] by auto
  have f1: "contents s1 = contents s" by (rule flat_cong) (rule b1)
  show ?thesis
  proof (cases q)
    case f: False
    then have "r = None" "s' = s1" using assms(2) False q by (auto simp: read_striped_def Let_def v_bs v_dc)
    with ok1 b1 show ?thesis by simp
  next
    case True
    then have l: "read_loop bs dc rd vrf (?j div dc) (?j mod dc) ?o sz s1 = (r, s')"
      using assms(2) False q p(4) by (simp add: read_striped_def Let_def v_bs v_dc)
    have "ok s' \<and> (\<forall>i. blk dc (cell s') i = blk dc (cell s1) i) \<and>
        (\<forall>d. r = Some d \<longrightarrow> d = peek (?j * bs + ?o) sz (contents s1))"
      using read_loop_spec [OF ok1 p(1,3) _ _ le_refl l] False r p(2) by simp
    with b1 f1 r len_flat [OF assms(1)] p(2) False show ?thesis by auto
  qed
qed

lemma written_is_read:
  assumes "ok s" and "write_striped v wr enc vrf d offset s = (True, s1)"
    and "read_striped v rd vrf (length d) offset s1 = (Some d', s2)"
  shows "d' = d"
proof (cases "d = []")
  case True
  with assms(3) show ?thesis by (simp add: read_striped_def)
next
  case False
  with write_striped_spec [OF assms(1,2)] read_striped_spec [OF _ assms(3)] show ?thesis by simp
qed

end

section \<open>Rows over a store\<close>

context block_store
begin

lemma read_row_spec:
  "ok s \<Longrightarrow> \<forall>i \<in> set is. i < ncols \<Longrightarrow> read_row rd bs row is s = (blocks, s') \<Longrightarrow>
   ok s' \<and> (\<forall>i c. c < ncols \<longrightarrow> cell s' i c = cell s i c) \<and>
   list_all2 (\<lambda>i b. b = cell s row i \<or> b = replicate bs 0) is blocks"
proof (induction "is" arbitrary: s blocks)
  case (Cons i "is")
  obtain r s1 where r: "rd row i bs 0 s = (r, s1)" by (rule prod.exhaust)
  obtain bl where bl: "read_row rd bs row is s1 = (bl, s')"
    "blocks = (case r of Some d \<Rightarrow> d | None \<Rightarrow> replicate bs 0) # bl"
    using Cons.prems(3) r by (auto split: prod.splits)
  have i: "i < ncols" using Cons.prems(2) by simp
  have f: "ok s1" "\<And>k c. c < ncols \<Longrightarrow> cell s1 k c = cell s k c"
    using rd_ok [OF Cons.prems(1) i _ r] rd_frame [OF Cons.prems(1) i _ r] by auto
  have d: "d = cell s row i" if "r = Some d" for d
    by (rule rd_whole [OF Cons.prems(1) i r [unfolded that]])
  have IH: "ok s' \<and> (\<forall>i c. c < ncols \<longrightarrow> cell s' i c = cell s1 i c) \<and>
     list_all2 (\<lambda>i b. b = cell s1 row i \<or> b = replicate bs 0) is bl"
    using Cons.IH [OF f(1) _ bl(1)] Cons.prems(2) by simp
  moreover have "list_all2 (\<lambda>i b. b = cell s row i \<or> b = replicate bs 0) is bl"
    using IH f(2) Cons.prems(2) by (auto simp: list_all2_conv_all_nth)
  ultimately show ?case using f(2) d bl(2) by (cases r) auto
qed auto

lemma write_codes_spec:
  "ok s \<Longrightarrow> \<forall>i \<in> set is. i + dc < ncols \<and> Suc i * bs \<le> length buf \<Longrightarrow>
   ok (write_codes wr bs dc row buf is s) \<and>
   (\<forall>i c. c < ncols \<longrightarrow> i \<noteq> row \<or> c < dc \<longrightarrow> cell (write_codes wr bs dc row buf is s) i c = cell s i c)"
proof (induction "is" arbitrary: s)
  case (Cons i "is")
  let ?p = "peek (i * bs) bs buf"
  obtain b s1 where w: "wr row (i + dc) ?p 0 s = (b, s1)" by (rule prod.exhaust)
  have i: "i + dc < ncols" and l: "0 + length ?p \<le> bs" using Cons.prems(2) by auto
  have "ok s1" and f: "\<And>k c. c < ncols \<Longrightarrow> k \<noteq> row \<or> c < dc \<Longrightarrow> cell s1 k c = cell s k c"
    using wr_ok [OF Cons.prems(1) i l w] wr_frame [OF Cons.prems(1) i l w] by auto
  with Cons.IH [of s1] Cons.prems(2) w show ?case by simp
qed simp

lemma Row_Encode_frame:
  assumes "ok s" and "dataCount v + codeCount v \<le> ncols" and "blockSize v = bs"
    and "\<And>bl buf. cm256_encode cm bs (dataCount v) (codeCount v) bl = Some buf \<Longrightarrow> length buf = codeCount v * bs"
    and "Row_Encode cm rd wr v row s = (b, s')"
  shows "ok s' \<and> (\<forall>i c. c < ncols \<longrightarrow> i \<noteq> row \<or> c < dataCount v \<longrightarrow> cell s' i c = cell s i c)"
proof -
  obtain bl s1 where r: "read_row rd bs row [0..<dataCount v] s = (bl, s1)" by (rule prod.exhaust)
  have f: "ok s1" "\<And>k c. c < ncols \<Longrightarrow> cell s1 k c = cell s k c"
    using read_row_spec [OF assms(1) _ r] assms(2) by auto
  show ?thesis
  proof (cases "cm256_encode cm bs (dataCount v) (codeCount v) bl")
    case None
    with assms(3,5) r f show ?thesis by (simp add: Row_Encode_def)
  next
    case (Some buf)
    then have s': "s' = write_codes wr bs (dataCount v) row buf [0..<codeCount v] s1"
      using assms(3,5) r by (simp add: Row_Encode_def)
    have "\<forall>i \<in> set [0..<codeCount v]. i + dataCount v < ncols \<and> Suc i * bs \<le> length buf"
    proof
      fix i assume "i \<in> set [0..<codeCount v]"
      then have "Suc i \<le> codeCount v" by simp
      then have "Suc i * bs \<le> codeCount v * bs" by (rule mult_le_mono1)
      with assms(2) assms(4) [OF Some] \<open>Suc i \<le> codeCount v\<close> show "i + dataCount v < ncols \<and> Suc i * bs \<le> length buf" by simp
    qed
    from write_codes_spec [OF f(1) this, of row] f(2) s' show ?thesis by simp
  qed
qed

end

text \<open>Every block verifies, so \<open>Verify\<close> only checks that all partitions are there.\<close>

lemma verify_cols_simp: "verify_cols cm rc wc v row ps s = (\<forall>p \<in> set ps. p \<noteq> None, s)"
  by (induction cm rc wc v row ps s rule: verify_cols.induct) (auto simp: VerifyBlock_def)

lemma Row_Verify_simp: "Row_Verify cm rc wc v row s = (\<forall>p \<in> set (partitions v). p \<noteq> None, s)"
  by (simp add: Row_Verify_def verify_cols_simp)

section \<open>The store behind a volume\<close>

definition vview :: "nat \<Rightarrow> ('s \<Rightarrow> nat \<Rightarrow> nat \<Rightarrow> byte list) \<Rightarrow> 's vstate \<Rightarrow> nat \<Rightarrow> nat \<Rightarrow> byte list" where
  "vview bs cell s = (case fst s of Some c \<Rightarrow> view bs cell (c, snd s) | None \<Rightarrow> cell (snd s))"

definition vok :: "nat \<Rightarrow> nat \<Rightarrow> ('s \<Rightarrow> nat \<Rightarrow> nat \<Rightarrow> byte list) \<Rightarrow> ('s \<Rightarrow> bool) \<Rightarrow> 's vstate \<Rightarrow> bool" where
  "vok bs ncols cell ok s \<longleftrightarrow> ok (snd s) \<and>
     (case fst s of Some c \<Rightarrow> coherent bs ncols cell (c, snd s) | None \<Rightarrow> True)"

lemma ReadCached_cases:
  assumes "ReadCached R es v row col sz off s = (r, s')"
  obtains st st' where "s = (None, st)" "s' = (None, st')" "ReadDirect R v row col sz off st = (r, st')"
  | c st c' st' where "s = (Some c, st)" "s' = (Some c', st')"
      "Cache_Read (ReadDirect R v) (WriteDirect R v) (blockSize v) (dataCount v + codeCount v) es row col sz off (c, st) = (r, (c', st'))"
  using assms by (cases s; cases "fst s") (auto simp: ReadCached_def split: prod.splits)

lemma WriteCached_cases:
  assumes "WriteCached R es v row col d off s = (b, s')"
  obtains st st' where "s = (None, st)" "s' = (None, st')" "WriteDirect R v row col d off st = (b, st')"
  | c st c' st' where "s = (Some c, st)" "s' = (Some c', st')"
      "Cache_Write (ReadDirect R v) (WriteDirect R v) (blockSize v) (dataCount v + codeCount v) es row col d off (c, st) = (b, (c', st'))"
  using assms by (cases s; cases "fst s") (auto simp: WriteCached_def split: prod.splits)

locale volume_cells = cached_store "ReadDirect R v" "WriteDirect R v" cell ok "blockSize v" "dataCount v + codeCount v" "blockCount v" es
  for R :: "'s remote" and v cell ok es
begin

abbreviation bsz where "bsz \<equiv> blockSize v"
abbreviation cols where "cols \<equiv> dataCount v + codeCount v"

lemma vok_simps [simp]:
  "vok bsz cols cell ok (None, st) = ok st"
  "vok bsz cols cell ok (Some c, st) \<longleftrightarrow> ok st \<and> coherent bsz cols cell (c, st)"
  "vview bsz cell (None, st) = cell st" "vview bsz cell (Some c, st) = view bsz cell (c, st)"
  by (simp_all add: vok_def vview_def)

lemma vview_len: "vok bsz cols cell ok s \<Longrightarrow> col < cols \<Longrightarrow> length (vview bsz cell s row col) = bsz"
  by (cases s; cases "fst s") (auto simp: view_len cell_len)

lemma ReadCached_spec:
  assumes "vok bsz cols cell ok s" and "col < cols" and "off + sz \<le> bsz"
    and "ReadCached R es v row col sz off s = (r, s')"
  shows "vok bsz cols cell ok s' \<and> (\<forall>i k. k < cols \<longrightarrow> vview bsz cell s' i k = vview bsz cell s i k) \<and>
    (\<forall>d. r = Some d \<longrightarrow> row < blockCount v \<or> sz = bsz \<longrightarrow> d = peek off sz (vview bsz cell s row col))"
  using assms(4)
proof (cases rule: ReadCached_cases)
  case (1 st st')
  with assms(1) have ok: "ok st" by simp
  have "d = peek off sz (cell st row col)" if "r = Some d" "row < blockCount v \<or> sz = bsz" for d
  proof (cases "row < blockCount v")
    case True
    then show ?thesis using rd_data [OF ok assms(2,3)] 1(3) that(1) by simp
  next
    case False
    with that(2) assms(3) have "sz = bsz" "off = 0" by auto
    moreover have "d = cell st row col" using rd_whole [OF ok assms(2)] 1(3) that(1) calculation by simp
    ultimately show ?thesis using cell_len [OF ok assms(2)] by (simp add: peek_def)
  qed
  with 1 ok show ?thesis using rd_ok [OF ok assms(2,3) 1(3)] rd_frame [OF ok assms(2,3) 1(3)] by simp
next
  case (2 c st c' st')
  with assms(1) Cache_Read_spec [OF _ _ assms(2,3) 2(3)] show ?thesis by simp
qed

lemma WriteCached_spec:
  assumes "vok bsz cols cell ok s" and "col < cols" and "off + length d \<le> bsz"
    and "WriteCached R es v row col d off s = (b, s')"
  shows "vok bsz cols cell ok s' \<and>
    (\<forall>i k. k < cols \<longrightarrow> (i, k) \<noteq> (row, col) \<longrightarrow> vview bsz cell s' i k = vview bsz cell s i k) \<and>
    (b \<longrightarrow> vview bsz cell s' row col = poke off d (vview bsz cell s row col))"
  using assms(4)
proof (cases rule: WriteCached_cases)
  case (1 st st')
  with assms(1) have "ok st" by simp
  with 1 show ?thesis using wr_ok [OF _ assms(2,3) 1(3)] wr_frame [OF _ assms(2,3) 1(3)] wr_data [OF _ assms(2,3), of st row st']
    by auto
next
  case (2 c st c' st')
  with assms(1,2) Cache_Write_spec [OF _ _ assms(2,3) 2(3)] show ?thesis by auto
qed

end

sublocale volume_cells \<subseteq> vc: block_store "ReadCached R es v" "WriteCached R es v" "vview bsz cell"
  "vok bsz cols cell ok" bsz cols "blockCount v"
proof
  fix s col row assume "vok bsz cols cell ok s" "col < cols"
  then show "length (vview bsz cell s row col) = bsz" by (rule vview_len)
next
  fix s col row d s' assume "vok bsz cols cell ok s" "col < cols" "ReadCached R es v row col bsz 0 s = (Some d, s')"
  then show "d = vview bsz cell s row col"
    using ReadCached_spec [of s col 0 bsz row "Some d" s'] vview_len by (simp add: peek_def)
qed (use ReadCached_spec WriteCached_spec in blast)+

text \<open>
  A complete volume: all partitions are set, and the erasure code fills the buffer it is given.
\<close>

locale volume = volume_cells R v cell ok es
  for R :: "'s remote" and v cell ok es +
  fixes cm :: cm256
  assumes vol: "volume_ok v"
    and cm_len: "cm256_encode cm (blockSize v) (dataCount v) (codeCount v) bl = Some buf \<Longrightarrow>
        length buf = codeCount v * blockSize v"
begin

abbreviation rc where "rc \<equiv> ReadCached R es v"
abbreviation wc where "wc \<equiv> WriteCached R es v"

lemma vol_pos: "dataCount v > 0" "blockCount v * dataCount v * blockSize v \<le> 2 ^ 63"
  using vol by (auto simp: volume_ok_def)

lemma verify_true: "Row_Verify cm rc wc v row s = (True, s)"
  using vol by (simp add: Row_Verify_simp volume_ok_def)

lemma encode_frame:
  assumes "vok bsz cols cell ok s" and "Row_Encode cm rc wc v row s = (b, s')"
  shows "vok bsz cols cell ok s'" and "c < cols \<Longrightarrow> i \<noteq> row \<or> c < dataCount v \<Longrightarrow> vview bsz cell s' i c = vview bsz cell s i c"
  using vc.Row_Encode_frame [OF assms(1) _ _ cm_len assms(2)] by auto

end

sublocale volume \<subseteq> plain: striped_volume "ReadCached R es v" "WriteCached R es v" "vview bsz cell" "vok bsz cols cell ok"
  bsz "dataCount v" "Row_Encode cm rc wc v" "Row_Verify cm rc wc v" v
proof (intro striped_volume.intro striped.intro)
  show "block_store rc wc (vview bsz cell) (vok bsz cols cell ok) bsz (dataCount v) (blockCount v)"
    by (rule block_store_fewer [OF vc.block_store_axioms]) simp
  show "striped_axioms (vview bsz cell) (vok bsz cols cell ok) bsz (dataCount v) (Row_Encode cm rc wc v) (Row_Verify cm rc wc v)"
    by (rule striped_axioms.intro) (use bs_pos vol_pos encode_frame in \<open>auto simp: verify_true\<close>)
  show "striped_volume_axioms bsz (dataCount v) v"
    by (rule striped_volume_axioms.intro) (use vol_pos in auto)
qed

section \<open>Encryption\<close>

text \<open>CBC keeps lengths that are multiples of the AES block size, and decryption undoes encryption.\<close>

definition aes_ok :: "aes \<Rightarrow> bool" where
  "aes_ok A \<longleftrightarrow> (\<forall>iv x. length iv = 16 \<longrightarrow> length x mod 16 = 0 \<longrightarrow>
     length (cbc_encrypt A iv x) = length x \<and> length (cbc_decrypt A iv x) = length x \<and>
     cbc_decrypt A iv (cbc_encrypt A iv x) = x)"

definition clear_view :: "aes \<Rightarrow> ('s \<Rightarrow> nat \<Rightarrow> nat \<Rightarrow> byte list) \<Rightarrow> 's \<Rightarrow> nat \<Rightarrow> nat \<Rightarrow> byte list" where
  "clear_view A cell s row col = cbc_decrypt A (row_iv row) (cell s row col)"

lemma aes_row:
  assumes "aes_ok A" and "length x mod 16 = 0"
  shows "length (cbc_encrypt A (row_iv row) x) = length x" "length (cbc_decrypt A (row_iv row) x) = length x"
    "cbc_decrypt A (row_iv row) (cbc_encrypt A (row_iv row) x) = x"
  using assms by (simp_all add: aes_ok_def row_iv_def)

locale cipher_store = block_store rd wr cell ok bs ncols nrows
  for rd :: "'s cell_read" and wr :: "'s cell_write" and cell ok bs ncols nrows +
  fixes A :: aes
  assumes aes: "aes_ok A" and bs16: "bs mod 16 = 0"
begin

lemma clear_len: "ok s \<Longrightarrow> col < ncols \<Longrightarrow> length (clear_view A cell s row col) = bs"
  using cell_len aes_row [OF aes] bs16 by (simp add: clear_view_def)

lemma decrypt_cell_spec:
  assumes "ok s" and "col < ncols" and "off + sz \<le> bs" and "decrypt_cell A bs rd row col sz off s = (r, s')"
  shows "ok s' \<and> (\<forall>i c. c < ncols \<longrightarrow> clear_view A cell s' i c = clear_view A cell s i c) \<and>
    (\<forall>d. r = Some d \<longrightarrow> d = peek off sz (clear_view A cell s row col))"
proof -
  obtain q s1 where q: "rd row col bs 0 s = (q, s1)" by (rule prod.exhaust)
  have f: "ok s1" "\<And>i c. c < ncols \<Longrightarrow> cell s1 i c = cell s i c"
    using rd_ok [OF assms(1,2) _ q] rd_frame [OF assms(1,2) _ q] by auto
  have d: "x = cell s row col" if "q = Some x" for x
    by (rule rd_whole [OF assms(1,2) q [unfolded that]])
  have "s' = s1" "r = map_option (\<lambda>x. peek off sz (cbc_decrypt A (row_iv row) x)) q"
    using assms(4) q by (auto simp: decrypt_cell_def split: option.splits)
  with f d show ?thesis by (auto simp: clear_view_def)
qed

lemma encrypt_cell_spec:
  assumes "ok s" and "col < ncols" and "off + length d \<le> bs" and "encrypt_cell A bs rd wr row col d off s = (b, s')"
  shows "ok s' \<and> (\<forall>i c. c < ncols \<longrightarrow> (i, c) \<noteq> (row, col) \<longrightarrow> clear_view A cell s' i c = clear_view A cell s i c) \<and>
    (b \<longrightarrow> clear_view A cell s' row col = poke off d (clear_view A cell s row col))"
proof -
  let ?v = "clear_view A cell s row col"
  obtain q s1 where q: "(if length d < bs
            then (case rd row col bs 0 s of
                    (None, s1) \<Rightarrow> (None, s1)
                  | (Some crypt, s1) \<Rightarrow> (Some (cbc_decrypt A (row_iv row) crypt), s1))
            else (Some (replicate bs 0), s)) = (q, s1)" by (rule prod.exhaust)
  have lv: "length ?v = bs" using assms(1,2) by (rule clear_len)
  have pre: "ok s1 \<and> (\<forall>i c. c < ncols \<longrightarrow> cell s1 i c = cell s i c) \<and> (\<forall>x. q = Some x \<longrightarrow> poke off d x = poke off d ?v)"
  proof (cases "length d < bs")
    case True
    obtain r s2 where r: "rd row col bs 0 s = (r, s2)" by (rule prod.exhaust)
    have "x = cell s row col" if "r = Some x" for x
      by (rule rd_whole [OF assms(1,2) r [unfolded that]])
    then show ?thesis using q True r rd_ok [OF assms(1,2) _ r] rd_frame [OF assms(1,2) _ r]
      by (auto simp: clear_view_def split: option.splits)
  next
    case False
    then have "off = 0" "length d = bs" using assms(3) by auto
    with q lv assms(1) False show ?thesis by auto
  qed
  show ?thesis
  proof (cases q)
    case None
    then have "\<not> b" "s' = s1" using assms(4) unfolding encrypt_cell_def q by simp_all
    with pre show ?thesis by (simp add: clear_view_def)
  next
    case (Some x)
    let ?e = "cbc_encrypt A (row_iv row) (poke off d ?v)"
    have p: "poke off d x = poke off d ?v" using pre Some by simp
    have w: "wr row col ?e 0 s1 = (b, s')" using assms(4) unfolding encrypt_cell_def q Some p [symmetric] by simp
    have lp: "length (poke off d ?v) = bs" using lv assms(3) by simp
    have le: "length ?e = bs" using aes_row(1) [OF aes, of "poke off d ?v"] lp bs16 by simp
    have ok1: "ok s1" using pre by simp
    have "cell s' row col = ?e" if b
    proof -
      have "wr row col ?e 0 s1 = (True, s')" using w that by simp
      from wr_data [OF ok1 assms(2) _ this] le cell_len [OF ok1 assms(2)] show ?thesis by simp
    qed
    then have "clear_view A cell s' row col = poke off d ?v" if b
      using that aes_row(3) [OF aes, of "poke off d ?v"] lp bs16 by (simp add: clear_view_def)
    moreover have "clear_view A cell s' i c = clear_view A cell s i c" if "c < ncols" "(i, c) \<noteq> (row, col)" for i c
      using wr_frame [OF ok1 assms(2) _ w that] le pre that by (simp add: clear_view_def)
    ultimately show ?thesis using wr_ok [OF ok1 assms(2) _ w] le by simp
  qed
qed

end

sublocale cipher_store \<subseteq> clear: block_store "decrypt_cell A bs rd" "encrypt_cell A bs rd wr" "clear_view A cell" ok bs ncols nrows
proof (rule block_store.intro)
  fix s col row d s' assume a: "ok s" "col < ncols" "decrypt_cell A bs rd row col bs 0 s = (Some d, s')"
  with clear_len [OF a(1,2)] decrypt_cell_spec [OF a(1,2) _ a(3)] show "d = clear_view A cell s row col" by (simp add: peek_def)
qed (use clear_len decrypt_cell_spec encrypt_cell_spec in blast)+

locale encrypted_volume = volume R v cell ok es cm
  for R :: "'s remote" and v cell ok es cm +
  fixes A :: aes
  assumes aes: "aes_ok A" and bs16: "blockSize v mod 16 = 0"

sublocale encrypted_volume \<subseteq> ce: cipher_store "ReadCached R es v" "WriteCached R es v" "vview bsz cell"
  "vok bsz cols cell ok" bsz cols "blockCount v" A
  by unfold_locales (rule aes bs16)+

sublocale encrypted_volume \<subseteq> secret: striped_volume "decrypt_cell A bsz rc" "encrypt_cell A bsz rc wc"
  "clear_view A (vview bsz cell)" "vok bsz cols cell ok" bsz "dataCount v" "Row_Encode cm rc wc v" "Row_Verify cm rc wc v" v
proof (intro striped_volume.intro striped.intro)
  show "block_store (decrypt_cell A bsz rc) (encrypt_cell A bsz rc wc) (clear_view A (vview bsz cell)) (vok bsz cols cell ok) bsz (dataCount v) (blockCount v)"
    by (rule block_store_fewer [OF ce.clear.block_store_axioms]) simp
  show "striped_axioms (clear_view A (vview bsz cell)) (vok bsz cols cell ok) bsz (dataCount v) (Row_Encode cm rc wc v) (Row_Verify cm rc wc v)"
    by (rule striped_axioms.intro) (use bs_pos vol_pos encode_frame in \<open>auto simp: verify_true clear_view_def\<close>)
  show "striped_volume_axioms bsz (dataCount v) v"
    by (rule striped_volume_axioms.intro) (use vol_pos in auto)
qed

section \<open>Parity\<close>

text \<open>A row has parity when its code cells are the erasure code of its data cells.\<close>

definition parity :: "cm256 \<Rightarrow> Volume \<Rightarrow> (nat \<Rightarrow> nat \<Rightarrow> byte list) \<Rightarrow> nat \<Rightarrow> bool" where
  "parity cm v m row \<longleftrightarrow>
     (case cm256_encode cm (blockSize v) (dataCount v) (codeCount v) (map (m row) [0..<dataCount v]) of
        None \<Rightarrow> False
      | Some buf \<Rightarrow> (\<forall>i < codeCount v. m row (i + dataCount v) = peek (i * blockSize v) (blockSize v) buf))"

lemma parity_cong:
  "(\<And>c. c < dataCount v + codeCount v \<Longrightarrow> m row c = m' row c) \<Longrightarrow> parity cm v m row = parity cm v m' row"
proof -
  assume eq: "\<And>c. c < dataCount v + codeCount v \<Longrightarrow> m row c = m' row c"
  then have "map (m row) [0..<dataCount v] = map (m' row) [0..<dataCount v]" by simp
  with eq show ?thesis unfolding parity_def by (simp only:) (auto split: option.splits)
qed

context reliable_store
begin

lemma read_row_total:
  "bs > 0 \<Longrightarrow> ok s \<Longrightarrow> row < nrows \<Longrightarrow> \<forall>i \<in> set is. i < ncols \<Longrightarrow> fst (read_row rd bs row is s) = map (cell s row) is"
proof (induction "is" arbitrary: s)
  case (Cons i "is")
  have i: "i < ncols" using Cons.prems(4) by simp
  obtain d s1 where r: "rd row i bs 0 s = (Some d, s1)" using rd_total [OF Cons.prems(2,3) i, of 0 bs] Cons.prems(1) by auto
  have "d = cell s row i"
    by (rule rd_whole [OF Cons.prems(2) i r])
  moreover have "map (cell s1 row) is = map (cell s row) is"
    using rd_frame [OF Cons.prems(2) i _ r] Cons.prems(4) by simp
  ultimately show ?case
    using Cons.IH [OF Cons.prems(1) rd_ok [OF Cons.prems(2) i _ r] Cons.prems(3)] Cons.prems(4) r
    by (simp add: split_beta)
qed simp

lemma write_codes_total:
  "bs > 0 \<Longrightarrow> ok s \<Longrightarrow> row < nrows \<Longrightarrow> distinct is \<Longrightarrow> \<forall>i \<in> set is. i + dc < ncols \<and> Suc i * bs \<le> length buf \<Longrightarrow> i \<in> set is \<Longrightarrow>
   cell (write_codes wr bs dc row buf is s) row (i + dc) = peek (i * bs) bs buf"
proof (induction "is" arbitrary: s)
  case (Cons k "is")
  let ?p = "peek (k * bs) bs buf"
  have k: "k + dc < ncols" and l: "length ?p = bs" using Cons.prems(5) by auto
  obtain s1 where w: "wr row (k + dc) ?p 0 s = (True, s1)" using wr_total [OF Cons.prems(2,3) k, of 0 ?p] l Cons.prems(1) by fastforce
  have ok1: "ok s1" using wr_ok [OF Cons.prems(2) k _ w] l by simp
  show ?case
  proof (cases "i = k")
    case False
    with Cons.IH [OF Cons.prems(1) ok1 Cons.prems(3)] Cons.prems(4-6) w show ?thesis by simp
  next
    case True
    have "cell s1 row (k + dc) = ?p"
      using wr_data [OF Cons.prems(2) k _ w] l cell_len [OF Cons.prems(2) k, of row] by simp
    moreover have "cell (write_codes wr bs dc row buf is s1) row (k + dc) = cell s1 row (k + dc)"
      using ok1 Cons.prems(4,5)
    proof (induction "is" arbitrary: s1)
      case (Cons j js)
      let ?q = "peek (j * bs) bs buf"
      have j: "j + dc < ncols" and lq: "length ?q = bs" using Cons.prems(3) by auto
      obtain b s2 where w2: "wr row (j + dc) ?q 0 s1 = (b, s2)" by (rule prod.exhaust)
      have "cell s2 row (k + dc) = cell s1 row (k + dc)"
        using wr_frame [OF Cons.prems(1) j _ w2 k, of row] lq Cons.prems(2) by auto
      moreover have "ok s2" using wr_ok [OF Cons.prems(1) j _ w2] lq by simp
      ultimately show ?case using Cons.IH [of s2] Cons.prems(2,3) w2 by simp
    qed simp
    ultimately show ?thesis using True w by simp
  qed
qed simp

lemma Row_Encode_parity:
  assumes "ok s" and "row < nrows" and "dataCount v + codeCount v \<le> ncols" and "blockSize v = bs" and pos: "bs > 0"
    and cm: "\<And>bl buf. cm256_encode cm bs (dataCount v) (codeCount v) bl = Some buf \<Longrightarrow> length buf = codeCount v * bs"
    and "Row_Encode cm rd wr v row s = (True, s')"
  shows "parity cm v (cell s') row"
proof -
  let ?m = "map (cell s row) [0..<dataCount v]"
  obtain bl s1 where r: "read_row rd bs row [0..<dataCount v] s = (bl, s1)" by (rule prod.exhaust)
  have bl: "bl = ?m" using read_row_total [OF pos assms(1,2), of "[0..<dataCount v]"] r assms(3) by simp
  have ok1: "ok s1" using read_row_spec [OF assms(1) _ r] assms(3) by auto
  obtain buf where buf: "cm256_encode cm bs (dataCount v) (codeCount v) ?m = Some buf"
    and s': "s' = write_codes wr bs (dataCount v) row buf [0..<codeCount v] s1"
    using assms(4,7) r bl by (auto simp: Row_Encode_def split: option.splits)
  have ix: "\<forall>i \<in> set [0..<codeCount v]. i + dataCount v < ncols \<and> Suc i * bs \<le> length buf"
  proof
    fix i assume "i \<in> set [0..<codeCount v]"
    then have "Suc i \<le> codeCount v" by simp
    then have "Suc i * bs \<le> codeCount v * bs" by (rule mult_le_mono1)
    with assms(3) cm [OF buf] \<open>Suc i \<le> codeCount v\<close> show "i + dataCount v < ncols \<and> Suc i * bs \<le> length buf" by simp
  qed
  have "cell s' row (i + dataCount v) = peek (i * bs) bs buf" if "i < codeCount v" for i
    unfolding s' by (rule write_codes_total [OF pos ok1 assms(2) _ ix]) (use that in auto)
  moreover have m: "map (cell s' row) [0..<dataCount v] = ?m"
    using Row_Encode_frame [OF assms(1,3,4) cm assms(7)] assms(3) by simp
  ultimately show ?thesis unfolding parity_def assms(4) m buf by simp
qed

end

text \<open>
  A property of rows that encoding a row establishes and that nothing done to one row destroys in
  another: a successful write keeps it for every row and establishes it for the rows it wrote.
\<close>

locale row_property = striped rd wr cell ok bs dc nrows enc vrf
  for rd :: "'s cell_read" and wr :: "'s cell_write" and cell ok bs dc nrows enc vrf +
  fixes P :: "'s \<Rightarrow> nat \<Rightarrow> bool"
  assumes enc_est: "ok s \<Longrightarrow> row < nrows \<Longrightarrow> enc row s = (True, s') \<Longrightarrow> P s' row"
    and enc_keep: "ok s \<Longrightarrow> enc row s = (b, s') \<Longrightarrow> i \<noteq> row \<Longrightarrow> P s i \<Longrightarrow> P s' i"
    and vrf_keep: "ok s \<Longrightarrow> vrf row s = (b, s') \<Longrightarrow> P s i \<Longrightarrow> P s' i"
    and wr_keep: "ok s \<Longrightarrow> col < dc \<Longrightarrow> off + length d \<le> bs \<Longrightarrow> wr row col d off s = (b, s') \<Longrightarrow> i \<noteq> row \<Longrightarrow> P s i \<Longrightarrow> P s' i"
begin

lemma write_loop_rows:
  assumes "ok s" and "j < nrows * dc" and "off < bs" and "d \<noteq> []" and "j * bs + off + length d \<le> nrows * dc * bs"
    and "write_loop bs dc wr enc vrf (j div dc) (j mod dc) off d s = (True, s')"
    and "\<And>i. i \<noteq> j div dc \<Longrightarrow> i < nrows \<Longrightarrow> P s i" and "i < nrows"
  shows "P s' i"
  using assms
proof (induction "length d" arbitrary: j off d s rule: less_induct)
  case less
  let ?k = "if length d > bs - off then bs - off else length d"
  let ?d1 = "take ?k d" and ?d2 = "drop ?k d"
  have k: "?k > 0" "?k \<le> length d" "off + length ?d1 \<le> bs" using less.prems(3,4) by auto
  have m: "j mod dc < dc" using dc_pos by simp
  have row: "j div dc < nrows" using less.prems(2) dc_pos by (simp add: div_less_iff_less_mult)
  obtain w s1 where w: "wr (j div dc) (j mod dc) ?d1 off s = (w, s1)" by (rule prod.exhaust)
  note unf = less.prems(6) [unfolded write_loop.simps [of bs dc wr enc vrf _ _ off d s] Let_def w]
  have w': w using unf by (cases w) simp_all
  have ok1: "ok s1" by (rule wr_ok [OF less.prems(1) m k(3) w])
  have p1: "P s1 i" if "i \<noteq> j div dc" "i < nrows" for i
    using wr_keep [OF less.prems(1) m k(3) w that(1)] less.prems(7) that by simp
  obtain e s2 where e: "enc (j div dc) s1 = (e, s2)" by (rule prod.exhaust)
  have ok2: "ok s2" by (rule enc_ok [OF ok1 e])
  have p2: "P s2 i" if e "i < nrows" for i
    using enc_est [OF ok1 row] enc_keep [OF ok1 e] p1 that e by (cases "i = j div dc") auto
  show ?case
  proof (cases "?d2 = []")
    case True
    then have "e" "s' = s2" using unf w' e by simp_all
    with p2 less.prems(8) show ?thesis by simp
  next
    case False
    then have full: "off + length ?d1 = bs" using less.prems(3) by (auto split: if_splits)
    have l2: "length ?d2 < length d" using k(1) False by auto
    have pos: "Suc j * bs + length ?d2 \<le> nrows * dc * bs" using less.prems(5) full by (simp add: algebra_simps)
    have j: "Suc j < nrows * dc"
    proof -
      have "Suc j * bs < nrows * dc * bs" using pos False by auto
      then show ?thesis by (simp only: mult_less_cancel2)
    qed
    note nx = next_block [OF dc_pos, of j]
    show ?thesis
    proof (cases "Suc (j mod dc) = dc")
      case c: False
      then have "write_loop bs dc wr enc vrf (Suc j div dc) (Suc j mod dc) 0 ?d2 s1 = (True, s')"
        using unf False k(1) w' nx(2) by simp
      from less.hyps [OF l2 ok1 j bs_pos _ _ this] False pos p1 nx(2) [OF c] less.prems(8) show ?thesis by simp
    next
      case c: True
      then have e': e using unf False k(1) w' e by (cases e) auto
      obtain q s3 where q: "vrf (Suc (j div dc)) s2 = (q, s3)" by (rule prod.exhaust)
      have "write_loop bs dc wr enc vrf (Suc j div dc) (Suc j mod dc) 0 ?d2 s3 = (True, s')"
        using unf False k(1) w' nx(1) c e e' q by (cases q) auto
      moreover have "P s3 i" if "i < nrows" for i using vrf_keep [OF ok2 q] p2 [OF e' that] by simp
      ultimately show ?thesis
        using less.hyps [OF l2 vrf_ok [OF ok2 q] j bs_pos] False pos less.prems(8) by simp
    qed
  qed
qed

end

section \<open>Reliable storage\<close>

text \<open>With every cache file writable and the remote cells answering, the cached cells answer too.\<close>

definition cache_ready :: "cache option \<Rightarrow> bool" where
  "cache_ready co \<longleftrightarrow> (case co of None \<Rightarrow> True | Some c \<Rightarrow> active c \<and> (\<forall>row. openable c row))"

lemma ready_frame:
  shows "active (snd (WriteFileBlock c bs row col buf)) = active c"
    and "openable (snd (WriteFileBlock c bs row col buf)) = openable c"
  by (simp_all add: WriteFileBlock_def Let_def)

lemma ReadImpl_frame:
  assumes "ReadImpl rdd wd bs e row col sz off c st = (r, c', st')"
  shows "active c' = active c \<and> openable c' = openable c"
proof -
  obtain b c1 st1 where f: "(case ReadFileBlock c bs row col of
           Some buf \<Rightarrow> (Some buf, c, st)
         | None \<Rightarrow>
             (case rdd row col bs 0 st of
                (Some buf, st') \<Rightarrow> (Some buf, snd (WriteFileBlock c bs row col buf), st')
              | (None, st') \<Rightarrow> (None, c, st'))) = (b, c1, st1)" by (rule prod_cases3)
  then have "active c1 = active c \<and> openable c1 = openable c"
    by (auto simp: ready_frame split: option.splits prod.splits)
  moreover obtain c2 st2 where u: "UpdateTimestamp wd bs e row False c1 st1 = (c2, st2)" by (rule prod.exhaust)
  then have "c' = c2" using assms unfolding ReadImpl_def f by simp
  ultimately show ?thesis using UpdateTimestamp_frame [OF u] by simp
qed

lemma WriteImpl_frame:
  assumes "WriteImpl rdd wd bs e row col d off c st = (b, c', st')"
  shows "active c' = active c \<and> openable c' = openable c"
proof -
  obtain q c1 st1 where q: "(if length d = bs \<and> off = 0 then (Some d, c, st)
         else let (r, c', st') = ReadImpl rdd wd bs e row col bs 0 c st
              in (map_option (poke off d) r, c', st')) = (q, c1, st1)" by (rule prod_cases3)
  obtain r c2 st2 where r: "ReadImpl rdd wd bs e row col bs 0 c st = (r, c2, st2)" by (rule prod_cases3)
  have c1: "active c1 = active c \<and> openable c1 = openable c"
    using q ReadImpl_frame [OF r] r by (auto split: if_splits)
  show ?thesis
  proof (cases q)
    case None
    then show ?thesis using assms c1 unfolding WriteImpl_def q by auto
  next
    case (Some buf)
    obtain w c3 where w: "WriteFileBlock c1 bs row col buf = (w, c3)" by (rule prod.exhaust)
    have c3: "active c3 = active c1 \<and> openable c3 = openable c1" using ready_frame [of c1 bs row col buf] w by simp
    obtain c4 st4 where u: "UpdateTimestamp wd bs e row True c3 st1 = (c4, st4)" by (rule prod.exhaust)
    show ?thesis using assms c1 c3 w u Some UpdateTimestamp_frame [OF u] unfolding WriteImpl_def q
      by (cases w) auto
  qed
qed

locale reliable_volume = volume R v cell ok es cm
  for R :: "'s remote" and v cell ok es cm +
  assumes direct: "reliable_store (ReadDirect R v) (WriteDirect R v) cell ok (blockSize v) (dataCount v + codeCount v) (blockCount v)"
begin

abbreviation ready where "ready s \<equiv> vok bsz cols cell ok s \<and> cache_ready (fst s)"

lemma ReadImpl_total:
  assumes "ok st" and "row < blockCount v" and "col < cols"
  shows "\<exists>d c' st'. ReadImpl (ReadDirect R v) (WriteDirect R v) bsz e row col sz off c st = (Some d, c', st')"
proof -
  obtain d st' where "ReadDirect R v row col bsz 0 st = (Some d, st')"
    using reliable_store.rd_total [OF direct assms, of 0 bsz] bs_pos by auto
  then show ?thesis by (auto simp: ReadImpl_def Let_def split_beta split: option.splits)
qed

lemma ready_read:
  assumes "ready s" and "col < cols" and "off + sz \<le> bsz" and "rc row col sz off s = (r, s')"
  shows "ready s'" and "row < blockCount v \<Longrightarrow> sz > 0 \<Longrightarrow> r \<noteq> None"
proof -
  have v: "vok bsz cols cell ok s'" using ReadCached_spec [OF _ assms(2-4)] assms(1) by simp
  have "cache_ready (fst s') \<and> (row < blockCount v \<longrightarrow> sz > 0 \<longrightarrow> r \<noteq> None)"
    using assms(4)
  proof (cases rule: ReadCached_cases)
    case (1 st st')
    with assms(1) reliable_store.rd_total [OF direct _ _ assms(2,3), of st row] show ?thesis
      by (auto simp: cache_ready_def)
  next
    case (2 c st c' st')
    obtain q c1 st1 where q: "ReadImpl (ReadDirect R v) (WriteDirect R v) bsz (es (served c)) row col sz off c st = (q, c1, st1)"
      by (rule prod_cases3)
    have "active c" "wrap64 (sz + off) \<le> bsz"
      using assms(1,3) 2(1) wrap64_le [of "sz + off"] by (auto simp: cache_ready_def)
    then have "r = q" "c' = c1\<lparr>served := Suc (served c)\<rparr>" using 2(3) q assms(2) by (auto simp: Cache_Read_def)
    moreover have "q \<noteq> None" if "row < blockCount v"
      using ReadImpl_total [OF _ that assms(2), of st "es (served c)" sz off c] q assms(1) 2(1) by auto
    ultimately show ?thesis using ReadImpl_frame [OF q] assms(1) 2 by (auto simp: cache_ready_def)
  qed
  with v show "ready s'" and "row < blockCount v \<Longrightarrow> sz > 0 \<Longrightarrow> r \<noteq> None" by auto
qed

lemma ready_write:
  assumes "ready s" and "col < cols" and "off + length d \<le> bsz" and "wc row col d off s = (b, s')"
  shows "ready s'" and "row < blockCount v \<Longrightarrow> d \<noteq> [] \<Longrightarrow> b"
proof -
  have v: "vok bsz cols cell ok s'" using WriteCached_spec [OF _ assms(2-4)] assms(1) by simp
  have "cache_ready (fst s') \<and> (row < blockCount v \<longrightarrow> d \<noteq> [] \<longrightarrow> b)"
    using assms(4)
  proof (cases rule: WriteCached_cases)
    case (1 st st')
    with assms(1) reliable_store.wr_total [OF direct _ _ assms(2,3), of st row] show ?thesis
      by (auto simp: cache_ready_def)
  next
    case (2 c st c' st')
    let ?e = "es (served c)"
    obtain q c1 st1 where q: "WriteImpl (ReadDirect R v) (WriteDirect R v) bsz ?e row col d off c st = (q, c1, st1)"
      by (rule prod_cases3)
    have "active c" and op: "\<And>r. openable c r" and "wrap64 (length d + off) \<le> bsz"
      using assms(1,3) 2(1) wrap64_le [of "length d + off"] by (auto simp: cache_ready_def)
    then have "b = q" "c' = c1\<lparr>served := Suc (served c)\<rparr>" using 2(3) q assms(2) by (auto simp: Cache_Write_def)
    moreover have q if row: "row < blockCount v"
    proof -
      obtain x c2 st2 where r: "ReadImpl (ReadDirect R v) (WriteDirect R v) bsz ?e row col bsz 0 c st = (Some x, c2, st2)"
        using ReadImpl_total [OF _ row assms(2), of st ?e bsz 0 c] assms(1) 2(1) by auto
      have "fst (WriteFileBlock c bsz row col y)" "fst (WriteFileBlock c2 bsz row col y)" for y
        using op ReadImpl_frame [OF r] by (simp_all add: WriteFileBlock_def Let_def)
      then show ?thesis using q r by (auto simp: WriteImpl_def Let_def split_beta split: if_splits bool.splits prod.splits)
    qed
    ultimately show ?thesis using WriteImpl_frame [OF q] assms(1) 2 by (auto simp: cache_ready_def)
  qed
  with v show "ready s'" and "row < blockCount v \<Longrightarrow> d \<noteq> [] \<Longrightarrow> b" by auto
qed

end

sublocale reliable_volume \<subseteq> rv: reliable_store "ReadCached R es v" "WriteCached R es v" "vview bsz cell"
  "\<lambda>s. vok bsz cols cell ok s \<and> cache_ready (fst s)" bsz cols "blockCount v"
proof (intro reliable_store.intro reliable_store_axioms.intro)
  show "block_store rc wc (vview bsz cell) ready bsz cols (blockCount v)"
    by (rule block_store_stronger [OF vc.block_store_axioms _ ready_read(1) ready_write(1)]) auto
  fix s row col off
  assume s: "ready s" "row < blockCount v" "col < cols"
  show "\<exists>d s'. rc row col sz off s = (Some d, s')" if "off + sz \<le> bsz" "sz > 0" for sz
    using ready_read(2) [OF s(1,3) that(1) _ s(2) that(2)] by (metis not_None_eq surj_pair)
  show "\<exists>s'. wc row col d off s = (True, s')" if "off + length d \<le> bsz" "d \<noteq> []" for d
    using ready_write(2) [OF s(1,3) that(1) _ s(2) that(2)] by (metis surj_pair)
qed

context reliable_volume
begin

lemma ready_encode:
  assumes "ready s" and "Row_Encode cm rc wc v row s = (b, s')"
  shows "ready s'" and "c < cols \<Longrightarrow> i \<noteq> row \<or> c < dataCount v \<Longrightarrow> vview bsz cell s' i c = vview bsz cell s i c"
  using rv.Row_Encode_frame [OF assms(1) _ _ cm_len assms(2)] by auto

end

sublocale reliable_volume \<subseteq> rows: row_property "ReadCached R es v" "WriteCached R es v" "vview bsz cell"
  "\<lambda>s. vok bsz cols cell ok s \<and> cache_ready (fst s)" bsz "dataCount v" "blockCount v" "Row_Encode cm rc wc v" "Row_Verify cm rc wc v"
  "\<lambda>s. parity cm v (vview bsz cell s)"
proof (intro row_property.intro striped.intro)
  show "block_store rc wc (vview bsz cell) ready bsz (dataCount v) (blockCount v)"
    by (rule block_store_fewer [OF rv.block_store_axioms]) simp
  show "striped_axioms (vview bsz cell) ready bsz (dataCount v) (Row_Encode cm rc wc v) (Row_Verify cm rc wc v)"
  proof (rule striped_axioms.intro)
    fix s row b s' assume e: "ready s" "Row_Encode cm rc wc v row s = (b, s')"
    show "ready s'" by (rule ready_encode(1) [OF e])
    show "vview bsz cell s' i c = vview bsz cell s i c" if "c < dataCount v" for c i
      using ready_encode(2) [OF e, of c i] that by simp
  qed (use bs_pos vol_pos in \<open>simp_all add: verify_true\<close>)
  show "row_property_axioms wc ready bsz (dataCount v) (blockCount v) (Row_Encode cm rc wc v) (Row_Verify cm rc wc v)
     (\<lambda>s. parity cm v (vview bsz cell s))"
  proof (rule row_property_axioms.intro)
    fix s row s' assume a: "ready s" "row < blockCount v" "Row_Encode cm rc wc v row s = (True, s')"
    show "parity cm v (vview bsz cell s') row"
      by (rule rv.Row_Encode_parity [OF a(1,2) le_refl refl bs_pos cm_len a(3)])
  next
    fix s row b s' i assume "ready s" "Row_Encode cm rc wc v row s = (b, s')" "i \<noteq> row" "parity cm v (vview bsz cell s) i"
    then show "parity cm v (vview bsz cell s') i"
      using parity_cong [of v "vview bsz cell s'" i "vview bsz cell s" cm] ready_encode(2) by simp
  next
    fix s row b s' i assume "Row_Verify cm rc wc v row s = (b, s')" "parity cm v (vview bsz cell s) i"
    then show "parity cm v (vview bsz cell s') i" by (simp add: verify_true)
  next
    fix s col off d row b s' i
    assume a: "ready s" "col < dataCount v" "off + length d \<le> bsz" "wc row col d off s = (b, s')" "i \<noteq> row" "parity cm v (vview bsz cell s) i"
    then have "vview bsz cell s' i c = vview bsz cell s i c" if "c < cols" for c
      using vc.wr_frame [of s col off d row b s' c i] that by simp
    with a show "parity cm v (vview bsz cell s') i"
      using parity_cong [of v "vview bsz cell s'" i "vview bsz cell s" cm] by simp
  qed
qed

context reliable_volume
begin

lemma write_keeps_parity:
  assumes "ready s" and "\<forall>i < blockCount v. parity cm v (vview bsz cell s) i"
    and "Volume_Write cm R es v d offset s = (True, s')" and "i < blockCount v"
  shows "parity cm v (vview bsz cell s') i"
proof (cases "d = []")
  case True
  with assms show ?thesis by (simp add: Volume_Write_def write_striped_def)
next
  case False
  have w: "write_striped v wc (Row_Encode cm rc wc v) (Row_Verify cm rc wc v) d offset s = (True, s')"
    using assms(3) by (simp add: Volume_Write_def Let_def)
  with False have nr: "\<not> out_of_range v (length d) offset" by (auto simp: write_striped_def Let_def)
  note p = plain.position [OF nr]
  let ?j = "offset div bsz" and ?o = "offset - offset div bsz * bsz"
  have l: "write_loop bsz (dataCount v) wc (Row_Encode cm rc wc v) (Row_Verify cm rc wc v)
      (?j div dataCount v) (?j mod dataCount v) ?o d s = (True, s')"
    using w False nr p(4) by (simp add: write_striped_def Let_def verify_true)
  have "?j * bsz + ?o + length d \<le> blockCount v * dataCount v * bsz"
    using nr p(2) by (simp add: plain.range_iff)
  from rows.write_loop_rows [OF assms(1) p(1) p(3) False this l _ assms(4)] assms(2) show ?thesis by simp
qed

end

section \<open>Requests that must succeed\<close>

locale answering = striped rd wr cell ok bs dc nrows enc vrf
  for rd :: "'s cell_read" and wr :: "'s cell_write" and cell ok bs dc nrows enc vrf +
  assumes rd_ans: "ok s \<Longrightarrow> row < nrows \<Longrightarrow> col < dc \<Longrightarrow> off + sz \<le> bs \<Longrightarrow> sz > 0 \<Longrightarrow> \<exists>d s'. rd row col sz off s = (Some d, s')"
    and wr_ans: "ok s \<Longrightarrow> row < nrows \<Longrightarrow> col < dc \<Longrightarrow> off + length d \<le> bs \<Longrightarrow> d \<noteq> [] \<Longrightarrow> \<exists>s'. wr row col d off s = (True, s')"
    and enc_ans: "ok s \<Longrightarrow> row < nrows \<Longrightarrow> \<exists>s'. enc row s = (True, s')"
    and vrf_ans: "ok s \<Longrightarrow> row < nrows \<Longrightarrow> \<exists>s'. vrf row s = (True, s')"
begin

lemma row_of: "j < nrows * dc \<Longrightarrow> j div dc < nrows"
  using dc_pos by (simp add: div_less_iff_less_mult)

lemma more_blocks:
  assumes "Suc j * bs + k \<le> nrows * dc * bs" and "k > 0"
  shows "Suc j < nrows * dc"
proof -
  have "Suc j * bs < nrows * dc * bs" using assms by linarith
  then show ?thesis by (simp only: mult_less_cancel2)
qed

lemma write_loop_total:
  assumes "ok s" and "j < nrows * dc" and "off < bs" and "d \<noteq> []" and "j * bs + off + length d \<le> nrows * dc * bs"
  shows "\<exists>s'. write_loop bs dc wr enc vrf (j div dc) (j mod dc) off d s = (True, s')"
  using assms
proof (induction "length d" arbitrary: j off d s rule: less_induct)
  case less
  let ?k = "if length d > bs - off then bs - off else length d"
  let ?d1 = "take ?k d" and ?d2 = "drop ?k d"
  have k: "?k > 0" "?k \<le> length d" "off + length ?d1 \<le> bs" "?d1 \<noteq> []" using less.prems(3,4) by auto
  have m: "j mod dc < dc" using dc_pos by simp
  obtain s1 where w: "wr (j div dc) (j mod dc) ?d1 off s = (True, s1)"
    using wr_ans [OF less.prems(1) row_of [OF less.prems(2)] m k(3,4)] by blast
  have ok1: "ok s1" by (rule wr_ok [OF less.prems(1) m k(3) w])
  obtain s2 where e: "enc (j div dc) s1 = (True, s2)" using enc_ans [OF ok1 row_of [OF less.prems(2)]] by blast
  note unf = write_loop.simps [of bs dc wr enc vrf "j div dc" "j mod dc" off d s, unfolded Let_def w]
  show ?case
  proof (cases "?d2 = []")
    case True
    then show ?thesis using unf e by simp
  next
    case False
    then have full: "off + length ?d1 = bs" using less.prems(3) by (auto split: if_splits)
    have l2: "length ?d2 < length d" using k(1) False by auto
    have pos: "Suc j * bs + length ?d2 \<le> nrows * dc * bs" using less.prems(5) full by (simp add: algebra_simps)
    have j: "Suc j < nrows * dc" using more_blocks [OF pos] False by simp
    note nx = next_block [OF dc_pos, of j]
    have go: "\<exists>s'. write_loop bs dc wr enc vrf (Suc j div dc) (Suc j mod dc) 0 ?d2 s3 = (True, s')" if "ok s3" for s3
      using less.hyps [OF l2 that j bs_pos] False pos by simp
    show ?thesis
    proof (cases "Suc (j mod dc) = dc")
      case c: False
      with go [OF ok1] nx(2) unf False k(1) show ?thesis by simp
    next
      case c: True
      have ok2: "ok s2" by (rule enc_ok [OF ok1 e])
      obtain s3 where q: "vrf (Suc (j div dc)) s2 = (True, s3)"
        using vrf_ans [OF ok2] row_of [OF j] nx(1) [OF c] by auto
      with go [OF vrf_ok [OF ok2 q]] nx(1) [OF c] unf e False k(1) c show ?thesis by simp
    qed
  qed
qed

lemma read_loop_total:
  assumes "ok s" and "j < nrows * dc" and "off < bs" and "sz > 0" and "j * bs + off + sz \<le> nrows * dc * bs"
  shows "\<exists>d s'. read_loop bs dc rd vrf (j div dc) (j mod dc) off sz s = (Some d, s')"
  using assms
proof (induction sz arbitrary: j off s rule: less_induct)
  case (less sz)
  let ?k = "if sz > bs - off then bs - off else sz"
  have k: "?k > 0" "?k \<le> sz" "off + ?k \<le> bs" using less.prems(3,4) by auto
  have m: "j mod dc < dc" using dc_pos by simp
  obtain d s1 where w: "rd (j div dc) (j mod dc) ?k off s = (Some d, s1)"
    using rd_ans [OF less.prems(1) row_of [OF less.prems(2)] m k(3,1)] by blast
  have ok1: "ok s1" by (rule rd_ok [OF less.prems(1) m k(3) w])
  note unf = read_loop.simps [of bs dc rd vrf "j div dc" "j mod dc" off sz s, unfolded Let_def w]
  show ?case
  proof (cases "sz - ?k = 0")
    case True
    then show ?thesis using unf by simp
  next
    case False
    then have full: "off + ?k = bs" using less.prems(3) by (auto split: if_splits)
    let ?r = "sz - ?k"
    have pos: "Suc j * bs + ?r \<le> nrows * dc * bs" using less.prems(5) full k(2) by (simp add: algebra_simps)
    have j: "Suc j < nrows * dc" using more_blocks [OF pos] False by simp
    note nx = next_block [OF dc_pos, of j]
    have go: "\<exists>d s'. read_loop bs dc rd vrf (Suc j div dc) (Suc j mod dc) 0 ?r s3 = (Some d, s')" if "ok s3" for s3
      using less.IH [OF _ that j bs_pos] False pos k by simp
    show ?thesis
    proof (cases "Suc (j mod dc) = dc")
      case c: False
      with go [OF ok1] nx(2) unf False k(1) show ?thesis by auto
    next
      case c: True
      obtain s3 where q: "vrf (Suc (j div dc)) s1 = (True, s3)"
        using vrf_ans [OF ok1] row_of [OF j] nx(1) [OF c] by auto
      with go [OF vrf_ok [OF ok1 q]] nx(1) [OF c] unf False k(1) c show ?thesis by auto
    qed
  qed
qed

end

locale answering_volume = reliable_volume R v cell ok es cm
  for R :: "'s remote" and v cell ok es cm +
  assumes cm_total: "length bl = dataCount v \<Longrightarrow> cm256_encode cm (blockSize v) (dataCount v) (codeCount v) bl \<noteq> None"

sublocale answering_volume \<subseteq> av: answering "ReadCached R es v" "WriteCached R es v" "vview bsz cell"
  "\<lambda>s. vok bsz cols cell ok s \<and> cache_ready (fst s)" bsz "dataCount v" "blockCount v" "Row_Encode cm rc wc v" "Row_Verify cm rc wc v"
proof (intro answering.intro answering_axioms.intro)
  show "striped rc wc (vview bsz cell) ready bsz (dataCount v) (blockCount v) (Row_Encode cm rc wc v) (Row_Verify cm rc wc v)"
    by (rule rows.striped_axioms)
  fix s row assume s: "ready s" "row < blockCount v"
  show "\<exists>s'. Row_Verify cm rc wc v row s = (True, s')" by (simp add: verify_true)
  show "\<exists>s'. Row_Encode cm rc wc v row s = (True, s')"
  proof -
    obtain bl s1 where r: "read_row rc bsz row [0..<dataCount v] s = (bl, s1)" by (rule prod.exhaust)
    have "length bl = dataCount v"
      using vc.read_row_spec [OF _ _ r] s(1) by (auto dest: list_all2_lengthD)
    then obtain buf where "cm256_encode cm bsz (dataCount v) (codeCount v) bl = Some buf" using cm_total by blast
    with r show ?thesis by (simp add: Row_Encode_def)
  qed
  fix col off assume col: "col < dataCount v"
  show "\<exists>d s'. rc row col sz off s = (Some d, s')" if "off + sz \<le> bsz" "sz > 0" for sz
    using rv.rd_total [OF s] col that by simp
  show "\<exists>s'. wc row col d off s = (True, s')" if "off + length d \<le> bsz" "d \<noteq> []" for d
    using rv.wr_total [OF s] col that by simp
qed

context answering_volume
begin

lemma Volume_Write_total:
  assumes "ready s" and "offset + length d \<le> DataSize v" and "d \<noteq> []"
  shows "\<exists>s'. Volume_Write cm R es v d offset s = (True, s') \<and> ready s'"
proof -
  have sz: "DataSize v = blockCount v * dataCount v * bsz"
    using vol_pos by (simp add: DataSize_def mult.commute mult.left_commute)
  then have nr: "\<not> out_of_range v (length d) offset" using assms(2,3) by (cases d) (auto simp: plain.range_iff)
  note p = plain.position [OF nr]
  let ?j = "offset div bsz" and ?o = "offset - offset div bsz * bsz"
  have e: "?j * bsz + ?o + length d \<le> blockCount v * dataCount v * bsz" using assms(2) sz p(2) by simp
  obtain s' where l: "write_loop bsz (dataCount v) wc (Row_Encode cm rc wc v) (Row_Verify cm rc wc v)
      (?j div dataCount v) (?j mod dataCount v) ?o d s = (True, s')"
    using av.write_loop_total [OF assms(1) p(1,3) assms(3) e] by blast
  have "ready s'" using rows.write_loop_spec [OF assms(1) p(1,3) assms(3) e l] by (simp add: rows.writes_def)
  with l assms(3) nr p(4) show ?thesis by (simp add: Volume_Write_def write_striped_def Let_def verify_true)
qed

lemma Volume_Read_total:
  assumes "ready s" and "offset + sz \<le> DataSize v" and "sz > 0"
  shows "\<exists>d s'. Volume_Read cm R es v sz offset s = (Some d, s')"
proof -
  have ds: "DataSize v = blockCount v * dataCount v * bsz"
    using vol_pos by (simp add: DataSize_def mult.commute mult.left_commute)
  then have nr: "\<not> out_of_range v sz offset" using assms(2,3) by (auto simp: plain.range_iff)
  note p = plain.position [OF nr]
  let ?j = "offset div bsz" and ?o = "offset - offset div bsz * bsz"
  have "?j * bsz + ?o + sz \<le> blockCount v * dataCount v * bsz" using assms(2) ds p(2) by simp
  from av.read_loop_total [OF assms(1) p(1,3) assms(3) this] assms(3) nr p(4)
  show ?thesis by (simp add: Volume_Read_def read_striped_def Let_def verify_true)
qed

end

text \<open>The encrypted variants on reliable storage.\<close>

locale answering_secret = answering_volume R v cell ok es cm
  for R :: "'s remote" and v cell ok es cm +
  fixes A :: aes
  assumes aes: "aes_ok A" and bs16: "blockSize v mod 16 = 0"

sublocale answering_secret \<subseteq> rs: cipher_store "ReadCached R es v" "WriteCached R es v" "vview bsz cell"
  "\<lambda>s. vok bsz cols cell ok s \<and> cache_ready (fst s)" bsz cols "blockCount v" A
  by (intro cipher_store.intro cipher_store_axioms.intro rv.block_store_axioms aes bs16)

sublocale answering_secret \<subseteq> se: answering "decrypt_cell A bsz rc" "encrypt_cell A bsz rc wc"
  "clear_view A (vview bsz cell)" "\<lambda>s. vok bsz cols cell ok s \<and> cache_ready (fst s)" bsz "dataCount v" "blockCount v"
  "Row_Encode cm rc wc v" "Row_Verify cm rc wc v"
proof (intro answering.intro striped.intro answering_axioms.intro)
  show "block_store (decrypt_cell A bsz rc) (encrypt_cell A bsz rc wc) (clear_view A (vview bsz cell)) ready bsz (dataCount v) (blockCount v)"
    by (rule block_store_fewer [OF rs.clear.block_store_axioms]) simp
  show "striped_axioms (clear_view A (vview bsz cell)) ready bsz (dataCount v) (Row_Encode cm rc wc v) (Row_Verify cm rc wc v)"
  proof (rule striped_axioms.intro)
    fix s row b s' assume e: "ready s" "Row_Encode cm rc wc v row s = (b, s')"
    show "ready s'" by (rule ready_encode(1) [OF e])
    show "clear_view A (vview bsz cell) s' i c = clear_view A (vview bsz cell) s i c" if "c < dataCount v" for c i
      using ready_encode(2) [OF e, of c i] that by (simp add: clear_view_def)
  qed (use bs_pos vol_pos in \<open>simp_all add: verify_true\<close>)
  fix s row assume s: "ready s" "row < blockCount v"
  show "\<exists>s'. Row_Verify cm rc wc v row s = (True, s')" "\<exists>s'. Row_Encode cm rc wc v row s = (True, s')"
    using av.vrf_ans [OF s] av.enc_ans [OF s] .
  fix col off assume col: "col < dataCount v"
  obtain x s1 where x: "rc row col bsz 0 s = (Some x, s1)" using rv.rd_total [OF s, of col 0 bsz] col bs_pos by auto
  have s1: "ready s1" using rv.rd_ok [OF s(1) _ _ x] col by simp
  have lx: "length x = bsz" using rv.rd_length [OF s(1) _ _ x s(2)] col by simp
  show "\<exists>d s'. decrypt_cell A bsz rc row col sz off s = (Some d, s')" for sz
    using x by (simp add: decrypt_cell_def)
  show "\<exists>s'. encrypt_cell A bsz rc wc row col d off s = (True, s')" if "off + length d \<le> bsz" "d \<noteq> []" for d
  proof -
    have tot: "\<exists>s'. wc row col (cbc_encrypt A (row_iv row) (poke off d y)) 0 s2 = (True, s')"
      if "ready s2" "length y = bsz" for y s2
    proof -
      have "length (cbc_encrypt A (row_iv row) (poke off d y)) = bsz"
        using aes_row(1) [OF aes, of "poke off d y"] that(2) \<open>off + length d \<le> bsz\<close> bs16 by simp
      then have l: "0 + length (cbc_encrypt A (row_iv row) (poke off d y)) \<le> bsz"
        "cbc_encrypt A (row_iv row) (poke off d y) \<noteq> []" using bs_pos by auto
      have "col < cols" using col by simp
      from rv.wr_total [OF that(1) s(2) this l] show ?thesis .
    qed
    have "length (cbc_decrypt A (row_iv row) x) = bsz" using aes_row(2) [OF aes, of x] lx bs16 by simp
    with tot [OF s1] tot [OF s(1), of "replicate bsz 0"] x show ?thesis by (simp add: encrypt_cell_def)
  qed
qed

context answering_secret
begin

lemma WriteEncrypt_total:
  assumes "ready s" and "offset + length d \<le> DataSize v" and "d \<noteq> []"
  shows "\<exists>s'. WriteEncrypt cm A R es v d offset s = (True, s') \<and> ready s'"
proof -
  have sz: "DataSize v = blockCount v * dataCount v * bsz"
    using vol_pos by (simp add: DataSize_def mult.commute mult.left_commute)
  then have nr: "\<not> out_of_range v (length d) offset" using assms(2,3) by (cases d) (auto simp: plain.range_iff)
  note p = plain.position [OF nr]
  let ?j = "offset div bsz" and ?o = "offset - offset div bsz * bsz"
  have e: "?j * bsz + ?o + length d \<le> blockCount v * dataCount v * bsz" using assms(2) sz p(2) by simp
  obtain s' where l: "write_loop bsz (dataCount v) (encrypt_cell A bsz rc wc) (Row_Encode cm rc wc v) (Row_Verify cm rc wc v)
      (?j div dataCount v) (?j mod dataCount v) ?o d s = (True, s')"
    using se.write_loop_total [OF assms(1) p(1,3) assms(3) e] by blast
  have "ready s'" using se.write_loop_spec [OF assms(1) p(1,3) assms(3) e l] by (simp add: se.writes_def)
  with l assms(3) nr p(4) show ?thesis by (simp add: WriteEncrypt_def write_striped_def Let_def verify_true)
qed

lemma ReadDecrypt_total:
  assumes "ready s" and "offset + sz \<le> DataSize v" and "sz > 0"
  shows "\<exists>d s'. ReadDecrypt cm A R es v sz offset s = (Some d, s')"
proof -
  have ds: "DataSize v = blockCount v * dataCount v * bsz"
    using vol_pos by (simp add: DataSize_def mult.commute mult.left_commute)
  then have nr: "\<not> out_of_range v sz offset" using assms(2,3) by (auto simp: plain.range_iff)
  note p = plain.position [OF nr]
  let ?j = "offset div bsz" and ?o = "offset - offset div bsz * bsz"
  have "?j * bsz + ?o + sz \<le> blockCount v * dataCount v * bsz" using assms(2) ds p(2) by simp
  from se.read_loop_total [OF assms(1) p(1,3) assms(3) this] assms(3) nr p(4)
  show ?thesis by (simp add: ReadDecrypt_def read_striped_def Let_def verify_true)
qed

end

end
