(* ===== verification/Doubles.thy ===== *)
theory Doubles
  imports Decimal
begin

text \<open>
  Floating point numbers as the JSON library uses them: a \<open>double\<close> is a sign, a mantissa and a binary
  exponent, or an infinity. \<open>scan_double\<close> is \<open>sscanf\<close> with \<open>%lf\<close> on the characters of a number and
  \<open>print_double\<close> is \<open>sprintf\<close> with \<open>%#.16g\<close>, both rounding to the nearest value and to the even one
  of two.
\<close>

datatype double = Finite bool nat int | Infinite bool

fun bit_length :: "nat \<Rightarrow> nat" where
  "bit_length n = (if n = 0 then 0 else Suc (bit_length (n div 2)))"

declare bit_length.simps [simp del]

definition round_div :: "nat \<Rightarrow> nat \<Rightarrow> nat" where
  "round_div n d = (let q = n div d; r = n mod d in if 2 * r < d \<or> 2 * r = d \<and> even q then q else q + 1)"

text \<open>\<open>n / (d * b ^ e)\<close> as a quotient of naturals.\<close>

definition scaled :: "nat \<Rightarrow> nat \<times> nat \<Rightarrow> int \<Rightarrow> nat \<times> nat" where
  "scaled b q e = (if e \<ge> 0 then (fst q, snd q * b ^ nat e) else (fst q * b ^ nat (- e), snd q))"

text \<open>The double nearest to a quotient: 53 bits of mantissa, exponents from -1074, overflow to infinity.\<close>

definition make_double :: "bool \<Rightarrow> nat \<times> nat \<Rightarrow> double" where
  "make_double neg q =
     (if fst q = 0 then Finite neg 0 0
      else let e0 = max (-1074) (int (bit_length (fst q)) - int (bit_length (snd q)) - 53);
               (n0, d0) = scaled 2 q e0;
               e = (if n0 div d0 \<ge> 2 ^ 53 then e0 + 1 else e0);
               (n, d) = scaled 2 q e;
               m = round_div n d
           in if e > 971 \<or> e = 971 \<and> m \<ge> 2 ^ 53 then Infinite neg else Finite neg m e)"

text \<open>A sign, digits with at most one point among them, and an exponent; \<open>None\<close> without a digit.\<close>

definition scan_double :: "string \<Rightarrow> double option" where
  "scan_double s =
     (let neg = (s \<noteq> [] \<and> hd s = CHR ''-'');
          t = (if s \<noteq> [] \<and> (hd s = CHR ''-'' \<or> hd s = CHR ''+'') then tl s else s);
          whole = takeWhile isdigit t; t1 = dropWhile isdigit t;
          fraction = (if t1 \<noteq> [] \<and> hd t1 = CHR ''.'' then takeWhile isdigit (tl t1) else []);
          t2 = (if t1 \<noteq> [] \<and> hd t1 = CHR ''.'' then dropWhile isdigit (tl t1) else t1);
          t3 = (if t2 \<noteq> [] \<and> (hd t2 = CHR ''e'' \<or> hd t2 = CHR ''E'') then tl t2 else []);
          eneg = (t3 \<noteq> [] \<and> hd t3 = CHR ''-'');
          t4 = (if t3 \<noteq> [] \<and> (hd t3 = CHR ''-'' \<or> hd t3 = CHR ''+'') then tl t3 else t3);
          e = (if eneg then - int (digits_val 0 t4) else int (digits_val 0 t4))
      in if whole = [] \<and> fraction = [] then None
         else Some (make_double neg (scaled 10 (digits_val 0 (whole @ fraction), 1) (int (length fraction) - e))))"

text \<open>The decimal exponent of a quotient that is not zero.\<close>

definition decimal_exponent :: "nat \<times> nat \<Rightarrow> int" where
  "decimal_exponent q =
     (if fst q \<ge> snd q then int (length (decimal (fst q div snd q))) - 1
      else - int (length (decimal ((snd q - 1) div fst q))))"

definition print_exponent :: "int \<Rightarrow> string" where
  "print_exponent x =
     (let d = decimal (nat \<bar>x\<bar>) in ''e'' @ (if x < 0 then ''-'' else ''+'') @ (if length d < 2 then ''0'' @ d else d))"

definition print_digits :: "string \<Rightarrow> int \<Rightarrow> string" where
  "print_digits ds x =
     (if x < -4 \<or> x \<ge> 16 then take 1 ds @ ''.'' @ drop 1 ds @ print_exponent x
      else if x \<ge> 0 then take (nat x + 1) ds @ ''.'' @ drop (nat x + 1) ds
      else ''0.'' @ replicate (nat (- x) - 1) CHR ''0'' @ ds)"

fun print_double :: "double \<Rightarrow> string" where
  "print_double (Infinite neg) = (if neg then ''-inf'' else ''inf'')"
| "print_double (Finite neg m e) =
     (if neg then ''-'' else []) @
     (if m = 0 then ''0.'' @ replicate 15 CHR ''0''
      else let q = scaled 2 (m, 1) (- e);
               x = decimal_exponent q;
               (n, d) = scaled 10 q (x - 15);
               k = round_div n d
           in if k = 10 ^ 16 then print_digits (decimal (10 ^ 15)) (x + 1) else print_digits (decimal k) x)"

text \<open>The integer part, for conversions.\<close>

definition truncated :: "nat \<Rightarrow> int \<Rightarrow> nat" where
  "truncated m e = (if e \<ge> 0 then m * 2 ^ nat e else m div 2 ^ nat (- e))"

end
