(* ===== verification/JsonValue.thy ===== *)
theory JsonValue
  imports Doubles
begin

text \<open>
  \<open>jsoncpp/json_value.cpp\<close>: the values of \<open>Json::Value\<close>. Signed and unsigned integers have 64 bits,
  strings are C strings, an object is a \<open>std::map\<close> over its keys, an array the list of its elements. A
  conversion that \<open>Json::Value\<close> refuses throws, and a wrong type fails an assertion: the result is
  \<open>None\<close>. Comments attached to values are not modelled.
\<close>

section \<open>Definitions\<close>

datatype Json = JNull | JInt int | JUInt nat | JReal double | JString string | JBool bool | JArray "Json list" | JObject "(string \<times> Json) list"

definition isNull :: "Json \<Rightarrow> bool" where
  "isNull v \<longleftrightarrow> v = JNull"

definition isBool :: "Json \<Rightarrow> bool" where
  "isBool v \<longleftrightarrow> (case v of JBool _ \<Rightarrow> True | _ \<Rightarrow> False)"

definition isString :: "Json \<Rightarrow> bool" where
  "isString v \<longleftrightarrow> (case v of JString _ \<Rightarrow> True | _ \<Rightarrow> False)"

definition isIntegral :: "Json \<Rightarrow> bool" where
  "isIntegral v \<longleftrightarrow> (case v of JInt _ \<Rightarrow> True | JUInt _ \<Rightarrow> True | JBool _ \<Rightarrow> True | _ \<Rightarrow> False)"

definition isDouble :: "Json \<Rightarrow> bool" where
  "isDouble v \<longleftrightarrow> (case v of JReal _ \<Rightarrow> True | _ \<Rightarrow> False)"

definition isNumeric :: "Json \<Rightarrow> bool" where
  "isNumeric v \<longleftrightarrow> isIntegral v \<or> isDouble v"

definition isArray :: "Json \<Rightarrow> bool" where
  "isArray v \<longleftrightarrow> (case v of JNull \<Rightarrow> True | JArray _ \<Rightarrow> True | _ \<Rightarrow> False)"

definition isObject :: "Json \<Rightarrow> bool" where
  "isObject v \<longleftrightarrow> (case v of JNull \<Rightarrow> True | JObject _ \<Rightarrow> True | _ \<Rightarrow> False)"

definition asString :: "Json \<Rightarrow> string option" where
  "asString v =
     (case v of JNull \<Rightarrow> Some [] | JString s \<Rightarrow> Some s | JBool b \<Rightarrow> Some (if b then ''true'' else ''false'') | _ \<Rightarrow> None)"

text \<open>
  \<open>maxUInt\<close> and \<open>maxInt\<close> as doubles are the powers of two above them; converting such a power has no
  defined result. \<open>asInt\<close> compares an unsigned value with \<open>(unsigned)maxInt\<close>, the largest number of 32
  bits.
\<close>

definition asUInt :: "Json \<Rightarrow> nat option" where
  "asUInt v =
     (case v of JNull \<Rightarrow> Some 0 | JInt i \<Rightarrow> if i \<ge> 0 then Some (nat i) else None | JUInt n \<Rightarrow> Some n
      | JReal (Finite neg m e) \<Rightarrow> if (\<not> neg \<or> m = 0) \<and> truncated m e < 2 ^ 64 then Some (truncated m e) else None
      | JBool b \<Rightarrow> Some (if b then 1 else 0) | _ \<Rightarrow> None)"

definition asInt :: "Json \<Rightarrow> int option" where
  "asInt v =
     (case v of JNull \<Rightarrow> Some 0 | JInt i \<Rightarrow> Some i | JUInt n \<Rightarrow> if n < 2 ^ 32 - 1 then Some (int n) else None
      | JReal (Finite neg m e) \<Rightarrow>
          if truncated m e < 2 ^ 63 then Some (if neg then - int (truncated m e) else int (truncated m e))
          else if neg \<and> scaled 2 (m, 1) (- e) = (2 ^ 63 * snd (scaled 2 (m, 1) (- e)), snd (scaled 2 (m, 1) (- e))) then Some (- (2 ^ 63))
          else None
      | JBool b \<Rightarrow> Some (if b then 1 else 0) | _ \<Rightarrow> None)"

definition asBool :: "Json \<Rightarrow> bool" where
  "asBool v =
     (case v of JNull \<Rightarrow> False | JInt i \<Rightarrow> i \<noteq> 0 | JUInt n \<Rightarrow> n \<noteq> 0 | JReal (Finite neg m e) \<Rightarrow> m \<noteq> 0 | JReal (Infinite neg) \<Rightarrow> True
      | JString s \<Rightarrow> s \<noteq> [] | JBool b \<Rightarrow> b | JArray xs \<Rightarrow> xs \<noteq> [] | JObject m \<Rightarrow> m \<noteq> [])"

definition json_size :: "Json \<Rightarrow> nat" where
  "json_size v = (case v of JArray xs \<Rightarrow> length xs | JObject m \<Rightarrow> length m | _ \<Rightarrow> 0)"

definition json_empty :: "Json \<Rightarrow> bool" where
  "json_empty v \<longleftrightarrow> (isNull v \<or> isArray v \<or> isObject v) \<and> json_size v = 0"

text \<open>Members, by \<open>operator[]\<close> of a constant value; the elements of an array, of which null has none.\<close>

definition json_at :: "Json \<Rightarrow> string \<Rightarrow> Json option" where
  "json_at v key =
     (case v of JNull \<Rightarrow> Some JNull
      | JObject m \<Rightarrow> Some (case map_find m key of None \<Rightarrow> JNull | Some x \<Rightarrow> x)
      | _ \<Rightarrow> None)"

definition items_of :: "Json \<Rightarrow> Json list" where
  "items_of v = (case v of JArray xs \<Rightarrow> xs | _ \<Rightarrow> [])"

definition getMemberNames :: "Json \<Rightarrow> string list option" where
  "getMemberNames v = (case v of JNull \<Rightarrow> Some [] | JObject m \<Rightarrow> Some (map fst m) | _ \<Rightarrow> None)"

text \<open>Assigning to a member and appending turn null into an object or an array first.\<close>

definition json_put :: "string \<Rightarrow> Json \<Rightarrow> Json \<Rightarrow> Json option" where
  "json_put key x v =
     (case v of JNull \<Rightarrow> Some (JObject [(key, x)]) | JObject m \<Rightarrow> Some (JObject (map_put key x m)) | _ \<Rightarrow> None)"

definition json_append :: "Json \<Rightarrow> Json \<Rightarrow> Json option" where
  "json_append x v = (case v of JNull \<Rightarrow> Some (JArray [x]) | JArray xs \<Rightarrow> Some (JArray (xs @ [x])) | _ \<Rightarrow> None)"

definition removeMember :: "string \<Rightarrow> Json \<Rightarrow> (Json \<times> Json) option" where
  "removeMember key v =
     (case v of JNull \<Rightarrow> Some (JNull, v)
      | JObject m \<Rightarrow> Some (case map_find m key of None \<Rightarrow> (JNull, v) | Some x \<Rightarrow> (x, JObject (map_erase key m)))
      | _ \<Rightarrow> None)"

lemmas json_defs = isNull_def isBool_def isString_def isIntegral_def isArray_def isObject_def asString_def asUInt_def json_at_def items_of_def

section \<open>Values and texts\<close>

text \<open>
  The values that survive being written and read: C strings, objects sorted by their keys, no
  floating point numbers, and integers below the numbers from which on the reader gives up precision.
\<close>

fun readable :: "Json \<Rightarrow> bool" where
  "readable (JInt i) \<longleftrightarrow> - 9223372036854775800 < i \<and> i < 9223372036854775808"
| "readable (JUInt n) \<longleftrightarrow> n < 18446744073709551610"
| "readable (JReal d) \<longleftrightarrow> False"
| "readable (JString s) \<longleftrightarrow> CHR 0x00 \<notin> set s"
| "readable (JArray xs) \<longleftrightarrow> (\<forall>x \<in> set xs. readable x)"
| "readable (JObject m) \<longleftrightarrow> map_ok m \<and> (\<forall>p \<in> set m. CHR 0x00 \<notin> set (fst p) \<and> readable (snd p))"
| "readable v \<longleftrightarrow> True"

text \<open>What reading makes of a written value: a number that fits comes back as a signed one.\<close>

fun reread :: "Json \<Rightarrow> Json" where
  "reread (JUInt n) = (if n < 2 ^ 63 then JInt (int n) else JUInt n)"
| "reread (JArray xs) = JArray (map reread xs)"
| "reread (JObject m) = JObject (map (\<lambda>(k, v). (k, reread v)) m)"
| "reread v = v"

end
