(* ===== verification/JsonReader.thy ===== *)
theory JsonReader
  imports JsonValue
begin

unbundle bit_operations_syntax

text \<open>
  \<open>jsoncpp/json_reader.cpp\<close>: \<open>Json::Reader\<close> with the features it has by default, comments allowed and
  any value at the root. The position of the reader is the text that is left; a character behind the
  end of the text is the zero that ends a C string. The list of errors and the comments are not kept.
\<close>

section \<open>Tokens\<close>

datatype TokenType = tokenEndOfStream | tokenObjectBegin | tokenObjectEnd | tokenArrayBegin | tokenArrayEnd | tokenString | tokenNumber
  | tokenTrue | tokenFalse | tokenNull | tokenArraySeparator | tokenMemberSeparator | tokenComment | tokenError

definition blank :: "char \<Rightarrow> bool" where
  "blank c \<longleftrightarrow> c = CHR '' '' \<or> c = CHR 0x09 \<or> c = CHR 0x0D \<or> c = CHR 0x0A"

definition skipSpaces :: "string \<Rightarrow> string" where
  "skipSpaces s = dropWhile blank s"

definition number_char :: "char \<Rightarrow> bool" where
  "number_char c \<longleftrightarrow> isdigit c \<or> c \<in> {CHR ''.'', CHR ''e'', CHR ''E'', CHR ''+'', CHR ''-''}"

definition readNumber :: "string \<Rightarrow> string" where
  "readNumber s = dropWhile number_char s"

definition match :: "string \<Rightarrow> string \<Rightarrow> bool \<times> string" where
  "match pattern s = (if take (length pattern) s = pattern then (True, drop (length pattern) s) else (False, s))"

fun readString :: "string \<Rightarrow> bool \<times> string" where
  "readString [] = (False, [])"
| "readString (c # s) =
     (if c = CHR 0x5C then readString (drop 1 s)
      else if c = CHR 0x22 then (True, s) else readString s)"

fun readCStyleComment :: "string \<Rightarrow> bool \<times> string" where
  "readCStyleComment [] = (False, [])"
| "readCStyleComment (c # s) = (if c = CHR ''*'' \<and> s \<noteq> [] \<and> hd s = CHR ''/'' then (True, tl s) else readCStyleComment s)"

fun readCppStyleComment :: "string \<Rightarrow> string" where
  "readCppStyleComment [] = []"
| "readCppStyleComment (c # s) = (if c = CHR 0x0D \<or> c = CHR 0x0A then s else readCppStyleComment s)"

definition readComment :: "string \<Rightarrow> bool \<times> string" where
  "readComment s =
     (case s of [] \<Rightarrow> (False, [])
      | c # s' \<Rightarrow> if c = CHR ''*'' then readCStyleComment s' else if c = CHR ''/'' then (True, readCppStyleComment s') else (False, s'))"

definition checked :: "TokenType \<Rightarrow> bool \<times> string \<Rightarrow> TokenType \<times> string" where
  "checked t r = (if fst r then t else tokenError, snd r)"

text \<open>The type of the next token and the text behind it, for a text that starts with the token.\<close>

definition token_at :: "string \<Rightarrow> TokenType \<times> string" where
  "token_at s =
     (case s of [] \<Rightarrow> (tokenEndOfStream, [])
      | c # r \<Rightarrow>
          if c = CHR ''{'' then (tokenObjectBegin, r)
          else if c = CHR ''}'' then (tokenObjectEnd, r)
          else if c = CHR ''['' then (tokenArrayBegin, r)
          else if c = CHR '']'' then (tokenArrayEnd, r)
          else if c = CHR 0x22 then checked tokenString (readString r)
          else if c = CHR ''/'' then checked tokenComment (readComment r)
          else if isdigit c \<or> c = CHR ''-'' then (tokenNumber, readNumber r)
          else if c = CHR ''t'' then checked tokenTrue (match ''rue'' r)
          else if c = CHR ''f'' then checked tokenFalse (match ''alse'' r)
          else if c = CHR ''n'' then checked tokenNull (match ''ull'' r)
          else if c = CHR '','' then (tokenArraySeparator, r)
          else if c = CHR '':'' then (tokenMemberSeparator, r)
          else if c = CHR 0x00 then (tokenEndOfStream, r)
          else (tokenError, r))"

text \<open>A token: its type and its characters.\<close>

definition readToken :: "string \<Rightarrow> (TokenType \<times> string) \<times> string" where
  "readToken s = (let t = skipSpaces s; (ty, r) = token_at t in ((ty, take (length t - length r) t), r))"

section \<open>Numbers and strings\<close>

text \<open>A number of exactly 32 characters is copied to a buffer of 32 and ended behind it; the model goes on.\<close>

definition decodeDouble :: "string \<Rightarrow> Json option" where
  "decodeDouble t = map_option JReal (scan_double t)"

fun number_loop :: "nat \<Rightarrow> string \<Rightarrow> nat \<Rightarrow> string \<Rightarrow> (Json, nat) sum option" where
  "number_loop threshold t v [] = Some (Inr v)"
| "number_loop threshold t v (c # s) =
     (if \<not> isdigit c then None
      else if v \<ge> threshold then map_option Inl (decodeDouble t)
      else number_loop threshold t (v * 10 + digit_val c) s)"

definition decodeNumber :: "string \<Rightarrow> Json option" where
  "decodeNumber t =
     (let isNegative = (t \<noteq> [] \<and> hd t = CHR ''-'')
      in if list_ex (\<lambda>c. c \<in> {CHR ''.'', CHR ''e'', CHR ''E'', CHR ''+''}) t \<or> CHR ''-'' \<in> set (tl t) then decodeDouble t
         else case number_loop ((if isNegative then 2 ^ 63 else 2 ^ 64 - 1) div 10) t 0 (if isNegative then tl t else t) of
                None \<Rightarrow> None
              | Some (Inl v) \<Rightarrow> Some v
              | Some (Inr n) \<Rightarrow> Some (if isNegative then JInt (- int n) else if n \<le> 2 ^ 63 - 1 then JInt (int n) else JUInt n))"

definition codePointToUTF8 :: "nat \<Rightarrow> string" where
  "codePointToUTF8 cp =
     (if cp \<le> 0x7F then [char_of cp]
      else if cp \<le> 0x7FF then [char_of (0xC0 OR (0x1F AND drop_bit 6 cp)), char_of (0x80 OR (0x3F AND cp))]
      else if cp \<le> 0xFFFF
      then [char_of (0xE0 OR (0xF AND drop_bit 12 cp)), char_of (0x80 OR (0x3F AND drop_bit 6 cp)), char_of (0x80 OR (0x3F AND cp))]
      else if cp \<le> 0x10FFFF
      then [char_of (0xF0 OR (0x7 AND drop_bit 18 cp)), char_of (0x80 OR (0x3F AND drop_bit 12 cp)),
            char_of (0x80 OR (0x3F AND drop_bit 6 cp)), char_of (0x80 OR (0x3F AND cp))]
      else [])"

definition hex_value :: "char \<Rightarrow> nat option" where
  "hex_value c =
     (let n = of_char c
      in if n \<in> {48 .. 57} then Some (n - 48) else if n \<in> {97 .. 102} then Some (n - 87) else if n \<in> {65 .. 70} then Some (n - 55) else None)"

definition decodeUnicodeEscapeSequence :: "string \<Rightarrow> (nat \<times> string) option" where
  "decodeUnicodeEscapeSequence s =
     (case s of a # b # c # d # r \<Rightarrow>
        (case (hex_value a, hex_value b, hex_value c, hex_value d) of
           (Some x, Some y, Some z, Some w) \<Rightarrow> Some (((x * 16 + y) * 16 + z) * 16 + w, r)
         | _ \<Rightarrow> None)
      | _ \<Rightarrow> None)"

definition decodeUnicodeCodePoint :: "string \<Rightarrow> (nat \<times> string) option" where
  "decodeUnicodeCodePoint s =
     (case decodeUnicodeEscapeSequence s of
        None \<Rightarrow> None
      | Some (u, r) \<Rightarrow>
          if u < 0xD800 \<or> u > 0xDBFF then Some (u, r)
          else if length r < 6 then None
          else if r ! 0 = CHR 0x5C \<and> r ! 1 = CHR ''u''
          then (case decodeUnicodeEscapeSequence (drop 2 r) of
                  None \<Rightarrow> None
                | Some (p, r') \<Rightarrow> Some (0x10000 + push_bit 10 (u AND 0x3FF) + (p AND 0x3FF), r'))
          else None)"

definition simple_escape :: "char \<Rightarrow> char option" where
  "simple_escape e =
     (if e = CHR 0x22 then Some (CHR 0x22) else if e = CHR ''/'' then Some (CHR ''/'') else if e = CHR 0x5C then Some (CHR 0x5C)
      else if e = CHR ''b'' then Some (CHR 0x08) else if e = CHR ''f'' then Some (CHR 0x0C) else if e = CHR ''n'' then Some (CHR 0x0A)
      else if e = CHR ''r'' then Some (CHR 0x0D) else if e = CHR ''t'' then Some (CHR 0x09) else None)"

lemma decodeUnicodeEscapeSequence_length: "decodeUnicodeEscapeSequence s = Some (u, r) \<Longrightarrow> length r < length s"
  by (auto simp: decodeUnicodeEscapeSequence_def split: list.splits option.splits)

lemma decodeUnicodeCodePoint_length: "decodeUnicodeCodePoint s = Some (u, r) \<Longrightarrow> length r < length s"
  by (fastforce simp: decodeUnicodeCodePoint_def split: option.splits if_splits dest: decodeUnicodeEscapeSequence_length)

text \<open>The text between the quotes.\<close>

function decode_chars :: "string \<Rightarrow> string option" where
  "decode_chars [] = Some []"
| "decode_chars (c # s) =
     (if c = CHR 0x22 then Some []
      else if c \<noteq> CHR 0x5C then map_option (Cons c) (decode_chars s)
      else case s of
             [] \<Rightarrow> None
           | e # r \<Rightarrow>
               (case simple_escape e of
                  Some x \<Rightarrow> map_option (Cons x) (decode_chars r)
                | None \<Rightarrow>
                    if e \<noteq> CHR ''u'' then None
                    else (case decodeUnicodeCodePoint r of
                            None \<Rightarrow> None
                          | Some (u, r') \<Rightarrow> map_option ((@) (codePointToUTF8 u)) (decode_chars r'))))"
  by pat_completeness auto
termination
  by (relation "measure length") (simp_all, metis decodeUnicodeCodePoint_length less_SucI)

definition decodeString :: "string \<Rightarrow> string option" where
  "decodeString t = decode_chars (butlast (tl t))"

section \<open>Values\<close>

text \<open>Every token but the end of the stream takes a character at least.\<close>

lemma readString_length: "length (snd (readString s)) \<le> length s"
proof (induction s rule: readString.induct)
  case (2 c s)
  then show ?case by (cases "c = CHR 0x5C"; cases "c = CHR 0x22") (auto intro: le_SucI order.trans)
qed simp

lemma readCStyleComment_length: "length (snd (readCStyleComment s)) \<le> length s"
  by (induction s rule: readCStyleComment.induct) auto

lemma readCppStyleComment_length: "length (readCppStyleComment s) \<le> length s"
  by (induction s rule: readCppStyleComment.induct) auto

lemma readComment_length: "length (snd (readComment s)) \<le> length s"
  using readCStyleComment_length readCppStyleComment_length by (auto simp: readComment_def le_SucI split: list.splits)

lemma token_at_length: "s \<noteq> [] \<Longrightarrow> length (snd (token_at s)) < length s"
  using readString_length [of "tl s"] readComment_length [of "tl s"]
  by (cases s) (auto simp: token_at_def checked_def match_def readNumber_def less_Suc_eq_le length_dropWhile_le)

lemma token_at_Nil [simp]: "token_at [] = (tokenEndOfStream, [])"
  by (simp add: token_at_def)

lemma readToken_progress: "readToken s = (t, r) \<Longrightarrow> length r < length s \<or> fst t = tokenEndOfStream \<and> length r \<le> length s"
proof -
  assume r: "readToken s = (t, r)"
  have le: "length (skipSpaces s) \<le> length s" by (simp add: skipSpaces_def length_dropWhile_le)
  show ?thesis
  proof (cases "skipSpaces s")
    case Nil
    with r show ?thesis by (auto simp: readToken_def)
  next
    case (Cons c u)
    then have "length r < length (skipSpaces s)"
      using r token_at_length [of "skipSpaces s"] by (auto simp: readToken_def Let_def split: prod.splits)
    with le show ?thesis by linarith
  qed
qed

lemma readToken_less: "readToken s = (t, r) \<Longrightarrow> fst t \<noteq> tokenEndOfStream \<Longrightarrow> length r < length s"
  using readToken_progress by blast

lemma readToken_length: "readToken s = (t, r) \<Longrightarrow> length r \<le> length s"
  using readToken_progress by fastforce

function skipCommentTokens :: "string \<Rightarrow> (TokenType \<times> string) \<times> string" where
  "skipCommentTokens s = (case readToken s of (t, r) \<Rightarrow> if fst t = tokenComment then skipCommentTokens r else (t, r))"
  by pat_completeness auto
termination
  by (relation "measure length") (auto dest: readToken_less [OF sym])

function recoverFromError :: "TokenType \<Rightarrow> string \<Rightarrow> string" where
  "recoverFromError ty s =
     (case readToken s of (t, r) \<Rightarrow> if fst t = ty \<or> fst t = tokenEndOfStream then r else recoverFromError ty r)"
  by pat_completeness auto
termination
  by (relation "measure (length \<circ> snd)") (auto dest: readToken_less [OF sym])

declare skipCommentTokens.simps [simp del] recoverFromError.simps [simp del]

text \<open>
  \<open>readValue\<close> gives the value, if there is one, and the text behind it. \<open>readArray\<close> and \<open>readObject\<close>
  are one turn of their loops, behind the opening bracket, over the reader of values and the rest of
  the loop. After the first member the name of the previous one decides whether a closing bracket is
  accepted.
\<close>

type_synonym outcome = "(Json option \<times> string) option"

definition readArray :: "(string \<Rightarrow> outcome) \<Rightarrow> (Json list \<Rightarrow> string \<Rightarrow> outcome) \<Rightarrow> Json list \<Rightarrow> string \<Rightarrow> outcome" where
  "readArray value loop xs s =
     (case value s of
        None \<Rightarrow> None
      | Some (None, r) \<Rightarrow> Some (None, recoverFromError tokenArrayEnd r)
      | Some (Some v, r) \<Rightarrow>
          (case skipCommentTokens r of (t, r1) \<Rightarrow>
             if fst t = tokenArrayEnd then Some (Some (JArray (xs @ [v])), r1) else loop (xs @ [v]) r1))"

definition readObject :: "(string \<Rightarrow> outcome) \<Rightarrow> (string \<Rightarrow> (string, Json) stdmap \<Rightarrow> string \<Rightarrow> outcome) \<Rightarrow>
    string \<Rightarrow> (string, Json) stdmap \<Rightarrow> string \<Rightarrow> outcome" where
  "readObject value loop name m s =
     (case skipCommentTokens s of (t, r) \<Rightarrow>
        if fst t = tokenObjectEnd \<and> name = [] then Some (Some (JObject m), r)
        else if fst t \<noteq> tokenString then Some (None, recoverFromError tokenObjectEnd r)
        else case decodeString (snd t) of
               None \<Rightarrow> Some (None, recoverFromError tokenObjectEnd r)
             | Some name' \<Rightarrow>
                 (case readToken r of (colon, r1) \<Rightarrow>
                    if fst colon \<noteq> tokenMemberSeparator then Some (None, recoverFromError tokenObjectEnd r1)
                    else case value r1 of
                           None \<Rightarrow> None
                         | Some (None, r2) \<Rightarrow> Some (None, recoverFromError tokenObjectEnd r2)
                         | Some (Some v, r2) \<Rightarrow>
                             (case readToken r2 of (comma, r3) \<Rightarrow>
                                if fst comma \<notin> {tokenObjectEnd, tokenArraySeparator, tokenComment}
                                then Some (None, recoverFromError tokenObjectEnd r3)
                                else case (if fst comma = tokenComment then skipCommentTokens r3 else (comma, r3)) of (comma', r4) \<Rightarrow>
                                       if fst comma' = tokenObjectEnd then Some (Some (JObject (map_put (c_str name') v m)), r4)
                                       else loop name' (map_put (c_str name') v m) r4)))"

definition readScalar :: "TokenType \<times> string \<Rightarrow> Json option" where
  "readScalar t =
     (case fst t of
        tokenNumber \<Rightarrow> decodeNumber (snd t)
      | tokenString \<Rightarrow> map_option (JString \<circ> c_str) (decodeString (snd t))
      | tokenTrue \<Rightarrow> Some (JBool True)
      | tokenFalse \<Rightarrow> Some (JBool False)
      | tokenNull \<Rightarrow> Some JNull
      | _ \<Rightarrow> None)"

text \<open>The number is fuel, used up by one in every call; \<open>None\<close> when there is none left.\<close>

fun readValue :: "nat \<Rightarrow> string \<Rightarrow> outcome"
  and readArray_loop :: "nat \<Rightarrow> Json list \<Rightarrow> string \<Rightarrow> outcome"
  and readObject_loop :: "nat \<Rightarrow> string \<Rightarrow> (string, Json) stdmap \<Rightarrow> string \<Rightarrow> outcome" where
  "readValue 0 s = None"
| "readValue (Suc n) s =
     (case skipCommentTokens s of (t, r) \<Rightarrow>
        if fst t = tokenObjectBegin then readObject_loop n [] [] r
        else if fst t = tokenArrayBegin
        then let r1 = skipSpaces r
             in if r1 \<noteq> [] \<and> hd r1 = CHR '']'' then Some (Some (JArray []), snd (readToken r1)) else readArray_loop n [] r1
        else Some (readScalar t, r))"
| "readArray_loop 0 xs s = None"
| "readArray_loop (Suc n) xs s = readArray (readValue n) (readArray_loop n) xs s"
| "readObject_loop 0 name m s = None"
| "readObject_loop (Suc n) name m s = readObject (readValue n) (readObject_loop n) name m s"

definition Reader_parse :: "string \<Rightarrow> Json option" where
  "Reader_parse s = (case readValue (2 * length s + 2) s of Some (v, r) \<Rightarrow> v | None \<Rightarrow> None)"

section \<open>The reader always ends\<close>

lemma skipCommentTokens_progress:
  "skipCommentTokens s = (t, r) \<Longrightarrow> length r < length s \<or> fst t = tokenEndOfStream \<and> length r \<le> length s"
proof (induction s rule: skipCommentTokens.induct)
  case (1 s)
  obtain u q where q: "readToken s = (u, q)" by (rule prod.exhaust)
  show ?case
  proof (cases "fst u = tokenComment")
    case True
    then have "length q < length s" using readToken_less [OF q] by simp
    moreover have "skipCommentTokens q = (t, r)" using 1(2) q True by (subst (asm) skipCommentTokens.simps) simp
    ultimately show ?thesis using 1(1) [OF q [symmetric] True] by fastforce
  next
    case False
    then show ?thesis using 1(2) q readToken_progress [OF q] by (subst (asm) skipCommentTokens.simps) auto
  qed
qed

lemma skipCommentTokens_length: "skipCommentTokens s = (t, r) \<Longrightarrow> length r \<le> length s"
  using skipCommentTokens_progress by fastforce

lemma recoverFromError_length: "length (recoverFromError ty s) \<le> length s"
proof (induction ty s rule: recoverFromError.induct)
  case (1 ty s)
  obtain t r where r: "readToken s = (t, r)" by (rule prod.exhaust)
  have "length r \<le> length s" by (rule readToken_length [OF r])
  with 1 [OF r [symmetric]] r show ?case by (subst recoverFromError.simps) (auto intro: order.trans)
qed

text \<open>A result within the text, and behind its start when there is a value.\<close>

definition advances :: "string \<Rightarrow> (Json option \<times> string) option \<Rightarrow> bool" where
  "advances s res \<longleftrightarrow> (\<exists>v r. res = Some (v, r) \<and> length r \<le> length s \<and> (v \<noteq> None \<longrightarrow> length r < length s))"

lemma advancesE:
  assumes "advances s res"
  obtains r where "res = Some (None, r)" and "length r \<le> length s" | v r where "res = Some (Some v, r)" and "length r < length s"
  using assms unfolding advances_def by (metis not_None_eq)

lemma advances_None [simp]: "advances s (Some (None, r)) \<longleftrightarrow> length r \<le> length s"
  by (simp add: advances_def)

lemma advances_Some [simp]: "advances s (Some (Some v, r)) \<longleftrightarrow> length r < length s"
  by (auto simp: advances_def)

lemma advances_within: "advances r res \<Longrightarrow> length r < length s \<Longrightarrow> advances s res"
  by (auto simp: advances_def)

lemma recover_within: "length r \<le> length s \<Longrightarrow> length (recoverFromError ty r) \<le> length s"
  using recoverFromError_length [of ty r] by simp

lemma readValue_step:
  assumes "\<And>xs r. length r < length s \<Longrightarrow> advances r (readArray_loop n xs r)"
    and "\<And>name m r. length r < length s \<Longrightarrow> advances r (readObject_loop n name m r)"
  shows "advances s (readValue (Suc n) s)"
proof -
  obtain t r where t: "skipCommentTokens s = (t, r)" by (rule prod.exhaust)
  note p = skipCommentTokens_progress [OF t]
  have sp: "length (skipSpaces r) \<le> length r" by (simp add: skipSpaces_def length_dropWhile_le)
  have rt: "length (snd (readToken (skipSpaces r))) \<le> length (skipSpaces r)"
    by (rule readToken_length [where t = "fst (readToken (skipSpaces r))"]) simp
  have "readScalar t \<noteq> None \<Longrightarrow> fst t \<noteq> tokenEndOfStream" by (auto simp: readScalar_def)
  then have "advances s (Some (readScalar t, r))" using p by (cases "readScalar t") auto
  moreover have "fst t = tokenArrayBegin \<Longrightarrow> advances s (readArray_loop n [] (skipSpaces r))"
    "fst t = tokenObjectBegin \<Longrightarrow> advances s (readObject_loop n [] [] r)"
    using p sp by (auto intro!: advances_within [OF assms(1)] advances_within [OF assms(2)])
  ultimately show ?thesis using p sp rt by (auto simp: t Let_def)
qed

lemma readArray_advances:
  assumes "advances s (value s)" and "\<And>xs r. length r < length s \<Longrightarrow> advances r (loop xs r)"
  shows "advances s (readArray value loop xs s)"
  using assms(1)
proof (cases rule: advancesE)
  case (1 r)
  then show ?thesis by (simp add: readArray_def recover_within)
next
  case (2 v r)
  obtain t r1 where t: "skipCommentTokens r = (t, r1)" by (rule prod.exhaust)
  then have "length r1 < length s" using skipCommentTokens_length [OF t] 2(2) by simp
  then show ?thesis using 2(1) advances_within [OF assms(2)] by (simp add: readArray_def t)
qed

lemma readObject_advances:
  assumes "\<And>r. length r < length s \<Longrightarrow> advances r (value r)" and "\<And>name m r. length r < length s \<Longrightarrow> advances r (loop name m r)"
  shows "advances s (readObject value loop name m s)"
proof -
  obtain t r where t: "skipCommentTokens s = (t, r)" by (rule prod.exhaust)
  obtain colon r1 where c: "readToken r = (colon, r1)" by (rule prod.exhaust)
  note p = skipCommentTokens_progress [OF t] and l1 = readToken_length [OF c]
  show ?thesis
  proof (cases "fst t = tokenString \<and> decodeString (snd t) \<noteq> None \<and> fst colon = tokenMemberSeparator")
    case False
    with p l1 show ?thesis by (auto simp: readObject_def t c recover_within split: option.splits)
  next
    case True
    then obtain name' where n: "decodeString (snd t) = Some name'" by blast
    have r1: "length r1 < length s" using True p l1 by auto
    from assms(1) [OF r1] show ?thesis
    proof (cases rule: advancesE)
      case (1 r2)
      with True n r1 show ?thesis by (simp add: readObject_def t c recover_within)
    next
      case (2 v r2)
      obtain comma r3 where k: "readToken r2 = (comma, r3)" by (rule prod.exhaust)
      obtain comma' r4 where k': "(if fst comma = tokenComment then skipCommentTokens r3 else (comma, r3)) = (comma', r4)" by (rule prod.exhaust)
      have "length r3 \<le> length r2" by (rule readToken_length [OF k])
      moreover have "length r4 \<le> length r3" using k' skipCommentTokens_length [of r3] by (auto split: if_splits)
      ultimately have "length r4 < length s" "length r3 \<le> length s" using 2(2) r1 by simp_all
      then show ?thesis using True n 2(1) advances_within [OF assms(2)] by (simp add: readObject_def t c k k' recover_within)
    qed
  qed
qed

lemma reader_total:
  "2 * length s < n \<Longrightarrow> advances s (readValue n s)"
  "2 * length s + 1 < n \<Longrightarrow> advances s (readArray_loop n xs s)"
  "2 * length s + 1 < n \<Longrightarrow> advances s (readObject_loop n name m s)"
proof (induction n arbitrary: s xs name m)
  case (Suc n)
  {
    case 1
    then show ?case by (intro readValue_step Suc) simp_all
  next
    case 2
    then show ?case using Suc by (auto intro!: readArray_advances)
  next
    case 3
    then show ?case using Suc by (auto intro!: readObject_advances)
  }
qed simp_all

text \<open>More fuel does not change a result.\<close>

definition extends :: "('a \<Rightarrow> 'b option) \<Rightarrow> ('a \<Rightarrow> 'b option) \<Rightarrow> bool" where
  "extends f g \<longleftrightarrow> (\<forall>x. f x \<noteq> None \<longrightarrow> g x = f x)"

lemma readArray_extends:
  assumes "extends value value'" and "\<And>xs. extends (loop xs) (loop' xs)" and "readArray value loop xs s \<noteq> None"
  shows "readArray value' loop' xs s = readArray value loop xs s"
proof -
  obtain v r where v: "value s = Some (v, r)" using assms(3) by (auto simp: readArray_def split: option.splits)
  with assms(1) have "value' s = Some (v, r)" by (simp add: extends_def)
  then show ?thesis using assms(2,3) v by (auto simp: readArray_def extends_def split: option.splits prod.splits)
qed

lemma readObject_extends:
  assumes "extends value value'" and "\<And>name m. extends (loop name m) (loop' name m)" and "readObject value loop name m s \<noteq> None"
  shows "readObject value' loop' name m s = readObject value loop name m s"
proof -
  obtain t r where t: "skipCommentTokens s = (t, r)" by (rule prod.exhaust)
  obtain colon r1 where c: "readToken r = (colon, r1)" by (rule prod.exhaust)
  show ?thesis
  proof (cases "value r1")
    case None
    with assms(3) show ?thesis by (auto simp: readObject_def t c split: option.splits)
  next
    case (Some x)
    with assms(1) have "value' r1 = Some x" by (simp add: extends_def)
    then show ?thesis using assms(2,3) Some
      by (cases x) (auto simp: readObject_def t c extends_def split: option.splits prod.splits)
  qed
qed

lemma reader_more_fuel:
  "extends (readValue n) (readValue (Suc n))"
  "extends (readArray_loop n xs) (readArray_loop (Suc n) xs)"
  "extends (readObject_loop n name m) (readObject_loop (Suc n) name m)"
proof (induction n arbitrary: xs name m)
  case (Suc n)
  {
    case 1
    have ih: "readArray_loop n xs r \<noteq> None \<Longrightarrow> readArray_loop (Suc n) xs r = readArray_loop n xs r"
      "readObject_loop n name m r \<noteq> None \<Longrightarrow> readObject_loop (Suc n) name m r = readObject_loop n name m r" for xs r name m
      using Suc.IH(2,3) unfolding extends_def by blast+
    show ?case unfolding extends_def readValue.simps(2) Let_def by (auto simp del: readArray_loop.simps readObject_loop.simps split: prod.splits intro: ih)
  next
    case 2
    show ?case unfolding extends_def readArray_loop.simps(2) [of "Suc n"] readArray_loop.simps(2) [of n xs]
      by (intro allI impI readArray_extends Suc.IH(1,2))
  next
    case 3
    show ?case unfolding extends_def readObject_loop.simps(2) [of "Suc n"] readObject_loop.simps(2) [of n name]
      by (intro allI impI readObject_extends Suc.IH(1,3))
  }
qed (simp_all add: extends_def)

lemma fuel_determined:
  assumes "\<And>k. extends (f k) (f (Suc k))" and "f n s \<noteq> None" and "f n' s \<noteq> None"
  shows "f n' s = f n s"
proof -
  have up: "f (k + j) s = f k s" if "f k s \<noteq> None" for j k
    using that assms(1) by (induction j) (auto simp: extends_def)
  show ?thesis using up [OF assms(2), of n'] up [OF assms(3), of n] by (simp add: add.commute)
qed

text \<open>The reader without its fuel, of which the length of the text gives enough.\<close>

definition value_at :: "string \<Rightarrow> outcome" where
  "value_at s = readValue (2 * length s + 2) s"

definition array_at :: "Json list \<Rightarrow> string \<Rightarrow> outcome" where
  "array_at xs s = readArray_loop (2 * length s + 2) xs s"

definition object_at :: "string \<Rightarrow> (string, Json) stdmap \<Rightarrow> string \<Rightarrow> outcome" where
  "object_at name m s = readObject_loop (2 * length s + 2) name m s"

lemma at_total: "value_at s \<noteq> None" "array_at xs s \<noteq> None" "object_at name m s \<noteq> None"
proof -
  have a: "advances s res \<Longrightarrow> res \<noteq> None" for res by (auto simp: advances_def)
  show "value_at s \<noteq> None" "array_at xs s \<noteq> None" "object_at name m s \<noteq> None"
    unfolding value_at_def array_at_def object_at_def by (rule a, rule reader_total, simp)+
qed

lemma extends_at: "extends (readValue n) value_at" "extends (readArray_loop n xs) (array_at xs)" "extends (readObject_loop n name m) (object_at name m)"
proof -
  show "extends (readValue n) value_at"
    using fuel_determined [where f = readValue, OF reader_more_fuel(1)] at_total(1) unfolding extends_def value_at_def by blast
  show "extends (readArray_loop n xs) (array_at xs)"
    using fuel_determined [where f = "\<lambda>k. readArray_loop k xs", OF reader_more_fuel(2)] at_total(2) unfolding extends_def array_at_def by blast
  show "extends (readObject_loop n name m) (object_at name m)"
    using fuel_determined [where f = "\<lambda>k. readObject_loop k name m", OF reader_more_fuel(3)] at_total(3) unfolding extends_def object_at_def by blast
qed

lemma array_at_eq: "array_at xs s = readArray value_at array_at xs s"
proof -
  have "array_at xs s = readArray (readValue (2 * length s + 1)) (readArray_loop (2 * length s + 1)) xs s" by (simp add: array_at_def)
  moreover from this have "readArray value_at array_at xs s = readArray (readValue (2 * length s + 1)) (readArray_loop (2 * length s + 1)) xs s"
    using at_total(2) [of xs s] by (intro readArray_extends extends_at) simp
  ultimately show ?thesis by simp
qed

lemma object_at_eq: "object_at name m s = readObject value_at object_at name m s"
proof -
  have "object_at name m s = readObject (readValue (2 * length s + 1)) (readObject_loop (2 * length s + 1)) name m s" by (simp add: object_at_def)
  moreover from this have "readObject value_at object_at name m s = readObject (readValue (2 * length s + 1)) (readObject_loop (2 * length s + 1)) name m s"
    using at_total(3) [of name m s] by (intro readObject_extends extends_at) simp
  ultimately show ?thesis by simp
qed

lemma value_at_eq:
  "value_at s =
     (case skipCommentTokens s of (t, r) \<Rightarrow>
        if fst t = tokenObjectBegin then object_at [] [] r
        else if fst t = tokenArrayBegin
        then let r1 = skipSpaces r
             in if r1 \<noteq> [] \<and> hd r1 = CHR '']'' then Some (Some (JArray []), snd (readToken r1)) else array_at [] r1
        else Some (readScalar t, r))"
proof -
  have e: "readArray_loop n xs r \<noteq> None \<Longrightarrow> array_at xs r = readArray_loop n xs r"
    "readObject_loop n name m r \<noteq> None \<Longrightarrow> object_at name m r = readObject_loop n name m r" for n xs r name m
    using extends_at(2,3) unfolding extends_def by blast+
  have "value_at s = readValue (Suc (2 * length s + 1)) s" by (simp add: value_at_def)
  then have eq: "value_at s =
     (case skipCommentTokens s of (t, r) \<Rightarrow>
        if fst t = tokenObjectBegin then readObject_loop (2 * length s + 1) [] [] r
        else if fst t = tokenArrayBegin
        then let r1 = skipSpaces r
             in if r1 \<noteq> [] \<and> hd r1 = CHR '']'' then Some (Some (JArray []), snd (readToken r1)) else readArray_loop (2 * length s + 1) [] r1
        else Some (readScalar t, r))" by (simp only: readValue.simps(2))
  obtain t r where t: "skipCommentTokens s = (t, r)" by (rule prod.exhaust)
  have "fst t = tokenObjectBegin \<Longrightarrow> object_at [] [] r = readObject_loop (2 * length s + 1) [] [] r"
    and "fst t = tokenArrayBegin \<Longrightarrow> skipSpaces r = [] \<or> hd (skipSpaces r) \<noteq> CHR '']'' \<Longrightarrow>
      array_at [] (skipSpaces r) = readArray_loop (2 * length s + 1) [] (skipSpaces r)"
    using at_total(1) [of s] eq t by (auto intro!: e simp: Let_def simp del: readArray_loop.simps readObject_loop.simps split: if_splits)
  then show ?thesis unfolding eq t
    by (cases "skipSpaces r = [] \<or> hd (skipSpaces r) \<noteq> CHR '']''") (auto simp: Let_def simp del: readArray_loop.simps readObject_loop.simps)
qed

lemma Reader_parse_at: "value_at s = Some (v, r) \<Longrightarrow> Reader_parse s = v"
  by (simp add: Reader_parse_def value_at_def)

end
