(* ===== verification/JsonWriter.thy ===== *)
theory JsonWriter
  imports JsonValue
begin

text \<open>
  \<open>jsoncpp/json_writer.cpp\<close>: \<open>FastWriter\<close>, which writes on one line and without a newline, and
  \<open>StyledWriter\<close>, which indents and is behind \<open>Value::toStyledString\<close>.
\<close>

section \<open>Scalars\<close>

definition isControlCharacter :: "char \<Rightarrow> bool" where
  "isControlCharacter ch \<longleftrightarrow> of_char ch \<in> {1 .. 31 :: nat}"

text \<open>\<open>"%#.16g"\<close> without the zeros at its end, of which one is kept; a text with an exponent stays.\<close>

definition valueToString_double :: "double \<Rightarrow> string" where
  "valueToString_double d =
     (let buffer = print_double d
      in if last buffer \<noteq> CHR ''0'' then buffer
         else let kept = rev (dropWhile (\<lambda>c. c = CHR ''0'') (rev buffer));
                  front = dropWhile isdigit (rev kept)
              in if front \<noteq> [] \<and> hd front = CHR ''.'' then take (length kept + 1) buffer else buffer)"

definition valueToString_int :: "int \<Rightarrow> string" where
  "valueToString_int i = (if i < 0 then ''-'' @ decimal (nat (- i)) else decimal (nat i))"

definition hex_digit :: "nat \<Rightarrow> char" where
  "hex_digit n = char_of (if n < 10 then 48 + n else 55 + n)"

definition escape_char :: "char \<Rightarrow> string" where
  "escape_char c =
     (if c = CHR 0x22 then [CHR 0x5C, CHR 0x22]
      else if c = CHR 0x5C then [CHR 0x5C, CHR 0x5C]
      else if c = CHR 0x08 then [CHR 0x5C, CHR ''b'']
      else if c = CHR 0x0C then [CHR 0x5C, CHR ''f'']
      else if c = CHR 0x0A then [CHR 0x5C, CHR ''n'']
      else if c = CHR 0x0D then [CHR 0x5C, CHR ''r'']
      else if c = CHR 0x09 then [CHR 0x5C, CHR ''t'']
      else if isControlCharacter c then [CHR 0x5C, CHR ''u'', CHR ''0'', CHR ''0'', hex_digit (of_char c div 16), hex_digit (of_char c mod 16)]
      else [c])"

definition valueToQuotedString :: "string \<Rightarrow> string" where
  "valueToQuotedString s =
     (if list_all (\<lambda>c. c \<notin> set [CHR 0x22, CHR 0x5C, CHR 0x08, CHR 0x0C, CHR 0x0A, CHR 0x0D, CHR 0x09] \<and> \<not> isControlCharacter c) s
      then [CHR 0x22] @ s @ [CHR 0x22]
      else [CHR 0x22] @ concat (map escape_char s) @ [CHR 0x22])"

section \<open>FastWriter\<close>

definition join :: "string \<Rightarrow> string list \<Rightarrow> string" where
  "join sep ts = (case ts of [] \<Rightarrow> [] | t # ts \<Rightarrow> t @ concat (map ((@) sep) ts))"

fun FastWriter_write :: "Json \<Rightarrow> string" where
  "FastWriter_write JNull = ''null''"
| "FastWriter_write (JInt i) = valueToString_int i"
| "FastWriter_write (JUInt n) = decimal n"
| "FastWriter_write (JReal d) = valueToString_double d"
| "FastWriter_write (JString s) = valueToQuotedString s"
| "FastWriter_write (JBool b) = (if b then ''true'' else ''false'')"
| "FastWriter_write (JArray xs) = ''['' @ join '','' (map FastWriter_write xs) @ '']''"
| "FastWriter_write (JObject m) =
     ''{'' @ join '','' (map (\<lambda>(name, v). valueToQuotedString name @ '':'' @ FastWriter_write v) m) @ ''}''"

section \<open>StyledWriter\<close>

text \<open>What \<open>pushValue\<close> gets for a value that is not written over several lines.\<close>

definition pushed :: "Json \<Rightarrow> string" where
  "pushed v =
     (case v of JArray _ \<Rightarrow> ''[]'' | JObject _ \<Rightarrow> ''{}'' | _ \<Rightarrow> FastWriter_write v)"

definition rightMargin :: nat where
  "rightMargin = 74"

text \<open>
  The elements of an array as \<open>childValues_\<close> has them when \<open>isMultineArray\<close> is done; it stops before
  collecting them when the array is long or has an element with elements of its own.
\<close>

definition childValues :: "Json list \<Rightarrow> string list" where
  "childValues xs =
     (if length xs * 3 \<ge> rightMargin \<or> list_ex (\<lambda>x. (isArray x \<or> isObject x) \<and> json_size x > 0) xs then [] else map pushed xs)"

definition isMultineArray :: "Json list \<Rightarrow> bool" where
  "isMultineArray xs \<longleftrightarrow>
     (length xs * 3 \<ge> rightMargin \<or> list_ex (\<lambda>x. (isArray x \<or> isObject x) \<and> json_size x > 0) xs \<or>
      4 + (length xs - 1) * 2 + sum_list (map (length \<circ> pushed) xs) \<ge> rightMargin)"

definition writeIndent :: "nat \<Rightarrow> string \<Rightarrow> string" where
  "writeIndent n doc =
     (if doc \<noteq> [] \<and> last doc = CHR '' '' then doc
      else (if doc \<noteq> [] \<and> last doc \<noteq> CHR 0x0A then doc @ [CHR 0x0A] else doc) @ replicate n CHR '' '')"

definition writeWithIndent :: "nat \<Rightarrow> string \<Rightarrow> string \<Rightarrow> string" where
  "writeWithIndent n s doc = writeIndent n doc @ s"

definition indentSize :: nat where
  "indentSize = 3"

fun write_children :: "nat \<Rightarrow> string list \<Rightarrow> string \<Rightarrow> string" where
  "write_children n [] doc = doc"
| "write_children n (t # ts) doc =
     (let doc1 = writeWithIndent n t doc in if ts = [] then doc1 else write_children n ts (doc1 @ '',''))"

text \<open>
  \<open>styled n v doc\<close> is the document after \<open>v\<close> has been written to it with an indentation of \<open>n\<close>
  blanks; \<open>styled_items\<close> and \<open>styled_members\<close> are the loops over elements and members.
\<close>

function (sequential) styled :: "nat \<Rightarrow> Json \<Rightarrow> string \<Rightarrow> string"
  and styled_items :: "nat \<Rightarrow> Json list \<Rightarrow> string \<Rightarrow> string"
  and styled_members :: "nat \<Rightarrow> (string \<times> Json) list \<Rightarrow> string \<Rightarrow> string" where
  "styled n (JArray xs) doc =
     (if xs = [] then doc @ ''[]''
      else if isMultineArray xs
      then let n1 = n + indentSize; doc1 = writeWithIndent n ''['' doc;
               doc2 = (if childValues xs \<noteq> [] then write_children n1 (childValues xs) doc1 else styled_items n1 xs doc1)
           in writeWithIndent n '']'' doc2
      else doc @ ''[ '' @ join '', '' (childValues xs) @ '' ]'')"
| "styled n (JObject m) doc =
     (if m = [] then doc @ ''{}''
      else writeWithIndent n ''}'' (styled_members (n + indentSize) m (writeWithIndent n ''{'' doc)))"
| "styled n v doc = doc @ pushed v"
| "styled_items n [] doc = doc"
| "styled_items n (x # xs) doc =
     (let doc1 = styled n x (writeIndent n doc) in if xs = [] then doc1 else styled_items n xs (doc1 @ '',''))"
| "styled_members n [] doc = doc"
| "styled_members n ((name, v) # m) doc =
     (let doc1 = styled n v (writeWithIndent n (valueToQuotedString name) doc @ '' : '')
      in if m = [] then doc1 else styled_members n m (doc1 @ '',''))"
  by pat_completeness auto
termination
  by (relation "measure (\<lambda>x. case x of Inl (n, v, d) \<Rightarrow> size v | Inr (Inl (n, xs, d)) \<Rightarrow> size_list size xs
      | Inr (Inr (n, m, d)) \<Rightarrow> size_list (size_prod (\<lambda>_. 0) size) m)") auto

definition StyledWriter_write :: "Json \<Rightarrow> string" where
  "StyledWriter_write v = styled 0 v [] @ [CHR 0x0A]"

end
