(* ===== verification/JsonText.thy ===== *)
theory JsonText
  imports JsonReader JsonWriter
begin

text \<open>
  What the writers write the reader reads. \<open>written v t\<close> says that \<open>t\<close> is a text for \<open>v\<close>, with any
  blanks between its tokens; both writers give such texts, and the reader reads any of them.
\<close>

section \<open>Strings\<close>

lemma of_char_eq: "of_char c = (n :: nat) \<Longrightarrow> c = char_of n"
  by auto

lemma hex_digit_plain: "n < 16 \<Longrightarrow> hex_digit n \<noteq> CHR 0x5C \<and> hex_digit n \<noteq> CHR 0x22"
proof -
  assume "n < 16"
  then have n: "(if n < 10 then 48 + n else 55 + n) < 256" "(if n < 10 then 48 + n else 55 + n) \<noteq> 92" "(if n < 10 then 48 + n else 55 + n) \<noteq> 34" by auto
  then have "of_char (hex_digit n) \<noteq> (92 :: nat)" "of_char (hex_digit n) \<noteq> (34 :: nat)" by (simp_all add: hex_digit_def)
  then show ?thesis by auto
qed

lemma hex_value_digit [simp]: "n < 16 \<Longrightarrow> hex_value (hex_digit n) = Some n"
proof -
  assume n: "n < 16"
  then have "of_char (hex_digit n) = (if n < 10 then 48 + n else 55 + n)" by (simp add: hex_digit_def)
  with n show ?thesis by (simp add: hex_value_def Let_def)
qed

lemma hex_value_0 [simp]: "hex_value CHR ''0'' = Some 0"
  by (simp add: hex_value_def)

lemma readString_escape: "readString (escape_char c @ s) = readString s"
proof -
  have "of_char c div 16 < (16 :: nat)" by (simp add: less_mult_imp_div_less)
  then show ?thesis using hex_digit_plain [of "of_char c div 16"] hex_digit_plain [of "of_char c mod 16"] by (auto simp: escape_char_def)
qed

lemma readString_escapes: "readString (concat (map escape_char s) @ CHR 0x22 # rest) = (True, rest)"
  by (induction s) (simp_all add: readString_escape)

lemma decode_control:
  assumes "isControlCharacter c"
  shows "decodeUnicodeCodePoint (CHR ''0'' # CHR ''0'' # hex_digit (of_char c div 16) # hex_digit (of_char c mod 16) # s) = Some (of_char c, s)"
proof -
  have n: "of_char c < (32 :: nat)" using assms by (simp add: isControlCharacter_def)
  then have "of_char c div 16 < (16 :: nat)" "of_char c mod 16 < (16 :: nat)" by simp_all
  moreover have "of_char c div 16 * 16 + of_char c mod 16 = (of_char c :: nat)" by simp
  ultimately have "decodeUnicodeEscapeSequence (CHR ''0'' # CHR ''0'' # hex_digit (of_char c div 16) # hex_digit (of_char c mod 16) # s) = Some (of_char c, s)"
    by (simp add: decodeUnicodeEscapeSequence_def)
  with n show ?thesis by (simp add: decodeUnicodeCodePoint_def)
qed

lemma decode_escape: "decode_chars (escape_char c @ s) = map_option (Cons c) (decode_chars s)"
proof (cases "c \<in> {CHR 0x22, CHR 0x5C, CHR 0x08, CHR 0x0C, CHR 0x0A, CHR 0x0D, CHR 0x09}")
  case True
  then show ?thesis by (auto simp: escape_char_def simple_escape_def)
next
  case False
  show ?thesis
  proof (cases "isControlCharacter c")
    case True
    then have "codePointToUTF8 (of_char c) = [c]" by (simp add: codePointToUTF8_def isControlCharacter_def)
    moreover have "(@) [c] = Cons c" by auto
    ultimately show ?thesis using True False by (simp add: escape_char_def simple_escape_def decode_control)
  next
    case F: False
    with False show ?thesis by (simp add: escape_char_def)
  qed
qed

lemma decode_escapes: "decode_chars (concat (map escape_char s)) = Some s"
  by (induction s) (simp_all add: decode_escape)

lemma quoted_escapes: "valueToQuotedString s = CHR 0x22 # concat (map escape_char s) @ [CHR 0x22]"
proof -
  have "concat (map escape_char s) = s" if "list_all (\<lambda>c. c \<notin> set [CHR 0x22, CHR 0x5C, CHR 0x08, CHR 0x0C, CHR 0x0A, CHR 0x0D, CHR 0x09] \<and> \<not> isControlCharacter c) s"
    using that by (induction s) (simp_all add: escape_char_def)
  then show ?thesis by (simp add: valueToQuotedString_def)
qed

lemma quoted_no_zero: "CHR 0x00 \<notin> set s \<Longrightarrow> CHR 0x00 \<notin> set (valueToQuotedString s)"
proof -
  have h: "n < 16 \<Longrightarrow> hex_digit n \<noteq> CHR 0x00" for n
  proof -
    assume "n < 16"
    then have "of_char (hex_digit n) \<noteq> (0 :: nat)" by (simp add: hex_digit_def)
    then show ?thesis by auto
  qed
  have "CHR 0x00 \<notin> set (escape_char c)" if "c \<noteq> CHR 0x00" for c
  proof -
    have "CHR 0x00 \<noteq> hex_digit (of_char c div 16)" "CHR 0x00 \<noteq> hex_digit (of_char c mod 16)"
      using h [of "of_char c div 16"] h [of "of_char c mod 16"] by (auto simp: less_mult_imp_div_less)
    with that show ?thesis by (auto simp: escape_char_def)
  qed
  moreover assume "CHR 0x00 \<notin> set s"
  ultimately have "\<forall>c \<in> set s. CHR 0x00 \<notin> set (escape_char c)" by metis
  then show ?thesis by (simp add: quoted_escapes)
qed

lemma decodeString_quoted [simp]: "decodeString (valueToQuotedString s) = Some s"
  by (simp add: decodeString_def quoted_escapes decode_escapes butlast_append)

section \<open>Numbers\<close>

lemma digits_val_ge: "\<forall>c \<in> set s. isdigit c \<Longrightarrow> acc \<le> digits_val acc s"
proof (induction s arbitrary: acc)
  case (Cons c s)
  then have "10 * acc + digit_val c \<le> digits_val acc (c # s)" by simp
  then show ?case by linarith
qed simp

lemma number_loop_digits:
  "\<forall>c \<in> set s. isdigit c \<Longrightarrow> digits_val v s < 10 * threshold \<Longrightarrow> number_loop threshold t v s = Some (Inr (digits_val v s))"
proof (induction s arbitrary: v)
  case (Cons c s)
  then have "10 * v + digit_val c \<le> digits_val v (c # s)" using digits_val_ge [of s "10 * v + digit_val c"] by simp
  then have "v < threshold" using Cons.prems(2) by linarith
  with Cons show ?case by (simp add: mult.commute)
qed simp

lemma digits_plain: "\<forall>c \<in> set s. isdigit c \<Longrightarrow> \<not> list_ex (\<lambda>c. c \<in> {CHR ''.'', CHR ''e'', CHR ''E'', CHR ''+''}) s \<and> CHR ''-'' \<notin> set s"
  by (auto simp: list_ex_iff isdigit_def)

lemma decodeNumber_decimal:
  assumes "n < 18446744073709551610"
  shows "decodeNumber (decimal n) = Some (reread (JUInt n))"
proof -
  note d = decimal_digits [of n] and p = digits_plain [OF decimal_digits [of n]]
  obtain c cs where c: "decimal n = c # cs" using decimal_nonempty by (cases "decimal n") auto
  have "number_loop ((2 ^ 64 - 1) div 10) (decimal n) 0 (decimal n) = Some (Inr n)"
    using number_loop_digits [OF d, of 0 "(2 ^ 64 - 1) div 10"] assms by (simp add: digits_val_decimal)
  moreover have "c \<noteq> CHR ''-''" "CHR ''-'' \<notin> set cs" using p c by auto
  ultimately show ?thesis using p unfolding decodeNumber_def Let_def by (simp add: c)
qed

lemma decodeNumber_int:
  assumes "- 9223372036854775800 < i" and "i < 9223372036854775808"
  shows "decodeNumber (valueToString_int i) = Some (JInt i)"
proof (cases "i < 0")
  case False
  then have "nat i < 18446744073709551610" using assms(2) by linarith
  from decodeNumber_decimal [OF this] False assms(2) show ?thesis by (simp add: valueToString_int_def)
next
  case True
  let ?n = "nat (- i)"
  note d = decimal_digits [of ?n] and p = digits_plain [OF decimal_digits [of ?n]]
  have "?n < 9223372036854775800" using assms(1) by linarith
  then have "number_loop (2 ^ 63 div 10) (CHR ''-'' # decimal ?n) 0 (decimal ?n) = Some (Inr ?n)"
    using number_loop_digits [OF d, of 0 "2 ^ 63 div 10"] by (simp add: digits_val_decimal)
  with True p show ?thesis unfolding decodeNumber_def Let_def by (simp add: valueToString_int_def)
qed

section \<open>Tokens\<close>

definition blanks :: "string \<Rightarrow> bool" where
  "blanks a \<longleftrightarrow> (\<forall>c \<in> set a. blank c)"

text \<open>What may follow a number.\<close>

definition stops :: "string \<Rightarrow> bool" where
  "stops rest \<longleftrightarrow> rest = [] \<or> \<not> number_char (hd rest)"

lemma skipSpaces_blanks [simp]: "blanks a \<Longrightarrow> skipSpaces (a @ s) = skipSpaces s"
  by (simp add: blanks_def skipSpaces_def)

lemma readToken_blanks [simp]: "blanks a \<Longrightarrow> readToken (a @ s) = readToken s"
  by (simp add: readToken_def)

lemma skipCommentTokens_blanks [simp]: "blanks a \<Longrightarrow> skipCommentTokens (a @ s) = skipCommentTokens s"
  by (subst (1 2) skipCommentTokens.simps) simp

lemma value_at_blanks [simp]: "blanks a \<Longrightarrow> value_at (a @ s) = value_at s"
  by (subst (1 2) value_at_eq) simp

lemma readToken_at:
  assumes "t \<noteq> []" and "\<not> blank (hd t)" and "token_at (t @ rest) = (ty, rest)"
  shows "readToken (t @ rest) = ((ty, t), rest)"
proof -
  have "skipSpaces (t @ rest) = t @ rest" using assms(1,2) by (cases t) (simp_all add: skipSpaces_def)
  with assms(3) show ?thesis by (simp add: readToken_def)
qed

lemma readToken_punctuation:
  "readToken (CHR ''{'' # s) = ((tokenObjectBegin, ''{''), s)" "readToken (CHR ''}'' # s) = ((tokenObjectEnd, ''}''), s)"
  "readToken (CHR ''['' # s) = ((tokenArrayBegin, ''[''), s)" "readToken (CHR '']'' # s) = ((tokenArrayEnd, '']''), s)"
  "readToken (CHR '','' # s) = ((tokenArraySeparator, '',''), s)" "readToken (CHR '':'' # s) = ((tokenMemberSeparator, '':''), s)"
  by (simp_all add: readToken_def skipSpaces_def blank_def token_at_def isdigit_def)

lemma readToken_word:
  "readToken (''null'' @ s) = ((tokenNull, ''null''), s)" "readToken (''true'' @ s) = ((tokenTrue, ''true''), s)"
  "readToken (''false'' @ s) = ((tokenFalse, ''false''), s)"
  by (simp_all add: readToken_def skipSpaces_def blank_def token_at_def isdigit_def checked_def match_def)

lemma readToken_quoted: "readToken (valueToQuotedString s @ rest) = ((tokenString, valueToQuotedString s), rest)"
  by (rule readToken_at) (simp_all add: quoted_escapes blank_def token_at_def checked_def readString_escapes)

lemma readToken_number:
  assumes "t \<noteq> []" and "isdigit (hd t) \<or> hd t = CHR ''-''" and "\<forall>c \<in> set t. number_char c" and "stops rest"
  shows "readToken (t @ rest) = ((tokenNumber, t), rest)"
proof (rule readToken_at [OF assms(1)])
  show "\<not> blank (hd t)" using assms(2) by (auto simp: blank_def isdigit_def)
  have "dropWhile number_char rest = rest" using assms(4) by (cases rest) (simp_all add: stops_def)
  then have "readNumber (tl t @ rest) = rest" using assms(1,3) by (cases t) (simp_all add: readNumber_def)
  then show "token_at (t @ rest) = (tokenNumber, rest)" using assms(1,2) by (cases t) (auto simp: token_at_def isdigit_def)
qed

lemma digits_number: "\<forall>c \<in> set s. isdigit c \<Longrightarrow> \<forall>c \<in> set s. number_char c"
  by (simp add: number_char_def)

lemma readToken_decimal: "stops rest \<Longrightarrow> readToken (decimal n @ rest) = ((tokenNumber, decimal n), rest)"
  using decimal_digits [of n] decimal_nonempty [of n] by (intro readToken_number digits_number) auto

lemma readToken_int: "stops rest \<Longrightarrow> readToken (valueToString_int i @ rest) = ((tokenNumber, valueToString_int i), rest)"
  using digits_number [OF decimal_digits] readToken_decimal
  by (cases "i < 0") (auto simp: valueToString_int_def number_char_def intro!: readToken_number [of "CHR ''-'' # decimal (nat (- i))", simplified])

lemmas token_simps = readToken_punctuation readToken_word [simplified] readToken_quoted readToken_decimal readToken_int

section \<open>Texts\<close>

lemma join_Nil [simp]: "join sep [] = []"
  by (simp add: join_def)

lemma join_Cons [simp]: "join sep (t # ts) = t @ (if ts = [] then [] else sep @ join sep ts)"
  by (cases ts) (simp_all add: join_def)

text \<open>A list of things with commas between their texts.\<close>

definition listed :: "('a \<Rightarrow> string \<Rightarrow> bool) \<Rightarrow> 'a list \<Rightarrow> string \<Rightarrow> bool" where
  "listed E xs t \<longleftrightarrow> (\<exists>ts. t = join '','' ts \<and> list_all2 E xs ts)"

lemma listed_mono [mono]: "(\<And>x t. E x t \<longrightarrow> F x t) \<Longrightarrow> listed E xs t \<longrightarrow> listed F xs t"
  unfolding listed_def by (metis list_all2_mono)

inductive written :: "Json \<Rightarrow> string \<Rightarrow> bool" where
  null: "written JNull ''null''"
| bool: "written (JBool b) (if b then ''true'' else ''false'')"
| int: "- 9223372036854775800 < i \<Longrightarrow> i < 9223372036854775808 \<Longrightarrow> written (JInt i) (valueToString_int i)"
| uint: "n < 18446744073709551610 \<Longrightarrow> written (JUInt n) (decimal n)"
| string: "CHR 0x00 \<notin> set s \<Longrightarrow> written (JString s) (valueToQuotedString s)"
| array: "listed (\<lambda>v t. \<exists>a u b. t = a @ u @ b \<and> blanks a \<and> blanks b \<and> written v u) vs t \<Longrightarrow> written (JArray vs) (''['' @ t @ '']'')"
| object: "map_ok m \<Longrightarrow> listed (\<lambda>p t. \<exists>a b c u d. t = a @ valueToQuotedString (fst p) @ b @ '':'' @ c @ u @ d \<and> blanks a \<and> blanks b \<and> blanks c \<and> blanks d \<and>
      CHR 0x00 \<notin> set (fst p) \<and> written (snd p) u) m t \<Longrightarrow> written (JObject m) (''{'' @ t @ ''}'')"

section \<open>Reading texts\<close>

definition reads :: "Json \<Rightarrow> string \<Rightarrow> bool" where
  "reads v u \<longleftrightarrow> u \<noteq> [] \<and> \<not> blank (hd u) \<and> hd u \<noteq> CHR '']'' \<and> (\<forall>rest. stops rest \<longrightarrow> value_at (u @ rest) = Some (Some (reread v), rest))"

lemma blanks_Nil [simp]: "blanks []" and blanks_Cons [simp]: "blanks (c # a) \<longleftrightarrow> blank c \<and> blanks a"
  and blanks_append [simp]: "blanks (a @ b) \<longleftrightarrow> blanks a \<and> blanks b"
  by (auto simp: blanks_def)

lemma stops_blanks: "blanks b \<Longrightarrow> stops s \<Longrightarrow> stops (b @ s)"
  by (cases b) (auto simp: stops_def blank_def number_char_def isdigit_def)

lemma stops_punctuation [simp]: "stops (CHR '','' # s)" "stops (CHR '']'' # s)" "stops (CHR ''}'' # s)"
  by (simp_all add: stops_def number_char_def isdigit_def)

lemma skipCommentTokens_token: "readToken s = (t, r) \<Longrightarrow> fst t \<noteq> tokenComment \<Longrightarrow> skipCommentTokens s = (t, r)"
  by (subst skipCommentTokens.simps) simp

lemma value_at_scalar:
  assumes "readToken s = (t, r)" and "fst t \<notin> {tokenComment, tokenObjectBegin, tokenArrayBegin}"
  shows "value_at s = Some (readScalar t, r)"
  using assms skipCommentTokens_token [OF assms(1)] by (subst value_at_eq) simp

lemma array_at_skip: "array_at xs (skipSpaces s) = array_at xs s"
proof -
  have "blanks (takeWhile blank s)" by (auto simp: blanks_def dest: set_takeWhileD)
  then have "value_at (skipSpaces s) = value_at s"
    using value_at_blanks [of "takeWhile blank s" "dropWhile blank s"] by (simp add: skipSpaces_def)
  then show ?thesis by (subst (1 2) array_at_eq) (simp add: readArray_def)
qed

definition element :: "Json \<Rightarrow> string \<Rightarrow> bool" where
  "element v t \<longleftrightarrow> (\<exists>a u b. t = a @ u @ b \<and> blanks a \<and> blanks b \<and> reads v u)"

definition member :: "string \<times> Json \<Rightarrow> string \<Rightarrow> bool" where
  "member p t \<longleftrightarrow> (\<exists>a b c u d. t = a @ valueToQuotedString (fst p) @ b @ '':'' @ c @ u @ d \<and> blanks a \<and> blanks b \<and> blanks c \<and> blanks d \<and>
     CHR 0x00 \<notin> set (fst p) \<and> reads (snd p) u)"

lemma array_at_elements:
  "list_all2 element vs ts \<Longrightarrow> vs \<noteq> [] \<Longrightarrow> array_at xs (join '','' ts @ '']'' @ rest) = Some (Some (JArray (xs @ map reread vs)), rest)"
proof (induction vs ts arbitrary: xs rule: list_all2_induct)
  case (Cons v vs t ts)
  obtain a u b where t: "t = a @ u @ b" "blanks a" "blanks b" "reads v u" using Cons(1) by (auto simp: element_def)
  let ?s = "(if ts = [] then [] else '','' @ join '','' ts) @ '']'' @ rest"
  have "stops ?s" by simp
  then have v: "value_at (join '','' (t # ts) @ '']'' @ rest) = Some (Some (reread v), b @ ?s)"
    using t stops_blanks [OF t(3)] by (simp add: reads_def)
  show ?case
  proof (cases "ts = []")
    case True
    then have "vs = []" using Cons(2) by simp
    with True v t(3) show ?thesis
      by (subst array_at_eq) (simp add: readArray_def skipCommentTokens_token [OF token_simps(4)])
  next
    case False
    then have "vs \<noteq> []" using Cons(2) by auto
    with False v t(3) Cons(3) [of "xs @ [reread v]"] show ?thesis
      by (subst array_at_eq) (simp add: readArray_def skipCommentTokens_token [OF token_simps(5)])
  qed
qed simp

lemma reads_array:
  assumes "listed element vs t"
  shows "reads (JArray vs) (''['' @ t @ '']'')"
proof -
  obtain ts where ts: "t = join '','' ts" "list_all2 element vs ts" using assms by (auto simp: listed_def)
  have "value_at (''['' @ t @ '']'' @ rest) = Some (Some (JArray (map reread vs)), rest)" for rest
  proof (cases vs)
    case Nil
    with ts show ?thesis by (subst value_at_eq) (simp add: skipCommentTokens_token [OF token_simps(3)] skipSpaces_def blank_def token_simps)
  next
    case (Cons v vs')
    then obtain u us a w b where u: "ts = u # us" "u = a @ w @ b" "blanks a" "reads v w" using ts(2) by (auto simp: list_all2_Cons1 element_def)
    let ?r = "t @ '']'' @ rest"
    have h: "hd (skipSpaces ?r) \<noteq> CHR '']''" using u ts(1) by (cases w) (auto simp: reads_def, simp_all add: skipSpaces_def)
    have "array_at [] ?r = Some (Some (JArray (map reread vs)), rest)"
      using array_at_elements [OF ts(2), of "[]" rest] Cons ts(1) by simp
    with h show ?thesis by (subst value_at_eq) (simp add: skipCommentTokens_token [OF token_simps(3)] array_at_skip Let_def)
  qed
  then show ?thesis by (simp add: reads_def blank_def)
qed

lemma object_at_member:
  assumes "member p t"
  shows "object_at name m (t @ CHR ''}'' # s) = Some (Some (JObject (map_put (fst p) (reread (snd p)) m)), s)"
    and "object_at name m (t @ CHR '','' # s) = object_at (fst p) (map_put (fst p) (reread (snd p)) m) s"
proof -
  obtain a b c u d where t: "t = a @ valueToQuotedString (fst p) @ b @ '':'' @ c @ u @ d" "blanks a" "blanks b" "blanks c" "blanks d"
    "CHR 0x00 \<notin> set (fst p)" "reads (snd p) u" using assms by (auto simp: member_def)
  have v: "value_at (c @ u @ d @ r) = Some (Some (reread (snd p)), d @ r)" if "stops r" for r
    using t(4,7) stops_blanks [OF t(5) that] by (simp add: reads_def)
  have k: "skipCommentTokens (t @ r) = ((tokenString, valueToQuotedString (fst p)), b @ '':'' @ c @ u @ d @ r)" for r
    using t(1,2) skipCommentTokens_token [OF readToken_quoted] by simp
  show "object_at name m (t @ CHR ''}'' # s) = Some (Some (JObject (map_put (fst p) (reread (snd p)) m)), s)"
    "object_at name m (t @ CHR '','' # s) = object_at (fst p) (map_put (fst p) (reread (snd p)) m) s"
    using t(3,5,6) by (subst object_at_eq, simp add: readObject_def token_simps k v)+
qed

lemma object_at_members:
  "list_all2 member ps ts \<Longrightarrow> ps \<noteq> [] \<Longrightarrow> map_ok (m @ ps) \<Longrightarrow>
    object_at name m (join '','' ts @ ''}'' @ rest) = Some (Some (JObject (m @ map (\<lambda>(k, v). (k, reread v)) ps)), rest)"
proof (induction ps ts arbitrary: m name rule: list_all2_induct)
  case (Cons p ps t ts)
  let ?m = "m @ [(fst p, reread (snd p))]"
  have put: "map_put (fst p) (reread (snd p)) m = ?m"
    by (rule map_put_snoc) (use Cons.prems(2) in \<open>auto simp: sorted_wrt_append\<close>)
  show ?case
  proof (cases "ts = []")
    case True
    then have "ps = []" using Cons(2) by simp
    with True object_at_member(1) [OF Cons(1), of name m rest] put show ?thesis by (simp add: split_beta)
  next
    case False
    then have "ps \<noteq> []" using Cons(2) by auto
    moreover have "map_ok (?m @ ps)" using Cons.prems(2) by (cases p) simp
    ultimately show ?thesis
      using False Cons(3) [of ?m "fst p"] object_at_member(2) [OF Cons(1), of name m "join '','' ts @ ''}'' @ rest"] put by (simp add: split_beta)
  qed
qed simp

lemma reads_object:
  assumes "map_ok m" and "listed member m t"
  shows "reads (JObject m) (''{'' @ t @ ''}'')"
proof -
  obtain ts where ts: "t = join '','' ts" "list_all2 member m ts" using assms(2) by (auto simp: listed_def)
  have "object_at [] [] (t @ ''}'' @ rest) = Some (Some (reread (JObject m)), rest)" for rest
  proof (cases "m = []")
    case True
    with ts show ?thesis by (subst object_at_eq) (simp add: readObject_def skipCommentTokens_token [OF token_simps(2)])
  next
    case False
    with object_at_members [OF ts(2), of "[]" "[]" rest] assms(1) ts(1) show ?thesis by simp
  qed
  then have "value_at (''{'' @ t @ ''}'' @ rest) = Some (Some (reread (JObject m)), rest)" for rest
    by (subst value_at_eq) (simp add: skipCommentTokens_token [OF token_simps(1)])
  then show ?thesis by (simp add: reads_def blank_def)
qed

lemma decimal_hd [simp]: "isdigit (hd (decimal n))"
  using decimal_digits [of n] decimal_nonempty [of n] by simp

lemma valueToString_int_hd: "valueToString_int i \<noteq> [] \<and> (hd (valueToString_int i) = CHR ''-'' \<or> isdigit (hd (valueToString_int i)))"
  using decimal_nonempty by (simp add: valueToString_int_def)

lemma reads_number:
  assumes "t \<noteq> []" and "hd t = CHR ''-'' \<or> isdigit (hd t)" and "\<And>rest. stops rest \<Longrightarrow> readToken (t @ rest) = ((tokenNumber, t), rest)"
    and "decodeNumber t = Some (reread v)"
  shows "reads v t"
proof -
  have "value_at (t @ rest) = Some (Some (reread v), rest)" if "stops rest" for rest
    using value_at_scalar [OF assms(3) [OF that]] assms(4) by (simp add: readScalar_def)
  then show ?thesis using assms(1,2) by (auto simp: reads_def blank_def isdigit_def)
qed

theorem written_reads: "written v t \<Longrightarrow> reads v t"
proof (induction rule: written.induct)
  case null
  then show ?case using value_at_scalar [OF token_simps(7)] by (simp add: reads_def blank_def readScalar_def)
next
  case (bool b)
  then show ?case
    using value_at_scalar [OF token_simps(8)] value_at_scalar [OF token_simps(9)] by (cases b) (simp_all add: reads_def blank_def readScalar_def)
next
  case (int i)
  then show ?case using valueToString_int_hd by (intro reads_number readToken_int) (auto simp: decodeNumber_int)
next
  case (uint n)
  then show ?case using decimal_nonempty by (intro reads_number readToken_decimal decodeNumber_decimal) auto
next
  case (string s)
  then show ?case using value_at_scalar [OF readToken_quoted] by (simp add: reads_def readScalar_def) (simp add: quoted_escapes blank_def)
next
  case (array vs t)
  then have "listed element vs t" by (rule listed_mono [THEN mp, rotated]) (auto simp: element_def)
  then show ?case by (rule reads_array)
next
  case (object m t)
  from object(2) have "listed member m t" by (rule listed_mono [THEN mp, rotated]) (unfold member_def, blast)
  with object(1) show ?case by (rule reads_object)
qed

section \<open>The writers\<close>

definition spaced :: "Json \<Rightarrow> string \<Rightarrow> bool" where
  "spaced v t \<longleftrightarrow> (\<exists>a u b. t = a @ u @ b \<and> blanks a \<and> blanks b \<and> written v u)"

definition spaced_member :: "string \<times> Json \<Rightarrow> string \<Rightarrow> bool" where
  "spaced_member p t \<longleftrightarrow> (\<exists>a b c u d. t = a @ valueToQuotedString (fst p) @ b @ '':'' @ c @ u @ d \<and> blanks a \<and> blanks b \<and> blanks c \<and> blanks d \<and>
     CHR 0x00 \<notin> set (fst p) \<and> written (snd p) u)"

lemma written_array: "listed spaced vs t \<Longrightarrow> written (JArray vs) (''['' @ t @ '']'')"
  unfolding spaced_def [abs_def] by (rule written.array)

lemma written_object: "map_ok m \<Longrightarrow> listed spaced_member m t \<Longrightarrow> written (JObject m) (''{'' @ t @ ''}'')"
  unfolding spaced_member_def [abs_def] by (rule written.object)

lemma spaced_written: "written v t \<Longrightarrow> blanks a \<Longrightarrow> blanks b \<Longrightarrow> spaced v (a @ t @ b)"
  unfolding spaced_def by blast

lemma spaced_wider: "spaced v t \<Longrightarrow> blanks a \<Longrightarrow> blanks b \<Longrightarrow> spaced v (a @ t @ b)"
  unfolding spaced_def by (metis append.assoc blanks_append)

lemma spaced_member_wider:
  assumes "spaced_member p t" and "blanks a" and "blanks b"
  shows "spaced_member p (a @ t @ b)"
proof -
  obtain a' b' c u d where "t = a' @ valueToQuotedString (fst p) @ b' @ '':'' @ c @ u @ d" "blanks a'" "blanks b'" "blanks c" "blanks d"
    "CHR 0x00 \<notin> set (fst p)" "written (snd p) u" using assms(1) unfolding spaced_member_def by blast
  then show ?thesis unfolding spaced_member_def
    by (intro exI [of _ "a @ a'"] exI [of _ b'] exI [of _ c] exI [of _ u] exI [of _ "d @ b"]) (simp add: assms(2,3))
qed

lemma listed_mapI: "(\<And>x. x \<in> set xs \<Longrightarrow> E x (f x)) \<Longrightarrow> listed E xs (join '','' (map f xs))"
  unfolding listed_def by (rule exI [of _ "map f xs"]) (simp add: list_all2_map2 list_all2_same)

lemma listed_single: "E x t \<Longrightarrow> listed E [x] t"
  unfolding listed_def by (rule exI [of _ "[t]"]) simp

lemma listed_Cons: "E x t \<Longrightarrow> listed E xs s \<Longrightarrow> xs \<noteq> [] \<Longrightarrow> listed E (x # xs) (t @ '','' @ s)"
  unfolding listed_def by (elim exE conjE, rule_tac x = "t # ts" in exI) auto

lemma listed_wider:
  assumes "\<And>x t a b. E x t \<Longrightarrow> blanks a \<Longrightarrow> blanks b \<Longrightarrow> E x (a @ t @ b)" and "listed E xs t" and "xs \<noteq> []" and "blanks a" and "blanks b"
  shows "listed E xs (a @ t @ b)"
proof -
  have right: "list_all2 E xs ts \<Longrightarrow> xs \<noteq> [] \<Longrightarrow> \<exists>ts'. join '','' ts @ b = join '','' ts' \<and> list_all2 E xs ts'" for xs ts
  proof (induction xs ts rule: list_all2_induct)
    case (Cons x xs t ts)
    show ?case
    proof (cases "xs = []")
      case True
      then have "ts = []" using Cons(2) by simp
      with True assms(1) [OF Cons(1), of "[]" b] assms(5) show ?thesis by (intro exI [of _ "[t @ b]"]) simp
    next
      case False
      with Cons obtain ts' where ts': "join '','' ts @ b = join '','' ts'" "list_all2 E xs ts'" by blast
      moreover have "ts \<noteq> []" "ts' \<noteq> []" using False Cons(2) ts'(2) by auto
      ultimately show ?thesis using Cons(1) by (intro exI [of _ "t # ts'"]) simp
    qed
  qed simp
  obtain ts where ts: "t @ b = join '','' ts" "list_all2 E xs ts" using assms(2,3) right unfolding listed_def by blast
  then obtain u us where u: "ts = u # us" using assms(3) by (cases ts) auto
  then have "list_all2 E xs ((a @ u) # us)" using ts(2) assms(1) [of _ u a "[]"] assms(4) by (auto simp: list_all2_Cons2)
  moreover have "a @ t @ b = join '','' ((a @ u) # us)" using ts(1) u by simp
  ultimately show ?thesis unfolding listed_def by blast
qed

lemma written_fast: "readable v \<Longrightarrow> written v (FastWriter_write v)"
proof (induction v rule: FastWriter_write.induct)
  case (7 xs)
  then have "listed spaced xs (join '','' (map FastWriter_write xs))"
    by (intro listed_mapI) (use spaced_written [of _ _ "[]" "[]"] in auto)
  from written_array [OF this] show ?case by simp
next
  case (8 m)
  have "spaced_member p (valueToQuotedString (fst p) @ '':'' @ FastWriter_write (snd p))" if "p \<in> set m" for p
    unfolding spaced_member_def
    by (intro exI [of _ "[]"] exI [of _ "FastWriter_write (snd p)"]) (use 8 that in \<open>cases p; auto\<close>)
  then have "listed spaced_member m (join '','' (map (\<lambda>(name, v). valueToQuotedString name @ '':'' @ FastWriter_write v) m))"
    by (intro listed_mapI) (simp add: split_beta)
  from written_object [OF _ this] 8(2) show ?case by simp
qed (simp_all add: written.intros)

lemma writeIndent_blanks:
  obtains w where "writeIndent n doc = doc @ w" and "blanks w"
proof -
  have "blanks (replicate n CHR '' '')" by (simp add: blanks_def blank_def)
  then show ?thesis by (intro that [of "drop (length doc) (writeIndent n doc)"]) (auto simp: writeIndent_def blank_def)
qed

definition shallow :: "Json \<Rightarrow> bool" where
  "shallow x \<longleftrightarrow> readable x \<and> \<not> ((isArray x \<or> isObject x) \<and> json_size x > 0)"

lemma written_pushed: "shallow x \<Longrightarrow> written x (pushed x)"
  by (cases x rule: Json.exhaust) (use written_fast [of x] in \<open>auto simp: shallow_def pushed_def isArray_def isObject_def json_size_def\<close>)

lemma pushed_text: "shallow x \<Longrightarrow> \<exists>a t. pushed x = a @ t \<and> blanks a \<and> written x t"
  using written_pushed by (metis append_Nil blanks_Nil)

lemma listed_children:
  assumes "\<forall>x \<in> set xs. shallow x" and "xs \<noteq> []"
  shows "\<exists>t. write_children n (map pushed xs) doc = doc @ t \<and> listed spaced xs t"
  using assms
proof (induction xs arbitrary: doc)
  case (Cons x xs)
  obtain w where w: "writeIndent n doc = doc @ w" "blanks w" by (rule writeIndent_blanks)
  have x: "spaced x (w @ pushed x)" using spaced_written [OF written_pushed w(2), of x "[]"] Cons.prems by simp
  show ?case
  proof (cases "xs = []")
    case True
    with x w show ?thesis by (auto simp: writeWithIndent_def intro: listed_single)
  next
    case False
    with Cons obtain t where "write_children n (map pushed xs) (doc @ w @ pushed x @ '','') = (doc @ w @ pushed x @ '','') @ t" "listed spaced xs t" by fastforce
    with False w listed_Cons [where E = spaced, OF x] show ?thesis by (intro exI [of _ "(w @ pushed x) @ '','' @ t"]) (simp add: writeWithIndent_def)
  qed
qed simp

lemma listed_one_line:
  assumes "\<forall>x \<in> set xs. shallow x" and "xs \<noteq> []"
  shows "listed spaced xs ('' '' @ join '', '' (map pushed xs) @ '' '')"
proof -
  have b: "blanks '' ''" by (simp add: blank_def)
  have "listed spaced xs (join '', '' (map pushed xs))" using assms
  proof (induction xs)
    case (Cons x xs)
    have x: "spaced x (pushed x)" using spaced_written [OF written_pushed, of x "[]" "[]"] Cons.prems by simp
    show ?case
    proof (cases "xs = []")
      case False
      with Cons have "listed spaced xs ('' '' @ join '', '' (map pushed xs) @ [])" by (intro listed_wider [where E = spaced, OF spaced_wider]) (auto simp: blank_def)
      with False listed_Cons [where E = spaced, OF x, of xs] show ?thesis by simp
    qed (use x in \<open>auto intro: listed_single\<close>)
  qed simp
  from listed_wider [where E = spaced, OF spaced_wider this assms(2) b b] show ?thesis .
qed

definition appends :: "(string \<Rightarrow> bool) \<Rightarrow> string \<Rightarrow> string \<Rightarrow> bool" where
  "appends P doc doc' \<longleftrightarrow> (\<exists>t. doc' = doc @ t \<and> P t)"

text \<open>A bracket, a list and the closing bracket, each behind an indentation.\<close>

lemma bracketed:
  assumes "\<And>x t a b. E x t \<Longrightarrow> blanks a \<Longrightarrow> blanks b \<Longrightarrow> E x (a @ t @ b)" and "xs \<noteq> []"
    and "appends (listed E xs) (writeWithIndent n l doc) doc2"
  shows "\<exists>a t. writeWithIndent n r doc2 = doc @ a @ l @ t @ r \<and> blanks a \<and> listed E xs t"
proof -
  obtain w where w: "writeIndent n doc = doc @ w" "blanks w" by (rule writeIndent_blanks)
  obtain t where t: "doc2 = doc @ w @ l @ t" "listed E xs t" using assms(3) w by (auto simp: appends_def writeWithIndent_def)
  obtain w' where w': "writeIndent n doc2 = doc2 @ w'" "blanks w'" by (rule writeIndent_blanks)
  have "listed E xs ([] @ t @ w')" by (rule listed_wider [where E = E, OF assms(1) t(2) assms(2)]) (simp_all add: w')
  with t w w' show ?thesis by (intro exI [of _ w] exI [of _ "t @ w'"]) (simp add: writeWithIndent_def)
qed

lemma styled_written:
  "readable v \<Longrightarrow> \<exists>a t. styled n v doc = doc @ a @ t \<and> blanks a \<and> written v t"
  "(\<forall>x \<in> set xs. readable x) \<Longrightarrow> xs \<noteq> [] \<Longrightarrow> appends (listed spaced xs) doc (styled_items n xs doc)"
  "(\<forall>p \<in> set m. CHR 0x00 \<notin> set (fst p) \<and> readable (snd p)) \<Longrightarrow> m \<noteq> [] \<Longrightarrow> appends (listed spaced_member m) doc (styled_members n m doc)"
proof (induction n v doc and n xs doc and n m doc rule: styled_styled_items_styled_members.induct)
  case (1 n xs doc)
  show ?case
  proof (cases "xs = []")
    case True
    then show ?thesis using written_array [of "[]" "[]"] by (rule_tac x = "[]" in exI) (simp add: listed_def)
  next
    case False
    have shallow: "\<forall>x \<in> set xs. shallow x" "childValues xs = map pushed xs" if "childValues xs \<noteq> [] \<or> \<not> isMultineArray xs"
      using that 1(2) by (auto simp: childValues_def isMultineArray_def shallow_def list_ex_iff split: if_splits)
    show ?thesis
    proof (cases "isMultineArray xs")
      case True
      let ?d = "writeWithIndent n ''['' doc"
      have "appends (listed spaced xs) ?d (if childValues xs \<noteq> [] then write_children (n + indentSize) (childValues xs) ?d else styled_items (n + indentSize) xs ?d)"
        using listed_children [OF shallow(1) False] shallow(2) 1(1) [OF False True refl refl] 1(2) False by (auto simp: appends_def)
      from bracketed [where E = spaced, OF spaced_wider False this, of "'']''"] obtain a t where
        t: "styled n (JArray xs) doc = doc @ a @ ''['' @ t @ '']''" "blanks a" "listed spaced xs t" using False True by (auto simp: Let_def)
      from written_array [OF t(3)] t(1,2) show ?thesis by blast
    next
      case one: False
      with False shallow listed_one_line [of xs] show ?thesis
        using written_array [of xs "'' '' @ join '', '' (map pushed xs) @ '' ''"] by (rule_tac x = "[]" in exI) simp
    qed
  qed
next
  case (2 n m doc)
  show ?case
  proof (cases "m = []")
    case True
    then show ?thesis using written_object [of "[]" "[]"] by (rule_tac x = "[]" in exI) (simp add: listed_def)
  next
    case False
    with 2 have "appends (listed spaced_member m) (writeWithIndent n ''{'' doc) (styled_members (n + indentSize) m (writeWithIndent n ''{'' doc))" by simp
    from bracketed [where E = spaced_member, OF spaced_member_wider False this, of "''}''"] obtain a t where
      t: "styled n (JObject m) doc = doc @ a @ ''{'' @ t @ ''}''" "blanks a" "listed spaced_member m t" using False by auto
    from written_object [OF _ t(3)] t(1,2) 2(2) show ?thesis by auto
  qed
next
  case (5 n x xs doc)
  obtain w where w: "writeIndent n doc = doc @ w" "blanks w" by (rule writeIndent_blanks)
  then obtain a t where t: "styled n x (writeIndent n doc) = doc @ w @ a @ t" "blanks a" "written x t" using 5(1,3) by auto
  then have x: "spaced x (w @ a @ t)" using spaced_written [of x t "w @ a" "[]"] w(2) by simp
  show ?case
  proof (cases "xs = []")
    case True
    with t x show ?thesis by (auto simp: appends_def intro: listed_single)
  next
    case False
    then obtain s where "styled_items n xs (doc @ w @ a @ t @ '','') = (doc @ w @ a @ t @ '','') @ s" "listed spaced xs s"
      using 5(2,3) t(1) by (auto simp: appends_def)
    with False t listed_Cons [where E = spaced, OF x] show ?thesis unfolding appends_def by (intro exI [of _ "(w @ a @ t) @ '','' @ s"]) simp
  qed
next
  case (7 n name v m doc)
  obtain w where w: "writeIndent n doc = doc @ w" "blanks w" by (rule writeIndent_blanks)
  let ?k = "w @ valueToQuotedString name @ '' : ''"
  obtain a t where t: "styled n v (writeWithIndent n (valueToQuotedString name) doc @ '' : '') = doc @ ?k @ a @ t" "blanks a" "written v t"
    using 7(1,3) w by (auto simp: writeWithIndent_def)
  have x: "spaced_member (name, v) (?k @ a @ t)" unfolding spaced_member_def
    by (intro exI [of _ w] exI [of _ "'' ''"] exI [of _ "'' '' @ a"] exI [of _ t] exI [of _ "[]"]) (use w t 7(3) in \<open>simp add: blank_def\<close>)
  show ?case
  proof (cases "m = []")
    case True
    with t x show ?thesis by (auto simp: appends_def intro: listed_single)
  next
    case False
    then obtain s where "styled_members n m (doc @ ?k @ a @ t @ '','') = (doc @ ?k @ a @ t @ '','') @ s" "listed spaced_member m s"
      using 7(2,3) t(1) by (auto simp: appends_def)
    with False t listed_Cons [where E = spaced_member, OF x] show ?thesis unfolding appends_def by (intro exI [of _ "(?k @ a @ t) @ '','' @ s"]) simp
  qed
qed (auto intro!: pushed_text simp: shallow_def isArray_def isObject_def json_size_def)

lemma Reader_parse_written:
  assumes "written v t" and "blanks a" and "stops rest"
  shows "Reader_parse (a @ t @ rest) = Some (reread v)"
  using written_reads [OF assms(1)] assms(2,3) by (intro Reader_parse_at [of _ _ rest]) (simp add: reads_def)

lemma parse_fast: "readable v \<Longrightarrow> Reader_parse (FastWriter_write v) = Some (reread v)"
  using Reader_parse_written [OF written_fast, of v "[]" "[]"] by (simp add: stops_def)

lemma parse_styled: "readable v \<Longrightarrow> Reader_parse (StyledWriter_write v) = Some (reread v)"
proof -
  assume "readable v"
  then obtain a t where t: "styled 0 v [] = a @ t" "blanks a" "written v t" using styled_written(1) [of v 0 "[]"] by auto
  have "stops [CHR 0x0A]" by (simp add: stops_def number_char_def isdigit_def)
  from Reader_parse_written [OF t(3,2) this] t(1) show ?thesis by (simp add: StyledWriter_write_def)
qed

section \<open>Where reader and writer disagree\<close>

text \<open>The reader gives up on an integer when a digit follows a number that has reached its threshold.\<close>

lemma number_loop_append:
  "\<forall>c \<in> set s. isdigit c \<Longrightarrow> digits_val v s < 10 * threshold \<Longrightarrow> number_loop threshold t v (s @ s') = number_loop threshold t (digits_val v s) s'"
proof (induction s arbitrary: v)
  case (Cons c s)
  then have "10 * v + digit_val c \<le> digits_val v (c # s)" using digits_val_ge [of s "10 * v + digit_val c"] by simp
  then have "v < threshold" using Cons.prems(2) by linarith
  with Cons show ?case by (simp add: mult.commute)
qed simp

lemma scan_double_decimal: "scan_double (decimal n) = Some (make_double False (n, 1))"
proof -
  note d = decimal_digits [of n]
  then have t: "takeWhile isdigit (decimal n) = decimal n" "dropWhile isdigit (decimal n) = []" by simp_all
  have "hd (decimal n) \<noteq> CHR ''-''" "hd (decimal n) \<noteq> CHR ''+''" using decimal_hd [of n] by (auto simp: isdigit_def simp del: decimal_hd)
  then show ?thesis using decimal_nonempty [of n] by (simp add: scan_double_def Let_def t digits_val_decimal scaled_def)
qed

lemma decodeNumber_large:
  assumes "18446744073709551610 \<le> n" and "n < 18446744073709551616"
  shows "decodeNumber (decimal n) = Some (JReal (make_double False (n, 1)))"
proof -
  note d = decimal_digits [of n] and p = digits_plain [OF decimal_digits [of n]]
  have n: "n div 10 = 1844674407370955161" using assms by linarith
  have "decimal n = decimal (n div 10) @ [char_of (48 + n mod 10)]" using assms by (subst decimal.simps) simp
  then have "number_loop ((2 ^ 64 - 1) div 10) (decimal n) 0 (decimal n) = number_loop ((2 ^ 64 - 1) div 10) (decimal n) (n div 10) [char_of (48 + n mod 10)]"
    using number_loop_append [OF decimal_digits [of "n div 10"], of 0 "(2 ^ 64 - 1) div 10" "decimal n"] n by (simp add: digits_val_decimal)
  also have "\<dots> = Some (Inl (JReal (make_double False (n, 1))))"
    using n isdigit_char [of "n mod 10"] by (simp add: decodeDouble_def scan_double_decimal)
  finally have l: "number_loop ((2 ^ 64 - 1) div 10) (decimal n) 0 (decimal n) = Some (Inl (JReal (make_double False (n, 1))))" .
  obtain c cs where c: "decimal n = c # cs" using decimal_nonempty by (cases "decimal n") auto
  then have "c \<noteq> CHR ''-''" "CHR ''-'' \<notin> set cs" using p by auto
  with l p show ?thesis unfolding decodeNumber_def Let_def by (simp add: c)
qed

lemma make_double_large:
  assumes "18446744073709551610 \<le> n" and "n < 18446744073709551616"
  shows "make_double False (n, 1) = Finite False 9007199254740992 11"
proof -
  have "n = 18446744073709551610 \<or> n = 18446744073709551611 \<or> n = 18446744073709551612 \<or> n = 18446744073709551613 \<or> n = 18446744073709551614 \<or>
      n = 18446744073709551615" using assms by linarith
  then show ?thesis by (elim disjE) (simp_all add: make_double_def scaled_def round_div_def Let_def bit_length.simps)
qed

lemma reads_large:
  assumes "18446744073709551610 \<le> n" and "n < 18446744073709551616"
  shows "reads (JReal (Finite False 9007199254740992 11)) (decimal n)"
proof -
  have "value_at (decimal n @ rest) = Some (Some (JReal (Finite False 9007199254740992 11)), rest)" if "stops rest" for rest
    using value_at_scalar [OF readToken_decimal [of rest n]] that decodeNumber_large [OF assms] make_double_large [OF assms]
    by (simp add: readScalar_def)
  moreover have "\<not> blank (hd (decimal n))" "hd (decimal n) \<noteq> CHR '']''"
    using decimal_hd [of n] by (auto simp: blank_def isdigit_def simp del: decimal_hd)
  ultimately show ?thesis using decimal_nonempty [of n] by (simp add: reads_def)
qed

section \<open>Properties\<close>

text \<open>
  C14. JSON text is read the way it was written: for every value of C strings, integers of 64 bits but
  the six largest and nine smallest, and objects and arrays of such values, \<open>Json::Reader\<close> makes of
  the output of \<open>FastWriter\<close> and of \<open>StyledWriter\<close>, with its indentation and its broken lines, the same
  value, with unsigned numbers that fit given back as signed ones.
\<close>

theorem Reader_parse_write:
  assumes "readable v"
  shows "Reader_parse (FastWriter_write v) = Some (reread v) \<and> Reader_parse (StyledWriter_write v) = Some (reread v)"
  using parse_fast [OF assms] parse_styled [OF assms] by blast

theorem Reader_parse_write_witness:
  "Reader_parse (StyledWriter_write (JObject [(''a'', JArray [JUInt 1, JString [CHR 0x22, CHR 0x0A]]), (''b'', JNull)])) =
     Some (JObject [(''a'', JArray [JInt 1, JString [CHR 0x22, CHR 0x0A]]), (''b'', JNull)])"
  using Reader_parse_write [of "JObject [(''a'', JArray [JUInt 1, JString [CHR 0x22, CHR 0x0A]]), (''b'', JNull)]"] by simp

text \<open>
  C21. The reader ends on every text, well-formed or not: with more fuel than twice the length of the
  text it returns, whether with a value or without, never reads behind the end, and its answer is the
  one of \<open>Reader_parse\<close> whatever the fuel.
\<close>

theorem Reader_returns:
  assumes "2 * length s < n"
  shows "\<exists>v r. readValue n s = Some (v, r) \<and> length r \<le> length s \<and> Reader_parse s = v"
proof -
  obtain v r where r: "readValue n s = Some (v, r)" "length r \<le> length s" using reader_total(1) [OF assms] by (auto simp: advances_def)
  then have "value_at s = Some (v, r)" using extends_at(1) [of n] by (simp add: extends_def)
  with r Reader_parse_at show ?thesis by blast
qed

theorem Reader_returns_witness: "\<exists>v r. readValue 7 ''[1,'' = Some (v, r) \<and> length r \<le> 3 \<and> Reader_parse ''[1,'' = v"
  using Reader_returns [of "''[1,''" 7] by (simp add: eval_nat_numeral)

text \<open>
  C31. Where the reader is not the inverse of the writer, and no judge of texts: a number of the last
  six of 64 bits comes back as a floating point number that no longer converts to an unsigned one; and
  between two elements of an array any token \<open>sep\<close> will do for the comma, a punctuation mark, a string,
  a number, a word or a character that starts no token at all, as long as it is neither a comment nor the
  closing bracket and does not go on with the digits of a number before it.
\<close>

theorem Reader_parse_lenient:
  assumes "18446744073709551610 \<le> n" and "n < 18446744073709551616" and "readable v" and "readable w" and "blanks b" and "stops sep" and "sep \<noteq> []"
    and "readToken (sep @ b @ FastWriter_write w @ '']'') = ((ty, tok), b @ FastWriter_write w @ '']'')" and "ty \<notin> {tokenComment, tokenArrayEnd}"
  shows "(\<exists>d. Reader_parse (FastWriter_write (JUInt n)) = Some (JReal d) \<and> asUInt (JReal d) = None) \<and>
    Reader_parse (''['' @ FastWriter_write v @ sep @ b @ FastWriter_write w @ '']'') = Some (JArray [reread v, reread w])"
proof -
  have "value_at (decimal n @ []) = Some (Some (JReal (Finite False 9007199254740992 11)), [])"
    using reads_large [OF assms(1,2)] by (simp add: reads_def stops_def)
  then have "Reader_parse (FastWriter_write (JUInt n)) = Some (JReal (Finite False 9007199254740992 11))" by (simp add: Reader_parse_at)
  moreover have "asUInt (JReal (Finite False 9007199254740992 11)) = None" by (simp add: asUInt_def truncated_def)
  moreover have "Reader_parse (''['' @ FastWriter_write v @ sep @ b @ FastWriter_write w @ '']'') = Some (JArray [reread v, reread w])"
  proof -
    let ?w = "b @ FastWriter_write w @ '']''" let ?r = "FastWriter_write v @ sep @ ?w"
    have v: "reads v (FastWriter_write v)" and w: "reads w (FastWriter_write w)" using written_reads [OF written_fast] assms(3,4) by blast+
    have "stops (sep @ ?w)" using assms(6,7) by (simp add: stops_def)
    then have "value_at ?r = Some (Some (reread v), sep @ ?w)" using v by (simp add: reads_def)
    moreover have "skipCommentTokens (sep @ ?w) = ((ty, tok), ?w)" using skipCommentTokens_token [OF assms(8)] assms(9) by simp
    moreover have "array_at [reread v] ?w = Some (Some (JArray [reread v, reread w]), [])"
    proof -
      have "element w (b @ FastWriter_write w)" unfolding element_def
        using w assms(5) by (intro exI [of _ b] exI [of _ "FastWriter_write w"] exI [of _ "[]"]) simp
      with array_at_elements [of "[w]" "[b @ FastWriter_write w]" "[reread v]" "[]"] show ?thesis by simp
    qed
    ultimately have "array_at [] ?r = Some (Some (JArray [reread v, reread w]), [])"
      using assms(9) by (subst array_at_eq) (simp add: readArray_def)
    moreover have "skipSpaces ?r = ?r" "hd ?r \<noteq> CHR '']''" using v by (cases "FastWriter_write v"; simp add: reads_def skipSpaces_def)+
    ultimately have "value_at (''['' @ ?r) = Some (Some (JArray [reread v, reread w]), [])"
      by (subst value_at_eq) (simp add: skipCommentTokens_token [OF token_simps(3)] Let_def)
    then show ?thesis by (intro Reader_parse_at) simp
  qed
  ultimately show ?thesis by blast
qed

theorem Reader_parse_lenient_witness:
  "Reader_parse ''[true:null]'' = Some (JArray [JBool True, JNull]) \<and> Reader_parse ''[true 7 null]'' = Some (JArray [JBool True, JNull]) \<and>
   Reader_parse ''[true?null]'' = Some (JArray [JBool True, JNull])"
proof -
  have "readToken (''7'' @ '' null]'') = ((tokenNumber, ''7''), '' null]'')" by (rule readToken_number) (simp_all add: isdigit_def stops_def number_char_def)
  then have "readToken ('' 7'' @ '' '' @ FastWriter_write JNull @ '']'') = ((tokenNumber, ''7''), '' '' @ FastWriter_write JNull @ '']'')"
    using readToken_blanks [of "'' ''" "''7 null]''"] by (simp add: blank_def)
  moreover have "readToken ('':'' @ [] @ FastWriter_write JNull @ '']'') = ((tokenMemberSeparator, '':''), [] @ FastWriter_write JNull @ '']'')"
    by (simp add: token_simps)
  moreover have "readToken (''?'' @ [] @ FastWriter_write JNull @ '']'') = ((tokenError, ''?''), [] @ FastWriter_write JNull @ '']'')"
    by (simp add: readToken_def skipSpaces_def blank_def token_at_def isdigit_def)
  moreover have "stops '' 7''" "stops '':''" "stops ''?''" "blanks '' ''" by (simp_all add: stops_def number_char_def isdigit_def blank_def)
  ultimately show ?thesis
    using Reader_parse_lenient [of 18446744073709551615 "JBool True" JNull "'' ''" "'' 7''"]
      Reader_parse_lenient [of 18446744073709551615 "JBool True" JNull "[]" "'':''"]
      Reader_parse_lenient [of 18446744073709551615 "JBool True" JNull "[]" "''?''"] by simp
qed

end
