(* ===== verification/BdPartition.thy ===== *)
theory BdPartition
  imports HostPartition Volume JsonText
begin

text \<open>
  The remote partition object of the client, \<open>src/bdfs-lib/BdPartition.cpp\<close>, and the session that
  turns its calls into requests to a provider (\<open>BdSession.cpp\<close>). The network is the parameter
  \<open>net\<close>: it decides for every call whether the request or its answer gets lost; a lost answer is
  the case that \<open>Wait\<close> gives up. A handle is the place of a partition: the number of its provider
  and its name there.
\<close>

datatype fault = Delivered | RequestLost | ReplyLost

record world =
  hosts :: "nat \<Rightarrow> host"
  calls :: nat

type_synonym place = "nat \<times> string"

text \<open>\<open>path.find("://")\<close>\<close>

fun find_sub :: "string \<Rightarrow> string \<Rightarrow> nat option" where
  "find_sub pat [] = (if pat = [] then Some 0 else None)"
| "find_sub pat (c # cs) =
     (if take (length pat) (c # cs) = pat then Some 0 else map_option Suc (find_sub pat cs))"

text \<open>The URL behind the base address; \<open>None\<close> when the path has no scheme.\<close>

definition CreateRequest :: "string \<Rightarrow> string \<Rightarrow> string option" where
  "CreateRequest path meth =
     (case find_sub ''://'' path of
        None \<Rightarrow> None
      | Some css \<Rightarrow> Some (''/api/'' @ take css path @ drop (css + 2) path @ ''/'' @ meth))"

definition partition_path :: "string \<Rightarrow> string" where
  "partition_path name = ''host://Partitions/'' @ name"

text \<open>\<open>Json::FastWriter\<close> writes a number in decimal.\<close>

definition encode_arg :: "nat \<Rightarrow> string" where
  "encode_arg n = decimal n"

text \<open>A call of a method of the object under \<open>path\<close> at a provider.\<close>

definition Call_at :: "(nat \<Rightarrow> fault) \<Rightarrow> nat \<Rightarrow> string \<Rightarrow> string \<Rightarrow> (string \<Rightarrow> string) \<Rightarrow> byte list option \<Rightarrow> world \<Rightarrow>
    response option \<times> world" where
  "Call_at net provider path meth params body w =
     (let w1 = w\<lparr>calls := Suc (calls w)\<rparr>
      in case CreateRequest path meth of
           None \<Rightarrow> (None, w)
         | Some url \<Rightarrow>
             (if net (calls w) = RequestLost then (None, w1)
              else let (resp, h) = ProcessRequest \<lparr>rq_path = url, rq_param = params, rq_body = body\<rparr> (hosts w provider)
                   in (if net (calls w) = ReplyLost then None else Some resp,
                       w1\<lparr>hosts := (hosts w)(provider := h)\<rparr>)))"

definition Call :: "(nat \<Rightarrow> fault) \<Rightarrow> place \<Rightarrow> string \<Rightarrow> (string \<Rightarrow> string) \<Rightarrow> byte list option \<Rightarrow> world \<Rightarrow>
    response option \<times> world" where
  "Call net pl = Call_at net (fst pl) (partition_path (snd pl))"

text \<open>
  The callback of a raw request is given the body whatever the status of the response is: the text
  of an error comes back as if it were the block.
\<close>

definition BdPartition_Read :: "(nat \<Rightarrow> fault) \<Rightarrow> place \<Rightarrow> nat \<Rightarrow> nat \<Rightarrow> nat \<Rightarrow> world \<Rightarrow> byte list option \<times> world" where
  "BdPartition_Read net pl blockId offset sz w =
     (let params = (\<lambda>k. if k = ''block'' then encode_arg blockId
                        else if k = ''offset'' then encode_arg (offset mod 2 ^ 32)
                        else if k = ''size'' then encode_arg (sz mod 2 ^ 32) else []);
          (r, w') = Call net pl ''ReadBlock'' params None w
      in (case r of
            None \<Rightarrow> None
          | Some (HttpError _ t) \<Rightarrow> Some (map byte_of_char t)
          | Some (Text t) \<Rightarrow> Some (map byte_of_char t)
          | Some (Bytes d) \<Rightarrow> Some d, w'))"

text \<open>The response of a write is parsed as JSON; only an integer counts.\<close>

definition json_int :: "string \<Rightarrow> int option" where
  "json_int t = (case Reader_parse t of Some (JInt i) \<Rightarrow> Some i | _ \<Rightarrow> None)"

text \<open>
  \<open>HttpRequest::Post\<close> returns without setting a callback when there is nothing to send; the request
  then never completes.
\<close>

definition BdPartition_Write :: "(nat \<Rightarrow> fault) \<Rightarrow> place \<Rightarrow> nat \<Rightarrow> nat \<Rightarrow> byte list \<Rightarrow> world \<Rightarrow> int option \<times> world" where
  "BdPartition_Write net pl blockId offset d w =
     (if length d mod 2 ^ 32 = 0 then (None, w) else
      let params = (\<lambda>k. if k = ''block'' then encode_arg blockId
                        else if k = ''offset'' then encode_arg (offset mod 2 ^ 32) else []);
          (r, w') = Call net pl ''WriteBlock'' params (Some (take (length d mod 2 ^ 32) d)) w
      in (case r of
            None \<Rightarrow> None
          | Some (HttpError _ _) \<Rightarrow> Some (-1)
          | Some (Text t) \<Rightarrow> (case json_int t of Some n \<Rightarrow> Some n | None \<Rightarrow> Some (-1))
          | Some (Bytes d) \<Rightarrow> Some (-1), w'))"

definition BdPartition_Delete :: "(nat \<Rightarrow> fault) \<Rightarrow> place \<Rightarrow> world \<Rightarrow> bool option \<times> world" where
  "BdPartition_Delete net pl w =
     (let (r, w') = Call net pl ''Delete'' (\<lambda>_. []) None w
      in (case r of None \<Rightarrow> None | Some resp \<Rightarrow> Some (resp = Text ''true''), w'))"

text \<open>The calls of the client's partitions; \<open>place\<close> is the object behind a handle.\<close>

definition net_remote :: "(nat \<Rightarrow> fault) \<Rightarrow> (nat \<Rightarrow> place) \<Rightarrow> (nat \<Rightarrow> u32) \<Rightarrow> world remote" where
  "net_remote net place timeout =
     \<lparr>bd_Read = (\<lambda>r. BdPartition_Read net (place r)), bd_Write = (\<lambda>r. BdPartition_Write net (place r)),
      bd_Delete = (\<lambda>r. BdPartition_Delete net (place r)), bd_GetTimeout = timeout\<rparr>"

section \<open>Requests arrive\<close>

lemma find_sub_host: "find_sub ''://'' (partition_path name) = Some 4"
  by (simp add: partition_path_def)

lemma CreateRequest_path: "CreateRequest (partition_path name) meth = Some (PATH @ ''/'' @ name @ ''/'' @ meth)"
  by (simp add: CreateRequest_def find_sub_host) (simp add: partition_path_def PATH_def)

lemma ProcessRequest_partition:
  assumes "CHR ''/'' \<notin> set name"
  shows "ProcessRequest \<lparr>rq_path = PATH @ ''/'' @ name @ ''/'' @ meth, rq_param = params, rq_body = body\<rparr> h =
    OnPartitionRequest \<lparr>rq_path = PATH @ ''/'' @ name @ ''/'' @ meth, rq_param = params, rq_body = body\<rparr> name meth h"
proof -
  have t: "takeWhile (\<lambda>c. c \<noteq> CHR ''/'') (name @ ''/'' @ meth) = name"
    using assms by (simp add: takeWhile_append)
  show ?thesis
    using t by (simp add: ProcessRequest_def Let_def nth_append)
qed

lemma strtoull_encode_arg: "strtoull (encode_arg n) = (if n \<ge> 2 ^ 64 then 2 ^ 64 - 1 else n)"
  using strtoull_prefix [of "[]" n] by (simp add: encode_arg_def)

lemma Call_at_delivery:
  assumes "CreateRequest path meth = Some url"
    and "ProcessRequest \<lparr>rq_path = url, rq_param = params, rq_body = body\<rparr> (hosts w provider) = (resp, h)"
  shows "Call_at net provider path meth params body w =
    (case net (calls w) of
       RequestLost \<Rightarrow> (None, w\<lparr>calls := Suc (calls w)\<rparr>)
     | ReplyLost \<Rightarrow> (None, w\<lparr>calls := Suc (calls w), hosts := (hosts w)(provider := h)\<rparr>)
     | Delivered \<Rightarrow> (Some resp, w\<lparr>calls := Suc (calls w), hosts := (hosts w)(provider := h)\<rparr>))"
  unfolding Call_at_def assms option.case Let_def by (simp split: fault.splits)

lemma Call_partition:
  assumes "CHR ''/'' \<notin> set (snd pl)"
    and "OnPartitionRequest \<lparr>rq_path = PATH @ ''/'' @ snd pl @ ''/'' @ meth, rq_param = params, rq_body = body\<rparr>
      (snd pl) meth (hosts w (fst pl)) = (resp, h)"
  shows "Call net pl meth params body w =
    (case net (calls w) of
       RequestLost \<Rightarrow> (None, w\<lparr>calls := Suc (calls w)\<rparr>)
     | ReplyLost \<Rightarrow> (None, w\<lparr>calls := Suc (calls w), hosts := (hosts w)(fst pl := h)\<rparr>)
     | Delivered \<Rightarrow> (Some resp, w\<lparr>calls := Suc (calls w), hosts := (hosts w)(fst pl := h)\<rparr>))"
  unfolding Call_def by (rule Call_at_delivery [OF CreateRequest_path]) (use ProcessRequest_partition [OF assms(1)] assms(2) in simp)

lemma hosts_same: "w\<lparr>calls := x, hosts := (hosts w)(a := hosts w a)\<rparr> = w\<lparr>calls := x\<rparr>"
  by (cases w) simp

text \<open>What a provider answers to a request outside its partition.\<close>

definition invalid_text :: string where
  "invalid_text = writeError ''Failed'' ''Invalid arguments'' ARGUMENT_INVALID"

lemma length_invalid_text: "length invalid_text = 74"
  by (simp add: invalid_text_def writeError_def encodeJsonStr_def decimal.simps)

lemma BdPartition_Read_spec:
  assumes "part_ok (hosts w (fst pl)) (snd pl) bc bs m" and "CHR ''/'' \<notin> set (snd pl)" and "off + sz \<le> bs" and "bs < 2 ^ 32"
    and "BdPartition_Read net pl row off sz w = (r, w')"
  shows "hosts w' = hosts w"
    and "r = Some d \<Longrightarrow> length d = sz \<Longrightarrow> row < bc \<or> sz \<noteq> length invalid_text \<Longrightarrow>
      d = peek off sz (block_data (hosts w (fst pl)) (snd pl) bc bs row)"
    and "net = (\<lambda>_. Delivered) \<Longrightarrow> row < bc \<Longrightarrow> sz > 0 \<Longrightarrow> \<exists>d. r = Some d \<and> length d = sz"
    and "net = (\<lambda>_. Delivered) \<Longrightarrow> row \<ge> bc \<Longrightarrow> r = Some (map byte_of_char invalid_text)"
proof -
  let ?h = "hosts w (fst pl)" and ?n = "snd pl"
  let ?p = "\<lambda>k. if k = ''block'' then encode_arg row
                        else if k = ''offset'' then encode_arg (off mod 2 ^ 32)
                        else if k = ''size'' then encode_arg (sz mod 2 ^ 32) else []"
  let ?rq = "\<lparr>rq_path = PATH @ ''/'' @ ?n @ ''/'' @ ''ReadBlock'', rq_param = ?p, rq_body = None\<rparr>"
  let ?resp = "if row < bc \<and> off < bs then Bytes (peek off sz (block_data ?h ?n bc bs row)) else HttpError 500 invalid_text"
  let ?d = "if row < bc \<and> off < bs then peek off sz (block_data ?h ?n bc bs row) else map byte_of_char invalid_text"
  have z: "off mod 2 ^ 32 = off" "sz mod 2 ^ 32 = sz" "off < 2 ^ 64" "sz < 2 ^ 64" using assms(3,4) by simp_all
  have "OnReadBlock ?rq ?n bc bs ?h = (?resp, ?h)"
    unfolding invalid_text_def using z by (intro OnReadBlock_ok [OF assms(1,3,4)]) (simp_all add: strtoull_encode_arg)
  then have o: "OnPartitionRequest ?rq ?n ''ReadBlock'' ?h = (?resp, ?h)"
    using assms(1) by (simp add: OnPartitionRequest_def part_ok_def)
  note c = Call_partition [OF assms(2) o, of net]
  have rd: "(r, w') = (case net (calls w) of
       RequestLost \<Rightarrow> (None, w\<lparr>calls := Suc (calls w)\<rparr>)
     | ReplyLost \<Rightarrow> (None, w\<lparr>calls := Suc (calls w)\<rparr>)
     | Delivered \<Rightarrow> (Some ?d, w\<lparr>calls := Suc (calls w)\<rparr>))"
    using assms(5) unfolding BdPartition_Read_def Let_def c by (auto simp: hosts_same split: fault.splits if_splits)
  have l: "length (block_data ?h ?n bc bs row) = bs" by (rule block_data_ok(2) [OF assms(1)])
  show "hosts w' = hosts w" using rd by (auto split: fault.splits)
  show "d = peek off sz (block_data ?h ?n bc bs row)" if "r = Some d" "length d = sz" "row < bc \<or> sz \<noteq> length invalid_text"
  proof -
    have d: "d = ?d" using rd that(1) by (simp split: fault.splits)
    then have "row < bc \<and> off < bs" using that(2,3) length_invalid_text assms(3) by (cases "row < bc"; cases "off < bs") auto
    with d show ?thesis by simp
  qed
  show "\<exists>d. r = Some d \<and> length d = sz" if "net = (\<lambda>_. Delivered)" "row < bc" "sz > 0"
    using rd that assms(3) l by simp
  show "r = Some (map byte_of_char invalid_text)" if "net = (\<lambda>_. Delivered)" "row \<ge> bc"
    using rd that by simp
qed

lemma json_int_decimal: "n < 2 ^ 63 \<Longrightarrow> json_int (decimal n) = Some (int n)"
  using parse_fast [of "JUInt n"] by (simp add: json_int_def)

lemma BdPartition_Write_spec:
  assumes "part_ok (hosts w (fst pl)) (snd pl) bc bs m" and "CHR ''/'' \<notin> set (snd pl)" and "off + length d \<le> bs" and "bs < 2 ^ 32"
    and "BdPartition_Write net pl row off d w = (r, w')"
  obtains (written) dir m' where "hosts w' = (hosts w)(fst pl := set_dir (hosts w (fst pl)) (snd pl) dir)"
      "row < bc" "part_ok (hosts w' (fst pl)) (snd pl) bc bs m'"
      "\<And>j. block_data (hosts w' (fst pl)) (snd pl) bc bs j =
        (if j = row then poke off d (block_data (hosts w (fst pl)) (snd pl) bc bs row) else block_data (hosts w (fst pl)) (snd pl) bc bs j)"
      "r = None \<or> r = Some (int (length d))" "net = (\<lambda>_. Delivered) \<longrightarrow> r \<noteq> None"
  | (refused) "hosts w' = hosts w" "r \<noteq> Some (int (length d))" "net = (\<lambda>_. Delivered) \<longrightarrow> row \<ge> bc \<or> d = []"
proof -
  let ?h = "hosts w (fst pl)" and ?n = "snd pl"
  let ?p = "\<lambda>k. if k = ''block'' then encode_arg row
                        else if k = ''offset'' then encode_arg (off mod 2 ^ 32) else []"
  have z: "off mod 2 ^ 32 = off" "length d mod 2 ^ 32 = length d" "off < 2 ^ 64" using assms(3,4) by simp_all
  let ?rq = "\<lparr>rq_path = PATH @ ''/'' @ ?n @ ''/'' @ ''WriteBlock'', rq_param = ?p, rq_body = Some (take (length d mod 2 ^ 32) d)\<rparr>"
  have a: "strtoull (rq_param ?rq ''block'') = (if row \<ge> 2 ^ 64 then 2 ^ 64 - 1 else row)"
    "strtoull (rq_param ?rq ''offset'') = off" "rq_body ?rq = Some d"
    using z by (simp_all add: strtoull_encode_arg)
  have o: "OnPartitionRequest ?rq ?n ''WriteBlock'' ?h = OnWriteBlock ?rq ?n bc bs ?h"
    using assms(1) by (simp add: OnPartitionRequest_def part_ok_def)
  show ?thesis
  proof (cases "d = []")
    case True
    with assms(5) show ?thesis by (intro that(2)) (auto simp: BdPartition_Write_def)
  next
    case False
    then have nz: "length d mod 2 ^ 32 \<noteq> 0" unfolding z by simp
    from assms(1,3,4) a show ?thesis
    proof (cases rule: OnWriteBlock_ok)
      case (written dir m')
      note c = Call_partition [OF assms(2) o [unfolded written(3)], of net]
      have rd: "(r, w') = (case net (calls w) of
         RequestLost \<Rightarrow> (None, w\<lparr>calls := Suc (calls w)\<rparr>)
       | ReplyLost \<Rightarrow> (None, w\<lparr>calls := Suc (calls w), hosts := (hosts w)(fst pl := set_dir ?h ?n dir)\<rparr>)
       | Delivered \<Rightarrow> (Some (int (length d)), w\<lparr>calls := Suc (calls w), hosts := (hosts w)(fst pl := set_dir ?h ?n dir)\<rparr>))"
        using assms(3-5) unfolding BdPartition_Write_def if_not_P [OF nz] Let_def c by (simp add: json_int_decimal split: fault.splits)
      show ?thesis
      proof (cases "net (calls w) = RequestLost")
        case True
        with rd show ?thesis by (intro that(2)) auto
      next
        case False
        with rd written show ?thesis by (intro that(1) [of dir m']) (auto split: fault.splits)
      qed
    next
      case refused
      note c = Call_partition [OF assms(2) o [unfolded refused(2)], of net]
      have rd: "hosts w' = hosts w \<and> (r = None \<or> r = Some (-1))"
        using assms(5) unfolding BdPartition_Write_def if_not_P [OF nz] Let_def c by (auto simp: fun_upd_idem split: fault.splits)
      with refused(1) show ?thesis by (intro that(2)) auto
    qed
  qed
qed

section \<open>The cells of a volume at its providers\<close>

definition part_at :: "Volume \<Rightarrow> nat \<Rightarrow> Partition" where
  "part_at v col = the (partitions v ! col)"

text \<open>The number of blocks a provider has configured; it may be more than the client uses.\<close>

definition host_blocks :: "host \<Rightarrow> string \<Rightarrow> nat" where
  "host_blocks h name = (case read_config h name of None \<Rightarrow> 0 | Some (bc, _) \<Rightarrow> bc)"

lemma part_ok_host_blocks: "part_ok h name bc bs m \<Longrightarrow> host_blocks h name = bc"
  by (simp add: part_ok_def host_blocks_def)

definition net_cell :: "(nat \<Rightarrow> place) \<Rightarrow> Volume \<Rightarrow> world \<Rightarrow> nat \<Rightarrow> nat \<Rightarrow> byte list" where
  "net_cell place v w row col =
     (let p = part_at v col; pl = place (pt_ref p)
      in block_data (hosts w (fst pl)) (snd pl) (host_blocks (hosts w (fst pl)) (snd pl)) (blockSize v) row)"

definition net_ok :: "(nat \<Rightarrow> place) \<Rightarrow> Volume \<Rightarrow> world \<Rightarrow> bool" where
  "net_ok place v w \<longleftrightarrow> (\<forall>col < length (partitions v).
     let p = part_at v col; pl = place (pt_ref p)
     in \<exists>bc m. blockCount v \<le> bc \<and> part_ok (hosts w (fst pl)) (snd pl) bc (blockSize v) m)"

text \<open>
  Every column of the volume has a partition of its own, under a proper name, and a block cannot be
  mistaken for the text of an error.
\<close>

definition placed :: "(nat \<Rightarrow> place) \<Rightarrow> Volume \<Rightarrow> bool" where
  "placed place v \<longleftrightarrow> volume_ok v \<and> blockSize v < 2 ^ 32 \<and> blockSize v \<noteq> length invalid_text \<and>
     (\<forall>col < length (partitions v). CHR ''/'' \<notin> set (snd (place (pt_ref (part_at v col))))) \<and>
     (\<forall>i < length (partitions v). \<forall>j < length (partitions v). i \<noteq> j \<longrightarrow>
        place (pt_ref (part_at v i)) \<noteq> place (pt_ref (part_at v j)))"

lemma set_dir_other:
  assumes "n \<noteq> name"
  shows "block_data (set_dir h name dir) n bc bs j = block_data h n bc bs j"
    and "part_ok (set_dir h name dir) n bc bs m = part_ok h n bc bs m"
    and "host_blocks (set_dir h name dir) n = host_blocks h n"
proof -
  have "loaded_map (set_dir h name dir) n bc = loaded_map h n bc"
    using assms by (simp add: loaded_map_def HPartition_new_def Let_def split: option.splits)
  with assms show "block_data (set_dir h name dir) n bc bs j = block_data h n bc bs j"
    by (simp add: block_data_def)
  have "read_config (set_dir h name dir) n = read_config h n"
    using assms by (simp add: read_config_def set_dir_def split: option.splits)
  with assms show "part_ok (set_dir h name dir) n bc bs m = part_ok h n bc bs m"
    "host_blocks (set_dir h name dir) n = host_blocks h n"
    by (simp_all add: part_ok_def host_blocks_def)
qed

locale placed_volume =
  fixes net :: "nat \<Rightarrow> fault" and place :: "nat \<Rightarrow> place" and timeout :: "nat \<Rightarrow> u32" and v :: Volume
  assumes placed: "placed place v"
begin

abbreviation R where "R \<equiv> net_remote net place timeout"

lemma col_part:
  assumes "col < dataCount v + codeCount v"
  shows "col < length (partitions v)" and "partitions v ! col = Some (part_at v col)"
  using placed assms by (auto simp: placed_def volume_ok_def part_at_def)

lemma name_ok: "col < dataCount v + codeCount v \<Longrightarrow> CHR ''/'' \<notin> set (snd (place (pt_ref (part_at v col))))"
  using placed col_part(1) by (simp add: placed_def)

lemma bs_small: "blockSize v < 2 ^ 32" "blockSize v > 0" "blockSize v \<noteq> length invalid_text"
  using placed by (simp_all add: placed_def volume_ok_def)

lemma net_okE:
  assumes "net_ok place v w" and "col < dataCount v + codeCount v"
  obtains bc m where "blockCount v \<le> bc"
    and "part_ok (hosts w (fst (place (pt_ref (part_at v col))))) (snd (place (pt_ref (part_at v col)))) bc (blockSize v) m"
    and "\<forall>row. net_cell place v w row col =
      block_data (hosts w (fst (place (pt_ref (part_at v col))))) (snd (place (pt_ref (part_at v col)))) bc (blockSize v) row"
proof -
  obtain bc m where ok: "blockCount v \<le> bc"
    "part_ok (hosts w (fst (place (pt_ref (part_at v col))))) (snd (place (pt_ref (part_at v col)))) bc (blockSize v) m"
    using assms col_part(1) [OF assms(2)] by (auto simp: net_ok_def Let_def)
  then show ?thesis using part_ok_host_blocks [OF ok(2)] by (intro that [of bc m]) (simp_all add: net_cell_def Let_def)
qed

lemma ReadDirect_net:
  assumes "net_ok place v w" and "col < dataCount v + codeCount v" and "off + sz \<le> blockSize v"
    and "ReadDirect R v row col sz off w = (r, w')"
  shows "hosts w' = hosts w"
    and "r = Some d \<Longrightarrow> row < blockCount v \<or> sz = blockSize v \<Longrightarrow> d = peek off sz (net_cell place v w row col)"
    and "net = (\<lambda>_. Delivered) \<Longrightarrow> row < blockCount v \<Longrightarrow> sz > 0 \<Longrightarrow> r \<noteq> None"
proof -
  let ?p = "part_at v col" let ?pl = "place (pt_ref ?p)"
  obtain bc m where bc: "blockCount v \<le> bc" and ok: "part_ok (hosts w (fst ?pl)) (snd ?pl) bc (blockSize v) m"
    and cell: "\<forall>row. net_cell place v w row col = block_data (hosts w (fst ?pl)) (snd ?pl) bc (blockSize v) row"
    using assms(1,2) by (rule net_okE)
  obtain q w1 where q: "BdPartition_Read net ?pl row off sz w = (q, w1)" by (rule prod.exhaust)
  note spec = BdPartition_Read_spec [OF ok name_ok [OF assms(2)] assms(3) bs_small(1) q]
  have "w' = w1" and r: "r = (case q of Some b \<Rightarrow> if length b = sz then Some b else None | None \<Rightarrow> None)"
    using assms(4) q col_part [OF assms(2)]
    by (auto simp: ReadDirect_def ReadBlock_def net_remote_def split: option.splits if_splits)
  with spec(1) show "hosts w' = hosts w" by simp
  show "d = peek off sz (net_cell place v w row col)" if "r = Some d" "row < blockCount v \<or> sz = blockSize v"
    using spec(2) [of d] r that bc bs_small(3) by (auto simp: cell split: option.splits if_splits)
  show "r \<noteq> None" if "net = (\<lambda>_. Delivered)" "row < blockCount v" "sz > 0"
    using spec(3) [OF that(1)] that(2,3) bc r by auto
qed

lemma WriteDirect_net:
  assumes "net_ok place v w" and "col < dataCount v + codeCount v" and "off + length d \<le> blockSize v"
    and "WriteDirect R v row col d off w = (b, w')"
  shows "net_ok place v w'"
    and "c < dataCount v + codeCount v \<Longrightarrow> (i, c) \<noteq> (row, col) \<Longrightarrow> net_cell place v w' i c = net_cell place v w i c"
    and "b \<Longrightarrow> net_cell place v w' row col = poke off d (net_cell place v w row col)"
    and "net = (\<lambda>_. Delivered) \<Longrightarrow> row < blockCount v \<Longrightarrow> d \<noteq> [] \<Longrightarrow> b"
proof -
  let ?p = "part_at v col" let ?pl = "place (pt_ref ?p)"
  obtain bc m where bc: "blockCount v \<le> bc" and ok: "part_ok (hosts w (fst ?pl)) (snd ?pl) bc (blockSize v) m"
    and cell: "\<forall>row. net_cell place v w row col = block_data (hosts w (fst ?pl)) (snd ?pl) bc (blockSize v) row"
    using assms(1,2) by (rule net_okE)
  obtain q where q: "BdPartition_Write net ?pl row off d w = (q, w')" and b: "b = (q = Some (int (length d)))"
    using assms(4) col_part [OF assms(2)]
    by (auto simp: WriteDirect_def WriteBlock_def net_remote_def split: prod.splits option.splits)
  have other: "place (pt_ref (part_at v c)) \<noteq> ?pl" if "c < dataCount v + codeCount v" "c \<noteq> col" for c
    using placed that assms(2) col_part(1) by (simp add: placed_def)
  have all: "net_ok place v w' \<and>
    (\<forall>i c. c < dataCount v + codeCount v \<longrightarrow> (i, c) \<noteq> (row, col) \<longrightarrow> net_cell place v w' i c = net_cell place v w i c) \<and>
    (b \<longrightarrow> net_cell place v w' row col = poke off d (net_cell place v w row col)) \<and>
    (net = (\<lambda>_. Delivered) \<longrightarrow> row < blockCount v \<longrightarrow> d \<noteq> [] \<longrightarrow> b)"
    using ok name_ok [OF assms(2)] assms(3) bs_small(1) q
  proof (cases rule: BdPartition_Write_spec)
    case (written dir m')
    let ?h = "hosts w (fst ?pl)"
    have keep: "block_data (hosts w' (fst pl)) (snd pl) bc bs j = block_data (hosts w (fst pl)) (snd pl) bc bs j"
      "part_ok (hosts w' (fst pl)) (snd pl) bc bs m = part_ok (hosts w (fst pl)) (snd pl) bc bs m"
      "host_blocks (hosts w' (fst pl)) (snd pl) = host_blocks (hosts w (fst pl)) (snd pl)"
      if "pl \<noteq> ?pl" for pl bc bs j m
    proof -
      have "hosts w' (fst pl) = (if fst pl = fst ?pl then set_dir ?h (snd ?pl) dir else hosts w (fst pl))"
        using written(1) by simp
      moreover have "fst pl = fst ?pl \<Longrightarrow> snd pl \<noteq> snd ?pl" using that by (metis prod.collapse)
      ultimately show "block_data (hosts w' (fst pl)) (snd pl) bc bs j = block_data (hosts w (fst pl)) (snd pl) bc bs j"
        "part_ok (hosts w' (fst pl)) (snd pl) bc bs m = part_ok (hosts w (fst pl)) (snd pl) bc bs m"
        "host_blocks (hosts w' (fst pl)) (snd pl) = host_blocks (hosts w (fst pl)) (snd pl)"
        by (simp_all add: set_dir_other)
    qed
    have cell': "net_cell place v w' i col = block_data (hosts w' (fst ?pl)) (snd ?pl) bc (blockSize v) i" for i
      using part_ok_host_blocks [OF written(3)] by (simp add: net_cell_def Let_def)
    have "\<exists>bc m. blockCount v \<le> bc \<and>
        part_ok (hosts w' (fst (place (pt_ref (part_at v c))))) (snd (place (pt_ref (part_at v c)))) bc (blockSize v) m" if c: "c < dataCount v + codeCount v" for c
    proof (cases "c = col")
      case False
      with c assms(1) keep(2) [OF other [OF c False]] show ?thesis using net_okE by metis
    qed (use written(3) bc in blast)
    then have "net_ok place v w'"
      using placed by (simp add: net_ok_def Let_def placed_def volume_ok_def)
    moreover have "net_cell place v w' i c = net_cell place v w i c"
      if c: "c < dataCount v + codeCount v" and ne: "(i, c) \<noteq> (row, col)" for i c
    proof (cases "c = col")
      case True
      with ne written(4) [of i] show ?thesis by (simp add: cell cell')
    next
      case False
      then show ?thesis using keep(1,3) [OF other [OF c False]] by (simp add: net_cell_def Let_def)
    qed
    moreover have "net_cell place v w' row col = poke off d (net_cell place v w row col)"
      using written(4) [of row] by (simp add: cell cell')
    moreover have "net = (\<lambda>_. Delivered) \<Longrightarrow> b" using written(5,6) b by auto
    ultimately show ?thesis by (intro conjI allI impI) auto
  next
    case refused
    then have "net_ok place v w'" "\<And>i c. net_cell place v w' i c = net_cell place v w i c"
      using assms(1) by (simp_all add: net_ok_def net_cell_def)
    with refused b bc show ?thesis by auto
  qed
  show "net_ok place v w'"
    and "c < dataCount v + codeCount v \<Longrightarrow> (i, c) \<noteq> (row, col) \<Longrightarrow> net_cell place v w' i c = net_cell place v w i c"
    and "b \<Longrightarrow> net_cell place v w' row col = poke off d (net_cell place v w row col)"
    and "net = (\<lambda>_. Delivered) \<Longrightarrow> row < blockCount v \<Longrightarrow> d \<noteq> [] \<Longrightarrow> b"
    using all by simp_all
qed

lemma net_cell_hosts: "hosts w' = hosts w \<Longrightarrow> net_cell place v w' = net_cell place v w \<and> net_ok place v w' = net_ok place v w"
  by (simp add: net_cell_def net_ok_def fun_eq_iff)

end

sublocale placed_volume \<subseteq> direct: block_store "ReadDirect R v" "WriteDirect R v" "net_cell place v" "net_ok place v"
  "blockSize v" "dataCount v + codeCount v" "blockCount v"
proof
  fix w col row assume "net_ok place v w" "col < dataCount v + codeCount v"
  then show "length (net_cell place v w row col) = blockSize v"
    using block_data_ok(2) by (elim net_okE) auto
next
  fix w col off sz row r w' assume a: "net_ok place v w" "col < dataCount v + codeCount v" "off + sz \<le> blockSize v"
    "ReadDirect R v row col sz off w = (r, w')"
  note h = net_cell_hosts [OF ReadDirect_net(1) [OF a]]
  show "net_ok place v w'" using a(1) h by simp
  show "net_cell place v w' i c = net_cell place v w i c" for i c using h by simp
next
  fix w col off sz row d w' assume a: "net_ok place v w" "col < dataCount v + codeCount v" "off + sz \<le> blockSize v"
    "ReadDirect R v row col sz off w = (Some d, w')"
  show "d = peek off sz (net_cell place v w row col)" if "row < blockCount v" using ReadDirect_net(2) [OF a refl] that by simp
next
  fix w col row d w' assume a: "net_ok place v w" "col < dataCount v + codeCount v" "ReadDirect R v row col (blockSize v) 0 w = (Some d, w')"
  from a(1,2) have "length (net_cell place v w row col) = blockSize v" using block_data_ok(2) by (elim net_okE) auto
  with ReadDirect_net(2) [OF a(1,2) _ a(3) refl] show "d = net_cell place v w row col" by (simp add: peek_def)
next
  fix w col off d row b w' assume a: "net_ok place v w" "col < dataCount v + codeCount v" "off + length d \<le> blockSize v"
    "WriteDirect R v row col d off w = (b, w')"
  show "net_ok place v w'" by (rule WriteDirect_net(1) [OF a])
  show "net_cell place v w' i c = net_cell place v w i c" if "c < dataCount v + codeCount v" "(i, c) \<noteq> (row, col)" for i c
    by (rule WriteDirect_net(2) [OF a that])
next
  fix w col off d row w' assume a: "net_ok place v w" "col < dataCount v + codeCount v" "off + length d \<le> blockSize v"
    "WriteDirect R v row col d off w = (True, w')"
  show "net_cell place v w' row col = poke off d (net_cell place v w row col)" by (rule WriteDirect_net(3) [OF a TrueI])
qed

text \<open>
  A volume on the network: its partitions are placed at providers, and the erasure code accepts a
  full row and fills the buffer it is given. This is what the client runs on; the contracts of the cache and of the volume hold
  for it.
\<close>

definition cm256_ok :: "cm256 \<Rightarrow> Volume \<Rightarrow> bool" where
  "cm256_ok cm v \<longleftrightarrow> (\<forall>bl.
     (\<forall>buf. cm256_encode cm (blockSize v) (dataCount v) (codeCount v) bl = Some buf \<longrightarrow>
        length buf = codeCount v * blockSize v) \<and>
     (length bl = dataCount v \<longrightarrow> cm256_encode cm (blockSize v) (dataCount v) (codeCount v) bl \<noteq> None))"

locale network_volume = placed_volume net place timeout v
  for net place timeout v +
  fixes es :: "nat \<Rightarrow> env" and cm :: cm256
  assumes cm: "cm256_ok cm v"

sublocale network_volume \<subseteq> nv: volume "net_remote net place timeout" v "net_cell place v" "net_ok place v" es cm
proof (intro volume.intro volume_cells.intro cached_store.intro)
  show "block_store (ReadDirect R v) (WriteDirect R v) (net_cell place v) (net_ok place v) (blockSize v) (dataCount v + codeCount v) (blockCount v)"
    by (rule direct.block_store_axioms)
  show "cached_store_axioms (blockSize v) (dataCount v + codeCount v)"
    using placed by (intro cached_store_axioms.intro) (auto simp: placed_def volume_ok_def)
  show "volume_axioms v cm"
    using placed cm by (intro volume_axioms.intro) (auto simp: placed_def cm256_ok_def)
qed

text \<open>The same on a network that loses nothing.\<close>

locale quiet_network = network_volume net place timeout v es cm
  for net place timeout v es cm +
  assumes quiet: "net = (\<lambda>_. Delivered)"

sublocale quiet_network \<subseteq> qv: answering_volume "net_remote net place timeout" v "net_cell place v" "net_ok place v" es cm
proof (intro answering_volume.intro answering_volume_axioms.intro reliable_volume.intro reliable_volume_axioms.intro
    reliable_store.intro reliable_store_axioms.intro)
  show "cm256_encode cm (blockSize v) (dataCount v) (codeCount v) bl \<noteq> None" if "length bl = dataCount v" for bl
    using cm that by (simp add: cm256_ok_def)
  show "volume R v (net_cell place v) (net_ok place v) cm" by (rule nv.volume_axioms)
  show "block_store (ReadDirect R v) (WriteDirect R v) (net_cell place v) (net_ok place v) (blockSize v) (dataCount v + codeCount v) (blockCount v)"
    by (rule direct.block_store_axioms)
  fix w row col off assume w: "net_ok place v w" "row < blockCount v" "col < dataCount v + codeCount v"
  show "\<exists>d w'. ReadDirect R v row col sz off w = (Some d, w')" if "off + sz \<le> blockSize v" "sz > 0" for sz
  proof -
    obtain r w' where r: "ReadDirect R v row col sz off w = (r, w')" by (rule prod.exhaust)
    from ReadDirect_net(3) [OF w(1,3) that(1) r quiet w(2) that(2)] r show ?thesis by auto
  qed
  show "\<exists>w'. WriteDirect R v row col d off w = (True, w')" if "off + length d \<le> blockSize v" "d \<noteq> []" for d
  proof -
    obtain b w' where b: "WriteDirect R v row col d off w = (b, w')" by (rule prod.exhaust)
    from WriteDirect_net(4) [OF w(1,3) that(1) b quiet w(2) that(2)] b show ?thesis by auto
  qed
qed

locale secret_volume = network_volume net place timeout v es cm
  for net place timeout v es cm +
  fixes A :: aes
  assumes A: "aes_ok A" and bs16: "blockSize v mod 16 = 0"

sublocale secret_volume \<subseteq> sv: encrypted_volume "net_remote net place timeout" v "net_cell place v" "net_ok place v" es cm A
  by (intro encrypted_volume.intro encrypted_volume_axioms.intro nv.volume_axioms A bs16)

locale quiet_secret = quiet_network net place timeout v es cm
  for net place timeout v es cm +
  fixes A :: aes
  assumes A: "aes_ok A" and bs16: "blockSize v mod 16 = 0"

sublocale quiet_secret \<subseteq> qs: answering_secret "net_remote net place timeout" v "net_cell place v" "net_ok place v" es cm A
  by (intro answering_secret.intro answering_secret_axioms.intro qv.answering_volume_axioms A bs16)

section \<open>What the client sees\<close>

text \<open>
  \<open>client_ok\<close> is the invariant of the client and its providers, \<open>volume_bytes\<close> the content of the
  volume as one array, \<open>clear_bytes\<close> the content behind the encryption.
\<close>

definition client_ok :: "(nat \<Rightarrow> place) \<Rightarrow> Volume \<Rightarrow> world vstate \<Rightarrow> bool" where
  "client_ok place v s = vok (blockSize v) (dataCount v + codeCount v) (net_cell place v) (net_ok place v) s"

definition client_cells :: "(nat \<Rightarrow> place) \<Rightarrow> Volume \<Rightarrow> world vstate \<Rightarrow> nat \<Rightarrow> nat \<Rightarrow> byte list" where
  "client_cells place v = vview (blockSize v) (net_cell place v)"

definition volume_bytes :: "(nat \<Rightarrow> place) \<Rightarrow> Volume \<Rightarrow> world vstate \<Rightarrow> byte list" where
  "volume_bytes place v s = flat (blockCount v * dataCount v) (dataCount v) (client_cells place v s)"

definition clear_bytes :: "aes \<Rightarrow> (nat \<Rightarrow> place) \<Rightarrow> Volume \<Rightarrow> world vstate \<Rightarrow> byte list" where
  "clear_bytes A place v s =
     flat (blockCount v * dataCount v) (dataCount v) (clear_view A (client_cells place v) s)"

lemmas client_defs = client_ok_def client_cells_def volume_bytes_def clear_bytes_def

lemma network_volumeI: "placed place v \<Longrightarrow> cm256_ok cm v \<Longrightarrow> network_volume place v cm"
  by (intro network_volume.intro placed_volume.intro network_volume_axioms.intro)

lemma quiet_networkI: "placed place v \<Longrightarrow> cm256_ok cm v \<Longrightarrow> quiet_network (\<lambda>_. Delivered) place v cm"
  by (intro quiet_network.intro quiet_network_axioms.intro network_volumeI refl)

lemma secret_volumeI:
  "placed place v \<Longrightarrow> cm256_ok cm v \<Longrightarrow> aes_ok A \<Longrightarrow> blockSize v mod 16 = 0 \<Longrightarrow> secret_volume place v cm A"
  by (intro secret_volume.intro secret_volume_axioms.intro network_volumeI)

context network_volume
begin

lemma client_write:
  assumes "client_ok place v s" and "Volume_Write cm R es v d offset s = (b, s')"
  shows "client_ok place v s'"
    and "b \<Longrightarrow> volume_bytes place v s' = poke offset d (volume_bytes place v s)"
    and "b \<Longrightarrow> d \<noteq> [] \<Longrightarrow> offset + length d \<le> length (volume_bytes place v s)"
    and "Suc j * blockSize v \<le> offset \<or> offset + length d \<le> j * blockSize v \<Longrightarrow>
      blk (dataCount v) (client_cells place v s') j = blk (dataCount v) (client_cells place v s) j"
  using nv.plain.write_striped_spec [of s d offset b s'] assms
  by (auto simp: client_defs Volume_Write_def Let_def)

lemma client_read:
  assumes "client_ok place v s" and "Volume_Read cm R es v sz offset s = (r, s')"
  shows "client_ok place v s'" and "volume_bytes place v s' = volume_bytes place v s"
    and "r = Some d \<Longrightarrow> d = peek offset sz (volume_bytes place v s) \<and> length d = sz"
proof -
  have *: "vok (blockSize v) (dataCount v + codeCount v) (net_cell place v) (net_ok place v) s' \<and>
    (\<forall>i. blk (dataCount v) (client_cells place v s') i = blk (dataCount v) (client_cells place v s) i) \<and>
    (\<forall>d. r = Some d \<longrightarrow> d = peek offset sz (volume_bytes place v s) \<and> length d = sz)"
    using nv.plain.read_striped_spec [of s sz offset r s'] assms by (simp add: client_defs Volume_Read_def Let_def)
  then show "client_ok place v s'" "r = Some d \<Longrightarrow> d = peek offset sz (volume_bytes place v s) \<and> length d = sz"
    by (auto simp: client_ok_def)
  show "volume_bytes place v s' = volume_bytes place v s"
    unfolding volume_bytes_def by (rule flat_cong) (use * in blast)
qed

lemma client_read_after_write:
  assumes "client_ok place v s" and "Volume_Write cm R es v d offset s = (True, s1)"
    and "Volume_Read cm R es v (length d) offset s1 = (Some d', s2)"
  shows "d' = d"
  using nv.plain.written_is_read [of s d offset s1 d' s2] assms
  by (simp add: client_ok_def Volume_Write_def Volume_Read_def Let_def)

end

context network_volume
begin

lemma thread_pass:
  assumes "net_ok place v (snd s)" and "coherent (blockSize v) (dataCount v + codeCount v) (net_cell place v) s"
    and "\<forall>q \<in> set qs. request_ok q"
    and "ThreadProc_pass (ReadDirect R v) (WriteDirect R v) (blockSize v) (dataCount v + codeCount v) es qs t pend ts s = (rs, ts', s')"
  shows "net_ok place v (snd s') \<and> coherent (blockSize v) (dataCount v + codeCount v) (net_cell place v) s' \<and>
    (\<exists>m'. spec_run qs rs (view (blockSize v) (net_cell place v) s) = Some m' \<and>
       agree (dataCount v + codeCount v) (view (blockSize v) (net_cell place v) s') m')"
  by (rule nv.ThreadProc_spec [OF assms])

lemma written_back:
  assumes "net_ok place v w" and "coherent (blockSize v) (dataCount v + codeCount v) (net_cell place v) (c, w)" and "index_ok c"
    and "Cache_destroy (WriteDirect R v) (blockSize v) t (\<lambda>_. False) c w = (True, c', w')" and "col < dataCount v + codeCount v"
  shows "net_cell place v w' row col = view (blockSize v) (net_cell place v) (c, w) row col"
  by (rule nv.destroy_writes_back [OF assms])

end

context quiet_network
begin

lemma direct_write:
  assumes "net_ok place v w" and "col < dataCount v + codeCount v" and "row < blockCount v" and "off + length d \<le> blockSize v" and "d \<noteq> []"
  shows "\<exists>w'. WriteDirect R v row col d off w = (True, w')"
proof -
  obtain b w' where b: "WriteDirect R v row col d off w = (b, w')" by (rule prod.exhaust)
  from WriteDirect_net(4) [OF assms(1,2,4) b quiet assms(3,5)] b show ?thesis by auto
qed

lemma quiet_parity:
  assumes "client_ok place v s" and "cache_ready (fst s)"
    and "\<forall>i < blockCount v. parity cm v (client_cells place v s) i"
    and "Volume_Write cm R es v d offset s = (True, s')" and "i < blockCount v"
  shows "parity cm v (client_cells place v s') i"
  using qv.write_keeps_parity [of s d offset s' i] assms by (simp add: client_defs)

lemma quiet_write:
  assumes "client_ok place v s" and "cache_ready (fst s)" and "offset + length d \<le> DataSize v" and "d \<noteq> []"
  shows "\<exists>s'. Volume_Write cm R es v d offset s = (True, s') \<and> client_ok place v s' \<and> cache_ready (fst s')"
  using qv.Volume_Write_total [of s offset d] assms by (simp add: client_ok_def)

lemma quiet_read:
  assumes "client_ok place v s" and "cache_ready (fst s)" and "offset + sz \<le> DataSize v" and "sz > 0"
  shows "\<exists>d s'. Volume_Read cm R es v sz offset s = (Some d, s')"
  using qv.Volume_Read_total [of s offset sz] assms by (simp add: client_ok_def)

end

context secret_volume
begin

lemma secret_write:
  assumes "client_ok place v s" and "WriteEncrypt cm A R es v d offset s = (b, s')"
  shows "client_ok place v s'" and "b \<Longrightarrow> clear_bytes A place v s' = poke offset d (clear_bytes A place v s)"
    and "b \<Longrightarrow> d \<noteq> [] \<Longrightarrow> offset + length d \<le> length (clear_bytes A place v s)"
  using sv.secret.write_striped_spec [of s d offset b s'] assms
  by (auto simp: client_defs WriteEncrypt_def Let_def)

lemma secret_read:
  assumes "client_ok place v s" and "ReadDecrypt cm A R es v sz offset s = (Some d, s')"
  shows "d = peek offset sz (clear_bytes A place v s) \<and> length d = sz"
  using sv.secret.read_striped_spec [of s sz offset "Some d" s'] assms
  by (auto simp: client_defs ReadDecrypt_def Let_def)

lemma secret_read_keeps:
  assumes "client_ok place v s" and "ReadDecrypt cm A R es v sz offset s = (r, s')"
  shows "client_ok place v s'" and "clear_bytes A place v s' = clear_bytes A place v s"
proof -
  have *: "vok (blockSize v) (dataCount v + codeCount v) (net_cell place v) (net_ok place v) s' \<and>
    (\<forall>i. blk (dataCount v) (clear_view A (client_cells place v) s') i = blk (dataCount v) (clear_view A (client_cells place v) s) i)"
    using sv.secret.read_striped_spec [of s sz offset r s'] assms by (simp add: client_defs ReadDecrypt_def Let_def)
  then show "client_ok place v s'" by (simp add: client_ok_def)
  show "clear_bytes A place v s' = clear_bytes A place v s"
    unfolding clear_bytes_def by (rule flat_cong) (use * in blast)
qed

lemma clear_length: "client_ok place v s \<Longrightarrow> length (clear_bytes A place v s) = blockCount v * dataCount v * blockSize v"
  unfolding clear_bytes_def by (rule length_flat) (use sv.secret.blk_len in \<open>simp add: client_defs\<close>)

lemma secret_read_after_write:
  assumes "client_ok place v s" and "WriteEncrypt cm A R es v d offset s = (True, s1)"
    and "ReadDecrypt cm A R es v (length d) offset s1 = (Some d', s2)"
  shows "d' = d"
  using sv.secret.written_is_read [of s d offset s1 d' s2] assms
  by (simp add: client_ok_def WriteEncrypt_def ReadDecrypt_def Let_def)

end

lemma quiet_secretI:
  "placed place v \<Longrightarrow> cm256_ok cm v \<Longrightarrow> aes_ok A \<Longrightarrow> blockSize v mod 16 = 0 \<Longrightarrow>
   quiet_secret (\<lambda>_. Delivered) place v cm A"
  by (intro quiet_secret.intro quiet_secret_axioms.intro quiet_networkI)

context quiet_secret
begin

lemma quiet_encrypt:
  assumes "client_ok place v s" and "cache_ready (fst s)" and "offset + length d \<le> DataSize v" and "d \<noteq> []"
  shows "\<exists>s'. WriteEncrypt cm A R es v d offset s = (True, s') \<and> client_ok place v s' \<and> cache_ready (fst s')"
  using qs.WriteEncrypt_total [of s offset d] assms by (simp add: client_ok_def)

lemma quiet_decrypt:
  assumes "client_ok place v s" and "cache_ready (fst s)" and "offset + sz \<le> DataSize v" and "sz > 0"
  shows "\<exists>d s'. ReadDecrypt cm A R es v sz offset s = (Some d, s')"
  using qs.ReadDecrypt_total [of s offset sz] assms by (simp add: client_ok_def)

end

end
