(* ===== verification/Deployment.thy ===== *)
theory Deployment
  imports BdPartition
begin

text \<open>
  A concrete deployment on which the contracts are instantiated: a volume of two data partitions
  and one code partition with three rows of 16-byte blocks, one partition at each of three
  providers, a parity code and a byte-wise cipher.
\<close>

definition xor_code :: "nat \<Rightarrow> byte list list \<Rightarrow> byte list" where
  "xor_code bs bl = map (\<lambda>i. foldr (\<lambda>b x. xor (if i < length b then b ! i else 0) x) bl 0) [0..<bs]"

definition demo_cm :: cm256 where
  "demo_cm = \<lparr>cm256_encode = (\<lambda>bs dc cc bl. Some (concat (replicate cc (xor_code bs bl)))),
     cm256_decode = (\<lambda>bs dc cc bl. None)\<rparr>"

definition demo_aes :: aes where
  "demo_aes = \<lparr>cbc_encrypt = (\<lambda>iv x. map (xor (hd iv + 90)) x), cbc_decrypt = (\<lambda>iv x. map (xor (hd iv + 90)) x)\<rparr>"

definition demo_part :: "nat \<Rightarrow> Partition" where
  "demo_part r = \<lparr>pt_blockCount = 3, pt_blockSize = 16, pt_ref = r\<rparr>"

definition demo_volume :: Volume where
  "demo_volume = \<lparr>blockCount = 3, dataCount = 2, codeCount = 1, blockSize = 16,
     partitions = [Some (demo_part 0), Some (demo_part 1), Some (demo_part 2)]\<rparr>"

definition demo_place :: "nat \<Rightarrow> place" where
  "demo_place r = (r, ''part'')"

definition demo_dir :: pdir where
  "demo_dir = \<lparr>config = Some (le_bytes 8 3 @ le_bytes 8 16), reservedSize = Some 48, blocks = (\<lambda>_. None), partmap = None\<rparr>"

definition demo_host :: host where
  "demo_host = \<lparr>dirs = (\<lambda>n. if n = ''part'' then Some demo_dir else None), totalReserved = Some 48, hostSize = 1000,
     can_open = (\<lambda>_ _. True), map_open = (\<lambda>_. True), config_open = (\<lambda>_. True), trash_word = 0, junk_word = 7,
     uuids = decimal, issued = 1\<rparr>"

definition demo_world :: world where
  "demo_world = \<lparr>hosts = (\<lambda>_. demo_host), calls = 0\<rparr>"

definition demo_cache :: cache where
  "demo_cache = Cache_new 2 5 (\<lambda>_. None) (\<lambda>_. True)"

text \<open>The same cache with one dirty row: nines in the code column of row 1 that are not written back yet.\<close>

definition demo_dirty :: cache where
  "demo_dirty = demo_cache\<lparr>items := [(1, \<lparr>it_timestamp = 4, it_dirty = True\<rparr>)], timestamps := [(4, 1)],
     files := (\<lambda>row. if row = 1 then Some (le_bytes 8 2 @ replicate 16 9) else None)\<rparr>"

definition demo_env :: "nat \<Rightarrow> env" where
  "demo_env k = \<lparr>now = k, flushTime = (\<lambda>_. k), pending = (\<lambda>_ _. False)\<rparr>"

text \<open>The client with its cache switched on.\<close>

definition demo_state :: "world vstate" where
  "demo_state = EnableCache demo_cache (None, demo_world)"

lemma demo_cm_ok: "cm256_ok demo_cm demo_volume"
  by (simp add: cm256_ok_def demo_cm_def demo_volume_def xor_code_def)

lemma demo_part_at: "i < 3 \<Longrightarrow> part_at demo_volume i = demo_part i"
  by (auto simp: part_at_def demo_volume_def less_Suc_eq numeral_3_eq_3 numeral_2_eq_2)

lemma demo_placed: "placed demo_place demo_volume"
proof -
  show ?thesis
    using demo_part_at length_invalid_text by (auto simp: placed_def volume_ok_def demo_volume_def demo_place_def demo_part_def)
qed

lemma demo_part_ok: "part_ok demo_host ''part'' 3 16 (BitSet_new 3)"
proof -
  have "read_config demo_host ''part'' = Some (3, 16)"
    by (simp add: read_config_def demo_host_def demo_dir_def peek_def)
  then show ?thesis
    by (simp add: part_ok_def bitset_ok_new) (simp add: demo_host_def dir_of_def demo_dir_def BitSet_new_def)
qed

lemma demo_net_ok: "net_ok demo_place demo_volume demo_world"
proof -
  show ?thesis
    using demo_part_ok demo_part_at
    by (auto simp: net_ok_def demo_world_def demo_place_def Let_def demo_volume_def demo_part_def)
qed

lemma demo_aes_ok: "aes_ok demo_aes"
  by (simp add: aes_ok_def demo_aes_def comp_def xor.assoc flip: xor.assoc)

lemma demo_client_ok:
  "client_ok demo_place demo_volume demo_state" "cache_ready (fst demo_state)"
  "client_ok demo_place demo_volume (None, demo_world)"
  using demo_net_ok
  by (simp_all add: client_ok_def demo_state_def EnableCache_def demo_cache_def Cache_new_def vok_def coherent_def cache_ready_def)

lemma demo_size: "DataSize demo_volume = 96" "blockCount demo_volume = 3" "dataCount demo_volume = 2"
  "codeCount demo_volume = 1" "blockSize demo_volume = 16"
  by (simp_all add: DataSize_def demo_volume_def)

lemma demo_cell: "net_cell demo_place demo_volume demo_world i c = replicate 16 0" if "c < 3"
proof -
  have "block_data demo_host ''part'' 3 16 i = replicate 16 0"
    using block_data_ok(1) [OF demo_part_ok, of i] by simp
  then show ?thesis
    using demo_part_at [OF that] part_ok_host_blocks [OF demo_part_ok]
    by (simp add: net_cell_def demo_world_def demo_place_def demo_part_def Let_def demo_volume_def)
qed

lemma demo_cells: "c < 3 \<Longrightarrow> client_cells demo_place demo_volume demo_state i c = replicate 16 0"
  by (simp add: client_cells_def vview_def demo_state_def EnableCache_def demo_cache_def view_pair ReadFileBlock_def
      Cache_new_def demo_cell) (simp add: demo_volume_def)

lemma demo_parity: "\<forall>i < blockCount demo_volume. parity demo_cm demo_volume (client_cells demo_place demo_volume demo_state) i"
proof (intro allI impI)
  fix i
  have "map (client_cells demo_place demo_volume demo_state i) [0..<2] = [replicate 16 0, replicate 16 0]"
    by (simp add: demo_cells upt_rec)
  moreover have "xor_code 16 [replicate 16 0, replicate 16 0] = replicate 16 0"
    by (simp add: xor_code_def map_replicate_const)
  ultimately show "parity demo_cm demo_volume (client_cells demo_place demo_volume demo_state) i"
    by (simp add: parity_def demo_cm_def demo_size demo_cells peek_def)
qed

interpretation demo: quiet_network "\<lambda>_. Delivered" demo_place "\<lambda>_. 1000" demo_volume demo_env demo_cm
  by (rule quiet_networkI [OF demo_placed demo_cm_ok])

interpretation demo_secret: quiet_secret "\<lambda>_. Delivered" demo_place "\<lambda>_. 1000" demo_volume demo_env demo_cm demo_aes
  by (rule quiet_secretI [OF demo_placed demo_cm_ok demo_aes_ok]) (simp add: demo_volume_def)

end
