(* ===== verification/RemoteBlob.thy ===== *)
theory RemoteBlob
  imports Deployment Blob
begin

text \<open>
  \<open>bdblob/RemoteBlob\<close>: a blob kept as an encrypted volume at providers. The two methods are given
  \<open>Volume::ReadDecrypt\<close> and \<open>Volume::WriteEncrypt\<close> of the volume behind the blob. Such a blob keeps
  the contract \<open>blob_io\<close> of the blob file system, whatever the network loses.
\<close>

definition RemoteBlob_new :: "string \<Rightarrow> nat \<Rightarrow> IBlob" where
  "RemoteBlob_new ident sz = \<lparr>blob_id = ident, blob_size = sz, blob_opened = True\<rparr>"

definition RemoteBlob_Close :: "IBlob \<Rightarrow> IBlob" where
  "RemoteBlob_Close b = b\<lparr>blob_opened := False\<rparr>"

definition RemoteBlob_Read :: "(nat \<Rightarrow> nat \<Rightarrow> 's \<Rightarrow> byte list option \<times> 's) \<Rightarrow> IBlob \<Rightarrow> nat \<Rightarrow> nat \<Rightarrow> 's \<Rightarrow> byte list \<times> 's" where
  "RemoteBlob_Read readDecrypt b offset len s =
     (if \<not> blob_opened b \<or> offset > blob_size b then ([], s)
      else case readDecrypt len offset s of
             (None, s1) \<Rightarrow> ([], s1)
           | (Some d, s1) \<Rightarrow> (take (blob_size b - offset) d, s1))"

definition RemoteBlob_Write :: "(byte list \<Rightarrow> nat \<Rightarrow> 's \<Rightarrow> bool \<times> 's) \<Rightarrow> IBlob \<Rightarrow> nat \<Rightarrow> byte list \<Rightarrow> 's \<Rightarrow> nat \<times> 's" where
  "RemoteBlob_Write writeEncrypt b offset data s =
     (if \<not> blob_opened b \<or> offset > blob_size b then (0, s)
      else let (ok, s1) = writeEncrypt data offset s in (if ok then length data else 0, s1))"

sublocale secret_volume \<subseteq> remote_blob: blob_io "RemoteBlob_Read (ReadDecrypt cm A (net_remote net place timeout) es v) b"
  "RemoteBlob_Write (WriteEncrypt cm A (net_remote net place timeout) es v) b" "clear_bytes A place v" "client_ok place v" for b
proof
  fix s s' off d k n
  assume ok: "client_ok place v s"
  { assume w: "RemoteBlob_Write (WriteEncrypt cm A R es v) b off d s = (k, s')"
    show "k \<le> length d" using w by (auto simp: RemoteBlob_Write_def split: if_splits prod.splits)
    consider "k = 0" "s' = s" | a where "WriteEncrypt cm A R es v d off s = (a, s')" "k = (if a then length d else 0)"
      using w by (auto simp: RemoteBlob_Write_def split: if_splits prod.splits)
    note cases = this
    show "client_ok place v s' \<and> length (clear_bytes A place v s') = length (clear_bytes A place v s)"
    proof (cases rule: cases)
      case (2 a)
      show ?thesis using clear_length [OF ok] clear_length [OF secret_write(1) [OF ok 2(1)]] secret_write(1) [OF ok 2(1)] by simp
    qed (use ok in simp)
    show "off + length d \<le> length (clear_bytes A place v s) \<and> clear_bytes A place v s' = poke off d (clear_bytes A place v s)"
      if "k = length d" "d \<noteq> []"
    proof (cases rule: cases)
      case (2 a)
      then have a using that by (auto split: if_splits)
      then show ?thesis using secret_write(2,3) [OF ok 2(1)] that(2) by blast
    qed (use that in simp) }
  { assume r: "RemoteBlob_Read (ReadDecrypt cm A R es v) b off n s = (d, s')"
    consider "d = []" "s' = s" | x where "ReadDecrypt cm A R es v n off s = (x, s')" "x = None \<longrightarrow> d = []" "\<forall>y. x = Some y \<longrightarrow> d = take (blob_size b - off) y"
      using r by (auto simp: RemoteBlob_Read_def split: if_splits prod.splits option.splits)
    note cases = this
    show "client_ok place v s' \<and> clear_bytes A place v s' = clear_bytes A place v s"
      by (cases rule: cases) (use ok secret_read_keeps [OF ok] in auto)
    show "d = peek off (length d) (clear_bytes A place v s) \<and> length d \<le> n" if ne: "d \<noteq> []"
    proof (cases rule: cases)
      case (2 x)
      then obtain y where y: "x = Some y" "d = take (blob_size b - off) y" using ne by (cases x) auto
      have "y = peek off n (clear_bytes A place v s) \<and> length y = n" using secret_read [OF ok] 2(1) y(1) by blast
      then show ?thesis using y(2) peek_length take_peek by (metis length_take min.cobounded1)
    qed (use ne in simp) }
qed

context secret_volume
begin

lemma remote_put:
  assumes "client_ok place v s" and "put_loop (RemoteBlob_Write (WriteEncrypt cm A R es v) b) n data 0 0 s = (length data, s')"
    and "n > 0" and "data \<noteq> []"
  shows "client_ok place v s' \<and> clear_bytes A place v s' = poke 0 data (clear_bytes A place v s)"
  using remote_blob.put_loop_stores [OF assms(2,1) _ assms(3,4)] by simp

lemma remote_get:
  assumes "client_ok place v s" and "get_loop (RemoteBlob_Read (ReadDecrypt cm A R es v) b) n quota 0 len s = (out, s')"
  shows "client_ok place v s' \<and> length out \<le> len \<and> out = take (length out) (clear_bytes A place v s)"
  using remote_blob.get_loop_prefix [OF assms(2,1)] by (simp add: peek_def)

end

section \<open>Properties\<close>

text \<open>
  C7. A file in a remote blob: when the copy loop of \<open>Put\<close> reports all bytes, everything the copy loop
  of \<open>Get\<close> delivers later is a prefix of the file, although blocks are encrypted, spread over
  providers and protected by code blocks, and although the networks of the two copies lose calls.
\<close>

theorem RemoteBlob_copy:
  assumes "placed place v" and "cm256_ok cm v" and "aes_ok A" and "blockSize v mod 16 = 0" and "client_ok place v s"
    and "put_loop (RemoteBlob_Write (WriteEncrypt cm A (net_remote net place timeout) es v) b) n data 0 0 s = (length data, s1)"
    and "n > 0" and "data \<noteq> []"
    and "get_loop (RemoteBlob_Read (ReadDecrypt cm A (net_remote net' place timeout') es' v) b') n' quota 0 (length data) s1 = (out, s2)"
  shows "out = take (length out) data \<and> client_ok place v s2"
proof -
  note i = secret_volumeI [OF assms(1-4)]
  have p: "client_ok place v s1" "clear_bytes A place v s1 = poke 0 data (clear_bytes A place v s)"
    using secret_volume.remote_put [OF i assms(5-8)] by simp_all
  have g: "client_ok place v s2" "length out \<le> length data" "out = take (length out) (poke 0 data (clear_bytes A place v s))"
    using secret_volume.remote_get [OF i p(1) assms(9)] p(2) by simp_all
  moreover have "take k (poke 0 data x) = take k data" if "k \<le> length data" for k and x :: "byte list"
    using that by (simp add: poke_def)
  ultimately show ?thesis using g by metis
qed

theorem RemoteBlob_copy_witness:
  "\<exists>s1. put_loop (RemoteBlob_Write (WriteEncrypt demo_cm demo_aes (net_remote (\<lambda>_. Delivered) demo_place (\<lambda>_. 1000)) demo_env demo_volume)
       (RemoteBlob_new ''b'' 96)) 8 [1, 2, 3] 0 0 demo_state = (3, s1) \<and>
     (\<forall>out s2. get_loop (RemoteBlob_Read (ReadDecrypt demo_cm demo_aes (net_remote (\<lambda>k. if even k then ReplyLost else Delivered) demo_place (\<lambda>_. 1000))
       demo_env demo_volume) (RemoteBlob_new ''b'' 96)) 8 100 0 3 s1 = (out, s2) \<longrightarrow> out = take (length out) [1, 2, 3])"
proof -
  let ?R = "net_remote (\<lambda>_. Delivered) demo_place (\<lambda>_. 1000)" and ?b = "RemoteBlob_new ''b'' 96"
  obtain s1 where w: "WriteEncrypt demo_cm demo_aes ?R demo_env demo_volume [1, 2, 3] 0 demo_state = (True, s1)"
    using demo_secret.quiet_encrypt [OF demo_client_ok(1,2), of 0 "[1, 2, 3]"] unfolding demo_size by auto
  have p: "put_loop (RemoteBlob_Write (WriteEncrypt demo_cm demo_aes ?R demo_env demo_volume) ?b) 8 [1, 2, 3] 0 0 demo_state = (length [1, 2, 3 :: byte], s1)"
    using w by (simp add: put_loop.simps RemoteBlob_Write_def RemoteBlob_new_def)
  show ?thesis
  proof (intro exI conjI allI impI)
    fix out s2
    assume g: "get_loop (RemoteBlob_Read (ReadDecrypt demo_cm demo_aes (net_remote (\<lambda>k. if even k then ReplyLost else Delivered) demo_place (\<lambda>_. 1000))
       demo_env demo_volume) ?b) 8 100 0 3 s1 = (out, s2)"
    show "out = take (length out) [1, 2, 3]"
      by (rule RemoteBlob_copy [OF demo_placed demo_cm_ok demo_aes_ok _ demo_client_ok(1) p, THEN conjunct1]) (use g in \<open>simp_all add: demo_size eval_nat_numeral\<close>)
  qed (use p in simp)
qed

end
