(* ===== verification/HostInfo.thy ===== *)
theory HostInfo
  imports JsonText
begin

text \<open>
  \<open>bdfs-lib/HostInfo\<close>: the endpoint of a provider as it is published and looked up. An exception of
  the JSON library is the result \<open>None\<close>.
\<close>

section \<open>Endpoints\<close>

record Endpoint =
  ep_host :: string
  socksPort :: u16
  quicPort :: u16

record RelayInfo =
  relay_name :: string
  endpoints :: "Endpoint list"

record HostInfo =
  url :: string
  relays :: "RelayInfo list"

definition HostInfo_new :: HostInfo where
  "HostInfo_new = \<lparr>url = [], relays = []\<rparr>"

definition endpoint_json :: "Endpoint \<Rightarrow> Json" where
  "endpoint_json ep = JObject [(''host'', JString (ep_host ep)), (''quic'', JUInt (unat (quicPort ep))), (''socks'', JUInt (unat (socksPort ep)))]"

definition relay_json :: "RelayInfo \<Rightarrow> Json" where
  "relay_json r = JObject [(''endpoints'', JArray (map endpoint_json (endpoints r))), (''name'', JString (relay_name r))]"

definition host_json :: "HostInfo \<Rightarrow> Json" where
  "host_json h = JObject [(''relays'', JArray (map relay_json (relays h))), (''url'', JString (url h))]"

definition ToString :: "HostInfo \<Rightarrow> string" where
  "ToString h = FastWriter_write (host_json h)"

definition read_port :: "Json \<Rightarrow> string \<Rightarrow> u16 option" where
  "read_port x key =
     Option.bind (json_at x key) (\<lambda>v. if isIntegral v then map_option word_of_nat (asUInt v) else Some 0)"

fun read_endpoints :: "Json list \<Rightarrow> Endpoint list option" where
  "read_endpoints [] = Some []"
| "read_endpoints (x # xs) =
     Option.bind (json_at x ''host'') (\<lambda>h.
       if \<not> isString h then read_endpoints xs
       else Option.bind (asString h) (\<lambda>host. Option.bind (read_port x ''socks'') (\<lambda>s. Option.bind (read_port x ''quic'') (\<lambda>q.
         map_option (Cons \<lparr>ep_host = host, socksPort = s, quicPort = q\<rparr>) (read_endpoints xs)))))"

fun read_relays :: "Json list \<Rightarrow> RelayInfo list option" where
  "read_relays [] = Some []"
| "read_relays (x # xs) =
     Option.bind (json_at x ''name'') (\<lambda>n. Option.bind (json_at x ''endpoints'') (\<lambda>es.
       if \<not> isString n \<or> \<not> isArray es then read_relays xs
       else Option.bind (asString n) (\<lambda>name. Option.bind (read_endpoints (items_of es)) (\<lambda>eps.
         map_option (Cons \<lparr>relay_name = name, endpoints = eps\<rparr>) (read_relays xs)))))"

text \<open>\<open>FromString\<close> adds to the relays the object already has.\<close>

definition FromString :: "HostInfo \<Rightarrow> string \<Rightarrow> (bool \<times> HostInfo) option" where
  "FromString h str =
     (case Reader_parse str of
        None \<Rightarrow> Some (False, h)
      | Some obj \<Rightarrow>
          if isNull obj \<or> \<not> isObject obj then Some (False, h)
          else Option.bind (json_at obj ''url'') (\<lambda>u.
            if \<not> isString u then Some (False, h)
            else Option.bind (asString u) (\<lambda>s. Option.bind (json_at obj ''relays'') (\<lambda>rs.
              if \<not> isArray rs then Some (True, h\<lparr>url := s\<rparr>)
              else map_option (\<lambda>l. (True, h\<lparr>url := s, relays := relays h @ l\<rparr>)) (read_relays (items_of rs))))))"

section \<open>Reading what was written\<close>

lemma small_port [simp]: "unat (p :: u16) < 9223372036854775808"
proof -
  have "unat p < 2 ^ LENGTH(16)" by (rule unsigned_less)
  then show ?thesis by simp
qed

lemma read_endpoints_json [simp]: "read_endpoints (map (reread \<circ> endpoint_json) eps) = Some eps"
  by (induction eps) (auto simp: endpoint_json_def json_defs read_port_def)

lemma read_relays_json [simp]: "read_relays (map (reread \<circ> relay_json) rs) = Some rs"
  by (induction rs) (auto simp: relay_json_def json_defs)

text \<open>Names without zeros, as C strings are.\<close>

definition plain_info :: "HostInfo \<Rightarrow> bool" where
  "plain_info h \<longleftrightarrow> CHR 0x00 \<notin> set (url h) \<and>
     (\<forall>r \<in> set (relays h). CHR 0x00 \<notin> set (relay_name r) \<and> (\<forall>ep \<in> set (endpoints r). CHR 0x00 \<notin> set (ep_host ep)))"

lemma port_bound: "unat (p :: u16) < 18446744073709551610"
  using small_port [of p] by linarith

lemma readable_host: "plain_info h \<Longrightarrow> readable (host_json h)"
  by (auto simp: plain_info_def host_json_def relay_json_def endpoint_json_def port_bound)

lemma ToString_read: "plain_info h \<Longrightarrow> FromString HostInfo_new (ToString h) = Some (True, h)"
  using parse_fast [OF readable_host] by (simp add: FromString_def ToString_def HostInfo_new_def host_json_def json_defs)

section \<open>Properties\<close>

text \<open>
  C35. Endpoints survive publication: what \<open>ToString\<close> writes for an endpoint, \<open>FromString\<close> of a new
  object reads as the same URL and the same relays with all their hosts and ports.
\<close>

theorem FromString_ToString:
  assumes "plain_info h"
  shows "FromString HostInfo_new (ToString h) = Some (True, h)"
  by (rule ToString_read [OF assms])

definition demo_info :: HostInfo where
  "demo_info = \<lparr>url = ''http://p'', relays = [\<lparr>relay_name = ''r'', endpoints = [\<lparr>ep_host = ''h'', socksPort = 80, quicPort = 65535\<rparr>]\<rparr>]\<rparr>"

theorem FromString_ToString_witness: "FromString HostInfo_new (ToString demo_info) = Some (True, demo_info)"
  by (rule FromString_ToString) (simp add: plain_info_def demo_info_def)

end
