(* ===== verification/BlobCache.thy ===== *)
theory BlobCache
  imports HostInfo
begin

text \<open>
  \<open>bdfsclient-lib/BlobCache\<close>: the lookup cache of provider endpoints, with an expiry time for every
  entry, kept in a JSON file between runs; times are milliseconds of the clock.
\<close>

record CacheValue =
  cv_data :: Json
  cv_expiry :: nat

record BlobCache =
  lookup_cache :: "(string, CacheValue) stdmap"
  lookup_file :: bool
  cacheExpiry :: nat

fun load_values :: "Json list \<Rightarrow> (string, CacheValue) stdmap \<Rightarrow> (string, CacheValue) stdmap option" where
  "load_values [] m = Some m"
| "load_values (x # xs) m =
     Option.bind (json_at x ''value'') (\<lambda>d. Option.bind (json_at x ''expiry'') (\<lambda>t. Option.bind (asUInt t) (\<lambda>n.
       Option.bind (json_at x ''key'') (\<lambda>k. Option.bind (asString k) (\<lambda>key.
         load_values xs (map_put key \<lparr>cv_data = d, cv_expiry = n\<rparr> m))))))"

text \<open>\<open>data\<close> is the text of the file, empty when there is none; \<open>None\<close> when the constructor throws.\<close>

definition BlobCache_new :: "string \<Rightarrow> bool \<Rightarrow> string \<Rightarrow> nat \<Rightarrow> BlobCache option" where
  "BlobCache_new data can_open path expiry_ms =
     (if path = [] then Some \<lparr>lookup_cache = [], lookup_file = False, cacheExpiry = expiry_ms\<rparr>
      else map_option (\<lambda>m. \<lparr>lookup_cache = m, lookup_file = can_open, cacheExpiry = expiry_ms\<rparr>)
        (case Reader_parse data of
           None \<Rightarrow> Some []
         | Some v \<Rightarrow> if isArray v then load_values (items_of v) [] else Some []))"

definition Lookup_SetValue :: "nat \<Rightarrow> string \<Rightarrow> Json \<Rightarrow> BlobCache \<Rightarrow> BlobCache" where
  "Lookup_SetValue now key v c =
     (if \<not> lookup_file c \<or> key = [] then c
      else c\<lparr>lookup_cache := map_put key \<lparr>cv_data = v, cv_expiry = wrap64 (now + cacheExpiry c)\<rparr> (lookup_cache c)\<rparr>)"

definition Lookup_GetValue :: "nat \<Rightarrow> string \<Rightarrow> BlobCache \<Rightarrow> Json \<times> BlobCache" where
  "Lookup_GetValue now key c =
     (case map_find (lookup_cache c) key of
        None \<Rightarrow> (JNull, c)
      | Some cv \<Rightarrow> if cv_expiry cv > now then (cv_data cv, c)
                  else (JNull, c\<lparr>lookup_cache := map_erase key (lookup_cache c)\<rparr>))"

definition Lookup_HasKey :: "nat \<Rightarrow> string \<Rightarrow> BlobCache \<Rightarrow> bool" where
  "Lookup_HasKey now key c =
     (case map_find (lookup_cache c) key of None \<Rightarrow> False | Some cv \<Rightarrow> cv_expiry cv > now)"

definition value_json :: "string \<times> CacheValue \<Rightarrow> Json" where
  "value_json p = JObject [(''expiry'', JUInt (cv_expiry (snd p))), (''key'', JString (fst p)), (''value'', cv_data (snd p))]"

text \<open>What \<open>SyncWrite\<close> writes to the file, if anything; the destructor calls it.\<close>

definition SyncWrite :: "BlobCache \<Rightarrow> string option" where
  "SyncWrite c =
     (if \<not> lookup_file c \<or> lookup_cache c = [] then None
      else Some (StyledWriter_write (JArray (map value_json (lookup_cache c)))))"

section \<open>Reading the file back\<close>

text \<open>Keys and values that survive being written; the program keeps strings.\<close>

definition plain_values :: "(string, CacheValue) stdmap \<Rightarrow> bool" where
  "plain_values m \<longleftrightarrow> (\<forall>p \<in> set m. readable (value_json p) \<and> reread (cv_data (snd p)) = cv_data (snd p))"

lemma load_values_json:
  assumes "map_ok (m @ kvs)" and "plain_values kvs"
  shows "load_values (map (reread \<circ> value_json) kvs) m = Some (m @ kvs)"
  using assms
proof (induction kvs arbitrary: m)
  case (Cons kv kvs)
  obtain k cv where kv: "kv = (k, cv)" by (rule prod.exhaust)
  have p: "map_put k cv m = m @ [(k, cv)]" by (rule map_put_snoc) (use Cons.prems(1) in \<open>force simp: kv sorted_wrt_append\<close>)
  have "plain_values kvs" "reread (cv_data cv) = cv_data cv" using Cons.prems(2) by (auto simp: plain_values_def kv)
  moreover obtain d n where "cv = \<lparr>cv_data = d, cv_expiry = n\<rparr>" by (cases cv)
  ultimately show ?case using Cons.IH [of "m @ [kv]"] Cons.prems(1) p by (simp add: kv value_json_def json_defs)
qed simp

section \<open>Properties\<close>

text \<open>
  C36. The lookup cache: until its time has come a value that was set is returned, and every other key
  keeps its answer; from then on the key has no value and is forgotten. A cache that is written out
  and read back by a new object answers the same.
\<close>

theorem BlobCache_lookup:
  assumes "lookup_file c" and "key \<noteq> []" and "now + cacheExpiry c < 2 ^ 64" and "map_ok (lookup_cache c)" and "plain_values (lookup_cache c)"
    and "c' = Lookup_SetValue now key v c"
  shows "fst (Lookup_GetValue t key c') = (if t < now + cacheExpiry c then v else JNull) \<and>
    (\<forall>k. k \<noteq> key \<longrightarrow> fst (Lookup_GetValue t k c') = fst (Lookup_GetValue t k c)) \<and>
    (now + cacheExpiry c \<le> t \<longrightarrow> \<not> Lookup_HasKey t key (snd (Lookup_GetValue t key c')) \<and>
      map_find (lookup_cache (snd (Lookup_GetValue t key c'))) key = None) \<and>
    (\<forall>data. SyncWrite c = Some data \<longrightarrow> BlobCache_new data True ''lookup_cache'' (cacheExpiry c) = Some c)"
proof -
  have ok: "map_ok (map_put key \<lparr>cv_data = v, cv_expiry = now + cacheExpiry c\<rparr> (lookup_cache c))" using assms(4) by simp
  have "load_values (map (reread \<circ> value_json) (lookup_cache c)) [] = Some (lookup_cache c)"
    using load_values_json [of "[]" "lookup_cache c"] assms(4,5) by simp
  moreover have "Reader_parse (StyledWriter_write (JArray (map value_json (lookup_cache c)))) = Some (JArray (map (reread \<circ> value_json) (lookup_cache c)))"
    using parse_styled [of "JArray (map value_json (lookup_cache c))"] assms(5) by (simp add: plain_values_def)
  ultimately show ?thesis
    using assms(1-3) map_find_erase [OF ok, of key]
    by (auto simp: assms(6) Lookup_SetValue_def Lookup_GetValue_def Lookup_HasKey_def SyncWrite_def BlobCache_new_def json_defs
        split: option.splits)
qed

theorem BlobCache_lookup_witness:
  "fst (Lookup_GetValue 6 ''p'' (Lookup_SetValue 5 ''p'' (JString ''url'') \<lparr>lookup_cache = [], lookup_file = True, cacheExpiry = 10\<rparr>)) = JString ''url''"
  using BlobCache_lookup [of "\<lparr>lookup_cache = [], lookup_file = True, cacheExpiry = 10\<rparr>" "''p''" 5 _ "JString ''url''" 6]
  by (simp add: plain_values_def)

end
