(* ===== verification/VolumeManager.thy ===== *)
theory VolumeManager
  imports BdPartition BlobCache
begin

text \<open>
  The volume manager, \<open>bdfsclient-lib/VolumeManager.cpp\<close>: it finds providers through the Kademlia
  nodes, reserves and creates a partition at each (\<open>bdfs-lib/BdPartitionFolder.cpp\<close>), writes the
  configuration of the volume, and builds the volume from it again. The Kademlia nodes are not part
  of the sources: \<open>discovery\<close> holds what they answer at every moment, together with the provider that
  is reached under an endpoint, and the clock. An exception of the JSON library and an access out of
  bounds are the result \<open>None\<close> of a whole operation. \<open>vm_conf\<close> has the texts of the configuration
  files.
\<close>

section \<open>The partition folder of a provider\<close>

definition FOLDER_PATH :: string where "FOLDER_PATH = ''host://Partitions''"

text \<open>The raw callback gets the body of every response: an error text counts as an identifier.\<close>

definition ReservePartition :: "(nat \<Rightarrow> fault) \<Rightarrow> nat \<Rightarrow> nat \<Rightarrow> world \<Rightarrow> string option \<times> world" where
  "ReservePartition net provider sz w =
     (let (r, w') = Call_at net provider FOLDER_PATH ''Reserve'' (\<lambda>k. if k = ''size'' then encode_arg sz else []) None w
      in (case r of
            None \<Rightarrow> None
          | Some (HttpError _ t) \<Rightarrow> Some t
          | Some (Text t) \<Rightarrow> Some t
          | Some (Bytes d) \<Rightarrow> Some (map char_of_byte d), w'))"

text \<open>The name of the new partition, if the response describes one.\<close>

definition partition_response :: "Json \<Rightarrow> string option" where
  "partition_response v =
     (case v of
        JObject m \<Rightarrow>
          (case (map_find m ''Type'', map_find m ''Path'', map_find m ''Name'') of
             (Some (JString t), Some (JString p), Some (JString n)) \<Rightarrow> if t = ''Partition'' then Some n else None
           | _ \<Rightarrow> None)
      | _ \<Rightarrow> None)"

definition CreatePartition :: "(nat \<Rightarrow> fault) \<Rightarrow> nat \<Rightarrow> string \<Rightarrow> nat \<Rightarrow> world \<Rightarrow> string option \<times> world" where
  "CreatePartition net provider reserveId bs w =
     (let (r, w') = Call_at net provider FOLDER_PATH ''NewPartition''
            (\<lambda>k. if k = ''reserveId'' then reserveId else if k = ''block'' then encode_arg bs else []) None w
      in (case r of
            Some (Text t) \<Rightarrow> Option.bind (Reader_parse t) partition_response
          | Some (HttpError _ t) \<Rightarrow> Option.bind (Reader_parse t) partition_response
          | _ \<Rightarrow> None, w'))"

definition UnreservePartition :: "(nat \<Rightarrow> fault) \<Rightarrow> nat \<Rightarrow> string \<Rightarrow> world \<Rightarrow> bool \<times> world" where
  "UnreservePartition net provider reserveId w =
     (let (r, w') = Call_at net provider FOLDER_PATH ''Unreserve'' (\<lambda>k. if k = ''reserveId'' then reserveId else []) None w
      in (r = Some (Text ''true''), w'))"

section \<open>Finding providers\<close>

record discovery =
  kademliaUrl :: "string list"
  kad_GetValue :: "nat \<Rightarrow> string \<Rightarrow> string \<Rightarrow> string option"
  kad_QueryStorage :: "nat \<Rightarrow> string \<Rightarrow> string \<Rightarrow> nat \<Rightarrow> Json option"
  host_at :: "string \<Rightarrow> nat"
  clock :: "nat \<Rightarrow> nat"

record manager =
  vm_world :: world
  vm_cache :: BlobCache
  vm_tick :: nat
  vm_conf :: "string \<Rightarrow> string option"

fun ask_kademlia :: "discovery \<Rightarrow> string \<Rightarrow> string list \<Rightarrow> manager \<Rightarrow> (HostInfo \<times> manager) option" where
  "ask_kademlia D name [] m = Some (HostInfo_new, m)"
| "ask_kademlia D name (kd # kds) m =
     (let m1 = m\<lparr>vm_tick := Suc (vm_tick m)\<rparr>
      in case kad_GetValue D (vm_tick m) kd (''ep:'' @ name) of
           None \<Rightarrow> ask_kademlia D name kds m1
         | Some b \<Rightarrow>
             if b = [] then Some (HostInfo_new, m1)
             else case FromString HostInfo_new b of
                    None \<Rightarrow> None
                  | Some (_, h) \<Rightarrow> Some (h, m1\<lparr>vm_cache := Lookup_SetValue (clock D (vm_tick m1)) name (JString b) (vm_cache m1)\<rparr>))"

definition GetProviderEndpoint :: "discovery \<Rightarrow> string \<Rightarrow> manager \<Rightarrow> (HostInfo \<times> manager) option" where
  "GetProviderEndpoint D name m =
     (let (v, c) = Lookup_GetValue (clock D (vm_tick m)) name (vm_cache m);
          m1 = m\<lparr>vm_cache := c, vm_tick := Suc (vm_tick m)\<rparr>
      in case v of
           JString b \<Rightarrow> map_option (\<lambda>(_, h). (h, m1)) (FromString HostInfo_new b)
         | _ \<Rightarrow> ask_kademlia D name (kademliaUrl D) m1)"

record Contract =
  ct_name :: string
  ct_provider :: string
  ct_size :: nat
  ct_reputation :: u32

fun read_contracts :: "Json list \<Rightarrow> Contract list option" where
  "read_contracts [] = Some []"
| "read_contracts (j # js) =
     Option.bind (Option.bind (json_at j ''contract'') asString) (\<lambda>n.
     Option.bind (Option.bind (json_at j ''name'') asString) (\<lambda>p.
     Option.bind (Option.bind (json_at j ''availableSize'') asUInt) (\<lambda>sz.
     Option.bind (Option.bind (json_at j ''reputation'') asUInt) (\<lambda>r.
       map_option (Cons \<lparr>ct_name = n, ct_provider = p, ct_size = sz, ct_reputation = word_of_nat r\<rparr>) (read_contracts js)))))"

section \<open>Creating a volume\<close>

definition VOLUME_BLOCK :: nat where "VOLUME_BLOCK = 64 * 1024"

text \<open>One provider: reserve the space, then create the partition; \<open>None\<close> when it gives none.\<close>

definition new_partition :: "discovery \<Rightarrow> (nat \<Rightarrow> fault) \<Rightarrow> nat \<Rightarrow> HostInfo \<Rightarrow> manager \<Rightarrow> string option \<times> manager" where
  "new_partition D net providerSize ep m =
     (let provider = host_at D (url ep);
          (r, w1) = ReservePartition net provider providerSize (vm_world m);
          reserveId = (case r of None \<Rightarrow> [] | Some t \<Rightarrow> t)
      in if reserveId = [] then (None, m\<lparr>vm_world := w1\<rparr>)
         else let (n, w2) = CreatePartition net provider reserveId VOLUME_BLOCK w1
              in (n, m\<lparr>vm_world := w2\<rparr>))"

text \<open>
  The providers used so far and the partitions created so far, pairs of their name and their
  provider, go through all loops.
\<close>

type_synonym progress = "string set \<times> (string \<times> string) list"

fun try_contracts :: "discovery \<Rightarrow> (nat \<Rightarrow> fault) \<Rightarrow> nat \<Rightarrow> nat \<Rightarrow> Contract list \<Rightarrow> progress \<Rightarrow> manager \<Rightarrow> (progress \<times> manager) option" where
  "try_contracts D net providerSize providerCount [] pr m = Some (pr, m)"
| "try_contracts D net providerSize providerCount (c # cs) (used, parts) m =
     (if ct_provider c \<in> used then try_contracts D net providerSize providerCount cs (used, parts) m
      else case GetProviderEndpoint D (ct_provider c) m of
             None \<Rightarrow> None
           | Some (ep, m1) \<Rightarrow>
               if url ep = [] then try_contracts D net providerSize providerCount cs (used, parts) m1
               else let used1 = insert (ct_provider c) used;
                        (n, m2) = new_partition D net providerSize ep m1
                    in case n of
                         None \<Rightarrow> try_contracts D net providerSize providerCount cs (used1, parts) m2
                       | Some name \<Rightarrow>
                           let parts1 = parts @ [(name, ct_provider c)]
                           in if length parts1 = providerCount then Some ((used1, parts1), m2)
                              else try_contracts D net providerSize providerCount cs (used1, parts1) m2)"

text \<open>
  The retries at one node: \<open>Gone\<close> is the early return of a null value, \<open>Ended\<close> says whether the node
  has answered.
\<close>

datatype rounds = Gone manager | Ended bool progress manager

function query_rounds :: "discovery \<Rightarrow> (nat \<Rightarrow> fault) \<Rightarrow> string \<Rightarrow> string \<Rightarrow> nat \<Rightarrow> nat \<Rightarrow> nat \<Rightarrow> bool \<Rightarrow> progress \<Rightarrow> manager \<Rightarrow> rounds option" where
  "query_rounds D net kd query providerSize providerCount retryCount kadActive pr m =
     (let m1 = m\<lparr>vm_tick := Suc (vm_tick m)\<rparr>
      in case kad_QueryStorage D (vm_tick m) kd query (providerCount * retryCount) of
           None \<Rightarrow> Some (Ended kadActive pr m1)
         | Some v \<Rightarrow>
             if isNull v then Some (Gone m1)
             else case Option.bind (read_contracts (items_of v)) (\<lambda>cs. try_contracts D net providerSize providerCount cs pr m1) of
                    None \<Rightarrow> None
                  | Some (pr1, m2) \<Rightarrow>
                      if Suc retryCount \<le> 3 \<and> length (snd pr1) \<noteq> providerCount
                      then query_rounds D net kd query providerSize providerCount (Suc retryCount) True pr1 m2
                      else Some (Ended True pr1 m2))"
  by pat_completeness auto
termination
  by (relation "measure (\<lambda>(D, net, kd, q, sz, n, retryCount, a, pr, m). 3 - retryCount)") auto

declare query_rounds.simps [simp del]

fun query_nodes :: "discovery \<Rightarrow> (nat \<Rightarrow> fault) \<Rightarrow> string \<Rightarrow> nat \<Rightarrow> nat \<Rightarrow> string list \<Rightarrow> progress \<Rightarrow> manager \<Rightarrow> rounds option" where
  "query_nodes D net query providerSize providerCount [] pr m = Some (Ended False pr m)"
| "query_nodes D net query providerSize providerCount (kd # kds) pr m =
     (case query_rounds D net kd query providerSize providerCount 1 False pr m of
        Some (Ended False pr1 m1) \<Rightarrow> query_nodes D net query providerSize providerCount kds pr1 m1
      | r \<Rightarrow> r)"

text \<open>
  \<open>std::ceil(providerSize * 1.0 / blockSize)\<close>: the conversion to double keeps 53 bits and rounds to
  the nearest, to even between two; the division by a power of two is exact.
\<close>

definition to_double :: "nat \<Rightarrow> nat" where
  "to_double n =
     (if n < 2 ^ 53 then n
      else let u = 2 ^ (bit_length n - 53); q = n div u; r = n mod u
           in if 2 * r < u \<or> 2 * r = u \<and> even q then q * u else (q + 1) * u)"

definition ceil_blocks :: "nat \<Rightarrow> nat" where
  "ceil_blocks providerSize = (to_double providerSize + (VOLUME_BLOCK - 1)) div VOLUME_BLOCK"

definition partition_json :: "string \<times> string \<Rightarrow> Json" where
  "partition_json p = JObject [(''name'', JString (fst p)), (''provider'', JString (snd p))]"

definition volume_json :: "nat \<Rightarrow> nat \<Rightarrow> nat \<Rightarrow> (string \<times> string) list \<Rightarrow> Json" where
  "volume_json providerSize dc cc parts =
     JObject [(''blockCount'', JUInt (ceil_blocks providerSize)), (''blockSize'', JUInt VOLUME_BLOCK),
       (''codeBlocks'', JUInt cc), (''dataBlocks'', JUInt dc),
       (''partitions'', if parts = [] then JNull else JArray (map partition_json parts))]"

text \<open>Division by zero without data blocks has no defined result.\<close>

definition CreateVolumePartitions :: "discovery \<Rightarrow> (nat \<Rightarrow> fault) \<Rightarrow> nat \<Rightarrow> nat \<Rightarrow> nat \<Rightarrow> manager \<Rightarrow> (Json \<times> manager) option" where
  "CreateVolumePartitions D net sz dc cc m =
     (if dc = 0 then None
      else let providerSize = sz div dc;
               query = ''type:\"storage\" availableSize:'' @ decimal providerSize
           in case query_nodes D net query providerSize (dc + cc) (kademliaUrl D) ({}, []) m of
                None \<Rightarrow> None
              | Some (Gone m1) \<Rightarrow> Some (JNull, m1)
              | Some (Ended _ pr m1) \<Rightarrow> Some (volume_json providerSize dc cc (snd pr), m1))"

section \<open>Configuration files\<close>

definition conf_path :: "string \<Rightarrow> string" where
  "conf_path name = ''/etc/drive/'' @ name @ ''/volume.conf''"

definition tmp_conf_path :: "string \<Rightarrow> string" where
  "tmp_conf_path name = ''/tmp/drive/'' @ name @ ''/volume.conf''"

text \<open>\<open>volume["partitions"].size()\<close>\<close>

definition partition_count :: "Json \<Rightarrow> nat" where
  "partition_count v = (case json_at v ''partitions'' of Some (JArray ps) \<Rightarrow> length ps | _ \<Rightarrow> 0)"

definition CreateVolume :: "discovery \<Rightarrow> (nat \<Rightarrow> fault) \<Rightarrow> (string \<Rightarrow> bool) \<Rightarrow> string \<Rightarrow> nat \<Rightarrow> nat \<Rightarrow> nat \<Rightarrow> manager \<Rightarrow> (bool \<times> manager) option" where
  "CreateVolume D net can_write name sz dc cc m =
     (case CreateVolumePartitions D net sz dc cc m of
        None \<Rightarrow> None
      | Some (v, m1) \<Rightarrow>
          let path = (if can_write (conf_path name) then conf_path name else tmp_conf_path name)
          in if can_write path
             then Some (partition_count v = cc + dc, m1\<lparr>vm_conf := (vm_conf m1)(path := Some (StyledWriter_write v))\<rparr>)
             else Some (False, m1))"

text \<open>The partitions of the configuration, with the place behind each handle.\<close>

fun load_partitions :: "discovery \<Rightarrow> nat \<Rightarrow> Json list \<Rightarrow> Volume \<Rightarrow> place list \<Rightarrow> manager \<Rightarrow> ((Volume \<times> place list) option \<times> manager) option" where
  "load_partitions D i [] v pls m = Some (Some (v, pls), m)"
| "load_partitions D i (j # js) v pls m =
     Option.bind (json_at j ''name'') (\<lambda>n. Option.bind (json_at j ''provider'') (\<lambda>p.
       case (n, p) of
         (JString name, JString provider) \<Rightarrow>
           Option.bind (GetProviderEndpoint D provider m) (\<lambda>(ep, m1).
             if url ep = [] then Some (None, m1)
             else case SetPartition v i (Some \<lparr>pt_blockCount = blockCount v, pt_blockSize = blockSize v, pt_ref = i\<rparr>) of
                    None \<Rightarrow> None
                  | Some (_, v1) \<Rightarrow> load_partitions D (Suc i) js v1 (pls @ [(host_at D (url ep), name)]) m1)
       | _ \<Rightarrow> Some (None, m)))"

definition LoadVolumeFromJson :: "discovery \<Rightarrow> Json \<Rightarrow> manager \<Rightarrow> ((Volume \<times> place list) option \<times> manager) option" where
  "LoadVolumeFromJson D json m =
     (if \<not> isObject json then Some (None, m)
      else Option.bind (json_at json ''blockSize'') (\<lambda>bs. Option.bind (json_at json ''blockCount'') (\<lambda>bc.
        Option.bind (json_at json ''dataBlocks'') (\<lambda>dc. Option.bind (json_at json ''codeBlocks'') (\<lambda>cc.
        Option.bind (json_at json ''partitions'') (\<lambda>ps.
          if \<not> isIntegral bs \<or> \<not> isIntegral bc \<or> \<not> isIntegral dc \<or> \<not> isIntegral cc \<or> \<not> isArray ps then Some (None, m)
          else Option.bind (asUInt bs) (\<lambda>bs. Option.bind (asUInt bc) (\<lambda>bc. Option.bind (asUInt dc) (\<lambda>dc. Option.bind (asUInt cc) (\<lambda>cc.
            if length (items_of ps) < wrap64 (dc + cc) then Some (None, m)
            else load_partitions D 0 (items_of ps) (Volume_new dc cc bc bs) [] m))))))))))"

definition LoadVolume :: "discovery \<Rightarrow> string \<Rightarrow> string \<Rightarrow> manager \<Rightarrow> ((Volume \<times> place list) option \<times> manager) option" where
  "LoadVolume D name configPath m =
     (case vm_conf m (if configPath \<noteq> [] then configPath else conf_path name) of
        None \<Rightarrow> Some (None, m)
      | Some text \<Rightarrow> (case Reader_parse text of None \<Rightarrow> Some (None, m) | Some json \<Rightarrow> LoadVolumeFromJson D json m))"

definition DeleteVolume :: "discovery \<Rightarrow> (nat \<Rightarrow> fault) \<Rightarrow> (nat \<Rightarrow> u32) \<Rightarrow> string \<Rightarrow> string \<Rightarrow> manager \<Rightarrow> (bool \<times> manager) option" where
  "DeleteVolume D net timeout name configPath m =
     Option.bind (LoadVolume D name configPath m) (\<lambda>(r, m1).
       case r of
         None \<Rightarrow> Some (False, m1)
       | Some (v, pls) \<Rightarrow>
           Option.bind (Delete (net_remote net (nth pls) timeout) v (vm_world m1)) (\<lambda>(ok, w).
             if ok then Some (True, m1\<lparr>vm_world := w, vm_conf := (vm_conf m1)(conf_path name := None)\<rparr>)
             else Some (False, m1\<lparr>vm_world := w\<rparr>)))"

section \<open>Requests to the folder\<close>

lemma CreateRequest_folder: "CreateRequest FOLDER_PATH meth = Some (PATH @ ''/'' @ meth)"
  by (simp add: CreateRequest_def FOLDER_PATH_def PATH_def)

lemma ProcessRequest_folder:
  assumes "CHR ''/'' \<notin> set meth" and "meth \<noteq> []"
  shows "ProcessRequest \<lparr>rq_path = PATH @ ''/'' @ meth, rq_param = params, rq_body = body\<rparr> h =
    OnFolderRequest \<lparr>rq_path = PATH @ ''/'' @ meth, rq_param = params, rq_body = body\<rparr> meth h"
proof -
  have "takeWhile (\<lambda>c. c \<noteq> CHR ''/'') meth = meth" using assms(1) by (auto simp: takeWhile_eq_all_conv)
  then show ?thesis using assms(2) by (simp add: ProcessRequest_def Let_def nth_append)
qed

lemma Call_folder:
  assumes "CHR ''/'' \<notin> set meth" and "meth \<noteq> []"
    and "OnFolderRequest \<lparr>rq_path = PATH @ ''/'' @ meth, rq_param = params, rq_body = body\<rparr> meth (hosts w provider) = (resp, h)"
  shows "Call_at net provider FOLDER_PATH meth params body w =
    (case net (calls w) of
       RequestLost \<Rightarrow> (None, w\<lparr>calls := Suc (calls w)\<rparr>)
     | ReplyLost \<Rightarrow> (None, w\<lparr>calls := Suc (calls w), hosts := (hosts w)(provider := h)\<rparr>)
     | Delivered \<Rightarrow> (Some resp, w\<lparr>calls := Suc (calls w), hosts := (hosts w)(provider := h)\<rparr>))"
  by (rule Call_at_delivery [OF CreateRequest_folder]) (use ProcessRequest_folder [OF assms(1,2)] assms(3) in simp)

section \<open>Providers in order\<close>

text \<open>An identifier as \<open>uuidgen\<close> makes it.\<close>

definition plain_name :: "string \<Rightarrow> bool" where
  "plain_name n \<longleftrightarrow> n \<noteq> [] \<and> n \<noteq> ''.'' \<and> n \<noteq> ''..'' \<and> CHR ''/'' \<notin> set n \<and>
     (\<forall>c \<in> set n. c \<noteq> CHR 0x22 \<and> c \<noteq> CHR 0x5C \<and> of_char c \<ge> (32 :: nat))"

text \<open>
  A provider whose file system works, whose identifiers are new whenever they are issued, and which has not
  reserved more than it has.
\<close>

definition host_ok :: "host \<Rightarrow> bool" where
  "host_ok h \<longleftrightarrow> inj (uuids h) \<and> (\<forall>k. plain_name (uuids h k)) \<and> (\<forall>k \<ge> issued h. dirs h (uuids h k) = None) \<and>
     (\<forall>n. config_open h n \<and> map_open h n) \<and> (\<forall>n i. can_open h n i) \<and>
     GetReservedSpace h [] \<le> hostSize h \<and> hostSize h < 2 ^ 63"

text \<open>Nothing that exists at a provider changes.\<close>

definition keeps_dirs :: "host \<Rightarrow> host \<Rightarrow> bool" where
  "keeps_dirs h h' \<longleftrightarrow> (\<forall>n. dirs h n \<noteq> None \<longrightarrow> dirs h' n = dirs h n) \<and> config_open h' = config_open h \<and>
     map_open h' = map_open h \<and> can_open h' = can_open h"

lemma keeps_dirs_refl: "keeps_dirs h h"
  by (simp add: keeps_dirs_def)

lemma keeps_dirs_trans: "keeps_dirs h h1 \<Longrightarrow> keeps_dirs h1 h2 \<Longrightarrow> keeps_dirs h h2"
  by (auto simp: keeps_dirs_def)

lemma part_ok_keeps:
  assumes "part_ok h n bc bs m" and "keeps_dirs h h'"
  shows "part_ok h' n bc bs m" and "dirs h n \<noteq> None"
proof -
  have r: "read_config h n = Some (bc, bs)" using assms(1) by (simp add: part_ok_def)
  then show d: "dirs h n \<noteq> None" by (cases "dirs h n") (simp_all add: read_config_def split: if_splits)
  with assms(2) have e: "dirs h' n = dirs h n" "config_open h' = config_open h" "map_open h' = map_open h" "can_open h' = can_open h"
    by (simp_all add: keeps_dirs_def)
  then have "read_config h' n = read_config h n" "dir_of h' n = dir_of h n"
    by (simp_all add: read_config_def dir_of_def cong: option.case_cong)
  with assms(1) e show "part_ok h' n bc bs m" by (simp add: part_ok_def)
qed

lemma ReserveSpace_fresh:
  assumes "host_ok h" and "0 < sz" and "sz < 2 ^ 63" and "ReserveSpace h sz = (rid, h')"
  shows "host_ok h'" and "keeps_dirs h h'"
    and "rid \<noteq> [] \<Longrightarrow> plain_name rid \<and> dirs h rid = None \<and> sz \<le> GetReservedSpace h' rid \<and> GetReservedSpace h' rid < 2 ^ 64 \<and>
      blocks (dir_of h' rid) = (\<lambda>_. None) \<and> partmap (dir_of h' rid) = None \<and> (\<forall>k \<ge> issued h'. uuids h' k \<noteq> rid)"
    and "sz + GetReservedSpace h [] \<le> hostSize h \<Longrightarrow> rid \<noteq> []"
proof -
  let ?t = "GetReservedSpace h []" and ?u = "uuids h (issued h)"
  have w: "wrap64 (sz + ?t) = sz + ?t" using assms(1,3) by (intro wrap64_id) (simp add: host_ok_def)
  have u: "plain_name ?u" "dirs h ?u = None" "?u \<noteq> []" "uuids h k = ?u \<longleftrightarrow> k = issued h" for k
    using assms(1) by (auto simp: host_ok_def plain_name_def inj_eq)
  let ?d = "empty_dir\<lparr>reservedSize := Some (sz + ?t)\<rparr>"
  let ?h = "set_dir (h\<lparr>totalReserved := Some (sz + ?t), issued := Suc (issued h)\<rparr>) ?u ?d"
  have cases: "hostSize h < sz + ?t \<and> rid = [] \<and> h' = h \<or> sz + ?t \<le> hostSize h \<and> rid = ?u \<and> h' = ?h"
    using assms(4) u(2) by (auto simp: ReserveSpace_def Let_def w write_reserved_def dir_of_def set_dir_def split: if_splits)
  have g: "GetReservedSpace ?h ?u = sz + ?t" "GetReservedSpace ?h [] = sz + ?t"
    if "sz + ?t \<le> hostSize h"
    using u(3) that assms(1) by (intro reserved_of [of _ _ ?d] reserved_total; simp add: set_dir_def host_ok_def)+
  have "host_ok ?h" if "sz + ?t \<le> hostSize h"
    using assms(1) that u(4) g(2) [OF that] by (simp add: host_ok_def set_dir_def)
  then show "host_ok h'" using cases assms(1) by auto
  show "rid \<noteq> []" if "sz + ?t \<le> hostSize h" using cases that u(3) by auto
  show "keeps_dirs h h'" using cases u(2) by (auto simp: keeps_dirs_def set_dir_def)
  show "plain_name rid \<and> dirs h rid = None \<and> sz \<le> GetReservedSpace h' rid \<and> GetReservedSpace h' rid < 2 ^ 64 \<and>
      blocks (dir_of h' rid) = (\<lambda>_. None) \<and> partmap (dir_of h' rid) = None \<and> (\<forall>k \<ge> issued h'. uuids h' k \<noteq> rid)" if "rid \<noteq> []"
  proof -
    have c: "sz + ?t \<le> hostSize h" "rid = ?u" "h' = ?h" using cases that by auto
    then have "sz + ?t < 2 ^ 64" using assms(1) by (simp add: host_ok_def)
    with c u g [OF c(1)] show ?thesis by (auto simp: dir_of_def empty_dir_def set_dir_def)
  qed
qed

lemma ReserveSpace_name: "ReserveSpace h sz = (rid, h') \<Longrightarrow> rid \<noteq> [] \<Longrightarrow> rid = uuids h (issued h)"
  by (auto simp: ReserveSpace_def Let_def split: if_splits)

lemma CreatePartition_fresh:
  assumes "host_ok h" and "plain_name rid" and "VOLUME_BLOCK \<le> GetReservedSpace h rid" and "GetReservedSpace h rid < 2 ^ 64"
    and "partmap (dir_of h rid) = None" and "blocks (dir_of h rid) = (\<lambda>_. None)" and "\<forall>k \<ge> issued h. uuids h k \<noteq> rid"
    and "rq_param rq ''reserveId'' = rid" and "rq_param rq ''block'' = encode_arg VOLUME_BLOCK"
    and "OnCreatePartition rq h = (resp, h')"
  shows "resp = Text (partition_info rid)" and "host_ok h'" and "\<forall>n. n \<noteq> rid \<longrightarrow> dirs h' n = dirs h n"
    and "config_open h' = config_open h" "map_open h' = map_open h" "can_open h' = can_open h"
    and "part_ok h' rid (GetReservedSpace h rid div VOLUME_BLOCK) VOLUME_BLOCK (BitSet_new (GetReservedSpace h rid div VOLUME_BLOCK))"
proof -
  let ?h = "set_dir h rid ((dir_of h rid)\<lparr>config := Some (le_bytes 8 (GetReservedSpace h rid div VOLUME_BLOCK) @ le_bytes 8 VOLUME_BLOCK)\<rparr>)"
  have b: "strtoull (rq_param rq ''block'') = VOLUME_BLOCK" using assms(9) by (simp add: strtoull_encode_arg VOLUME_BLOCK_def)
  note c = OnCreatePartition_reserved [of rid rq VOLUME_BLOCK h ?h, OF assms(8) [symmetric] b [symmetric]]
  have "OnCreatePartition rq h = (Text (partition_info rid), ?h)"
    "part_ok ?h rid (GetReservedSpace h rid div VOLUME_BLOCK) VOLUME_BLOCK (BitSet_new (GetReservedSpace h rid div VOLUME_BLOCK))"
    by (rule c; use assms(1-6) in \<open>simp add: plain_name_def host_ok_def VOLUME_BLOCK_def\<close>)+
  then show "resp = Text (partition_info rid)" "part_ok h' rid (GetReservedSpace h rid div VOLUME_BLOCK) VOLUME_BLOCK (BitSet_new (GetReservedSpace h rid div VOLUME_BLOCK))"
    and h': "host_ok h'" "\<forall>n. n \<noteq> rid \<longrightarrow> dirs h' n = dirs h n" "config_open h' = config_open h" "map_open h' = map_open h" "can_open h' = can_open h"
    using assms(1,7,10) by (auto simp: host_ok_def GetReservedSpace_def set_dir_def)
qed

section \<open>A new partition\<close>

definition world_ok :: "world \<Rightarrow> bool" where
  "world_ok w \<longleftrightarrow> (\<forall>p. host_ok (hosts w p))"

definition keeps_world :: "world \<Rightarrow> world \<Rightarrow> bool" where
  "keeps_world w w' \<longleftrightarrow> (\<forall>p. keeps_dirs (hosts w p) (hosts w' p))"

text \<open>A partition of zeros with at least the given number of blocks.\<close>

definition zero_part :: "world \<Rightarrow> nat \<Rightarrow> string \<Rightarrow> nat \<Rightarrow> bool" where
  "zero_part w p n k \<longleftrightarrow> plain_name n \<and> (\<exists>bc \<ge> k. part_ok (hosts w p) n bc VOLUME_BLOCK (BitSet_new bc))"

lemma zero_part_keeps: "zero_part w p n k \<Longrightarrow> keeps_world w w' \<Longrightarrow> zero_part w' p n k"
  unfolding zero_part_def keeps_world_def using part_ok_keeps(1) by blast

lemma zero_part_dir: "zero_part w p n k \<Longrightarrow> dirs (hosts w p) n \<noteq> None"
  unfolding zero_part_def using part_ok_keeps(2) [OF _ keeps_dirs_refl] by blast

lemma keeps_world_refl: "keeps_world w w"
  by (simp add: keeps_world_def keeps_dirs_refl)

lemma keeps_world_trans: "keeps_world w w1 \<Longrightarrow> keeps_world w1 w2 \<Longrightarrow> keeps_world w w2"
  unfolding keeps_world_def using keeps_dirs_trans by blast

text \<open>The provider writes the description of a partition as the JSON writer would; the reader reads it.\<close>

lemma quoted_plain:
  assumes "\<forall>c \<in> set n. c \<noteq> CHR 0x22 \<and> c \<noteq> CHR 0x5C \<and> of_char c \<ge> (32 :: nat)"
  shows "valueToQuotedString n = CHR 0x22 # n @ [CHR 0x22]"
proof -
  have "list_all (\<lambda>c. c \<notin> set [CHR 0x22, CHR 0x5C, CHR 0x08, CHR 0x0C, CHR 0x0A, CHR 0x0D, CHR 0x09] \<and> \<not> isControlCharacter c) n"
    using assms by (fastforce simp: list_all_iff isControlCharacter_def)
  then show ?thesis by (simp add: valueToQuotedString_def)
qed

lemma plain_no_zero: "plain_name n \<Longrightarrow> CHR 0x00 \<notin> set n"
  by (fastforce simp: plain_name_def)

lemma Reader_parse_info:
  assumes "plain_name n"
  shows "Reader_parse (partition_info n) =
    Some (JObject [(''Name'', JString n), (''Path'', JString (''host://Partitions/'' @ n)), (''Type'', JString ''Partition'')])"
proof -
  let ?v = "JObject [(''Name'', JString n), (''Path'', JString (''host://Partitions/'' @ n)), (''Type'', JString ''Partition'')]"
  have "partition_info n = FastWriter_write ?v"
    using assms by (simp add: partition_info_def quoted_plain plain_name_def)
  moreover have "readable ?v" using plain_no_zero [OF assms] by simp
  ultimately show ?thesis using parse_fast [of ?v] by simp
qed

text \<open>
  What \<open>GetReservedSpace\<close> makes of a number is what it reads out of the text that \<open>ReserveSpace\<close> and
  \<open>UnreserveSpace\<close> write: below the limit the number, from there on nothing integral.
\<close>

lemma reserved_text:
  assumes "n < 2 ^ 64"
  shows "\<exists>j v. Reader_parse (StyledWriter_write (JObject [(''size'', JUInt n)])) = Some j \<and> isObject j \<and> json_at j ''size'' = Some v \<and>
    (if n < 18446744073709551610 then isIntegral v \<and> asUInt v = Some n else \<not> isIntegral v)"
proof (cases "n < 18446744073709551610")
  case True
  then show ?thesis using parse_styled [of "JObject [(''size'', JUInt n)]"] by (auto simp: json_defs)
next
  case False
  let ?d = "JReal (Finite False 9007199254740992 11)" and ?a = "[CHR 0x0A] @ ''   ''"
  let ?t = "?a @ valueToQuotedString ''size'' @ '' '' @ '':'' @ '' '' @ decimal n @ [CHR 0x0A]"
  have "reads ?d (decimal n)" using False assms by (intro reads_large) simp_all
  moreover have "blanks ?a" "blanks '' ''" "blanks [CHR 0x0A]" by (simp_all add: blank_def)
  ultimately have "member (''size'', ?d) ?t" unfolding member_def fst_conv snd_conv
    by (intro exI [of _ ?a] exI [of _ "'' ''"] exI [of _ "'' ''"] exI [of _ "decimal n"] exI [of _ "[CHR 0x0A]"]) simp
  then have "reads (JObject [(''size'', ?d)]) (''{'' @ ?t @ ''}'')" by (intro reads_object listed_single) simp_all
  then have "value_at ((''{'' @ ?t @ ''}'') @ [CHR 0x0A]) = Some (Some (JObject [(''size'', ?d)]), [CHR 0x0A])"
    by (simp add: reads_def stops_def number_char_def isdigit_def)
  moreover have l: "last (decimal n) \<noteq> CHR 0x0A" "last (decimal n) \<noteq> CHR '' ''"
    using decimal_digits [of n] last_in_set [OF decimal_nonempty [of n]] by (auto simp: isdigit_def)
  moreover have "StyledWriter_write (JObject [(''size'', JUInt n)]) = (''{'' @ ?t @ ''}'') @ [CHR 0x0A]"
    using l decimal_nonempty [of n]
    by (simp add: StyledWriter_write_def writeWithIndent_def writeIndent_def pushed_def indentSize_def eval_nat_numeral)
  ultimately show ?thesis using False Reader_parse_at by (auto simp: json_defs)
qed

lemma ReservePartition_fresh:
  assumes "world_ok w" and "0 < sz" and "sz < 2 ^ 63" and "ReservePartition net p sz w = (r, w')"
  shows "world_ok w'" and "keeps_world w w'"
    and "r = Some rid \<Longrightarrow> rid \<noteq> [] \<Longrightarrow> plain_name rid \<and> dirs (hosts w p) rid = None \<and>
      sz \<le> GetReservedSpace (hosts w' p) rid \<and> GetReservedSpace (hosts w' p) rid < 2 ^ 64 \<and>
      blocks (dir_of (hosts w' p) rid) = (\<lambda>_. None) \<and> partmap (dir_of (hosts w' p) rid) = None \<and>
      (\<forall>k \<ge> issued (hosts w' p). uuids (hosts w' p) k \<noteq> rid)"
    and "q \<noteq> p \<Longrightarrow> hosts w' q = hosts w q"
    and "net = (\<lambda>_. Delivered) \<Longrightarrow> sz + GetReservedSpace (hosts w p) [] \<le> hostSize (hosts w p) \<Longrightarrow> r \<noteq> None \<and> r \<noteq> Some []"
    and "r = Some rid \<Longrightarrow> rid \<noteq> [] \<Longrightarrow> rid = uuids (hosts w p) (issued (hosts w p))"
proof -
  let ?h = "hosts w p" let ?q = "\<lambda>k. if k = ''size'' then encode_arg sz else []"
  obtain id h' where s: "ReserveSpace ?h sz = (id, h')" by (rule prod.exhaust)
  have h: "host_ok ?h" using assms(1) by (simp add: world_ok_def)
  note f = ReserveSpace_fresh [OF h assms(2,3) s]
  have "OnFolderRequest \<lparr>rq_path = PATH @ ''/'' @ ''Reserve'', rq_param = ?q, rq_body = None\<rparr> ''Reserve'' ?h = (Text id, h')"
    using assms(2,3) s by (simp add: OnFolderRequest_def OnReservePartition_def strtoull_encode_arg)
  note c = Call_folder [OF _ _ this, of net]
  have rd: "(r, w') = (case net (calls w) of
       RequestLost \<Rightarrow> (None, w\<lparr>calls := Suc (calls w)\<rparr>)
     | ReplyLost \<Rightarrow> (None, w\<lparr>calls := Suc (calls w), hosts := (hosts w)(p := h')\<rparr>)
     | Delivered \<Rightarrow> (Some id, w\<lparr>calls := Suc (calls w), hosts := (hosts w)(p := h')\<rparr>))"
    using assms(4) unfolding ReservePartition_def by (simp add: c split: fault.splits)
  show "q \<noteq> p \<Longrightarrow> hosts w' q = hosts w q" using rd by (auto split: fault.splits)
  show "r = Some rid \<Longrightarrow> rid \<noteq> [] \<Longrightarrow> rid = uuids (hosts w p) (issued (hosts w p))" using rd ReserveSpace_name [OF s] by (auto split: fault.splits)
  show "r \<noteq> None \<and> r \<noteq> Some []" if "net = (\<lambda>_. Delivered)" "sz + GetReservedSpace ?h [] \<le> hostSize ?h"
    using rd that f(4) by auto
  show "world_ok w'" "keeps_world w w'"
    using rd assms(1) f(1,2) by (auto simp: world_ok_def keeps_world_def keeps_dirs_refl split: fault.splits)
  show "plain_name rid \<and> dirs (hosts w p) rid = None \<and>
      sz \<le> GetReservedSpace (hosts w' p) rid \<and> GetReservedSpace (hosts w' p) rid < 2 ^ 64 \<and>
      blocks (dir_of (hosts w' p) rid) = (\<lambda>_. None) \<and> partmap (dir_of (hosts w' p) rid) = None \<and>
      (\<forall>k \<ge> issued (hosts w' p). uuids (hosts w' p) k \<noteq> rid)" if "r = Some rid" "rid \<noteq> []"
  proof -
    have "rid = id" "hosts w' p = h'" using rd that by (auto split: fault.splits)
    then show ?thesis using f(3) that(2) by simp
  qed
qed

lemma new_partition_ok:
  assumes "world_ok (vm_world m)" and "VOLUME_BLOCK \<le> sz" and "sz < 2 ^ 63"
    and "new_partition D net sz ep m = (r, m')"
  shows "\<exists>w'. m' = m\<lparr>vm_world := w'\<rparr> \<and> world_ok w' \<and> keeps_world (vm_world m) w' \<and>
    (\<forall>n. r = Some n \<longrightarrow> dirs (hosts (vm_world m) (host_at D (url ep))) n = None \<and>
       zero_part w' (host_at D (url ep)) n (sz div VOLUME_BLOCK) \<and>
       n = uuids (hosts (vm_world m) (host_at D (url ep))) (issued (hosts (vm_world m) (host_at D (url ep))))) \<and>
    (\<forall>q. q \<noteq> host_at D (url ep) \<longrightarrow> hosts w' q = hosts (vm_world m) q) \<and>
    (net = (\<lambda>_. Delivered) \<longrightarrow> sz + GetReservedSpace (hosts (vm_world m) (host_at D (url ep))) [] \<le>
       hostSize (hosts (vm_world m) (host_at D (url ep))) \<longrightarrow> r \<noteq> None)"
proof -
  let ?p = "host_at D (url ep)" and ?w = "vm_world m"
  obtain q w1 where q: "ReservePartition net ?p sz ?w = (q, w1)" by (rule prod.exhaust)
  have pos: "0 < sz" using assms(2) by (simp add: VOLUME_BLOCK_def)
  note rv = ReservePartition_fresh [OF assms(1) pos assms(3) q]
  show ?thesis
  proof (cases "q = None \<or> q = Some []")
    case True
    then have "r = None" "m' = m\<lparr>vm_world := w1\<rparr>" using assms(4) q by (auto simp: new_partition_def)
    with rv True show ?thesis by auto
  next
    case False
    then obtain rid where rid: "q = Some rid" "rid \<noteq> []" by auto
    note f = rv(3) [OF rid]
    let ?h = "hosts w1 ?p" let ?q = "\<lambda>k. if k = ''reserveId'' then rid else if k = ''block'' then encode_arg VOLUME_BLOCK else []"
    let ?rq = "\<lparr>rq_path = PATH @ ''/'' @ ''NewPartition'', rq_param = ?q, rq_body = None\<rparr>"
    obtain resp h' where o: "OnCreatePartition ?rq ?h = (resp, h')" by (rule prod.exhaust)
    have h: "host_ok ?h" using rv(1) by (simp add: world_ok_def)
    have res: "VOLUME_BLOCK \<le> GetReservedSpace ?h rid" using f assms(2) by simp
    have arg: "rq_param ?rq ''reserveId'' = rid" "rq_param ?rq ''block'' = encode_arg VOLUME_BLOCK" by simp_all
    have "partmap (dir_of ?h rid) = None" "blocks (dir_of ?h rid) = (\<lambda>_. None)" "\<forall>k \<ge> issued ?h. uuids ?h k \<noteq> rid" using f by simp_all
    note c = CreatePartition_fresh [OF h _ res _ this arg o]
    have cp: "plain_name rid" "GetReservedSpace ?h rid < 2 ^ 64" using f by simp_all
    have "OnFolderRequest ?rq ''NewPartition'' ?h = (Text (partition_info rid), h')" using o c(1) [OF cp] by (simp add: OnFolderRequest_def)
    note cl = Call_folder [OF _ _ this, of net]
    have rd: "(r, vm_world m') = (case net (calls w1) of
         RequestLost \<Rightarrow> (None, w1\<lparr>calls := Suc (calls w1)\<rparr>)
       | ReplyLost \<Rightarrow> (None, w1\<lparr>calls := Suc (calls w1), hosts := (hosts w1)(?p := h')\<rparr>)
       | Delivered \<Rightarrow> (Some rid, w1\<lparr>calls := Suc (calls w1), hosts := (hosts w1)(?p := h')\<rparr>)) \<and> m' = m\<lparr>vm_world := vm_world m'\<rparr>"
      using assms(4) q rid cp(1) unfolding new_partition_def CreatePartition_def
      by (auto simp: cl Reader_parse_info partition_response_def split: fault.splits)
    have new: "dirs (hosts ?w ?p) n \<noteq> None \<Longrightarrow> n \<noteq> rid" for n using f by auto
    have "keeps_dirs (hosts ?w ?p) h'"
      using rv(2) c(3-6) [OF cp] new by (auto simp: keeps_world_def keeps_dirs_def)
    then have "world_ok (vm_world m') \<and> keeps_world ?w (vm_world m')"
      using rd rv(1,2) c(2) [OF cp] by (auto simp: world_ok_def keeps_world_def split: fault.splits)
    moreover have "zero_part (vm_world m') ?p n (sz div VOLUME_BLOCK) \<and> n = rid" if "r = Some n" for n
    proof -
      have "n = rid" "hosts (vm_world m') ?p = h'" using rd that by (auto split: fault.splits)
      moreover have "sz div VOLUME_BLOCK \<le> GetReservedSpace ?h rid div VOLUME_BLOCK" using f by (simp add: div_le_mono)
      ultimately show ?thesis using c(7) [OF cp] cp(1) by (auto simp: zero_part_def)
    qed
    moreover have "hosts (vm_world m') x = hosts ?w x" if "x \<noteq> ?p" for x
      using rd rv(4) [OF that] that by (auto split: fault.splits)
    moreover have "r \<noteq> None" if "net = (\<lambda>_. Delivered)" using rd that by auto
    ultimately show ?thesis using rd f rv(6) [OF rid] by blast
  qed
qed

section \<open>A directory that answers\<close>

text \<open>
  \<open>host_of\<close> says which provider has a name. The nodes offer contracts of the names in \<open>P\<close> only, and
  what a lookup of such a name gives, if it gives anything, is an endpoint of its provider; so are
  the entries of the lookup cache. A lookup may as well give nothing, now or later. That the first
  node answers every lookup of a name is \<open>directory_up\<close>.
\<close>

definition endpoint_ok :: "discovery \<Rightarrow> (string \<Rightarrow> nat) \<Rightarrow> string \<Rightarrow> string \<Rightarrow> bool" where
  "endpoint_ok D host_of p b \<longleftrightarrow>
     (\<exists>x h. FromString HostInfo_new b = Some (x, h) \<and> url h \<noteq> [] \<and> host_at D (url h) = host_of p)"

definition directory_ok :: "discovery \<Rightarrow> (string \<Rightarrow> nat) \<Rightarrow> string set \<Rightarrow> bool" where
  "directory_ok D host_of P \<longleftrightarrow> (\<forall>p \<in> P. CHR 0x00 \<notin> set p) \<and>
     (\<forall>t kd p b. p \<in> P \<longrightarrow> kad_GetValue D t kd (''ep:'' @ p) = Some b \<longrightarrow> b = [] \<or> endpoint_ok D host_of p b) \<and>
     (\<forall>t kd q n v cs. kad_QueryStorage D t kd q n = Some v \<longrightarrow> read_contracts (items_of v) = Some cs \<longrightarrow> ct_provider ` set cs \<subseteq> P)"

definition directory_up :: "discovery \<Rightarrow> string set \<Rightarrow> bool" where
  "directory_up D P \<longleftrightarrow> (\<exists>kd kds. kademliaUrl D = kd # kds \<and> (\<forall>t. \<forall>p \<in> P. \<exists>b. kad_GetValue D t kd (''ep:'' @ p) = Some b \<and> b \<noteq> []))"

definition cached_ok :: "discovery \<Rightarrow> (string \<Rightarrow> nat) \<Rightarrow> string set \<Rightarrow> BlobCache \<Rightarrow> bool" where
  "cached_ok D host_of P c \<longleftrightarrow>
     (\<forall>p cv b. (p, cv) \<in> set (lookup_cache c) \<longrightarrow> p \<in> P \<longrightarrow> cv_data cv = JString b \<longrightarrow> endpoint_ok D host_of p b)"

text \<open>A lookup gives no endpoint or the right one.\<close>

definition looked_up :: "discovery \<Rightarrow> (string \<Rightarrow> nat) \<Rightarrow> string set \<Rightarrow> string \<Rightarrow> manager \<Rightarrow> HostInfo \<times> manager \<Rightarrow> bool" where
  "looked_up D host_of P p m r \<longleftrightarrow> (url (fst r) = [] \<or> host_at D (url (fst r)) = host_of p) \<and>
     cached_ok D host_of P (vm_cache (snd r)) \<and> vm_world (snd r) = vm_world m \<and> vm_conf (snd r) = vm_conf m"

lemma ask_kademlia_ok:
  assumes "directory_ok D host_of P" and "cached_ok D host_of P (vm_cache m)" and "p \<in> P"
  shows "\<exists>r. ask_kademlia D p kds m = Some r \<and> looked_up D host_of P p m r \<and> (directory_up D P \<and> kds = kademliaUrl D \<longrightarrow> url (fst r) \<noteq> [])"
  using assms(2)
proof (induction kds arbitrary: m)
  case Nil
  then show ?case by (auto simp: looked_up_def HostInfo_new_def directory_up_def)
next
  case (Cons kd kds)
  have c: "cached_ok D host_of P (Lookup_SetValue t p (JString b) (vm_cache m))" if "endpoint_ok D host_of p b" for t b
    using Cons.prems that by (auto simp: cached_ok_def Lookup_SetValue_def dest!: set_map_put [THEN subsetD])
  show ?case
  proof (cases "kad_GetValue D (vm_tick m) kd (''ep:'' @ p)")
    case None
    then have "\<not> (directory_up D P \<and> kd # kds = kademliaUrl D)" using assms(3) unfolding directory_up_def by (metis list.inject option.distinct(1))
    with None Cons.IH [of "m\<lparr>vm_tick := Suc (vm_tick m)\<rparr>"] Cons.prems show ?thesis by (auto simp: looked_up_def)
  next
    case (Some b)
    then have "b = [] \<or> endpoint_ok D host_of p b" using assms(1,3) unfolding directory_ok_def by blast
    moreover have "directory_up D P \<and> kd # kds = kademliaUrl D \<longrightarrow> b \<noteq> []"
      using Some assms(3) unfolding directory_up_def by (metis list.inject option.inject)
    ultimately show ?thesis using Some Cons.prems c by (cases "b = []") (auto simp: looked_up_def HostInfo_new_def endpoint_ok_def)
  qed
qed

lemma GetProviderEndpoint_ok:
  assumes "directory_ok D host_of P" and "cached_ok D host_of P (vm_cache m)" and "p \<in> P"
  shows "\<exists>r. GetProviderEndpoint D p m = Some r \<and> looked_up D host_of P p m r \<and> (directory_up D P \<longrightarrow> url (fst r) \<noteq> [])"
proof -
  obtain v c where l: "Lookup_GetValue (clock D (vm_tick m)) p (vm_cache m) = (v, c)" by (rule prod.exhaust)
  have sub: "set (lookup_cache c) \<subseteq> set (lookup_cache (vm_cache m))"
    using l set_map_erase [of p "lookup_cache (vm_cache m)"] by (auto simp: Lookup_GetValue_def split: option.splits if_splits)
  have c: "cached_ok D host_of P c" unfolding cached_ok_def using sub assms(2) [unfolded cached_ok_def] by blast
  let ?m = "m\<lparr>vm_cache := c, vm_tick := Suc (vm_tick m)\<rparr>"
  show ?thesis
  proof (cases "\<exists>b. v = JString b")
    case True
    then obtain b cv where b: "v = JString b" "(p, cv) \<in> set (lookup_cache (vm_cache m))" "cv_data cv = JString b"
      using l by (auto simp: Lookup_GetValue_def map_find_map_of split: option.splits if_splits dest: map_of_SomeD)
    then have "endpoint_ok D host_of p b" using assms(2,3) by (auto simp: cached_ok_def)
    with l b(1) c show ?thesis by (auto simp: GetProviderEndpoint_def endpoint_ok_def looked_up_def)
  next
    case False
    then have g: "GetProviderEndpoint D p m = ask_kademlia D p (kademliaUrl D) ?m"
      using l by (cases v) (simp_all add: GetProviderEndpoint_def Let_def)
    with ask_kademlia_ok [OF assms(1) _ assms(3), of ?m "kademliaUrl D"] c show ?thesis by (auto simp: looked_up_def)
  qed
qed

section \<open>Progress\<close>

text \<open>
  The partitions created so far: of different providers, at different places, full of zeros, with
  at least \<open>k\<close> blocks each.
\<close>

definition progress_ok :: "(string \<Rightarrow> nat) \<Rightarrow> string set \<Rightarrow> nat \<Rightarrow> progress \<Rightarrow> world \<Rightarrow> bool" where
  "progress_ok host_of P k pr w \<longleftrightarrow> snd ` set (snd pr) \<subseteq> fst pr \<and> snd ` set (snd pr) \<subseteq> P \<and> distinct (map snd (snd pr)) \<and>
     distinct (map (\<lambda>(n, p). (host_of p, n)) (snd pr)) \<and> (\<forall>(n, p) \<in> set (snd pr). zero_part w (host_of p) n k)"

definition manager_ok :: "discovery \<Rightarrow> (string \<Rightarrow> nat) \<Rightarrow> string set \<Rightarrow> manager \<Rightarrow> bool" where
  "manager_ok D host_of P m \<longleftrightarrow> world_ok (vm_world m) \<and> cached_ok D host_of P (vm_cache m)"

lemma progress_ok_used: "progress_ok host_of P k (used, parts) w \<Longrightarrow> used \<subseteq> used' \<Longrightarrow> keeps_world w w' \<Longrightarrow> progress_ok host_of P k (used', parts) w'"
  unfolding progress_ok_def by (auto intro: zero_part_keeps)

lemma progress_ok_new:
  assumes "progress_ok host_of P k (used, parts) w" and "p \<notin> used" and "p \<in> P" and "keeps_world w w'"
    and "dirs (hosts w (host_of p)) n = None" and "zero_part w' (host_of p) n k"
  shows "progress_ok host_of P k (insert p used, parts @ [(n, p)]) w'"
proof -
  have "(host_of p, n) \<notin> (\<lambda>(n, p). (host_of p, n)) ` set parts"
    using assms(1,5) zero_part_dir [of w "host_of p" n k] by (auto simp: progress_ok_def)
  moreover have "zero_part w' (host_of q) x k" if "(x, q) \<in> set parts" for x q
    using zero_part_keeps [OF _ assms(4)] assms(1) that by (auto simp: progress_ok_def)
  ultimately show ?thesis using assms(1-3,6) unfolding progress_ok_def by auto
qed

locale creation =
  fixes D :: discovery and net :: "nat \<Rightarrow> fault" and host_of :: "string \<Rightarrow> nat" and P :: "string set" and sz :: nat
  assumes directory: "directory_ok D host_of P"
    and enough: "VOLUME_BLOCK \<le> sz" and bounded: "sz < 2 ^ 63"
begin

abbreviation good :: "progress \<Rightarrow> manager \<Rightarrow> bool" where
  "good pr m \<equiv> manager_ok D host_of P m \<and> progress_ok host_of P (sz div VOLUME_BLOCK) pr (vm_world m)"

lemma try_contracts_ok:
  "good pr m \<Longrightarrow> ct_provider ` set cs \<subseteq> P \<Longrightarrow>
   \<exists>pr1 m1. try_contracts D net sz wanted cs pr m = Some (pr1, m1) \<and> good pr1 m1 \<and> vm_conf m1 = vm_conf m"
proof (induction cs arbitrary: pr m)
  case (Cons c cs)
  obtain used parts where pr: "pr = (used, parts)" by (rule prod.exhaust)
  let ?p = "ct_provider c"
  have P: "?p \<in> P" "ct_provider ` set cs \<subseteq> P" using Cons.prems(2) by auto
  show ?case
  proof (cases "?p \<in> used")
    case True
    with Cons.IH [OF Cons.prems(1) P(2)] show ?thesis by (simp add: pr)
  next
    case False
    obtain ep m1 where ep: "GetProviderEndpoint D ?p m = Some (ep, m1)" "url ep = [] \<or> host_at D (url ep) = host_of ?p"
      "cached_ok D host_of P (vm_cache m1)" "vm_world m1 = vm_world m" "vm_conf m1 = vm_conf m"
      using GetProviderEndpoint_ok [OF directory _ P(1)] Cons.prems(1) by (force simp: manager_ok_def looked_up_def)
    have m1: "good pr m1" using Cons.prems(1) ep(3,4) by (simp add: manager_ok_def)
    show ?thesis
    proof (cases "url ep = []")
      case True
      with Cons.IH [OF m1 P(2)] ep(1,5) False show ?thesis by (simp add: pr)
    next
      case url: False
      obtain r m2 where r: "new_partition D net sz ep m1 = (r, m2)" by (rule prod.exhaust)
      have h: "host_at D (url ep) = host_of ?p" using ep(2) url by simp
      have w1: "world_ok (vm_world m1)" using m1 by (simp add: manager_ok_def)
      obtain w' where n: "m2 = m1\<lparr>vm_world := w'\<rparr>" "world_ok w'" "keeps_world (vm_world m) w'"
        "\<And>n. r = Some n \<Longrightarrow> dirs (hosts (vm_world m) (host_of ?p)) n = None \<and> zero_part w' (host_of ?p) n (sz div VOLUME_BLOCK)"
        using new_partition_ok [OF w1 enough bounded r] unfolding h ep(4) by blast
      have m2: "manager_ok D host_of P m2" "vm_conf m2 = vm_conf m" using n(1,2) ep(3,5) by (simp_all add: manager_ok_def)
      show ?thesis
      proof (cases r)
        case None
        have "good (insert ?p used, parts) m2"
          using m2(1) n(1) progress_ok_used [OF _ subset_insertI n(3)] Cons.prems(1) by (simp add: pr)
        from Cons.IH [OF this P(2)] None ep r False url m2(2) show ?thesis by (simp add: pr)
      next
        case (Some name)
        have g: "good (insert ?p used, parts @ [(name, ?p)]) m2"
          using m2(1) n progress_ok_new [OF _ False P(1) n(3)] Cons.prems(1) Some by (simp add: pr)
        from Cons.IH [OF g P(2)] g Some ep r False url m2(2) show ?thesis by (cases "Suc (length parts) = wanted") (simp_all add: pr Let_def)
      qed
    qed
  qed
qed auto

lemma query_rounds_ok:
  "good pr m \<Longrightarrow> query_rounds D net kd query sz wanted retry alive pr m = Some (Ended b pr1 m1) \<Longrightarrow>
   good pr1 m1 \<and> vm_conf m1 = vm_conf m"
proof (induction "3 - retry" arbitrary: retry alive pr m rule: less_induct)
  case less
  let ?m = "m\<lparr>vm_tick := Suc (vm_tick m)\<rparr>"
  have g: "good pr ?m" using less.prems(1) by (simp add: manager_ok_def)
  note unf = less.prems(2) [unfolded query_rounds.simps [of D net kd query sz wanted retry alive pr m] Let_def]
  show ?case
  proof (cases "kad_QueryStorage D (vm_tick m) kd query (wanted * retry)")
    case None
    with unf g show ?thesis by auto
  next
    case (Some v)
    with unf obtain cs where cs: "read_contracts (items_of v) = Some cs" and nn: "\<not> isNull v"
      by (cases "read_contracts (items_of v)") (auto split: if_splits)
    have "ct_provider ` set cs \<subseteq> P" using directory Some cs unfolding directory_ok_def by blast
    from try_contracts_ok [OF g this] obtain pr2 m2 where t: "try_contracts D net sz wanted cs pr ?m = Some (pr2, m2)" "good pr2 m2" "vm_conf m2 = vm_conf m"
      by fastforce
    show ?thesis
    proof (cases "Suc retry \<le> 3 \<and> length (snd pr2) \<noteq> wanted")
      case True
      then have "query_rounds D net kd query sz wanted (Suc retry) True pr2 m2 = Some (Ended b pr1 m1)" using unf Some nn cs t(1) by simp
      moreover have "3 - Suc retry < 3 - retry" using True by linarith
      ultimately show ?thesis using less.hyps [OF _ t(2)] t(3) by fastforce
    next
      case False
      then show ?thesis using unf Some nn cs t by auto
    qed
  qed
qed

lemma query_nodes_ok:
  "good pr m \<Longrightarrow> query_nodes D net query sz wanted kds pr m = Some (Ended b pr1 m1) \<Longrightarrow> good pr1 m1 \<and> vm_conf m1 = vm_conf m"
proof (induction kds arbitrary: pr m)
  case (Cons kd kds)
  show ?case
  proof (cases "query_rounds D net kd query sz wanted 1 False pr m")
    case (Some r)
    then show ?thesis
    proof (cases r)
      case (Ended a pr2 m2)
      note q = query_rounds_ok [OF Cons.prems(1) Some [unfolded Ended]]
      show ?thesis
      proof (cases a)
        case True
        with Cons.prems(2) Some Ended q show ?thesis by auto
      next
        case False
        with Cons.prems(2) Some Ended have "query_nodes D net query sz wanted kds pr2 m2 = Some (Ended b pr1 m1)" by simp
        from Cons.IH [OF _ this] q show ?thesis by simp
      qed
    qed (use Cons.prems(2) in simp)
  qed (use Cons.prems(2) in simp)
qed auto

end

section \<open>The configuration and back\<close>

lemma reread_partition: "reread \<circ> partition_json = partition_json"
  by (simp add: fun_eq_iff partition_json_def)

lemma partition_json_fields:
  "json_at (partition_json (n, p)) ''name'' = Some (JString n)" "json_at (partition_json (n, p)) ''provider'' = Some (JString p)"
  by (simp_all add: partition_json_def json_at_def)

definition handle :: "Volume \<Rightarrow> nat \<Rightarrow> Partition option" where
  "handle v i = Some \<lparr>pt_blockCount = blockCount v, pt_blockSize = blockSize v, pt_ref = i\<rparr>"

definition handles :: "Volume \<Rightarrow> nat \<Rightarrow> nat \<Rightarrow> Partition option list" where
  "handles v i n = map (handle v) [i..<i + n]"

lemma handles_simps [simp]: "handles v i 0 = []" "handles v i (Suc n) = handle v i # handles v (Suc i) n" "length (handles v i n) = n"
  using upt_conv_Cons [of i "i + Suc n"] by (simp_all add: handles_def del: upt_Suc)

lemma load_partitions_ok:
  assumes "directory_ok D host_of P" and "cached_ok D host_of P (vm_cache m)" and "snd ` set parts \<subseteq> P"
    and "i + length parts = length (partitions v)"
  shows "\<exists>r m'. load_partitions D i (map partition_json parts) v pls m = Some (r, m') \<and>
    (r = None \<or> r = Some (v\<lparr>partitions := take i (partitions v) @ handles v i (length parts)\<rparr>, pls @ map (\<lambda>(n, p). (host_of p, n)) parts)) \<and>
    (directory_up D P \<longrightarrow> r \<noteq> None) \<and> vm_world m' = vm_world m \<and> cached_ok D host_of P (vm_cache m')"
  using assms(2-)
proof (induction parts arbitrary: i v pls m)
  case Nil
  then show ?case by simp
next
  case (Cons np parts)
  obtain n p where np: "np = (n, p)" by (rule prod.exhaust)
  have P: "p \<in> P" "snd ` set parts \<subseteq> P" using Cons.prems(2) by (auto simp: np)
  obtain ep m1 where ep: "GetProviderEndpoint D p m = Some (ep, m1)" "url ep = [] \<or> host_at D (url ep) = host_of p"
    "directory_up D P \<longrightarrow> url ep \<noteq> []" "cached_ok D host_of P (vm_cache m1)" "vm_world m1 = vm_world m"
    using GetProviderEndpoint_ok [OF assms(1) Cons.prems(1) P(1)] by (auto simp: looked_up_def)
  let ?v = "v\<lparr>partitions := (partitions v)[i := handle v i]\<rparr>"
  have i: "i < length (partitions v)" "Suc i + length parts = length (partitions ?v)" using Cons.prems(3) by auto
  have s: "SetPartition v i (handle v i) = Some (True, ?v)" using i(1) by (simp add: SetPartition_def handle_def)
  have h: "handles ?v = handles v" by (simp add: handles_def handle_def fun_eq_iff)
  have t: "take (Suc i) (partitions ?v) = take i (partitions v) @ [handle v i]"
    using i(1) by (simp add: take_Suc_conv_app_nth)
  show ?case
  proof (cases "url ep = []")
    case True
    with ep show ?thesis by (simp add: np partition_json_fields)
  next
    case False
    then show ?thesis using Cons.IH [OF ep(4) P(2) i(2), of "pls @ [(host_of p, n)]"] ep s [unfolded handle_def] unfolding h t
      by (auto simp: np partition_json_fields handle_def)
  qed
qed

lemma to_double_small: "n < 2 ^ 53 \<Longrightarrow> to_double n = n"
  by (simp add: to_double_def)

lemma ceil_blocks_exact: "k * VOLUME_BLOCK < 2 ^ 53 \<Longrightarrow> ceil_blocks (k * VOLUME_BLOCK) = k"
  by (simp add: ceil_blocks_def to_double_small) (simp add: VOLUME_BLOCK_def)

text \<open>What \<open>CreateVolume\<close> leaves behind when it reports success.\<close>

lemma partition_count_volume: "partition_count (volume_json sz dc cc parts) = length parts"
  by (simp add: partition_count_def volume_json_def json_at_def)

lemma CreateVolumePartitions_ok:
  assumes "creation D host_of P (k * VOLUME_BLOCK)" and "manager_ok D host_of P m" and "0 < dc"
    and "CreateVolumePartitions D net (dc * (k * VOLUME_BLOCK)) dc cc m = Some (v, m2)" and "v \<noteq> JNull"
  shows "\<exists>used parts. manager_ok D host_of P m2 \<and> progress_ok host_of P k (used, parts) (vm_world m2) \<and> v = volume_json (k * VOLUME_BLOCK) dc cc parts"
proof -
  let ?sz = "k * VOLUME_BLOCK" and ?q = "''type:\"storage\" availableSize:'' @ decimal (k * VOLUME_BLOCK)"
  have sz: "dc * ?sz div dc = ?sz" "?sz div VOLUME_BLOCK = k" using assms(3) by (simp_all add: VOLUME_BLOCK_def)
  obtain b pr where q: "query_nodes D net ?q ?sz (dc + cc) (kademliaUrl D) ({}, []) m = Some (Ended b pr m2)" and e: "v = volume_json ?sz dc cc (snd pr)"
    using assms(3-5) by (auto simp: CreateVolumePartitions_def Let_def sz split: option.splits rounds.splits)
  have "progress_ok host_of P (?sz div VOLUME_BLOCK) ({}, []) (vm_world m)" by (simp add: progress_ok_def)
  with creation.query_nodes_ok [OF assms(1) _ q] assms(2)
  have g: "manager_ok D host_of P m2" "progress_ok host_of P k pr (vm_world m2)" unfolding sz by simp_all
  then show ?thesis using e by (metis prod.collapse)
qed

lemma CreateVolume_success:
  assumes "creation D host_of P (k * VOLUME_BLOCK)" and "manager_ok D host_of P m" and "0 < dc" and "can_write (conf_path name)"
    and "CreateVolume D net can_write name (dc * (k * VOLUME_BLOCK)) dc cc m = Some (True, m1)"
  shows "\<exists>used parts. manager_ok D host_of P m1 \<and> progress_ok host_of P k (used, parts) (vm_world m1) \<and> length parts = dc + cc \<and>
    vm_conf m1 (conf_path name) = Some (StyledWriter_write (volume_json (k * VOLUME_BLOCK) dc cc parts))"
proof -
  obtain v m2 where v: "CreateVolumePartitions D net (dc * (k * VOLUME_BLOCK)) dc cc m = Some (v, m2)"
    "m1 = m2\<lparr>vm_conf := (vm_conf m2)(conf_path name := Some (StyledWriter_write v))\<rparr>" "partition_count v = cc + dc"
    using assms(4,5) by (auto simp: CreateVolume_def Let_def split: option.splits)
  have "v \<noteq> JNull" using v(3) assms(3) by (auto simp: partition_count_def json_at_def)
  then obtain used parts where p: "manager_ok D host_of P m2" "progress_ok host_of P k (used, parts) (vm_world m2)"
    "v = volume_json (k * VOLUME_BLOCK) dc cc parts"
    using CreateVolumePartitions_ok [OF assms(1-3) v(1)] by blast
  then have "length parts = dc + cc" using v(3) by (simp add: partition_count_volume)
  with p v(2) show ?thesis by (auto simp: manager_ok_def)
qed

text \<open>A configuration with these numbers loads; they may be signed or not.\<close>

definition number_json :: "nat \<Rightarrow> Json \<Rightarrow> bool" where
  "number_json n j \<longleftrightarrow> j = JUInt n \<or> j = JInt (int n)"

lemma LoadVolumeFromJson_created:
  assumes "directory_ok D host_of P" and "cached_ok D host_of P (vm_cache m)" and "snd ` set parts \<subseteq> P" and "length parts = dc + cc"
    and "dc + cc \<le> 256" and "number_json k jk" and "number_json bs jb" and "number_json dc jd" and "number_json cc jc"
  shows "\<exists>r m'. LoadVolumeFromJson D (JObject [(''blockCount'', jk), (''blockSize'', jb), (''codeBlocks'', jc), (''dataBlocks'', jd),
      (''partitions'', JArray (map partition_json parts))]) m = Some (r, m') \<and>
    (r = None \<or> r = Some (\<lparr>blockCount = k, dataCount = dc, codeCount = cc, blockSize = bs,
      partitions = handles (Volume_new dc cc k bs) 0 (dc + cc)\<rparr>, map (\<lambda>(n, p). (host_of p, n)) parts)) \<and>
    (directory_up D P \<longrightarrow> r \<noteq> None) \<and> vm_world m' = vm_world m \<and> cached_ok D host_of P (vm_cache m')"
proof -
  let ?v = "Volume_new dc cc k bs"
  have w: "wrap64 (dc + cc) = dc + cc" using assms(5) by (intro wrap64_id) simp
  have l: "0 + length parts = length (partitions ?v)" using assms(4) w by (simp add: Volume_new_def)
  have "LoadVolumeFromJson D (JObject [(''blockCount'', jk), (''blockSize'', jb), (''codeBlocks'', jc), (''dataBlocks'', jd),
      (''partitions'', JArray (map partition_json parts))]) m = load_partitions D 0 (map partition_json parts) ?v [] m"
    using assms(4,6-9) w by (auto simp: number_json_def LoadVolumeFromJson_def json_defs)
  with load_partitions_ok [OF assms(1-3) l, of "[]"] assms(4) show ?thesis by (simp add: Volume_new_def)
qed

lemma LoadVolume_created:
  assumes "directory_ok D host_of P" and "cached_ok D host_of P (vm_cache m)" and "snd ` set parts \<subseteq> P" and "length parts = dc + cc"
    and "0 < dc" and "dc + cc \<le> 256" and "k * VOLUME_BLOCK < 2 ^ 53"
    and "vm_conf m (conf_path name) = Some (StyledWriter_write (volume_json (k * VOLUME_BLOCK) dc cc parts))" and "\<forall>n \<in> fst ` set parts. plain_name n"
  shows "\<exists>r m'. LoadVolume D name [] m = Some (r, m') \<and>
    (r = None \<or> r = Some (\<lparr>blockCount = k, dataCount = dc, codeCount = cc, blockSize = VOLUME_BLOCK,
      partitions = handles (Volume_new dc cc k VOLUME_BLOCK) 0 (dc + cc)\<rparr>, map (\<lambda>(n, p). (host_of p, n)) parts)) \<and>
    (directory_up D P \<longrightarrow> r \<noteq> None) \<and> vm_world m' = vm_world m"
proof -
  have ne: "parts \<noteq> []" using assms(4,5) by auto
  have n: "number_json n (reread (JUInt n))" for n by (simp add: number_json_def)
  have "\<forall>p \<in> P. CHR 0x00 \<notin> set p" using assms(1) by (simp add: directory_ok_def)
  then have "readable (partition_json p)" if "p \<in> set parts" for p
    using that assms(3,9) by (auto simp: partition_json_def image_subset_iff plain_no_zero)
  moreover have "k < 18446744073709551610" using assms(7) by (simp add: VOLUME_BLOCK_def)
  ultimately have "readable (volume_json (k * VOLUME_BLOCK) dc cc parts)"
    using assms(6) ne by (simp add: volume_json_def ceil_blocks_exact [OF assms(7)]) (simp add: VOLUME_BLOCK_def)
  note p = parse_styled [OF this]
  obtain r m' where "LoadVolumeFromJson D (JObject [(''blockCount'', reread (JUInt k)), (''blockSize'', reread (JUInt VOLUME_BLOCK)), (''codeBlocks'', reread (JUInt cc)),
      (''dataBlocks'', reread (JUInt dc)), (''partitions'', JArray (map partition_json parts))]) m = Some (r, m')"
    and r: "r = None \<or> r = Some (\<lparr>blockCount = k, dataCount = dc, codeCount = cc, blockSize = VOLUME_BLOCK,
      partitions = handles (Volume_new dc cc k VOLUME_BLOCK) 0 (dc + cc)\<rparr>, map (\<lambda>(n, p). (host_of p, n)) parts)"
      "directory_up D P \<longrightarrow> r \<noteq> None" "vm_world m' = vm_world m"
    using LoadVolumeFromJson_created [OF assms(1-4,6) n n n n, of k VOLUME_BLOCK] by blast
  then have "LoadVolume D name [] m = Some (r, m')"
    using assms(8) ne p by (simp add: reread_partition LoadVolume_def volume_json_def ceil_blocks_exact [OF assms(7)])
  with r show ?thesis by blast
qed

section \<open>The new volume at its places\<close>

lemma nth_handles: "i < n \<Longrightarrow> handles v 0 n ! i = handle v i"
  by (simp add: handles_def)

lemma created_placed:
  assumes "progress_ok host_of P k (used, parts) w" and "length parts = dc + cc" and "0 < dc" and "dc + cc \<le> 256"
    and "k * dc * VOLUME_BLOCK \<le> 2 ^ 63"
    and "v = \<lparr>blockCount = k, dataCount = dc, codeCount = cc, blockSize = VOLUME_BLOCK,
      partitions = handles (Volume_new dc cc k VOLUME_BLOCK) 0 (dc + cc)\<rparr>"
    and "pls = map (\<lambda>(n, p). (host_of p, n)) parts"
  shows "placed (nth pls) v" and "net_ok (nth pls) v w"
    and "col < dc + cc \<Longrightarrow> net_cell (nth pls) v w row col = replicate VOLUME_BLOCK 0"
proof -
  have len: "length (partitions v) = dc + cc" by (simp add: assms(6))
  have ref: "pt_ref (part_at v col) = col" "partitions v ! col \<noteq> None" if "col < dc + cc" for col
    using that by (simp_all add: assms(6) part_at_def nth_handles handle_def)
  have pl: "pls ! col = (host_of (snd (parts ! col)), fst (parts ! col))" if "col < dc + cc" for col
    using that assms(2) by (simp add: assms(7) split_beta)
  have z: "zero_part w (host_of (snd (parts ! col))) (fst (parts ! col)) k" if "col < dc + cc" for col
  proof -
    have "parts ! col \<in> set parts" using that assms(2) by simp
    with assms(1) show ?thesis by (auto simp: progress_ok_def)
  qed
  have d: "distinct pls" using assms(1) by (simp add: progress_ok_def assms(7))
  have "volume_ok v"
    using ref(2) len assms(3-5) by (auto simp: volume_ok_def in_set_conv_nth) (simp_all add: assms(6) VOLUME_BLOCK_def mult.assoc)
  moreover have "pls ! i \<noteq> pls ! j" if "i < dc + cc" "j < dc + cc" "i \<noteq> j" for i j
    using nth_eq_iff_index_eq [OF d, of i j] that assms(2) by (simp add: assms(7))
  ultimately show "placed (nth pls) v"
    using z pl ref(1) len length_invalid_text by (auto simp: placed_def zero_part_def plain_name_def) (simp_all add: assms(6) VOLUME_BLOCK_def)
  have bs: "blockSize v = VOLUME_BLOCK" "blockCount v = k" by (simp_all add: assms(6))
  show "net_ok (nth pls) v w"
    unfolding net_ok_def len Let_def bs using ref(1) pl z by (fastforce simp: zero_part_def)
  show "net_cell (nth pls) v w row col = replicate VOLUME_BLOCK 0" if col: "col < dc + cc"
  proof -
    obtain bc where bc: "part_ok (hosts w (host_of (snd (parts ! col)))) (fst (parts ! col)) bc VOLUME_BLOCK (BitSet_new bc)"
      using z [OF col] by (auto simp: zero_part_def)
    show ?thesis using block_data_ok(1) [OF bc, of row] part_ok_host_blocks [OF bc] ref(1) [OF col] pl [OF col]
      by (simp add: net_cell_def Let_def bs)
  qed
qed

section \<open>Properties\<close>

text \<open>
  C6. From nothing to a volume, for sizes that are a multiple of 64K for every data block: whatever
  calls to the providers get lost and whichever lookups of an endpoint are answered, when
  \<open>CreateVolume\<close> reports success then \<open>LoadVolume\<close> of the configuration it has written returns, and a
  volume it returns has the size that was asked for, one partition at a place of its own for every
  data and code block, of providers that are all different, every block zero, and it satisfies what
  the volume relies on (\<open>placed\<close>, \<open>net_ok\<close>). It does return a volume when the first node answers the
  lookups of the providers. For other sizes the client counts one row more than a provider grants.
\<close>

theorem CreateVolume_LoadVolume:
  assumes "directory_ok D host_of P" and "manager_ok D host_of P m"
    and "0 < k" and "k * VOLUME_BLOCK < 2 ^ 53" and "0 < dc" and "dc + cc \<le> 256" and "can_write (conf_path name)"
    and "CreateVolume D net can_write name (dc * (k * VOLUME_BLOCK)) dc cc m = Some (True, m1)"
  shows "\<exists>r m2. LoadVolume D name [] m1 = Some (r, m2) \<and> (directory_up D P \<longrightarrow> r \<noteq> None) \<and>
    (\<forall>v pls. r = Some (v, pls) \<longrightarrow> DataSize v = dc * (k * VOLUME_BLOCK) \<and>
      dataCount v = dc \<and> codeCount v = cc \<and> length pls = dc + cc \<and> (inj_on host_of P \<longrightarrow> distinct (map fst pls)) \<and>
      placed (nth pls) v \<and> net_ok (nth pls) v (vm_world m2) \<and>
      (\<forall>row. \<forall>col < dc + cc. net_cell (nth pls) v (vm_world m2) row col = replicate VOLUME_BLOCK 0))"
proof -
  have cr: "creation D host_of P (k * VOLUME_BLOCK)"
    using assms(1,3,4) by unfold_locales (simp_all add: VOLUME_BLOCK_def)
  obtain used parts where c: "manager_ok D host_of P m1" "progress_ok host_of P k (used, parts) (vm_world m1)" "length parts = dc + cc"
    "vm_conf m1 (conf_path name) = Some (StyledWriter_write (volume_json (k * VOLUME_BLOCK) dc cc parts))"
    using CreateVolume_success [OF cr assms(2,5,7,8)] by blast
  let ?v = "\<lparr>blockCount = k, dataCount = dc, codeCount = cc, blockSize = VOLUME_BLOCK,
      partitions = handles (Volume_new dc cc k VOLUME_BLOCK) 0 (dc + cc)\<rparr>"
  let ?pls = "map (\<lambda>(n, p). (host_of p, n)) parts"
  have ca: "cached_ok D host_of P (vm_cache m1)" "snd ` set parts \<subseteq> P" using c(1,2) by (simp_all add: manager_ok_def progress_ok_def)
  have pn: "\<forall>n \<in> fst ` set parts. plain_name n" using c(2) by (auto simp: progress_ok_def zero_part_def)
  obtain r m2 where l: "LoadVolume D name [] m1 = Some (r, m2)" "r = None \<or> r = Some (?v, ?pls)" "directory_up D P \<longrightarrow> r \<noteq> None" "vm_world m2 = vm_world m1"
    using LoadVolume_created [OF assms(1) ca c(3) assms(5,6,4) c(4) pn] by blast
  have "dc * (k * VOLUME_BLOCK) \<le> 256 * 2 ^ 53" using assms(4-6) by (intro mult_le_mono) auto
  then have b: "k * dc * VOLUME_BLOCK \<le> 2 ^ 63" "DataSize ?v = dc * (k * VOLUME_BLOCK)"
    by (simp_all add: DataSize_def ac_simps)
  note pl = created_placed [OF c(2,3) assms(5,6) b(1) refl refl]
  have "distinct (map fst ?pls)" if "inj_on host_of P"
  proof -
    have "map fst ?pls = map host_of (map snd parts)" by (simp add: split_beta)
    moreover have "inj_on host_of (set (map snd parts))" using that ca(2) by (auto intro: inj_on_subset)
    moreover have "distinct (map snd parts)" using c(2) by (simp add: progress_ok_def)
    ultimately show ?thesis unfolding distinct_map [of host_of] by (simp only: distinct_map [of host_of] simp_thms)
  qed
  with l pl b(2) c(3) show ?thesis by (intro exI [of _ r] exI [of _ m2]) auto
qed

text \<open>Two providers and a node that knows them.\<close>

definition demo_endpoint :: "string \<Rightarrow> HostInfo" where
  "demo_endpoint p = \<lparr>url = p, relays = []\<rparr>"

definition demo_contract :: "string \<Rightarrow> Json" where
  "demo_contract p = JObject [(''availableSize'', JUInt 1000000), (''contract'', JString ''c''), (''name'', JString p), (''reputation'', JUInt 1)]"

definition demo_directory :: discovery where
  "demo_directory = \<lparr>kademliaUrl = [''k''], kad_GetValue = (\<lambda>t kd key. Some (ToString (demo_endpoint (drop 3 key)))),
     kad_QueryStorage = (\<lambda>t kd q n. Some (JArray [demo_contract ''a'', demo_contract ''bb''])),
     host_at = length, clock = id\<rparr>"

definition fresh_host :: host where
  "fresh_host = \<lparr>dirs = (\<lambda>_. None), totalReserved = None, hostSize = 1000000, can_open = (\<lambda>_ _. True), map_open = (\<lambda>_. True),
     config_open = (\<lambda>_. True), trash_word = 0, junk_word = 0, uuids = (\<lambda>k. ''u'' @ decimal k), issued = 0\<rparr>"

definition demo_manager :: manager where
  "demo_manager = \<lparr>vm_world = \<lparr>hosts = (\<lambda>_. fresh_host), calls = 0\<rparr>,
     vm_cache = \<lparr>lookup_cache = [], lookup_file = True, cacheExpiry = 1000\<rparr>, vm_tick = 0, vm_conf = (\<lambda>_. None)\<rparr>"

lemma demo_endpoint_read: "p \<in> {''a'', ''bb''} \<Longrightarrow> FromString HostInfo_new (ToString (demo_endpoint p)) = Some (True, demo_endpoint p)"
  by (rule ToString_read) (auto simp: plain_info_def demo_endpoint_def)

lemma ToString_nonempty: "ToString h \<noteq> []"
  by (simp add: ToString_def host_json_def)

lemma demo_directory_ok: "directory_ok demo_directory length {''a'', ''bb''}"
proof -
  have "endpoint_ok demo_directory length p (ToString (demo_endpoint p))" if "p \<in> {''a'', ''bb''}" for p
    using demo_endpoint_read [OF that] that by (auto simp: endpoint_ok_def demo_directory_def demo_endpoint_def)
  then show ?thesis
    unfolding directory_ok_def by (auto simp: demo_directory_def json_defs demo_contract_def)
qed

lemma demo_directory_up: "directory_up demo_directory P"
  by (simp add: directory_up_def demo_directory_def ToString_nonempty)

lemma demo_manager_ok: "manager_ok demo_directory length {''a'', ''bb''} demo_manager"
proof -
  have d: "decimal a = decimal b \<Longrightarrow> a = b" for a b using digits_val_decimal by metis
  have "plain_name (''u'' @ decimal k)" for k
    using decimal_digits [of k] by (auto simp: plain_name_def isdigit_def)
  then show ?thesis
    by (auto simp: manager_ok_def world_ok_def host_ok_def demo_manager_def fresh_host_def cached_ok_def inj_def GetReservedSpace_def dest: d)
qed

interpretation demo_creation: creation demo_directory "\<lambda>_. Delivered" length "{''a'', ''bb''}" VOLUME_BLOCK
  by unfold_locales (use demo_directory_ok in \<open>simp_all add: demo_directory_def VOLUME_BLOCK_def\<close>)

lemma demo_partition:
  assumes "world_ok (vm_world m)" and "hosts (vm_world m) (length (url ep)) = fresh_host"
  shows "\<exists>w'. new_partition demo_directory (\<lambda>_. Delivered) VOLUME_BLOCK ep m = (Some ''u0'', m\<lparr>vm_world := w'\<rparr>) \<and> world_ok w' \<and>
    (\<forall>q. q \<noteq> length (url ep) \<longrightarrow> hosts w' q = hosts (vm_world m) q)"
proof -
  obtain r m' where r: "new_partition demo_directory (\<lambda>_. Delivered) VOLUME_BLOCK ep m = (r, m')" by (rule prod.exhaust)
  have d: "host_at demo_directory = length" by (simp add: demo_directory_def)
  have "char_of (48 :: nat) = CHR ''0''" by code_simp
  then have u: "uuids fresh_host (issued fresh_host) = ''u0''" by (simp add: fresh_host_def decimal.simps)
  have "VOLUME_BLOCK + GetReservedSpace fresh_host [] \<le> hostSize fresh_host"
    by (simp add: GetReservedSpace_def fresh_host_def VOLUME_BLOCK_def)
  with new_partition_ok [OF assms(1) le_refl _ r] r show ?thesis
    by (auto simp: d assms(2) u VOLUME_BLOCK_def)
qed

lemma demo_partitions: "\<exists>m1. CreateVolumePartitions demo_directory (\<lambda>_. Delivered) (1 * (1 * VOLUME_BLOCK)) 1 1 demo_manager =
  Some (volume_json (1 * VOLUME_BLOCK) 1 1 [(''u0'', ''a''), (''u0'', ''bb'')], m1)"
proof -
  let ?text = "\<lambda>p. JString (ToString (demo_endpoint p))"
  have ep: "GetProviderEndpoint demo_directory p m = Some (\<lparr>url = p, relays = []\<rparr>, m') \<longleftrightarrow>
      m' = m\<lparr>vm_cache := Lookup_SetValue (Suc (Suc (vm_tick m))) p (?text p) (vm_cache m), vm_tick := Suc (Suc (vm_tick m))\<rparr>"
    if "map_find (lookup_cache (vm_cache m)) p = None" "p \<in> {''a'', ''bb''}" for p m m'
    using that demo_endpoint_read [OF that(2)] by (auto simp: GetProviderEndpoint_def Lookup_GetValue_def demo_directory_def ToString_nonempty demo_endpoint_def)
  have w: "world_ok (vm_world demo_manager)" "hosts (vm_world demo_manager) = (\<lambda>_. fresh_host)"
    using demo_manager_ok by (simp_all add: manager_ok_def demo_manager_def)
  let ?m = "demo_manager\<lparr>vm_tick := 1\<rparr>"
  let ?m1 = "?m\<lparr>vm_cache := Lookup_SetValue (Suc (Suc (vm_tick ?m))) ''a'' (?text ''a'') (vm_cache ?m), vm_tick := Suc (Suc (vm_tick ?m))\<rparr>"
  obtain w1 where p1: "new_partition demo_directory (\<lambda>_. Delivered) VOLUME_BLOCK \<lparr>url = ''a'', relays = []\<rparr> ?m1 = (Some ''u0'', ?m1\<lparr>vm_world := w1\<rparr>)"
    "world_ok w1" "hosts w1 2 = fresh_host"
    using demo_partition [of ?m1 "\<lparr>url = ''a'', relays = []\<rparr>"] w by auto
  let ?m2 = "?m1\<lparr>vm_world := w1\<rparr>"
  let ?m3 = "?m2\<lparr>vm_cache := Lookup_SetValue (Suc (Suc (vm_tick ?m2))) ''bb'' (?text ''bb'') (vm_cache ?m2), vm_tick := Suc (Suc (vm_tick ?m2))\<rparr>"
  obtain w2 where p2: "new_partition demo_directory (\<lambda>_. Delivered) VOLUME_BLOCK \<lparr>url = ''bb'', relays = []\<rparr> ?m3 = (Some ''u0'', ?m3\<lparr>vm_world := w2\<rparr>)"
    using demo_partition [of ?m3 "\<lparr>url = ''bb'', relays = []\<rparr>"] p1(2,3) by (auto simp: numeral_2_eq_2)
  have e1: "GetProviderEndpoint demo_directory ''a'' ?m = Some (\<lparr>url = ''a'', relays = []\<rparr>, ?m1)"
    by (subst ep) (simp_all add: demo_manager_def)
  have e2: "GetProviderEndpoint demo_directory ''bb'' ?m2 = Some (\<lparr>url = ''bb'', relays = []\<rparr>, ?m3)"
    by (subst ep) (simp_all add: demo_manager_def Lookup_SetValue_def)
  have "try_contracts demo_directory (\<lambda>_. Delivered) VOLUME_BLOCK 2
      [\<lparr>ct_name = ''c'', ct_provider = ''a'', ct_size = 1000000, ct_reputation = 1\<rparr>, \<lparr>ct_name = ''c'', ct_provider = ''bb'', ct_size = 1000000, ct_reputation = 1\<rparr>] ({}, []) ?m =
    Some (({''a'', ''bb''}, [(''u0'', ''a''), (''u0'', ''bb'')]), ?m3\<lparr>vm_world := w2\<rparr>)"
    using e1 e2 p1(1) p2 by (simp add: Let_def insert_commute)
  moreover have "read_contracts [demo_contract ''a'', demo_contract ''bb''] =
      Some [\<lparr>ct_name = ''c'', ct_provider = ''a'', ct_size = 1000000, ct_reputation = 1\<rparr>, \<lparr>ct_name = ''c'', ct_provider = ''bb'', ct_size = 1000000, ct_reputation = 1\<rparr>]"
    by (simp add: demo_contract_def json_defs)
  ultimately have "query_rounds demo_directory (\<lambda>_. Delivered) ''k'' q VOLUME_BLOCK 2 1 False ({}, []) demo_manager =
      Some (Ended True ({''a'', ''bb''}, [(''u0'', ''a''), (''u0'', ''bb'')]) (?m3\<lparr>vm_world := w2\<rparr>))" for q
    by (subst query_rounds.simps) (simp add: demo_directory_def json_defs demo_manager_def numeral_2_eq_2)
  then show ?thesis
    by (simp add: CreateVolumePartitions_def numeral_2_eq_2) (simp add: demo_directory_def)
qed

lemma demo_created: "\<exists>m1. CreateVolume demo_directory (\<lambda>_. Delivered) (\<lambda>_. True) ''v'' (1 * (1 * VOLUME_BLOCK)) 1 1 demo_manager = Some (True, m1)"
  using demo_partitions by (auto simp: CreateVolume_def partition_count_volume)

theorem CreateVolume_LoadVolume_witness:
  "\<exists>m1 v pls m2. LoadVolume demo_directory ''v'' [] m1 = Some (Some (v, pls), m2) \<and> DataSize v = 65536 \<and> placed (nth pls) v \<and>
     net_ok (nth pls) v (vm_world m2) \<and> map fst pls \<noteq> []"
proof -
  obtain m1 where c: "CreateVolume demo_directory (\<lambda>_. Delivered) (\<lambda>_. True) ''v'' (1 * (1 * VOLUME_BLOCK)) 1 1 demo_manager = Some (True, m1)"
    using demo_created by blast
  obtain r m2 where l: "LoadVolume demo_directory ''v'' [] m1 = Some (r, m2)" "r \<noteq> None"
    and p: "\<forall>v pls. r = Some (v, pls) \<longrightarrow> DataSize v = 1 * (1 * VOLUME_BLOCK) \<and> length pls = 1 + 1 \<and> placed (nth pls) v \<and> net_ok (nth pls) v (vm_world m2)"
    using CreateVolume_LoadVolume [OF demo_directory_ok demo_manager_ok _ _ _ _ _ c] demo_directory_up by (auto simp: VOLUME_BLOCK_def)
  then obtain v pls where r: "r = Some (v, pls)" by auto
  then have "map fst pls \<noteq> []" "DataSize v = 65536" using p by (auto simp: VOLUME_BLOCK_def)
  with l p r show ?thesis by blast
qed

end
