(* ===== verification/Uncached.thy ===== *)
theory Uncached
  imports Volume
begin

text \<open>
  What every call of a cell leaves alone, an operation of the volume leaves alone. The locale
  \<open>preserved\<close> carries a predicate on the state from the cells to the operations; its instance says
  that a volume without a cache stays without one.
\<close>

locale preserved =
  fixes rc :: "'s cell_read" and wc :: "'s cell_write" and Q :: "'s \<Rightarrow> bool"
  assumes rc_keeps: "Q s \<Longrightarrow> Q (snd (rc row col sz off s))"
    and wc_keeps: "Q s \<Longrightarrow> Q (snd (wc row col d off s))"
begin

lemma rcD: "rc row col sz off s = (r, s') \<Longrightarrow> Q s \<Longrightarrow> Q s'"
  using rc_keeps by (metis snd_conv)

lemma wcD: "wc row col d off s = (r, s') \<Longrightarrow> Q s \<Longrightarrow> Q s'"
  using wc_keeps by (metis snd_conv)

lemma read_row_keeps: "Q s \<Longrightarrow> Q (snd (read_row rc bs row is s))"
  by (induction "is" arbitrary: s) (auto dest: rcD split: prod.splits, metis rcD snd_conv)

lemma write_codes_keeps: "Q s \<Longrightarrow> Q (write_codes wc bs dc row code is s)"
  by (induction "is" arbitrary: s) (auto intro: wc_keeps)

lemma Row_Encode_keeps: "Q s \<Longrightarrow> Q (snd (Row_Encode cm rc wc v row s))"
  using read_row_keeps [of s "blockSize v" row "[0..<dataCount v]"]
  by (auto simp: Row_Encode_def intro: write_codes_keeps split: prod.splits option.splits)

lemma decode_data_keeps: "Q s \<Longrightarrow> Q (snd (decode_data rc v row is s))"
proof (induction "is" arbitrary: s)
  case (Cons i "is")
  obtain r s1 where r: "rc row i (blockSize v) 0 s = (r, s1)" by (rule prod.exhaust)
  from Cons(1) [OF Cons(2)] Cons(1) [OF rcD [OF r Cons(2)]] rcD [OF r Cons(2)] r show ?case
    by (auto split: prod.splits option.splits)
qed simp

lemma write_recovered_keeps: "Q s \<Longrightarrow> Q (write_recovered wc row blocks is s)"
  by (induction "is" arbitrary: s) (auto intro: wc_keeps)

lemma decode_code_keeps: "Q s \<Longrightarrow> Q (snd (decode_code cm rc wc v row missing mi is blocks s))"
proof (induction "is" arbitrary: s mi blocks)
  case (Cons i "is")
  obtain r s1 where r: "rc row (i + dataCount v) (blockSize v) 0 s = (r, s1)" by (rule prod.exhaust)
  from Cons(1) [OF Cons(2)] Cons(1) [OF rcD [OF r Cons(2)]] rcD [OF r Cons(2)] r show ?case
    by (auto simp: Let_def intro: write_recovered_keeps split: option.splits)
qed simp

lemma Row_Decode_keeps: "Q s \<Longrightarrow> Q (snd (Row_Decode cm rc wc v row s))"
proof -
  assume Q: "Q s"
  obtain r s1 where d: "decode_data rc v row [0..<dataCount v] s = (r, s1)" by (rule prod.exhaust)
  with decode_data_keeps [OF Q, of v row "[0..<dataCount v]"] have Q1: "Q s1" by simp
  show ?thesis
  proof (cases r)
    case (Some bm)
    obtain blocks missing where bm: "bm = (blocks, missing)" by (rule prod.exhaust)
    obtain r2 s2 where c: "(if missing \<noteq> [] then decode_code cm rc wc v row missing 0 [0..<codeCount v] blocks s1 else (Some blocks, s1)) = (r2, s2)"
      by (rule prod.exhaust)
    then have "Q s2" using decode_code_keeps [OF Q1, of cm v row missing 0 "[0..<codeCount v]" blocks] Q1 by (auto split: if_splits)
    then show ?thesis using d Some c by (auto simp: Row_Decode_def bm intro: write_codes_keeps split: option.splits)
  qed (use d Q1 in \<open>simp add: Row_Decode_def\<close>)
qed

lemma verify_cols_keeps: "Q s \<Longrightarrow> Q (snd (verify_cols cm rc wc v row ps s))"
proof (induction ps arbitrary: s)
  case (Cons p ps)
  obtain b s1 where d: "Row_Decode cm rc wc v row s = (b, s1)" by (rule prod.exhaust)
  with Row_Decode_keeps [OF Cons(2), of cm v row] have "Q s1" by simp
  with Cons d show ?case by (cases p; cases b) auto
qed simp

lemma Row_Verify_keeps: "Q s \<Longrightarrow> Q (snd (Row_Verify cm rc wc v row s))"
  by (simp add: Row_Verify_def verify_cols_keeps)

lemma encrypt_cell_keeps: "Q s \<Longrightarrow> Q (snd (encrypt_cell A bs rc wc row col d off s))"
  by (auto simp: encrypt_cell_def intro: wc_keeps dest: rcD split: prod.splits option.splits if_splits)

lemma decrypt_cell_keeps: "Q s \<Longrightarrow> Q (snd (decrypt_cell A bs rc row col sz off s))"
  by (auto simp: decrypt_cell_def dest: rcD split: prod.splits option.splits)

lemma write_loop_keeps:
  assumes "\<And>row col d off s. Q s \<Longrightarrow> Q (snd (wcell row col d off s))" and "\<And>row s. Q s \<Longrightarrow> Q (snd (encode row s))"
    and "\<And>row s. Q s \<Longrightarrow> Q (snd (verify row s))" and "Q s"
  shows "Q (snd (write_loop bs dc wcell encode verify row col off buffer s))"
  using assms(4)
proof (induction "length buffer" arbitrary: buffer row col off s rule: less_induct)
  case less
  let ?k = "if length buffer > bs - off then bs - off else length buffer"
  obtain b s1 where w: "wcell row col (take ?k buffer) off s = (b, s1)" by (rule prod.exhaust)
  obtain b2 s2 where e: "encode row s1 = (b2, s2)" by (rule prod.exhaust)
  obtain b3 s3 where v: "verify (Suc row) s2 = (b3, s3)" by (rule prod.exhaust)
  have Q: "Q s1" "Q s2" "Q s3"
    using assms(1) [OF less(2), of row col "take ?k buffer" off] assms(2) [of s1 row] assms(3) [of s2 "Suc row"] w e v by simp_all
  have l: "length (drop ?k buffer) < length buffer" if "drop ?k buffer \<noteq> []" "?k \<noteq> 0" using that by auto
  show ?case
  proof (cases "drop ?k buffer = [] \<or> ?k = 0")
    case True
    with w e Q show ?thesis by (subst write_loop.simps) (cases b; auto simp: Let_def)
  next
    case False
    with less(1) [OF l Q(1)] less(1) [OF l Q(3)] w e v Q show ?thesis
      by (subst write_loop.simps) (cases b; cases b2; cases b3; auto simp: Let_def)
  qed
qed

lemma read_loop_keeps:
  assumes "\<And>row col sz off s. Q s \<Longrightarrow> Q (snd (rcell row col sz off s))" and "\<And>row s. Q s \<Longrightarrow> Q (snd (verify row s))" and "Q s"
  shows "Q (snd (read_loop bs dc rcell verify row col off sz s))"
  using assms(3)
proof (induction sz arbitrary: row col off s rule: less_induct)
  case (less sz)
  let ?k = "if sz > bs - off then bs - off else sz"
  obtain r s1 where w: "rcell row col ?k off s = (r, s1)" by (rule prod.exhaust)
  obtain b2 s2 where v: "verify (Suc row) s1 = (b2, s2)" by (rule prod.exhaust)
  have Q: "Q s1" "Q s2" using assms(1) [OF less(2), of row col ?k off] assms(2) [of s1 "Suc row"] w v by simp_all
  have l: "sz - ?k < sz" if "sz - ?k \<noteq> 0" "?k \<noteq> 0" using that by auto
  show ?case
  proof (cases "sz - ?k = 0 \<or> ?k = 0")
    case True
    with w Q show ?thesis by (subst read_loop.simps) (cases r; auto simp: Let_def)
  next
    case False
    with less(1) [OF l Q(1), of row "Suc col" 0] less(1) [OF l Q(2), of "Suc row" 0 0] w v Q show ?thesis
      by (subst read_loop.simps) (cases r; cases b2; auto simp: Let_def split: prod.splits option.splits)
  qed
qed

lemma striped_keeps:
  assumes "Q s"
  shows "Q (snd (write_striped v (encrypt_cell A bs rc wc) (Row_Encode cm rc wc v) (Row_Verify cm rc wc v) buffer off s))"
    and "Q (snd (read_striped v (decrypt_cell A bs rc) (Row_Verify cm rc wc v) sz off s))"
proof -
  have V: "Q s1" if "Row_Verify cm rc wc v row s = (b, s1)" for row b s1 using Row_Verify_keeps [OF assms, of cm v row] that by simp
  have W: "Q (snd (write_loop bs' dc (encrypt_cell A bs rc wc) (Row_Encode cm rc wc v) (Row_Verify cm rc wc v) row col o' buffer s1))"
    if "Q s1" for bs' dc row col o' s1
    by (rule write_loop_keeps) (simp_all add: that encrypt_cell_keeps Row_Encode_keeps Row_Verify_keeps)
  have R: "Q (snd (read_loop bs' dc (decrypt_cell A bs rc) (Row_Verify cm rc wc v) row col o' sz s1))" if "Q s1" for bs' dc row col o' s1
    by (rule read_loop_keeps) (simp_all add: that decrypt_cell_keeps Row_Verify_keeps)
  show "Q (snd (write_striped v (encrypt_cell A bs rc wc) (Row_Encode cm rc wc v) (Row_Verify cm rc wc v) buffer off s))"
    using assms by (auto simp: write_striped_def Let_def intro: W dest: V split: prod.splits bool.splits)
  show "Q (snd (read_striped v (decrypt_cell A bs rc) (Row_Verify cm rc wc v) sz off s))"
    using assms by (auto simp: read_striped_def Let_def intro: R dest: V split: prod.splits bool.splits)
qed

end

interpretation uncached: preserved "ReadCached R es v" "WriteCached R es v" "\<lambda>s. fst s = None" for R es v
  by unfold_locales (auto simp: ReadCached_def WriteCached_def split: prod.splits option.splits)

lemma WriteEncrypt_uncached: "fst s = None \<Longrightarrow> fst (snd (WriteEncrypt cm A R es v d off s)) = None"
  using uncached.striped_keeps(1) by (simp add: WriteEncrypt_def Let_def)

lemma ReadDecrypt_uncached: "fst s = None \<Longrightarrow> fst (snd (ReadDecrypt cm A R es v sz off s)) = None"
  using uncached.striped_keeps(2) by (simp add: ReadDecrypt_def Let_def)

end
