(* ===== verification/RemoteProvider.thy ===== *)
theory RemoteProvider
  imports BlobApi RemoteBlob VolumeManager Uncached
begin

text \<open>
  \<open>bdblob/RemoteBlobProvider\<close>: blobs as encrypted volumes that the volume manager creates at the
  providers and finds again through the blob map. The world behind the provider is the record
  \<open>cloud\<close>: the volume manager with the providers, the identifiers of \<open>uuid_generate\<close>, the folders of
  the local directory, and for every blob that is open the volume object it owns. An exception of
  the JSON library, a division by zero and a conversion of an infinite number set \<open>fault\<close>.
\<close>

record cloud =
  cl_manager :: manager
  cl_uuids :: "nat \<Rightarrow> string"
  cl_issued :: nat
  cl_folder :: "string \<Rightarrow> bool"
  cl_volumes :: "string \<Rightarrow> (Volume \<times> place list \<times> cache option) option"

text \<open>What the process works with: the directory of providers, the network, the codes and the clock of the cells.\<close>

record machine =
  mc_discovery :: discovery
  mc_net :: "nat \<Rightarrow> fault"
  mc_timeout :: "nat \<Rightarrow> u32"
  mc_cm :: cm256
  mc_aes :: aes
  mc_env :: "nat \<Rightarrow> env"
  mc_rootPath :: string

definition set_manager :: "manager \<Rightarrow> cloud blob_env \<Rightarrow> cloud blob_env" where
  "set_manager m e = e\<lparr>disk := (disk e)\<lparr>cl_manager := m\<rparr>\<rparr>"

definition own_volume :: "string \<Rightarrow> Volume \<times> place list \<times> cache option \<Rightarrow> cloud blob_env \<Rightarrow> cloud blob_env" where
  "own_volume ident vp e = e\<lparr>disk := (disk e)\<lparr>cl_volumes := (cl_volumes (disk e))(ident \<mapsto> vp)\<rparr>\<rparr>"

definition load_blob :: "machine \<Rightarrow> string \<Rightarrow> (Volume \<Rightarrow> nat) \<Rightarrow> Json \<Rightarrow> cloud blob_env \<Rightarrow> IBlob option \<times> cloud blob_env" where
  "load_blob M ident size_of json e =
     (case LoadVolumeFromJson (mc_discovery M) json (cl_manager (disk e)) of
        None \<Rightarrow> (None, e\<lparr>fault := True\<rparr>)
      | Some (None, m) \<Rightarrow> (None, set_manager m e)
      | Some (Some (v, pls), m) \<Rightarrow> (Some (RemoteBlob_new ident (size_of v)), own_volume ident (v, pls, None) (set_manager m e)))"

text \<open>The loop that records the partitions; \<open>None\<close> is the early return.\<close>

fun add_partitions :: "Json list \<Rightarrow> BlobMetadata \<Rightarrow> BlobMetadata option option" where
  "add_partitions [] m = Some (Some m)"
| "add_partitions (j # js) m =
     Option.bind (json_at j ''name'') (\<lambda>n. Option.bind (json_at j ''provider'') (\<lambda>p.
       case (n, p) of (JString name, JString provider) \<Rightarrow> add_partitions js (AddPartition m name provider) | _ \<Rightarrow> Some None))"

text \<open>
  \<open>volumeInfo["blockSize"]\<close> makes an object of a null value, so that the check of \<open>isNull\<close> that
  follows never holds.
\<close>

definition touch_fields :: "Json \<Rightarrow> Json" where
  "touch_fields v = (if v = JNull then JObject [(''blockSize'', JNull), (''partitions'', JNull)] else v)"

definition Remote_NewBlob :: "machine \<Rightarrow> BlobConfig \<Rightarrow> nat \<Rightarrow> cloud blob_env \<Rightarrow> IBlob option \<times> cloud blob_env" where
  "Remote_NewBlob M cfg sz e =
     (let ident = cl_uuids (disk e) (cl_issued (disk e));
          e0 = e\<lparr>disk := (disk e)\<lparr>cl_issued := Suc (cl_issued (disk e))\<rparr>\<rparr>
      in if cl_folder (disk e0) (mc_rootPath M @ ''/'' @ ident) then (None, e0)
         else case blobMap e0 of
                None \<Rightarrow> (None, e0)
              | Some bm \<Rightarrow>
                  (case CreateVolumePartitions (mc_discovery M) (mc_net M) sz (cfg_dataBlocks cfg mod 2 ^ 16) (cfg_codeBlocks cfg mod 2 ^ 16)
                          (cl_manager (disk e0)) of
                     None \<Rightarrow> (None, e0\<lparr>fault := True\<rparr>)
                   | Some (v, m) \<Rightarrow>
                       let volumeInfo = touch_fields v; e1 = set_manager m e0
                       in case (Option.bind (json_at volumeInfo ''blockSize'') asUInt, json_at volumeInfo ''partitions'') of
                            (Some bs, Some ps) \<Rightarrow>
                              (case add_partitions (items_of ps) \<lparr>md_size = word_of_nat sz, md_blockSize = word_of_nat bs, md_partitions = []\<rparr> of
                                 None \<Rightarrow> (None, e1\<lparr>fault := True\<rparr>)
                               | Some None \<Rightarrow> (None, e1)
                               | Some (Some md) \<Rightarrow>
                                   load_blob M ident (\<lambda>_. sz) volumeInfo (e1\<lparr>blobMap := Some (SetMetadata bm ident md)\<rparr>))
                          | _ \<Rightarrow> (None, e1\<lparr>fault := True\<rparr>)))"

text \<open>
  \<open>std::ceil((Size / DataBlocks) * 1.0 / BlockSize)\<close>, as for \<open>ceil_blocks\<close>; the block size of a
  blob is the one that \<open>NewBlob\<close> has recorded, a power of two.
\<close>

definition ceil_quotient :: "nat \<Rightarrow> nat \<Rightarrow> nat" where
  "ceil_quotient n b = (to_double n + (b - 1)) div b"

definition blob_json :: "BlobConfig \<Rightarrow> BlobMetadata \<Rightarrow> Json" where
  "blob_json cfg md =
     JObject [(''blockCount'', JUInt (ceil_quotient (unat (md_size md) div cfg_dataBlocks cfg) (unat (md_blockSize md)))),
       (''blockSize'', JUInt (unat (md_blockSize md))), (''codeBlocks'', JUInt (cfg_codeBlocks cfg)), (''dataBlocks'', JUInt (cfg_dataBlocks cfg)),
       (''partitions'', if md_partitions md = [] then JNull
          else JArray (map (\<lambda>p. partition_json (info_name p, info_provider p)) (md_partitions md)))]"

definition Remote_OpenBlob :: "machine \<Rightarrow> BlobConfig \<Rightarrow> string \<Rightarrow> cloud blob_env \<Rightarrow> IBlob option \<times> cloud blob_env" where
  "Remote_OpenBlob M cfg ident e =
     (case blobMap e of
        None \<Rightarrow> (None, e)
      | Some bm \<Rightarrow>
          (case GetMetadata bm ident BlobMetadata_new of
             (False, _) \<Rightarrow> (None, e)
           | (True, md) \<Rightarrow>
               if cfg_dataBlocks cfg = 0 \<or> md_blockSize md = 0 then (None, e\<lparr>fault := True\<rparr>)
               else load_blob M ident DataSize (blob_json cfg md) e))"

text \<open>Local files only: the volume stays at the providers and the metadata in the map.\<close>

definition Remote_DeleteBlob :: "machine \<Rightarrow> string \<Rightarrow> cloud blob_env \<Rightarrow> cloud blob_env" where
  "Remote_DeleteBlob M ident e =
     (let dir = mc_rootPath M @ ''/'' @ ident
      in e\<lparr>local_files := (local_files e)(dir @ ''/blob'' := None, dir @ ''/.size'' := None, dir := None)\<rparr>)"

text \<open>The calls of a blob go to the volume it owns; no cache is enabled for it.\<close>

definition cloud_remote :: "machine \<Rightarrow> place list \<Rightarrow> world remote" where
  "cloud_remote M pls = net_remote (mc_net M) (nth pls) (mc_timeout M)"

definition on_volume :: "IBlob \<Rightarrow> 'r \<Rightarrow> (Volume \<Rightarrow> place list \<Rightarrow> world vstate \<Rightarrow> 'r \<times> world vstate) \<Rightarrow> cloud blob_env \<Rightarrow> 'r \<times> cloud blob_env" where
  "on_volume b zero f e =
     (case cl_volumes (disk e) (blob_id b) of
        None \<Rightarrow> (zero, e\<lparr>fault := True\<rparr>)
      | Some (v, pls, c) \<Rightarrow>
          (let m = cl_manager (disk e); (r, c1, w1) = f v pls (c, vm_world m)
           in (r, own_volume (blob_id b) (v, pls, c1) (set_manager (m\<lparr>vm_world := w1\<rparr>) e))))"

definition Cloud_Read :: "machine \<Rightarrow> IBlob \<Rightarrow> nat \<Rightarrow> nat \<Rightarrow> cloud blob_env \<Rightarrow> byte list \<times> cloud blob_env" where
  "Cloud_Read M b offset len =
     on_volume b [] (\<lambda>v pls. RemoteBlob_Read (ReadDecrypt (mc_cm M) (mc_aes M) (cloud_remote M pls) (mc_env M) v) b offset len)"

definition Cloud_Write :: "machine \<Rightarrow> IBlob \<Rightarrow> nat \<Rightarrow> byte list \<Rightarrow> cloud blob_env \<Rightarrow> nat \<times> cloud blob_env" where
  "Cloud_Write M b offset d =
     on_volume b 0 (\<lambda>v pls. RemoteBlob_Write (WriteEncrypt (mc_cm M) (mc_aes M) (cloud_remote M pls) (mc_env M) v) b offset d)"

definition RemoteBlobProvider :: "machine \<Rightarrow> BlobConfig \<Rightarrow> cloud BlobProvider" where
  "RemoteBlobProvider M cfg = \<lparr>NewBlob = Remote_NewBlob M cfg, OpenBlob = Remote_OpenBlob M cfg, DeleteBlob = Remote_DeleteBlob M,
     Blob_Read = Cloud_Read M, Blob_Write = Cloud_Write M\<rparr>"

section \<open>A remote blob keeps the contract of blobs\<close>

text \<open>The state of the volume that a blob owns, and what it relies on.\<close>

definition blob_state :: "IBlob \<Rightarrow> cloud blob_env \<Rightarrow> world vstate" where
  "blob_state b e = (case cl_volumes (disk e) (blob_id b) of None \<Rightarrow> (None, vm_world (cl_manager (disk e)))
     | Some (v, pls, c) \<Rightarrow> (c, vm_world (cl_manager (disk e))))"

definition blob_ready :: "IBlob \<Rightarrow> Volume \<Rightarrow> place list \<Rightarrow> cloud blob_env \<Rightarrow> bool" where
  "blob_ready b v pls e \<longleftrightarrow> cl_volumes (disk e) (blob_id b) = Some (v, pls, None) \<and> client_ok (nth pls) v (blob_state b e)"

definition blob_bytes :: "machine \<Rightarrow> IBlob \<Rightarrow> Volume \<Rightarrow> place list \<Rightarrow> cloud blob_env \<Rightarrow> byte list" where
  "blob_bytes M b v pls e = clear_bytes (mc_aes M) (nth pls) v (blob_state b e)"

locale cloud_blob =
  fixes M :: machine and b :: IBlob and v :: Volume and pls :: "place list"
  assumes placed: "placed (nth pls) v" and cm: "cm256_ok (mc_cm M) v" and aes: "aes_ok (mc_aes M)" and bs16: "blockSize v mod 16 = 0"

sublocale cloud_blob \<subseteq> sec: secret_volume "mc_net M" "nth pls" "mc_timeout M" v "mc_env M" "mc_cm M" "mc_aes M"
  by (rule secret_volumeI [OF placed cm aes bs16])

lemma on_volume_step:
  assumes "blob_ready b v pls e" and "on_volume b zero f e = (r, e')" and "fst (snd (f v pls (None, vm_world (cl_manager (disk e))))) = None"
  shows "f v pls (blob_state b e) = (r, blob_state b e')" and "cl_volumes (disk e') (blob_id b) = Some (v, pls, None)"
    and "blobMap e' = blobMap e" and "vm_cache (cl_manager (disk e')) = vm_cache (cl_manager (disk e))"
proof -
  have c: "cl_volumes (disk e) (blob_id b) = Some (v, pls, None)" using assms(1) by (simp add: blob_ready_def)
  then have s: "blob_state b e = (None, vm_world (cl_manager (disk e)))" by (simp add: blob_state_def)
  obtain r1 w1 where f: "f v pls (None, vm_world (cl_manager (disk e))) = (r1, None, w1)" using assms(3) by (metis prod.collapse)
  then have e': "r = r1" "e' = own_volume (blob_id b) (v, pls, None) (set_manager ((cl_manager (disk e))\<lparr>vm_world := w1\<rparr>) e)"
    using assms(2) c by (simp_all add: on_volume_def Let_def)
  then show "f v pls (blob_state b e) = (r, blob_state b e')" "cl_volumes (disk e') (blob_id b) = Some (v, pls, None)"
    "blobMap e' = blobMap e" "vm_cache (cl_manager (disk e')) = vm_cache (cl_manager (disk e))"
    using f unfolding s by (simp_all add: blob_state_def own_volume_def set_manager_def)
qed

lemma RemoteBlob_uncached:
  "fst s = None \<Longrightarrow> fst (snd (RemoteBlob_Write (WriteEncrypt cm A R es v) b off d s)) = None"
  "fst s = None \<Longrightarrow> fst (snd (RemoteBlob_Read (ReadDecrypt cm A R es v) b off n s)) = None"
  using WriteEncrypt_uncached [of s cm A R es v d off] ReadDecrypt_uncached [of s cm A R es v n off]
  by (auto simp: RemoteBlob_Write_def RemoteBlob_Read_def split: prod.splits option.splits)

sublocale cloud_blob \<subseteq> cloud: blob_io "Cloud_Read M b" "Cloud_Write M b" "blob_bytes M b v pls" "blob_ready b v pls"
proof
  fix s s' :: "cloud blob_env" and off n k :: nat and d :: "byte list"
  assume ok: "blob_ready b v pls s"
  then have c: "client_ok (nth pls) v (blob_state b s)" by (simp add: blob_ready_def)
  { assume w: "Cloud_Write M b off d s = (k, s')"
    note st = on_volume_step [OF ok w [unfolded Cloud_Write_def] RemoteBlob_uncached(1), simplified]
    note rw = st(1) [unfolded cloud_remote_def]
    show "k \<le> length d" by (rule sec.remote_blob.write_bound [OF c rw])
    show "blob_ready b v pls s' \<and> length (blob_bytes M b v pls s') = length (blob_bytes M b v pls s)"
      using sec.remote_blob.write_ok [OF c rw] st(2) by (simp add: blob_ready_def blob_bytes_def)
    show "off + length d \<le> length (blob_bytes M b v pls s) \<and> blob_bytes M b v pls s' = poke off d (blob_bytes M b v pls s)" if "k = length d" "d \<noteq> []"
      using sec.remote_blob.write_range [OF c rw that] by (simp add: blob_bytes_def) }
  { assume r: "Cloud_Read M b off n s = (d, s')"
    note st = on_volume_step [OF ok r [unfolded Cloud_Read_def] RemoteBlob_uncached(2), simplified]
    note rr = st(1) [unfolded cloud_remote_def]
    show "blob_ready b v pls s' \<and> blob_bytes M b v pls s' = blob_bytes M b v pls s"
      using sec.remote_blob.read_ok [OF c rr] st(2) by (simp add: blob_ready_def blob_bytes_def)
    show "d = peek off (length d) (blob_bytes M b v pls s) \<and> length d \<le> n" if "d \<noteq> []"
      using sec.remote_blob.read_range [OF c rr that] by (simp add: blob_bytes_def) }
qed

section \<open>New blobs and their metadata\<close>

lemma load_partitions_step:
  assumes "load_partitions D i (j # js) v pls m = Some (Some r, m')"
  obtains pls1 v1 m1 b where "SetPartition v i (Some \<lparr>pt_blockCount = blockCount v, pt_blockSize = blockSize v, pt_ref = i\<rparr>) = Some (b, v1)"
    and "load_partitions D (Suc i) js v1 pls1 m1 = Some (Some r, m')"
proof -
  obtain n p where np: "json_at j ''name'' = Some n" "json_at j ''provider'' = Some p" using assms by (auto simp: bind_eq_Some_conv)
  obtain name provider where "n = JString name" "p = JString provider" using assms np by (cases n; cases p) auto
  with assms np that show thesis by (auto simp: bind_eq_Some_conv split: if_splits option.splits)
qed

lemma load_partitions_bound:
  "load_partitions D i js v pls m = Some (Some r, m') \<Longrightarrow> i \<le> length (partitions v) \<Longrightarrow> i + length js \<le> length (partitions v)"
proof (induction js arbitrary: i v pls m)
  case (Cons j js)
  obtain pls1 v1 m1 b where s: "SetPartition v i (Some \<lparr>pt_blockCount = blockCount v, pt_blockSize = blockSize v, pt_ref = i\<rparr>) = Some (b, v1)"
    and l: "load_partitions D (Suc i) js v1 pls1 m1 = Some (Some r, m')"
    by (rule load_partitions_step [OF Cons.prems(1)])
  have "i < length (partitions v)" "length (partitions v1) = length (partitions v)"
    using s Cons.prems(2) by (auto simp: SetPartition_def split: if_splits)
  with Cons.IH [OF l] show ?case by simp
qed simp

definition info_of :: "string \<times> string \<Rightarrow> PartitionInfo" where
  "info_of np = \<lparr>info_name = fst np, info_provider = snd np\<rparr>"

lemma add_partitions_json:
  "add_partitions (map partition_json parts) md = Some (Some (md\<lparr>md_partitions := md_partitions md @ map info_of parts\<rparr>))"
  by (induction parts arbitrary: md) (auto simp: partition_json_fields AddPartition_def info_of_def)

text \<open>What a successful \<open>NewBlob\<close> has done.\<close>

lemma Remote_NewBlob_Some:
  assumes "Remote_NewBlob M cfg sz e = (Some b, e1)"
  obtains bm v0 m bs ps md vol pls m1 where "blobMap e = Some bm"
    and "CreateVolumePartitions (mc_discovery M) (mc_net M) sz (cfg_dataBlocks cfg mod 2 ^ 16) (cfg_codeBlocks cfg mod 2 ^ 16) (cl_manager (disk e)) = Some (v0, m)"
    and "v0 \<noteq> JNull" and "Option.bind (json_at v0 ''blockSize'') asUInt = Some bs" and "json_at v0 ''partitions'' = Some ps"
    and "add_partitions (items_of ps) \<lparr>md_size = word_of_nat sz, md_blockSize = word_of_nat bs, md_partitions = []\<rparr> = Some (Some md)"
    and "LoadVolumeFromJson (mc_discovery M) v0 m = Some (Some (vol, pls), m1)"
    and "b = RemoteBlob_new (cl_uuids (disk e) (cl_issued (disk e))) sz"
    and "blobMap e1 = Some (SetMetadata bm (blob_id b) md)" and "cl_volumes (disk e1) (blob_id b) = Some (vol, pls, None)"
    and "cl_manager (disk e1) = m1"
proof -
  let ?id = "cl_uuids (disk e) (cl_issued (disk e))"
  obtain bm where bm: "blobMap e = Some bm" using assms by (auto simp: Remote_NewBlob_def Let_def split: option.splits if_splits)
  obtain v0 m where c: "CreateVolumePartitions (mc_discovery M) (mc_net M) sz (cfg_dataBlocks cfg mod 2 ^ 16) (cfg_codeBlocks cfg mod 2 ^ 16) (cl_manager (disk e)) = Some (v0, m)"
    using assms bm by (auto simp: Remote_NewBlob_def Let_def split: option.splits if_splits)
  obtain bs ps md where j: "Option.bind (json_at (touch_fields v0) ''blockSize'') asUInt = Some bs" "json_at (touch_fields v0) ''partitions'' = Some ps"
    "add_partitions (items_of ps) \<lparr>md_size = word_of_nat sz, md_blockSize = word_of_nat bs, md_partitions = []\<rparr> = Some (Some md)"
    using assms bm c by (auto simp: Remote_NewBlob_def Let_def split: option.splits if_splits)
  let ?e = "(set_manager m (e\<lparr>disk := (disk e)\<lparr>cl_issued := Suc (cl_issued (disk e))\<rparr>\<rparr>))\<lparr>blobMap := Some (SetMetadata bm ?id md)\<rparr>"
  have l: "load_blob M ?id (\<lambda>_. sz) (touch_fields v0) ?e = (Some b, e1)"
    using assms bm c j by (simp add: Remote_NewBlob_def Let_def split: if_splits)
  then obtain vol pls m1 where v: "LoadVolumeFromJson (mc_discovery M) (touch_fields v0) m = Some (Some (vol, pls), m1)"
    and b: "b = RemoteBlob_new ?id sz" and e1: "e1 = own_volume ?id (vol, pls, None) (set_manager m1 ?e)"
    by (auto simp: load_blob_def set_manager_def split: option.splits prod.splits)
  have n: "v0 \<noteq> JNull" using v by (auto simp: touch_fields_def LoadVolumeFromJson_def json_defs)
  then have "touch_fields v0 = v0" by (simp add: touch_fields_def)
  with that [OF bm c n _ _ j(3) _ b] j(1,2) v show ?thesis unfolding e1 b
    by (simp add: own_volume_def set_manager_def RemoteBlob_new_def)
qed

lemma volume_json_fields:
  "Option.bind (json_at (volume_json sz dc cc parts) ''blockSize'') asUInt = Some VOLUME_BLOCK"
  "json_at (volume_json sz dc cc parts) ''partitions'' = Some (if parts = [] then JNull else JArray (map partition_json parts))"
  by (simp_all add: volume_json_def json_defs)

lemma LoadVolumeFromJson_length:
  assumes "LoadVolumeFromJson D (volume_json sz dc cc parts) m = Some (Some r, m1)" and "dc + cc \<le> 256" and "0 < dc"
  shows "length parts = dc + cc"
proof -
  have w: "wrap64 (dc + cc) = dc + cc" using assms(2) by (intro wrap64_id) simp
  let ?v = "Volume_new dc cc (ceil_blocks sz) VOLUME_BLOCK"
  have "length parts \<ge> dc + cc" and "load_partitions D 0 (map partition_json parts) ?v [] m = Some (Some r, m1)"
    using assms(1,3) w by (auto simp: LoadVolumeFromJson_def volume_json_def json_defs split: if_splits)
  with load_partitions_bound [OF this(2)] show ?thesis by (simp add: Volume_new_def w)
qed

lemma metadata_fits:
  assumes "\<forall>(n, p) \<in> set parts. length n \<le> L \<and> length p \<le> L" and "L < 2 ^ 32" and "length parts \<le> 256"
    and "md = \<lparr>md_size = a, md_blockSize = c, md_partitions = map info_of parts\<rparr>"
  shows "valid_metadata md" and "Metadata_GetSerializedSize md \<le> 20 + length parts * (8 + 2 * L)" and "Metadata_GetSerializedSize md < 2 ^ 64"
proof -
  show "valid_metadata md" using assms by (auto simp: valid_metadata_def valid_info_def info_of_def)
  have "sum_list (map (\<lambda>np. (4 + length (fst np)) + (4 + length (snd np))) parts) \<le> length parts * (8 + 2 * L)"
    using assms(1) by (induction parts) auto
  then show le: "Metadata_GetSerializedSize md \<le> 20 + length parts * (8 + 2 * L)"
    by (simp add: assms(4) Metadata_GetSerializedSize_def comp_def info_of_def)
  have "length parts * (8 + 2 * L) \<le> 256 * (8 + 2 * 2 ^ 32)" using assms(2,3) by (intro mult_le_mono) auto
  with le show "Metadata_GetSerializedSize md < 2 ^ 64" by simp
qed

text \<open>The blob a successful \<open>NewBlob\<close> returns is ready, and its metadata lead to the same volume again.\<close>

lemma NewBlob_ready:
  assumes "directory_ok (mc_discovery M) host_of P"
    and "manager_ok (mc_discovery M) host_of P (cl_manager (disk e))" and "0 < k" and "k * VOLUME_BLOCK < 2 ^ 53"
    and "0 < cfg_dataBlocks cfg" and "cfg_dataBlocks cfg + cfg_codeBlocks cfg \<le> 256"
    and "Remote_NewBlob M cfg (cfg_dataBlocks cfg * (k * VOLUME_BLOCK)) e = (Some b, e1)"
  obtains bm parts v where "blobMap e = Some bm" and "length parts = cfg_dataBlocks cfg + cfg_codeBlocks cfg" and "snd ` set parts \<subseteq> P"
    and "v = \<lparr>blockCount = k, dataCount = cfg_dataBlocks cfg, codeCount = cfg_codeBlocks cfg, blockSize = VOLUME_BLOCK,
      partitions = handles (Volume_new (cfg_dataBlocks cfg) (cfg_codeBlocks cfg) k VOLUME_BLOCK) 0 (cfg_dataBlocks cfg + cfg_codeBlocks cfg)\<rparr>"
    and "cl_volumes (disk e1) (blob_id b) = Some (v, map (\<lambda>(n, p). (host_of p, n)) parts, None)"
    and "placed (nth (map (\<lambda>(n, p). (host_of p, n)) parts)) v" and "blob_ready b v (map (\<lambda>(n, p). (host_of p, n)) parts) e1"
    and "blobMap e1 = Some (SetMetadata bm (blob_id b) \<lparr>md_size = word_of_nat (cfg_dataBlocks cfg * (k * VOLUME_BLOCK)),
      md_blockSize = word_of_nat VOLUME_BLOCK, md_partitions = map info_of parts\<rparr>)"
    and "cached_ok (mc_discovery M) host_of P (vm_cache (cl_manager (disk e1)))"
    and "b = RemoteBlob_new (cl_uuids (disk e) (cl_issued (disk e))) (cfg_dataBlocks cfg * (k * VOLUME_BLOCK))"
proof -
  let ?D = "mc_discovery M" and ?dc = "cfg_dataBlocks cfg" and ?cc = "cfg_codeBlocks cfg"
  have md: "?dc mod 2 ^ 16 = ?dc" "?cc mod 2 ^ 16 = ?cc" using assms(6) by simp_all
  have cr: "creation ?D host_of P (k * VOLUME_BLOCK)" using assms(1,3,4) by unfold_locales (simp_all add: VOLUME_BLOCK_def)
  obtain bm v0 m bs ps md vol pls m1 where n: "blobMap e = Some bm"
    "CreateVolumePartitions ?D (mc_net M) (?dc * (k * VOLUME_BLOCK)) ?dc ?cc (cl_manager (disk e)) = Some (v0, m)" "v0 \<noteq> JNull"
    "Option.bind (json_at v0 ''blockSize'') asUInt = Some bs" "json_at v0 ''partitions'' = Some ps"
    "add_partitions (items_of ps) \<lparr>md_size = word_of_nat (?dc * (k * VOLUME_BLOCK)), md_blockSize = word_of_nat bs, md_partitions = []\<rparr> = Some (Some md)"
    "LoadVolumeFromJson ?D v0 m = Some (Some (vol, pls), m1)"
    "b = RemoteBlob_new (cl_uuids (disk e) (cl_issued (disk e))) (?dc * (k * VOLUME_BLOCK))"
    "blobMap e1 = Some (SetMetadata bm (blob_id b) md)" "cl_volumes (disk e1) (blob_id b) = Some (vol, pls, None)" "cl_manager (disk e1) = m1"
    by (rule Remote_NewBlob_Some [OF assms(7), unfolded md])
  obtain used parts where p: "manager_ok ?D host_of P m" "progress_ok host_of P k (used, parts) (vm_world m)" "v0 = volume_json (k * VOLUME_BLOCK) ?dc ?cc parts"
    using CreateVolumePartitions_ok [OF cr assms(2,5) n(2,3)] by blast
  have len: "length parts = ?dc + ?cc" using LoadVolumeFromJson_length [OF n(7) [unfolded p(3)] assms(6,5)] .
  have sub: "snd ` set parts \<subseteq> P" using p(2) by (simp add: progress_ok_def)
  have ne: "parts \<noteq> []" using len assms(5) by auto
  have ca: "cached_ok ?D host_of P (vm_cache m)" using p(1) by (simp add: manager_ok_def)
  let ?v = "\<lparr>blockCount = k, dataCount = ?dc, codeCount = ?cc, blockSize = VOLUME_BLOCK, partitions = handles (Volume_new ?dc ?cc k VOLUME_BLOCK) 0 (?dc + ?cc)\<rparr>"
  let ?pls = "map (\<lambda>(n, p). (host_of p, n)) parts"
  have nj: "number_json x (JUInt x)" for x by (simp add: number_json_def)
  obtain r m' where lv: "LoadVolumeFromJson ?D v0 m = Some (r, m')" "r = None \<or> r = Some (?v, ?pls)" "vm_world m' = vm_world m"
      "cached_ok ?D host_of P (vm_cache m')"
    using LoadVolumeFromJson_created [OF assms(1) ca sub len assms(6) nj nj nj nj, of k VOLUME_BLOCK] ne
    by (auto simp: p(3) volume_json_def ceil_blocks_exact [OF assms(4)])
  then have r: "vol = ?v" "pls = ?pls" "m1 = m'" using n(7) by auto
  have "?dc * (k * VOLUME_BLOCK) \<le> 256 * 2 ^ 53" using assms(4-6) by (intro mult_le_mono) auto
  then have k: "k * ?dc * VOLUME_BLOCK \<le> 2 ^ 63" by (simp add: ac_simps)
  note pl = created_placed [OF p(2) len assms(5,6) k refl refl]
  have ready: "blob_ready b ?v ?pls e1"
    using n(10,11) pl(2) lv(3) r by (simp add: blob_ready_def blob_state_def client_ok_def vok_def)
  have mdv: "md = \<lparr>md_size = word_of_nat (?dc * (k * VOLUME_BLOCK)), md_blockSize = word_of_nat VOLUME_BLOCK, md_partitions = map info_of parts\<rparr>"
    using n(4-6) ne unfolding p(3) volume_json_fields by (auto simp: items_of_def add_partitions_json)
  show ?thesis using that [OF n(1) len sub refl n(10) [unfolded r] pl(1) ready n(9) [unfolded mdv] _ n(8)] lv(4) n(11) r(3) by simp
qed

context cloud_blob
begin

lemma write_frame:
  assumes "blob_ready b v pls e" and "Cloud_Write M b off d e = (r, e')"
  shows "blob_ready b v pls e'" and "blobMap e' = blobMap e" and "vm_cache (cl_manager (disk e')) = vm_cache (cl_manager (disk e))"
  using on_volume_step(3,4) [OF assms(1) assms(2) [unfolded Cloud_Write_def] RemoteBlob_uncached(1)] cloud.write_ok [OF assms] by simp_all

lemma put_frame:
  assumes "blob_ready b v pls e" and "put_loop (Cloud_Write M b) n data 0 0 e = (t, e')"
  shows "blobMap e' = blobMap e" and "vm_cache (cl_manager (disk e')) = vm_cache (cl_manager (disk e))"
proof -
  let ?Q = "\<lambda>x. blob_ready b v pls x \<and> blobMap x = blobMap e \<and> vm_cache (cl_manager (disk x)) = vm_cache (cl_manager (disk e))"
  have "?Q (snd (Cloud_Write M b off d x))" if "?Q x" for off d x
    using write_frame [of x off d] that by (metis prod.collapse)
  then have "?Q (snd (put_loop (Cloud_Write M b) n data 0 0 e))"
    using put_loop_invariant [of ?Q "Cloud_Write M b" e n data 0 0] assms(1) by blast
  then show "blobMap e' = blobMap e" "vm_cache (cl_manager (disk e')) = vm_cache (cl_manager (disk e))"
    using assms(2) by simp_all
qed

lemma put_stores:
  assumes "blob_ready b v pls e" and "put_loop (Cloud_Write M b) n data 0 0 e = (length data, e')" and "n > 0" and "data \<noteq> []"
  shows "blob_ready b v pls e' \<and> blob_bytes M b v pls e' = poke 0 data (blob_bytes M b v pls e)"
  using cloud.put_loop_stores [OF assms(2,1) _ assms(3,4)] by simp

lemma get_delivers:
  assumes "blob_ready b v pls e" and "get_loop (Cloud_Read M b) n quota 0 len e = (out, e')"
  shows "length out \<le> len \<and> out = take (length out) (blob_bytes M b v pls e)"
  using cloud.get_loop_prefix [OF assms(2,1)] by (simp add: peek_def)

end

text \<open>
  Reopening a blob of a ready volume: the metadata give the same volume at the same places, or
  nothing when a lookup is not answered.
\<close>

lemma Remote_OpenBlob_same:
  assumes "directory_ok (mc_discovery M) host_of P" and "cached_ok (mc_discovery M) host_of P (vm_cache (cl_manager (disk e)))"
    and "length parts = cfg_dataBlocks cfg + cfg_codeBlocks cfg" and "snd ` set parts \<subseteq> P" and "0 < cfg_dataBlocks cfg"
    and "cfg_dataBlocks cfg + cfg_codeBlocks cfg \<le> 256" and "k * VOLUME_BLOCK < 2 ^ 53"
    and "blobMap e = Some bm" and "GetMetadata bm ident BlobMetadata_new = (True, \<lparr>md_size = word_of_nat (cfg_dataBlocks cfg * (k * VOLUME_BLOCK)),
      md_blockSize = word_of_nat VOLUME_BLOCK, md_partitions = map info_of parts\<rparr>)"
    and "v = \<lparr>blockCount = k, dataCount = cfg_dataBlocks cfg, codeCount = cfg_codeBlocks cfg, blockSize = VOLUME_BLOCK,
      partitions = handles (Volume_new (cfg_dataBlocks cfg) (cfg_codeBlocks cfg) k VOLUME_BLOCK) 0 (cfg_dataBlocks cfg + cfg_codeBlocks cfg)\<rparr>"
    and "pls = map (\<lambda>(n, p). (host_of p, n)) parts"
  shows "\<exists>m ob e'. Remote_OpenBlob M cfg ident e = (ob, e') \<and> (directory_up (mc_discovery M) P \<longrightarrow> ob \<noteq> None) \<and>
    (ob = None \<or> ob = Some (RemoteBlob_new ident (DataSize v)) \<and> e' = own_volume ident (v, pls, None) (set_manager m e)) \<and>
    vm_world m = vm_world (cl_manager (disk e))"
proof -
  let ?dc = "cfg_dataBlocks cfg" and ?cc = "cfg_codeBlocks cfg"
  let ?md = "\<lparr>md_size = word_of_nat (?dc * (k * VOLUME_BLOCK)), md_blockSize = word_of_nat VOLUME_BLOCK, md_partitions = map info_of parts\<rparr>"
  have "?dc * (k * VOLUME_BLOCK) \<le> 256 * 2 ^ 53" using assms(5-7) by (intro mult_le_mono) auto
  then have lt: "?dc * (k * VOLUME_BLOCK) < 2 ^ 64" "VOLUME_BLOCK < 2 ^ 64" by (simp_all add: VOLUME_BLOCK_def)
  have w: "unat (word_of_nat n :: u64) = n" if "n < 2 ^ 64" for n using that by (simp add: unat_of_nat)
  have u: "unat (md_size ?md) = ?dc * (k * VOLUME_BLOCK)" "unat (md_blockSize ?md) = VOLUME_BLOCK" "md_blockSize ?md \<noteq> 0"
    using w [OF lt(1)] w [OF lt(2)] by (simp_all add: VOLUME_BLOCK_def)
  have ne: "parts \<noteq> []" using assms(3,5) by auto
  have c: "ceil_quotient (k * VOLUME_BLOCK) VOLUME_BLOCK = k"
    using ceil_blocks_exact [OF assms(7)] by (simp add: ceil_quotient_def ceil_blocks_def)
  have j: "blob_json cfg ?md = JObject [(''blockCount'', JUInt k), (''blockSize'', JUInt VOLUME_BLOCK), (''codeBlocks'', JUInt ?cc), (''dataBlocks'', JUInt ?dc),
      (''partitions'', JArray (map partition_json parts))]"
    unfolding blob_json_def u using assms(5) ne by (simp add: c info_of_def comp_def)
  have nj: "number_json x (JUInt x)" for x by (simp add: number_json_def)
  obtain r m where l: "LoadVolumeFromJson (mc_discovery M) (blob_json cfg ?md) (cl_manager (disk e)) = Some (r, m)"
    and r: "r = None \<or> r = Some (v, pls)" "directory_up (mc_discovery M) P \<longrightarrow> r \<noteq> None" and w: "vm_world m = vm_world (cl_manager (disk e))"
    using LoadVolumeFromJson_created [OF assms(1,2,4,3,6) nj nj nj nj, of k VOLUME_BLOCK] unfolding j assms(10,11) by blast
  have o: "Remote_OpenBlob M cfg ident e = load_blob M ident DataSize (blob_json cfg ?md) e"
    using assms(5) u(3) unfolding Remote_OpenBlob_def assms(8,9) by (simp add: assms(9))
  show ?thesis
  proof (cases r)
    case None
    then have "fst (load_blob M ident DataSize (blob_json cfg ?md) e) = None" using l by (simp add: load_blob_def)
    then show ?thesis using None r(2) w unfolding o by (metis prod.collapse)
  next
    case (Some z)
    with r(1) have "load_blob M ident DataSize (blob_json cfg ?md) e = (Some (RemoteBlob_new ident (DataSize v)), own_volume ident (v, pls, None) (set_manager m e))"
      using l by (simp add: load_blob_def)
    then show ?thesis using w unfolding o by blast
  qed
qed

section \<open>Properties\<close>

text \<open>
  C8. A remote blob can be found again, for sizes that are a multiple of 64K for every data block:
  when \<open>RemoteBlobProvider::NewBlob\<close> returns a blob, whatever calls the network has lost on the way
  and whichever lookups were answered, and a copy into it reports all bytes, then what \<open>OpenBlob\<close> of
  its identifier returns, through the metadata in the blob map, is a blob of the same size, and
  everything a copy out of that blob delivers is a prefix of what was copied in; and \<open>OpenBlob\<close> does
  return a blob when the first node answers the lookups of the providers. \<open>L\<close> bounds the length of
  the names of providers and partitions, and the blob map has room for the metadata.
\<close>

theorem NewBlob_reopen:
  assumes "directory_ok (mc_discovery M) host_of P"
    and "manager_ok (mc_discovery M) host_of P (cl_manager (disk e))" and "0 < k" and "k * VOLUME_BLOCK < 2 ^ 53"
    and "0 < cfg_dataBlocks cfg" and "cfg_dataBlocks cfg + cfg_codeBlocks cfg \<le> 256" and "aes_ok (mc_aes M)"
    and "Remote_NewBlob M cfg (cfg_dataBlocks cfg * (k * VOLUME_BLOCK)) e = (Some b, e1)" and "blob_id b \<noteq> []"
    and "cl_volumes (disk e1) (blob_id b) = Some (v, pls, c)" and "cm256_ok (mc_cm M) v"
    and "blobMap e = Some bm" and "map_inv bm" and "20 + length pls * (8 + 2 * L) \<le> map_room bm" and "L < 2 ^ 32"
    and "\<forall>(h, n) \<in> set pls. length n \<le> L" and "\<forall>p \<in> P. length p \<le> L"
    and "put_loop (Cloud_Write M b) n data 0 0 e1 = (length data, e2)" and "0 < n" and "data \<noteq> []"
  shows "\<exists>ob e3. Remote_OpenBlob M cfg (blob_id b) e2 = (ob, e3) \<and> (directory_up (mc_discovery M) P \<longrightarrow> ob \<noteq> None) \<and>
    (\<forall>b'. ob = Some b' \<longrightarrow> blob_size b' = blob_size b \<and>
      (\<forall>n' quota out e4. get_loop (Cloud_Read M b') n' quota 0 (length data) e3 = (out, e4) \<longrightarrow> out = take (length out) data))"
proof -
  let ?dc = "cfg_dataBlocks cfg" and ?cc = "cfg_codeBlocks cfg"
  obtain bm' parts v' where r: "blobMap e = Some bm'" "length parts = ?dc + ?cc" "snd ` set parts \<subseteq> P"
    "v' = \<lparr>blockCount = k, dataCount = ?dc, codeCount = ?cc, blockSize = VOLUME_BLOCK, partitions = handles (Volume_new ?dc ?cc k VOLUME_BLOCK) 0 (?dc + ?cc)\<rparr>"
    "cl_volumes (disk e1) (blob_id b) = Some (v', map (\<lambda>(n, p). (host_of p, n)) parts, None)"
    "placed (nth (map (\<lambda>(n, p). (host_of p, n)) parts)) v'" "blob_ready b v' (map (\<lambda>(n, p). (host_of p, n)) parts) e1"
    "blobMap e1 = Some (SetMetadata bm' (blob_id b) \<lparr>md_size = word_of_nat (?dc * (k * VOLUME_BLOCK)), md_blockSize = word_of_nat VOLUME_BLOCK,
      md_partitions = map info_of parts\<rparr>)"
    "cached_ok (mc_discovery M) host_of P (vm_cache (cl_manager (disk e1)))"
    "b = RemoteBlob_new (cl_uuids (disk e) (cl_issued (disk e))) (?dc * (k * VOLUME_BLOCK))"
    by (rule NewBlob_ready [OF assms(1-6,8)])
  let ?md = "\<lparr>md_size = word_of_nat (?dc * (k * VOLUME_BLOCK)), md_blockSize = word_of_nat VOLUME_BLOCK, md_partitions = map info_of parts\<rparr>"
  have eq: "bm' = bm" "v' = v" "pls = map (\<lambda>(n, p). (host_of p, n)) parts" using r(1,5) assms(10,12) by simp_all
  have bs: "blockSize v mod 16 = 0" using r(4) by (simp add: eq VOLUME_BLOCK_def)
  have cb: "cloud_blob M v pls" using r(6) assms(7,11) bs unfolding eq by unfold_locales
  have rd: "blob_ready b v pls e1" using r(7) unfolding eq .
  note p = cloud_blob.put_stores [OF cb rd assms(18-20)] and f = cloud_blob.put_frame [OF cb rd assms(18)]
  have "\<forall>(n, p) \<in> set parts. length n \<le> L \<and> length p \<le> L" using assms(16,17) r(3) unfolding eq(3) by fastforce
  note md = metadata_fits [OF this assms(15), of ?md "word_of_nat (?dc * (k * VOLUME_BLOCK))" "word_of_nat VOLUME_BLOCK"]
  have m: "valid_metadata ?md" "Metadata_GetSerializedSize ?md \<le> map_room bm" "Metadata_GetSerializedSize ?md < 2 ^ 64"
    using md r(2) assms(6,14) by (simp_all add: eq(3))
  note g = SetMetadata_stored(1) [OF assms(13,9) m]
  have c2: "cached_ok (mc_discovery M) host_of P (vm_cache (cl_manager (disk e2)))" using r(9) f(2) by simp
  have b2: "blobMap e2 = Some (SetMetadata bm (blob_id b) ?md)" using r(8) f(1) eq(1) by simp
  obtain m ob e3 where o: "Remote_OpenBlob M cfg (blob_id b) e2 = (ob, e3)" "directory_up (mc_discovery M) P \<longrightarrow> ob \<noteq> None"
    "ob = None \<or> ob = Some (RemoteBlob_new (blob_id b) (DataSize v)) \<and> e3 = own_volume (blob_id b) (v, pls, None) (set_manager m e2)"
    and w: "vm_world m = vm_world (cl_manager (disk e2))"
    using Remote_OpenBlob_same [OF assms(1) c2 r(2,3) assms(5,6,4) b2 g, of v pls] r(4) eq by blast
  let ?b = "RemoteBlob_new (blob_id b) (DataSize v)" and ?e = "own_volume (blob_id b) (v, pls, None) (set_manager m e2)"
  have st: "blob_state ?b ?e = blob_state b e2" using p w
    by (simp add: blob_state_def blob_ready_def RemoteBlob_new_def own_volume_def set_manager_def)
  have rd': "blob_ready ?b v pls ?e" using p st by (simp add: blob_ready_def RemoteBlob_new_def own_volume_def)
  have cont: "blob_bytes M ?b v pls ?e = poke 0 data (blob_bytes M b v pls e1)" using p st by (simp add: blob_bytes_def)
  have "out = take (length out) data" if "get_loop (Cloud_Read M ?b) n' quota 0 (length data) ?e = (out, e4)" for n' quota out e4
  proof -
    have g: "length out \<le> length data" "out = take (length out) (poke 0 data (blob_bytes M b v pls e1))"
      using cloud_blob.get_delivers [OF cb rd' that] by (simp_all add: cont)
    then show ?thesis by (simp add: poke_def)
  qed
  moreover have "blob_size ?b = blob_size b"
  proof -
    have "?dc * (k * VOLUME_BLOCK) \<le> 256 * 2 ^ 53" using assms(4-6) by (intro mult_le_mono) auto
    then show ?thesis using r(4,10) eq(2) by (simp add: RemoteBlob_new_def DataSize_def ac_simps)
  qed
  ultimately show ?thesis using o by blast
qed

text \<open>Two providers, one data and one code block.\<close>

definition demo_machine :: machine where
  "demo_machine = \<lparr>mc_discovery = demo_directory, mc_net = (\<lambda>_. Delivered), mc_timeout = (\<lambda>_. 1000), mc_cm = demo_cm, mc_aes = demo_aes,
     mc_env = demo_env, mc_rootPath = ''.''\<rparr>"

definition demo_cloud :: "cloud blob_env" where
  "demo_cloud =
     \<lparr>disk = \<lparr>cl_manager = demo_manager, cl_uuids = (\<lambda>k. ''b''), cl_issued = 0, cl_folder = (\<lambda>_. False), cl_volumes = (\<lambda>_. None)\<rparr>,
      blobMap = Some \<lparr>mapFile = Some [], mapFilename = ''blob.cache'', indexes = [], fileLimit = 1000\<rparr>,
      time_now = 5, local_files = (\<lambda>_. None), local_open = (\<lambda>_. True), local_room = 1000, root_id = [], root_file = None,
      root_metadata = None, root_open = True, fault = False, stuck = False\<rparr>"

definition demo_blob_config :: BlobConfig where
  "demo_blob_config = \<lparr>cfg_dataBlocks = 1, cfg_codeBlocks = 1, cfg_blockSize = 65536\<rparr>"

interpretation demo_blob: cloud_blob demo_machine b demo_volume "map demo_place [0, 1, 2]" for b
proof
  have "map demo_place [0, 1, 2] ! i = demo_place i" if "i < 3" for i using that by (auto simp: less_Suc_eq numeral_3_eq_3 numeral_2_eq_2)
  then show "placed (nth (map demo_place [0, 1, 2])) demo_volume"
    using demo_placed demo_part_at by (simp add: placed_def demo_size demo_part_def) (simp add: demo_volume_def)
qed (use demo_cm_ok demo_aes_ok in \<open>simp_all add: demo_machine_def demo_size\<close>)

lemma demo_cm_any: "cm256_ok demo_cm v"
  by (simp add: cm256_ok_def demo_cm_def xor_code_def length_concat_const [where k = "blockSize v"])

lemma demo_NewBlob: "\<exists>b e1 v. Remote_NewBlob demo_machine demo_blob_config (1 * (1 * VOLUME_BLOCK)) demo_cloud = (Some b, e1) \<and> blob_id b = ''b'' \<and>
  cl_volumes (disk e1) (blob_id b) = Some (v, [(1, ''u0''), (2, ''u0'')], None)"
proof -
  let ?parts = "[(''u0'', ''a''), (''u0'', ''bb'')]" and ?P = "{''a'', ''bb''}"
  obtain m1 where c: "CreateVolumePartitions demo_directory (\<lambda>_. Delivered) (1 * (1 * VOLUME_BLOCK)) 1 1 demo_manager =
      Some (volume_json (1 * VOLUME_BLOCK) 1 1 ?parts, m1)" using demo_partitions by blast
  have "creation demo_directory length ?P (1 * VOLUME_BLOCK)" using demo_creation.creation_axioms by simp
  from CreateVolumePartitions_ok [OF this demo_manager_ok _ c] have "cached_ok demo_directory length ?P (vm_cache m1)"
    by (auto simp: volume_json_def manager_ok_def)
  moreover have nj: "number_json x (JUInt x)" for x by (simp add: number_json_def)
  moreover have cb: "ceil_blocks VOLUME_BLOCK = Suc 0" using ceil_blocks_exact [of "Suc 0"] by (simp add: VOLUME_BLOCK_def)
  ultimately obtain v m2 where l: "LoadVolumeFromJson demo_directory (volume_json (1 * VOLUME_BLOCK) 1 1 ?parts) m1 = Some (Some (v, [(1, ''u0''), (2, ''u0'')]), m2)"
    using demo_directory_up [of ?P] LoadVolumeFromJson_created [OF demo_directory_ok _ _ _ _ nj nj nj nj, of m1 ?parts 1 1 1 VOLUME_BLOCK]
    by (auto simp: volume_json_def numeral_2_eq_2)
  have t: "touch_fields (volume_json sz dc cc ps) = volume_json sz dc cc ps" for sz dc cc ps
    by (simp add: touch_fields_def volume_json_def)
  have ad: "add_partitions (items_of (JArray (map partition_json ?parts))) md = Some (Some (md\<lparr>md_partitions := md_partitions md @ map info_of ?parts\<rparr>))" for md
    unfolding items_of_def by (simp only: Json.case add_partitions_json)
  have ne: "?parts \<noteq> []" by simp
  have d: "blobMap demo_cloud \<noteq> None" "cl_folder (disk demo_cloud) = (\<lambda>_. False)" "cl_manager (disk demo_cloud) = demo_manager"
    "cfg_dataBlocks demo_blob_config = 1" "cfg_codeBlocks demo_blob_config = 1"
    "mc_discovery demo_machine = demo_directory" "mc_net demo_machine = (\<lambda>_. Delivered)"
    "cl_uuids (disk demo_cloud) (cl_issued (disk demo_cloud)) = ''b''"
    by (simp_all add: demo_cloud_def demo_blob_config_def demo_machine_def)
  then obtain bm where "blobMap demo_cloud = Some bm" by blast
  then show ?thesis
    using c l by (simp add: Remote_NewBlob_def Let_def d t volume_json_fields ad [simplified] load_blob_def set_manager_def own_volume_def RemoteBlob_new_def
        del: One_nat_def)
qed

theorem NewBlob_reopen_witness:
  "\<exists>b e1 e2 b' e3. Remote_NewBlob demo_machine demo_blob_config 65536 demo_cloud = (Some b, e1) \<and>
     put_loop (Cloud_Write demo_machine b) 8 [1, 2, 3] 0 0 e1 = (3, e2) \<and>
     Remote_OpenBlob demo_machine demo_blob_config (blob_id b) e2 = (Some b', e3) \<and> blob_size b' = blob_size b"
proof -
  let ?M = demo_machine and ?cfg = demo_blob_config and ?P = "{''a'', ''bb''}"
  obtain b e1 v where n: "Remote_NewBlob ?M ?cfg (cfg_dataBlocks ?cfg * (1 * VOLUME_BLOCK)) demo_cloud = (Some b, e1)" and id: "blob_id b = ''b''"
    and c: "cl_volumes (disk e1) (blob_id b) = Some (v, [(1, ''u0''), (2, ''u0'')], None)"
    using demo_NewBlob by (auto simp: demo_blob_config_def)
  have M: "directory_ok (mc_discovery ?M) length ?P"
    "manager_ok (mc_discovery ?M) length ?P (cl_manager (disk demo_cloud))" "aes_ok (mc_aes ?M)" "cm256_ok (mc_cm ?M) v"
    using demo_directory_ok demo_manager_ok demo_aes_ok demo_cm_any
    by (simp_all add: demo_machine_def demo_cloud_def)
  have g: "0 < (1 :: nat)" "1 * VOLUME_BLOCK < 2 ^ 53" "0 < cfg_dataBlocks ?cfg" "cfg_dataBlocks ?cfg + cfg_codeBlocks ?cfg \<le> 256"
    by (simp_all add: VOLUME_BLOCK_def demo_blob_config_def)
  obtain v' pls where v': "cl_volumes (disk e1) (blob_id b) = Some (v', pls, None)" "placed (nth pls) v'" "blob_ready b v' pls e1"
    "DataSize v' = VOLUME_BLOCK" "blockSize v' = VOLUME_BLOCK" "b = RemoteBlob_new ''b'' VOLUME_BLOCK"
    by (rule NewBlob_ready [OF M(1,2) g n])
      (fastforce simp: DataSize_def demo_blob_config_def VOLUME_BLOCK_def demo_cloud_def)
  then have v: "v' = v" "pls = [(1, ''u0''), (2, ''u0'')]" using c by simp_all
  let ?s = "blob_state b e1"
  have s: "client_ok (nth pls) v ?s" "cache_ready (fst ?s)" "?s = (None, vm_world (cl_manager (disk e1)))"
    using v'(1,3) by (simp_all add: blob_ready_def v blob_state_def cache_ready_def)
  have q: "quiet_secret (\<lambda>_. Delivered) (nth pls) v (mc_cm ?M) (mc_aes ?M)"
    by (rule quiet_secretI) (use v' M v in \<open>simp_all add: VOLUME_BLOCK_def\<close>)
  have fits: "0 + length [1, 2, 3 :: byte] \<le> DataSize v" using v'(4) by (simp add: v VOLUME_BLOCK_def)
  have R: "cloud_remote ?M pls = net_remote (\<lambda>_. Delivered) (nth pls) (mc_timeout ?M)"
    by (simp add: cloud_remote_def demo_machine_def)
  obtain s1 where w: "WriteEncrypt (mc_cm ?M) (mc_aes ?M) (cloud_remote ?M pls) (mc_env ?M) v [1, 2, 3] 0 ?s = (True, s1)"
    using quiet_secret.quiet_encrypt [OF q s(1,2) fits] unfolding R by fast
  have "\<exists>e2. put_loop (Cloud_Write ?M b) 8 [1, 2, 3] 0 0 e1 = (length [1, 2, 3 :: byte], e2)"
    using w v'(1,6) unfolding s(3) v(1)
    by (auto simp: put_loop.simps Cloud_Write_def on_volume_def RemoteBlob_Write_def RemoteBlob_new_def split: prod.splits)
  then obtain e2 where p: "put_loop (Cloud_Write ?M b) 8 [1, 2, 3] 0 0 e1 = (length [1, 2, 3 :: byte], e2)" by blast
  have "\<exists>ob e3. Remote_OpenBlob ?M ?cfg (blob_id b) e2 = (ob, e3) \<and> (directory_up (mc_discovery ?M) ?P \<longrightarrow> ob \<noteq> None) \<and>
    (\<forall>b'. ob = Some b' \<longrightarrow> blob_size b' = blob_size b \<and>
      (\<forall>n' quota out e4. get_loop (Cloud_Read ?M b') n' quota 0 (length [1, 2, 3 :: byte]) e3 = (out, e4) \<longrightarrow> out = take (length out) [1, 2, 3]))"
    by (rule NewBlob_reopen [OF M(1,2) g M(3) n _ c M(4) _ _ _ _ _ _ p, where L = 36])
      (simp_all add: id demo_cloud_def, simp_all add: map_inv_def map_room_def)
  with n p demo_directory_up show ?thesis by (auto simp: demo_blob_config_def VOLUME_BLOCK_def demo_machine_def)
qed

end
