(* ===== verification/HttpRelay.thy ===== *)
theory HttpRelay
  imports HostInfo
begin

text \<open>
  How a request reaches a provider, \<open>bdfs-lib/HttpRequest.cpp\<close>: directly or through one of the
  relays the provider has published (\<open>HttpConfig.h\<close>). libcurl is the parameter \<open>perform\<close>: given the
  proxy, if any, and the URL, it answers with its code and the part of the body that arrived. The
  callbacks write what arrives to one buffer for all attempts of a request.
\<close>

section \<open>The configuration of a session\<close>

record HttpConfig =
  cfg_relays :: "RelayInfo list"
  activeRelay :: int
  activeRelayEndpoint :: int

definition HttpConfig_new :: "RelayInfo list \<Rightarrow> HttpConfig" where
  "HttpConfig_new rs = \<lparr>cfg_relays = rs, activeRelay = -1, activeRelayEndpoint = -1\<rparr>"

datatype CURLcode = CURLE_OK | CURLE_COULDNT_RESOLVE_PROXY | CURLE_COULDNT_RESOLVE_HOST | CURLE_COULDNT_CONNECT
  | CURLE_REMOTE_ACCESS_DENIED | CURLE_OPERATION_TIMEDOUT | CURLE_SEND_ERROR | CURLE_OTHER nat

type_synonym 's curl = "string option \<Rightarrow> string \<Rightarrow> 's \<Rightarrow> CURLcode \<times> byte list \<times> 's"

text \<open>The errors after which the next endpoint is tried.\<close>

definition retriable :: "CURLcode \<Rightarrow> bool" where
  "retriable rtn \<longleftrightarrow> rtn \<in> {CURLE_COULDNT_RESOLVE_PROXY, CURLE_COULDNT_RESOLVE_HOST, CURLE_COULDNT_CONNECT,
     CURLE_REMOTE_ACCESS_DENIED, CURLE_OPERATION_TIMEDOUT, CURLE_SEND_ERROR}"

section \<open>One attempt\<close>

text \<open>\<open>url.find("://")\<close>, \<open>url.find_first_of(":/?", start)\<close>\<close>

fun find_scheme :: "string \<Rightarrow> nat option" where
  "find_scheme (a # b # c # cs) =
     (if [a, b, c] = ''://'' then Some 0 else map_option Suc (find_scheme (b # c # cs)))"
| "find_scheme _ = None"

definition host_end :: "string \<Rightarrow> nat \<Rightarrow> nat option" where
  "host_end str start =
     (let n = length (takeWhile (\<lambda>c. c \<noteq> CHR '':'' \<and> c \<noteq> CHR ''/'' \<and> c \<noteq> CHR ''?'') (drop start str))
      in if start + n < length str then Some (start + n) else None)"

definition replaceHostInUrl :: "string \<Rightarrow> string \<Rightarrow> string" where
  "replaceHostInUrl str host =
     (case find_scheme str of
        None \<Rightarrow> str
      | Some p \<Rightarrow>
          let start = p + 3
          in if start \<ge> length str then str
             else case host_end str start of
                    None \<Rightarrow> take start str @ host
                  | Some e \<Rightarrow> if e = start + 1 then str else take start str @ host @ drop e str)"

definition active_endpoint :: "HttpConfig \<Rightarrow> (RelayInfo \<times> Endpoint) option" where
  "active_endpoint cfg =
     (if 0 \<le> activeRelay cfg \<and> activeRelay cfg < int (length (cfg_relays cfg)) \<and> 0 \<le> activeRelayEndpoint cfg \<and>
         activeRelayEndpoint cfg < int (length (endpoints (cfg_relays cfg ! nat (activeRelay cfg))))
      then let r = cfg_relays cfg ! nat (activeRelay cfg) in Some (r, endpoints r ! nat (activeRelayEndpoint cfg))
      else None)"

text \<open>The route of an attempt: the proxy and the URL. \<open>port_text\<close> is \<open>%u\<close> of \<open>snprintf\<close>.\<close>

definition route :: "(u16 \<Rightarrow> string) \<Rightarrow> string \<Rightarrow> (RelayInfo \<times> Endpoint) option \<Rightarrow> string option \<times> string" where
  "route port_text str ep =
     (case ep of
        None \<Rightarrow> (None, str)
      | Some (r, e) \<Rightarrow>
          if ep_host e \<noteq> [] \<and> socksPort e > 0
          then (Some (''socks5h://'' @ ep_host e @ '':'' @ port_text (socksPort e)),
                if relay_name r \<noteq> [] then replaceHostInUrl str (relay_name r) else str)
          else (None, str))"

definition ExecuteImpl :: "'s curl \<Rightarrow> (u16 \<Rightarrow> string) \<Rightarrow> string \<Rightarrow> HttpConfig \<Rightarrow> 's \<Rightarrow> CURLcode \<times> byte list \<times> 's" where
  "ExecuteImpl perform port_text str cfg s = (case route port_text str (active_endpoint cfg) of (proxy, u) \<Rightarrow> perform proxy u s)"

section \<open>All attempts\<close>

text \<open>The inner loop: on to the next relay that has an endpoint.\<close>

function next_relay :: "RelayInfo list \<Rightarrow> int \<Rightarrow> int" where
  "next_relay rs a =
     (let b = a + 1
      in if b < int (length rs) \<and> 0 \<le> b \<and> endpoints (rs ! nat b) = [] then next_relay rs b else b)"
  by auto
termination
  by (relation "measure (\<lambda>(rs, a). nat (int (length rs) - a))") auto

declare next_relay.simps [simp del]

definition advance :: "HttpConfig \<Rightarrow> HttpConfig" where
  "advance cfg =
     (if activeRelay cfg < 0 \<or>
         activeRelayEndpoint cfg \<ge> int (length (endpoints (cfg_relays cfg ! nat (activeRelay cfg)))) - 1
      then cfg\<lparr>activeRelay := next_relay (cfg_relays cfg) (activeRelay cfg), activeRelayEndpoint := 0\<rparr>
      else cfg\<lparr>activeRelayEndpoint := activeRelayEndpoint cfg + 1\<rparr>)"

lemma next_relay_greater: "a < next_relay rs a"
  by (induction rs a rule: next_relay.induct) (subst next_relay.simps, auto simp: Let_def)

text \<open>Every attempt moves on: to a later relay, or to a later endpoint of the same relay.\<close>

definition ahead :: "HttpConfig \<Rightarrow> nat" where
  "ahead cfg = nat (int (length (cfg_relays cfg)) - activeRelay cfg)"

definition ahead_here :: "HttpConfig \<Rightarrow> nat" where
  "ahead_here cfg = nat (int (length (endpoints (cfg_relays cfg ! nat (activeRelay cfg)))) - activeRelayEndpoint cfg)"

lemma advance_progress:
  assumes "activeRelay cfg < int (length (cfg_relays cfg))"
  shows "ahead (advance cfg) < ahead cfg \<or> ahead (advance cfg) = ahead cfg \<and> ahead_here (advance cfg) < ahead_here cfg"
  using assms next_relay_greater [of "activeRelay cfg" "cfg_relays cfg"]
  by (auto simp: advance_def ahead_def ahead_here_def)

text \<open>The loop of \<open>Execute\<close>; the buffer grows with every attempt.\<close>

function (sequential) execute_loop :: "'s curl \<Rightarrow> (u16 \<Rightarrow> string) \<Rightarrow> string \<Rightarrow> bool \<Rightarrow> HttpConfig \<Rightarrow> byte list \<Rightarrow> CURLcode \<Rightarrow> 's \<Rightarrow>
    CURLcode \<times> byte list \<times> HttpConfig \<times> 's" where
  "execute_loop perform port_text str tryingRelays cfg body rtn s =
     (if activeRelay cfg < int (length (cfg_relays cfg))
      then case ExecuteImpl perform port_text str cfg s of (r, d, s1) \<Rightarrow>
             if \<not> tryingRelays \<or> \<not> retriable r then (r, body @ d, cfg, s1)
             else execute_loop perform port_text str tryingRelays (advance cfg) (body @ d) r s1
      else (rtn, body, cfg, s))"
  by pat_completeness auto
termination
  by (relation "inv_image (less_than <*lex*> less_than) (\<lambda>(p, t, u, b, cfg, d, r, s). (ahead cfg, ahead_here cfg))")
     (auto dest!: advance_progress)

declare execute_loop.simps [simp del]

text \<open>The completion callback is told whether the last attempt failed, and gets the buffer.\<close>

definition Execute :: "'s curl \<Rightarrow> (u16 \<Rightarrow> string) \<Rightarrow> string \<Rightarrow> HttpConfig \<Rightarrow> 's \<Rightarrow> bool \<times> byte list \<times> HttpConfig \<times> 's" where
  "Execute perform port_text str cfg s =
     (if activeRelay cfg \<ge> int (length (cfg_relays cfg))
      then case ExecuteImpl perform port_text str cfg s of (r, d, s1) \<Rightarrow> (r \<noteq> CURLE_OK, d, cfg, s1)
      else case execute_loop perform port_text str (activeRelay cfg < 0) cfg [] CURLE_OK s of
             (r, d, cfg', s1) \<Rightarrow> (r \<noteq> CURLE_OK, d, cfg', s1))"

section \<open>The routes in order\<close>

text \<open>What the loop is meant to do: the direct route first, then every endpoint of every relay, once each.\<close>

type_synonym hop = "(RelayInfo \<times> Endpoint) option"

definition relay_routes :: "RelayInfo \<Rightarrow> hop list" where
  "relay_routes r = map (\<lambda>e. Some (r, e)) (endpoints r)"

definition all_routes :: "RelayInfo list \<Rightarrow> hop list" where
  "all_routes rs = None # concat (map relay_routes rs)"

text \<open>The result has the hop at which the attempts ended, if they did.\<close>

fun try_routes :: "'s curl \<Rightarrow> (u16 \<Rightarrow> string) \<Rightarrow> string \<Rightarrow> hop list \<Rightarrow> byte list \<Rightarrow> CURLcode \<Rightarrow> 's \<Rightarrow>
    CURLcode \<times> byte list \<times> hop option \<times> 's" where
  "try_routes perform port_text str [] body rtn s = (rtn, body, None, s)"
| "try_routes perform port_text str (x # xs) body rtn s =
     (case route port_text str x of (proxy, u) \<Rightarrow> case perform proxy u s of (r, d, s1) \<Rightarrow>
        if retriable r then try_routes perform port_text str xs (body @ d) r s1 else (r, body @ d, Some x, s1))"

definition routes_after :: "RelayInfo list \<Rightarrow> int \<Rightarrow> hop list" where
  "routes_after rs b = concat (map relay_routes (drop (nat b) rs))"

definition routes_from :: "HttpConfig \<Rightarrow> hop list" where
  "routes_from cfg =
     (let rs = cfg_relays cfg; a = activeRelay cfg
      in if a < 0 then None # routes_after rs 0
         else if a < int (length rs) then drop (nat (activeRelayEndpoint cfg)) (relay_routes (rs ! nat a)) @ routes_after rs (a + 1)
         else [])"

definition cfg_ok :: "HttpConfig \<Rightarrow> bool" where
  "cfg_ok cfg \<longleftrightarrow> -1 \<le> activeRelay cfg \<and>
     (0 \<le> activeRelay cfg \<and> activeRelay cfg < int (length (cfg_relays cfg)) \<longrightarrow>
        0 \<le> activeRelayEndpoint cfg \<and> activeRelayEndpoint cfg < int (length (endpoints (cfg_relays cfg ! nat (activeRelay cfg)))))"

lemma routes_after_step:
  assumes "0 \<le> b" and "b < int (length rs)"
  shows "routes_after rs b = relay_routes (rs ! nat b) @ routes_after rs (b + 1)"
proof -
  have "nat b < length rs" "nat (b + 1) = Suc (nat b)" using assms by auto
  then show ?thesis by (simp add: routes_after_def Cons_nth_drop_Suc [symmetric])
qed

lemma next_relay_spec:
  assumes "-1 \<le> a" and "a < int (length rs)"
  shows "next_relay rs a \<le> int (length rs) \<and>
    (next_relay rs a < int (length rs) \<longrightarrow> endpoints (rs ! nat (next_relay rs a)) \<noteq> []) \<and>
    routes_after rs (next_relay rs a) = routes_after rs (a + 1)"
  using assms
proof (induction rs a rule: next_relay.induct)
  case (1 rs a)
  let ?b = "a + 1"
  note unf = next_relay.simps [of rs a]
  show ?case
  proof (cases "?b < int (length rs) \<and> 0 \<le> ?b \<and> endpoints (rs ! nat ?b) = []")
    case True
    then have "next_relay rs a = next_relay rs ?b" using unf by (simp add: Let_def)
    moreover have "routes_after rs ?b = routes_after rs (?b + 1)"
      using True routes_after_step [of ?b rs] by (simp add: relay_routes_def)
    ultimately show ?thesis using "1.IH" [OF refl] True by simp
  next
    case False
    then have "next_relay rs a = ?b" using unf by (auto simp: Let_def)
    with False 1 show ?thesis by auto
  qed
qed

lemma advance_relays: "cfg_relays (advance cfg) = cfg_relays cfg"
  by (simp add: advance_def)

lemma routes_from_step:
  assumes "cfg_ok cfg" and "activeRelay cfg < int (length (cfg_relays cfg))"
  shows "routes_from cfg = active_endpoint cfg # routes_from (advance cfg)" and "cfg_ok (advance cfg)"
proof -
  let ?rs = "cfg_relays cfg" and ?a = "activeRelay cfg" and ?e = "activeRelayEndpoint cfg"
  note n = next_relay_spec [of ?a ?rs] next_relay_greater [of ?a ?rs]
  have a: "-1 \<le> ?a" using assms(1) by (simp add: cfg_ok_def)
  have entered: "routes_from (cfg\<lparr>activeRelay := b, activeRelayEndpoint := 0\<rparr>) = routes_after ?rs b"
    if "0 \<le> b" "b \<le> int (length ?rs)" for b
    using that routes_after_step [of b ?rs] by (auto simp: routes_from_def Let_def routes_after_def)
  consider "?a = -1" | "0 \<le> ?a" "?e \<ge> int (length (endpoints (?rs ! nat ?a))) - 1"
    | "0 \<le> ?a" "?e < int (length (endpoints (?rs ! nat ?a))) - 1" using a by linarith
  then have "routes_from cfg = active_endpoint cfg # routes_from (advance cfg) \<and> cfg_ok (advance cfg)"
  proof cases
    case 1
    with n entered [of "next_relay ?rs ?a"] assms(2) show ?thesis
      by (auto simp: advance_def cfg_ok_def routes_from_def active_endpoint_def)
  next
    case 2
    have e: "0 \<le> ?e" "nat ?e < length (endpoints (?rs ! nat ?a))" "Suc (nat ?e) = length (endpoints (?rs ! nat ?a))"
      using assms 2 by (auto simp: cfg_ok_def)
    have "drop (nat ?e) (relay_routes (?rs ! nat ?a)) = [active_endpoint cfg]"
      using e 2(1) assms(2) by (simp add: relay_routes_def active_endpoint_def Let_def drop_map Cons_nth_drop_Suc [symmetric])
    with 2 n entered [of "next_relay ?rs ?a"] assms(2) show ?thesis
      by (auto simp: advance_def cfg_ok_def routes_from_def Let_def)
  next
    case 3
    have e: "0 \<le> ?e" "nat ?e < length (endpoints (?rs ! nat ?a))" using assms 3 by (auto simp: cfg_ok_def)
    then have "drop (nat ?e) (relay_routes (?rs ! nat ?a)) = active_endpoint cfg # drop (nat (?e + 1)) (relay_routes (?rs ! nat ?a))"
      using 3(1) assms(2) by (simp add: relay_routes_def active_endpoint_def Let_def drop_map Cons_nth_drop_Suc [symmetric] nat_add_distrib)
    with 3 e assms(2) show ?thesis by (auto simp: advance_def cfg_ok_def routes_from_def Let_def)
  qed
  then show "routes_from cfg = active_endpoint cfg # routes_from (advance cfg)" and "cfg_ok (advance cfg)" by auto
qed

lemma execute_loop_routes:
  assumes "cfg_ok cfg" and "execute_loop perform port_text str True cfg body rtn s = (r, d, cfg', s1)"
  shows "\<exists>h. try_routes perform port_text str (routes_from cfg) body rtn s = (r, d, h, s1) \<and> cfg_ok cfg' \<and>
    cfg_relays cfg' = cfg_relays cfg \<and>
    (case h of None \<Rightarrow> activeRelay cfg' \<ge> int (length (cfg_relays cfg)) | Some x \<Rightarrow> active_endpoint cfg' = x)"
  using assms
proof (induction perform port_text str True cfg body rtn s rule: execute_loop.induct)
  case (1 perform port_text str cfg body rtn s)
  note unf = "1.prems"(2) [unfolded execute_loop.simps [of perform port_text str True cfg]]
  show ?case
  proof (cases "activeRelay cfg < int (length (cfg_relays cfg))")
    case True
    note step = routes_from_step [OF "1.prems"(1) True]
    obtain q x s2 where q: "ExecuteImpl perform port_text str cfg s = (q, x, s2)" by (rule prod_cases3)
    show ?thesis
    proof (cases "retriable q")
      case r: True
      then have "execute_loop perform port_text str True (advance cfg) (body @ x) q s2 = (r, d, cfg', s1)"
        using unf True q by simp
      from "1.hyps" [OF True q [symmetric] refl _ step(2) this, unfolded advance_relays] r q show ?thesis
        by (auto simp: step(1) ExecuteImpl_def split: prod.splits)
    next
      case False
      then have "r = q" "d = body @ x" "cfg' = cfg" "s1 = s2" using unf True q by simp_all
      with False q "1.prems"(1) show ?thesis
        unfolding step(1) by (intro exI [of _ "Some (active_endpoint cfg)"]) (auto simp: ExecuteImpl_def split: prod.splits)
    qed
  next
    case False
    with unf "1.prems"(1) show ?thesis by (auto simp: routes_from_def cfg_ok_def)
  qed
qed

section \<open>Properties\<close>

text \<open>
  C15. A request ends, and on the way it tries the routes in order: the direct one first, then every
  endpoint of every relay, each at most once, until an attempt does not fail for want of a
  connection. The session stays at the endpoint that answered; the next request makes a single
  attempt there, or a direct one when everything had failed. The callback gets the pieces that
  all the attempts have received.
\<close>

theorem Execute_tries_routes:
  assumes "Execute perform port_text str (HttpConfig_new rs) s = (err, body, cfg, s1)"
  shows "\<exists>r h. try_routes perform port_text str (all_routes rs) [] CURLE_OK s = (r, body, h, s1) \<and> err = (r \<noteq> CURLE_OK) \<and>
    (\<forall>x. h = Some (Some x) \<longrightarrow> active_endpoint cfg = Some x) \<and>
    (h \<noteq> Some None \<longrightarrow> (\<forall>str' s'. Execute perform port_text str' cfg s' =
       (case route port_text str' (case h of Some x \<Rightarrow> x | None \<Rightarrow> None) of (proxy, u) \<Rightarrow>
          case perform proxy u s' of (r', d', s2) \<Rightarrow> (r' \<noteq> CURLE_OK, d', cfg, s2))))"
proof -
  let ?c = "HttpConfig_new rs"
  have c: "cfg_ok ?c" "routes_from ?c = all_routes rs" "activeRelay ?c < int (length (cfg_relays ?c))" "activeRelay ?c < 0" "cfg_relays ?c = rs"
    by (auto simp: HttpConfig_new_def cfg_ok_def routes_from_def all_routes_def routes_after_def)
  obtain r d cfg' s' where l: "execute_loop perform port_text str True ?c [] CURLE_OK s = (r, d, cfg', s')" by (rule prod_cases4)
  with assms c have e: "err = (r \<noteq> CURLE_OK)" "body = d" "cfg = cfg'" "s1 = s'" by (simp_all add: Execute_def)
  from execute_loop_routes [OF c(1) l] obtain h where h: "try_routes perform port_text str (all_routes rs) [] CURLE_OK s = (r, d, h, s')"
    "cfg_ok cfg'" "cfg_relays cfg' = rs" "case h of None \<Rightarrow> activeRelay cfg' \<ge> int (length rs) | Some x \<Rightarrow> active_endpoint cfg' = x"
    unfolding c(2,5) by blast
  have "Execute perform port_text str' cfg' s2 =
       (case route port_text str' (case h of Some x \<Rightarrow> x | None \<Rightarrow> None) of (proxy, u) \<Rightarrow>
          case perform proxy u s2 of (r', d', s3) \<Rightarrow> (r' \<noteq> CURLE_OK, d', cfg', s3))" if "h \<noteq> Some None" for str' s2
  proof (cases h)
    case None
    with h(3,4) have "activeRelay cfg' \<ge> int (length (cfg_relays cfg'))" "active_endpoint cfg' = None"
      by (simp_all add: active_endpoint_def)
    with None show ?thesis by (simp add: Execute_def ExecuteImpl_def split: prod.splits)
  next
    case (Some x)
    with that h(4) have x: "active_endpoint cfg' = x" "x \<noteq> None" by auto
    then have "0 \<le> activeRelay cfg'" "activeRelay cfg' < int (length (cfg_relays cfg'))"
      by (auto simp: active_endpoint_def split: if_splits)
    with Some x show ?thesis by (simp add: Execute_def execute_loop.simps ExecuteImpl_def split: prod.splits)
  qed
  with h e show ?thesis by fastforce
qed

theorem Execute_tries_routes_witness:
  "let rs = [\<lparr>relay_name = ''r0'', endpoints = []\<rparr>,
             \<lparr>relay_name = ''r1'', endpoints = [\<lparr>ep_host = ''a'', socksPort = 1, quicPort = 0\<rparr>, \<lparr>ep_host = ''b'', socksPort = 2, quicPort = 0\<rparr>]\<rparr>];
       perform = (\<lambda>proxy u n. (if proxy = Some ''socks5h://b:p'' then CURLE_OK else CURLE_COULDNT_CONNECT, [], Suc n))
   in \<exists>cfg. Execute perform (\<lambda>_. ''p'') ''http://host/x'' (HttpConfig_new rs) (0::nat) = (False, [], cfg, 3) \<and> active_endpoint cfg \<noteq> None"
proof -
  let ?rs = "[\<lparr>relay_name = ''r0'', endpoints = []\<rparr>,
             \<lparr>relay_name = ''r1'', endpoints = [\<lparr>ep_host = ''a'', socksPort = 1, quicPort = 0\<rparr>, \<lparr>ep_host = ''b'', socksPort = 2, quicPort = 0\<rparr>]\<rparr>]"
  let ?p = "\<lambda>proxy u n. (if proxy = Some ''socks5h://b:p'' then CURLE_OK else CURLE_COULDNT_CONNECT, [], Suc n)"
  obtain err body cfg s1 where x: "Execute ?p (\<lambda>_. ''p'') ''http://host/x'' (HttpConfig_new ?rs) (0::nat) = (err, body, cfg, s1)"
    by (rule prod_cases4)
  have "err = False \<and> body = [] \<and> s1 = 3 \<and> active_endpoint cfg \<noteq> None"
    using Execute_tries_routes [OF x] by (simp add: all_routes_def relay_routes_def route_def retriable_def)
  with x show ?thesis by simp
qed

end
