(* ===== verification/HttpParams.thy ===== *)
theory HttpParams
  imports BdPartition HostInfo
begin

text \<open>
  The arguments of a call on their way from the client to the handler: \<open>postImpl\<close> and
  \<open>__EncodeArgs\<close> write them as a form (\<open>bdfs-lib/HttpRequest.cpp\<close>, \<open>BdSession.cpp\<close>), and
  \<open>MGHttpContext::ParseParameters\<close> takes the form apart (\<open>httpserver/MGHttpContext.cpp\<close>, with
  \<open>mg_url_decode\<close> of \<open>mongoose.c\<close>). \<open>curl_easy_escape\<close> is a parameter;
  \<open>curl_escape_ok\<close> says what is documented of it.
\<close>

section \<open>Client\<close>

definition post_pair :: "(string \<Rightarrow> string) \<Rightarrow> string \<times> Json \<Rightarrow> string" where
  "post_pair escape p = fst p @ ''='' @ escape (FastWriter_write (snd p))"

fun postImpl :: "(string \<Rightarrow> string) \<Rightarrow> (string \<times> Json) list \<Rightarrow> string" where
  "postImpl escape [] = []"
| "postImpl escape [p] = post_pair escape p"
| "postImpl escape (p # ps) = post_pair escape p @ ''&'' @ postImpl escape ps"

definition EncodeArgs :: "(string \<Rightarrow> string) \<Rightarrow> (string \<times> Json) list \<Rightarrow> string" where
  "EncodeArgs escape args = (if args = [] then [] else ''?'' @ postImpl escape args)"

section \<open>Server\<close>

text \<open>One token of \<open>strtok_r\<close> and what it leaves behind.\<close>

definition strtok :: "string \<Rightarrow> string \<Rightarrow> (string \<times> string) option" where
  "strtok delims s =
     (let t = dropWhile (\<lambda>c. c \<in> set delims) s
      in if t = [] then None
         else Some (takeWhile (\<lambda>c. c \<notin> set delims) t, drop 1 (dropWhile (\<lambda>c. c \<notin> set delims) t)))"

lemma strtok_shorter: "strtok delims s = Some (t, r) \<Longrightarrow> length r < length s"
proof -
  assume a: "strtok delims s = Some (t, r)"
  let ?t = "dropWhile (\<lambda>c. c \<in> set delims) s"
  have "?t \<noteq> []" "r = drop 1 (dropWhile (\<lambda>c. c \<notin> set delims) ?t)" using a by (auto simp: strtok_def Let_def split: if_splits)
  moreover have "length (dropWhile (\<lambda>c. c \<notin> set delims) ?t) \<le> length ?t" "length ?t \<le> length s"
    by (simp_all add: length_dropWhile_le)
  ultimately show ?thesis by (cases ?t) auto
qed

definition isxdigit :: "char \<Rightarrow> bool" where
  "isxdigit c \<longleftrightarrow> isdigit c \<or> of_char c \<in> {65 .. 70 :: nat} \<or> of_char c \<in> {97 .. 102 :: nat}"

text \<open>\<open>HEXTOI (tolower (c))\<close>\<close>

definition hextoi :: "char \<Rightarrow> nat" where
  "hextoi c = (if isdigit c then of_char c - 48 else if of_char c \<in> {65 .. 90 :: nat} then of_char c + 32 - 87 else of_char c - 87)"

fun mg_url_decode :: "bool \<Rightarrow> string \<Rightarrow> string" where
  "mg_url_decode form [] = []"
| "mg_url_decode form (c # cs) =
     (if c = CHR ''%'' \<and> length cs \<ge> 2 \<and> isxdigit (cs ! 0) \<and> isxdigit (cs ! 1)
      then char_of (16 * hextoi (cs ! 0) + hextoi (cs ! 1)) # mg_url_decode form (drop 2 cs)
      else if form \<and> c = CHR ''+'' then CHR '' '' # mg_url_decode form cs
      else c # mg_url_decode form cs)"

text \<open>A quoted value is read as JSON; what is not a JSON string is taken as it is.\<close>

definition param_value :: "string \<Rightarrow> string" where
  "param_value str =
     (if str \<noteq> [] \<and> hd str = CHR 0x22
      then case Reader_parse str of
             Some (JString s) \<Rightarrow> s
           | _ \<Rightarrow> str
      else str)"

function ParseParameters :: "string \<Rightarrow> (string, string) stdmap \<Rightarrow> (string, string) stdmap" where
  "ParseParameters buf parameters =
     (case strtok ''&'' buf of
        None \<Rightarrow> parameters
      | Some (pair, rest) \<Rightarrow>
          (case strtok ''= '' pair of
             None \<Rightarrow> parameters
           | Some (name, pairRest) \<Rightarrow>
               (case strtok ''&'' pairRest of
                  None \<Rightarrow> ParseParameters rest parameters
                | Some (v, _) \<Rightarrow>
                    let str = takeWhile (\<lambda>c. c \<noteq> CHR 0x00) (mg_url_decode True v)
                    in ParseParameters rest (map_put name (param_value str) parameters))))"
  by pat_completeness auto
termination
  by (relation "measure (\<lambda>(buf, m). length buf)") (auto dest: strtok_shorter)

declare ParseParameters.simps [simp del]

text \<open>The parameters of the query string, then those of the form in the body.\<close>

definition request_parameters :: "string option \<Rightarrow> string option \<Rightarrow> (string, string) stdmap" where
  "request_parameters query form =
     (let m = (case query of None \<Rightarrow> [] | Some q \<Rightarrow> ParseParameters q [])
      in case form of None \<Rightarrow> m | Some b \<Rightarrow> ParseParameters b m)"

definition parameter :: "string option \<Rightarrow> string option \<Rightarrow> string \<Rightarrow> string" where
  "parameter query form name =
     (case map_find (request_parameters query form) name of None \<Rightarrow> [] | Some v \<Rightarrow> v)"

section \<open>What is relied on\<close>

definition unreserved :: "char \<Rightarrow> bool" where
  "unreserved c \<longleftrightarrow> of_char c \<in> {48 .. 57 :: nat} \<or> of_char c \<in> {65 .. 90 :: nat} \<or> of_char c \<in> {97 .. 122 :: nat} \<or>
     c \<in> {CHR ''-'', CHR ''.'', CHR ''_'', CHR ''~''}"

text \<open>
  \<open>curl_easy_escape\<close>: every character that is not a letter, a digit or one of \<open>-._~\<close> becomes a
  percent sign and two hexadecimal digits.
\<close>

definition escape_octet :: "char \<Rightarrow> string" where
  "escape_octet c = (if unreserved c then [c] else [CHR ''%'', hex_digit (of_char c div 16), hex_digit (of_char c mod 16)])"

definition curl_escape_ok :: "(string \<Rightarrow> string) \<Rightarrow> bool" where
  "curl_escape_ok escape \<longleftrightarrow> (\<forall>s. escape s = concat (map escape_octet s))"

section \<open>Tokens\<close>

lemma strtok_token:
  assumes "w \<noteq> []" and "\<forall>c \<in> set w. c \<notin> set delims"
  shows "d \<in> set delims \<Longrightarrow> strtok delims (w @ d # r) = Some (w, r)" and "strtok delims w = Some (w, [])"
proof -
  obtain a v where w: "w = a # v" using assms(1) by (cases w) auto
  show "strtok delims w = Some (w, [])"
    using assms(2) by (auto simp: strtok_def Let_def w takeWhile_eq_all_conv [THEN iffD2] dropWhile_eq_Nil_conv [THEN iffD2])
  show "strtok delims (w @ d # r) = Some (w, r)" if "d \<in> set delims"
    using assms(2) that by (simp add: strtok_def Let_def w takeWhile_append dropWhile_append)
qed

lemma hex_digits:
  assumes "n < 16"
  shows "isxdigit (hex_digit n)" and "hextoi (hex_digit n) = n"
  using assms by (auto simp: hex_digit_def isxdigit_def hextoi_def isdigit_def)

lemma high_digit: "of_char c div 16 < (16 :: nat)"
  using nat_of_char_less_256 [of c] by (simp add: div_less_iff_less_mult)

lemma decode_octet: "mg_url_decode True (escape_octet c @ s) = c # mg_url_decode True s"
proof (cases "unreserved c")
  case True
  then have "c \<noteq> CHR ''%''" "c \<noteq> CHR ''+''" by (auto simp: unreserved_def)
  with True show ?thesis by (simp add: escape_octet_def)
next
  case False
  then show ?thesis by (simp add: escape_octet_def hex_digits high_digit)
qed

lemma decode_escaped: "curl_escape_ok escape \<Longrightarrow> mg_url_decode True (escape s) = s"
proof (induction s)
  case (Cons c s)
  then show ?case using decode_octet [of c "concat (map escape_octet s)"] by (simp add: curl_escape_ok_def)
qed (simp add: curl_escape_ok_def)

lemma escape_octet_plain: "d \<in> set (escape_octet c) \<Longrightarrow> d = CHR ''%'' \<or> unreserved d"
proof -
  have "unreserved (hex_digit n)" if "n < 16" for n
    using that by (auto simp: hex_digit_def unreserved_def)
  then show "d \<in> set (escape_octet c) \<Longrightarrow> ?thesis" by (auto simp: escape_octet_def high_digit split: if_splits)
qed

lemma escaped_plain:
  assumes "curl_escape_ok escape" and "s \<noteq> []"
  shows "escape s \<noteq> []" and "c \<in> set (escape s) \<Longrightarrow> c \<noteq> CHR ''&'' \<and> c \<noteq> CHR ''='' \<and> c \<noteq> CHR '' ''"
proof -
  show "escape s \<noteq> []" using assms by (cases s) (auto simp: curl_escape_ok_def escape_octet_def)
  show "c \<noteq> CHR ''&'' \<and> c \<noteq> CHR ''='' \<and> c \<noteq> CHR '' ''" if "c \<in> set (escape s)"
    using that assms(1) escape_octet_plain by (fastforce simp: curl_escape_ok_def unreserved_def)
qed

section \<open>Arguments arrive\<close>

text \<open>The arguments the program passes: numbers and strings without zeros, under plain names.\<close>

fun arg_text :: "Json \<Rightarrow> string" where
  "arg_text (JString s) = s"
| "arg_text (JUInt n) = encode_arg n"
| "arg_text _ = []"

definition plain_arg :: "string \<times> Json \<Rightarrow> bool" where
  "plain_arg p \<longleftrightarrow> fst p \<noteq> [] \<and> (\<forall>c \<in> set (fst p). unreserved c) \<and>
     (case snd p of JUInt _ \<Rightarrow> True | JString s \<Rightarrow> CHR 0x00 \<notin> set s | _ \<Rightarrow> False)"

lemma written_value:
  assumes "curl_escape_ok escape" and "plain_arg (k, v)"
  shows "param_value (takeWhile (\<lambda>c. c \<noteq> CHR 0x00) (mg_url_decode True (escape (FastWriter_write v)))) = arg_text v"
    and "FastWriter_write v \<noteq> []"
proof -
  have "FastWriter_write v \<noteq> [] \<and> CHR 0x00 \<notin> set (FastWriter_write v) \<and> param_value (FastWriter_write v) = arg_text v"
  proof (cases v)
    case (JUInt n)
    obtain c cs where d: "decimal n = c # cs" using decimal_nonempty [of n] by (cases "decimal n") auto
    have "\<forall>c \<in> set (decimal n). isdigit c" by (rule decimal_digits)
    then have "isdigit c" "CHR 0x00 \<notin> set (decimal n)" by (auto simp: d isdigit_def)
    then have "c \<noteq> CHR 0x22" by (auto simp: isdigit_def)
    with JUInt \<open>CHR 0x00 \<notin> set (decimal n)\<close> show ?thesis by (simp add: param_value_def encode_arg_def d)
  next
    case (JString s)
    with assms(2) parse_fast [of v] quoted_no_zero [of s] show ?thesis
      by (simp add: plain_arg_def param_value_def) (simp add: quoted_escapes)
  qed (use assms(2) in \<open>simp_all add: plain_arg_def\<close>)
  moreover from this have t: "takeWhile (\<lambda>c. c \<noteq> CHR 0x00) (FastWriter_write v) = FastWriter_write v"
    by (auto simp: takeWhile_eq_all_conv)
  ultimately show "param_value (takeWhile (\<lambda>c. c \<noteq> CHR 0x00) (mg_url_decode True (escape (FastWriter_write v)))) = arg_text v"
    "FastWriter_write v \<noteq> []" unfolding decode_escaped [OF assms(1)] t by simp_all
qed

lemma parse_pair:
  assumes "curl_escape_ok escape" and "plain_arg p"
    and "strtok ''&'' buf = Some (post_pair escape p, rest)"
  shows "ParseParameters buf m = ParseParameters rest (map_put (fst p) (arg_text (snd p)) m)"
proof -
  obtain k v where p: "p = (k, v)" by (rule prod.exhaust)
  let ?e = "escape (FastWriter_write v)"
  note w = written_value [OF assms(1) assms(2) [unfolded p]]
  note e = escaped_plain [OF assms(1) w(2)]
  have k: "k \<noteq> []" "\<forall>c \<in> set k. c \<noteq> CHR ''='' \<and> c \<noteq> CHR '' ''" using assms(2) by (auto simp: p plain_arg_def unreserved_def)
  have "strtok ''= '' (post_pair escape p) = Some (k, ?e)"
    using strtok_token(1) [of k "''= ''" "CHR ''=''" ?e] k by (simp add: p post_pair_def)
  moreover have "strtok ''&'' ?e = Some (?e, [])" using strtok_token(2) [of ?e "''&''"] e by auto
  ultimately show ?thesis using assms(3) w(1) by (subst ParseParameters.simps) (simp add: p Let_def)
qed

lemma parse_posted:
  assumes "curl_escape_ok escape" and "\<forall>p \<in> set args. plain_arg p"
  shows "ParseParameters (postImpl escape args) m =
    fold (\<lambda>p. map_put (fst p) (arg_text (snd p))) args m"
  using assms(2)
proof (induction args arbitrary: m rule: induct_list012)
  case 1
  then show ?case by (simp add: ParseParameters.simps strtok_def)
next
  have amp: "post_pair escape p \<noteq> []" "\<forall>c \<in> set (post_pair escape p). c \<notin> set ''&''" if "plain_arg p" for p
    using that escaped_plain [OF assms(1) written_value(2) [OF assms(1)], of "fst p" "snd p"]
    by (auto simp: post_pair_def plain_arg_def unreserved_def)
  {
    case (2 p)
    then have "strtok ''&'' (post_pair escape p) = Some (post_pair escape p, [])"
      using strtok_token(2) [OF amp] by simp
    from parse_pair [OF assms(1) _ this] 2 show ?case by (simp add: ParseParameters.simps [of "[]"] strtok_def)
  next
    case (3 p q ps)
    then have "strtok ''&'' (postImpl escape (p # q # ps)) = Some (post_pair escape p, postImpl escape (q # ps))"
      using strtok_token(1) [OF amp, of p "CHR ''&''"] by simp
    from parse_pair [OF assms(1) _ this] 3 show ?case by simp
  }
qed

lemma map_find_fold:
  "distinct (map fst args) \<Longrightarrow> map_find (fold (\<lambda>p. map_put (fst p) (g (snd p))) args m) k =
     (case map_find args k of None \<Rightarrow> map_find m k | Some v \<Rightarrow> Some (g v))"
proof (induction args arbitrary: m)
  case (Cons p args)
  obtain a v where p: "p = (a, v)" by (rule prod.exhaust)
  have "map_find args a = None" using Cons.prems by (auto simp: p map_find_None_iff)
  with Cons show ?case by (cases "k = a") (auto simp: p split: option.splits)
qed simp

section \<open>Properties\<close>

text \<open>
  C13. The arguments of a call arrive: the handler finds under every name exactly what the client
  passed, a string as it was and a number as its decimal digits, whether they travel as a form in the body or in the query string, and nothing under any other
  name. In particular the requests of \<open>BdPartition::Read\<close> and \<open>Write\<close> have the parameters with
  which the model of the network calls the handler.
\<close>

theorem arguments_arrive:
  assumes "curl_escape_ok escape"
    and "\<forall>p \<in> set args. plain_arg p" and "distinct (map fst args)"
  shows "parameter None (Some (postImpl escape args)) k = (case map_find args k of None \<Rightarrow> [] | Some v \<Rightarrow> arg_text v) \<and>
    parameter (Some (drop 1 (EncodeArgs escape args))) None k = (case map_find args k of None \<Rightarrow> [] | Some v \<Rightarrow> arg_text v) \<and>
    parameter None (Some (postImpl escape [(''block'', JUInt b), (''offset'', JUInt f), (''size'', JUInt n)])) k =
      (if k = ''block'' then encode_arg b else if k = ''offset'' then encode_arg f else if k = ''size'' then encode_arg n else [])"
proof -
  have arrive: "parameter None (Some (postImpl escape as)) k = (case map_find as k of None \<Rightarrow> [] | Some v \<Rightarrow> arg_text v)"
    if "\<forall>p \<in> set as. plain_arg p" "distinct (map fst as)" for as
    using parse_posted [OF assms(1) that(1), of "[]"] map_find_fold [OF that(2), of arg_text "[]" k]
    by (cases "map_find as k") (simp_all add: parameter_def request_parameters_def)
  have "drop 1 (EncodeArgs escape args) = postImpl escape args" by (simp add: EncodeArgs_def)
  then have "parameter (Some (drop 1 (EncodeArgs escape args))) None k =
      parameter None (Some (postImpl escape args)) k"
    by (simp add: parameter_def request_parameters_def)
  moreover have "\<forall>p \<in> set [(''block'', JUInt b), (''offset'', JUInt f), (''size'', JUInt n)]. plain_arg p"
    by (simp add: plain_arg_def unreserved_def)
  ultimately show ?thesis using arrive [OF assms(2,3)] arrive [of "[(''block'', JUInt b), (''offset'', JUInt f), (''size'', JUInt n)]"]
    by (simp split: option.splits)
qed

theorem arguments_arrive_witness:
  "parameter None (Some (postImpl (\<lambda>s. concat (map escape_octet s)) [(''block'', JUInt 65536), (''reserveId'', JString ''a & b'')])) ''reserveId'' = ''a & b''"
proof -
  have "curl_escape_ok (\<lambda>s. concat (map escape_octet s))" by (simp add: curl_escape_ok_def)
  from arguments_arrive [OF this, of "[(''block'', JUInt 65536), (''reserveId'', JString ''a & b'')]" "''reserveId''" 0 0 0]
  show ?thesis by (simp add: plain_arg_def unreserved_def)
qed

end
