(* ===== verification/Spec2Isabelle.thy ===== *)
theory Spec2Isabelle
  imports Streams Base64 LockFreeQueue Commands RemoteProvider HttpRelay HttpParams
begin

text \<open>
  Drive, a distributed block store: a client spreads the blocks of a volume over partitions at
  several providers, keeps code blocks beside the data, may encrypt, and works through a write-back
  cache; a blob file system and its command line tools sit on top. The library models the C++ sources
  under \<open>src/\<close> bottom up, one theory per component; every theory starts with a note on what it holds.

  \<^bold>\<open>Parts and theories.\<close>

  \<^item> \<open>Prelude\<close>: byte lists (\<open>peek\<close>, \<open>poke\<close>), 64-bit wrap-around, little-endian numbers, \<open>std::map\<close> as
    sorted lists. \<open>Decimal\<close>: \<open>strtoull\<close>, \<open>atoll\<close> and the printing of numbers. \<open>Streams\<close>: \<open>bdfsclient-lib\<close> input and output streams. \<open>BitSet\<close>: the bit sets of
    \<open>bdhost\<close> and \<open>bdfsclient-lib\<close>. \<open>Base64\<close> and \<open>LockFreeQueue\<close>: the two classes of \<open>bdfs-lib\<close>.

  \<^item> The provider, \<open>bdhost\<close>: \<open>HostPartition\<close> has the partition directory with its block files and bit
    map (\<open>Partition.cpp\<close>), the reservations (\<open>Util.cpp\<close>), the request handler
    (\<open>PartitionHandler.cpp\<close>) and the error texts of \<open>httpserver/HttpContext.h\<close>. The state is the
    record \<open>host\<close>; \<open>ProcessRequest\<close> is one request.

  \<^item> The way there, \<open>bdfs-lib\<close> and \<open>httpserver\<close>: \<open>BdPartition\<close> has the remote object and its calls
    (\<open>BdPartition.cpp\<close>, \<open>BdSession.cpp\<close>) over a network that may lose a request or its answer;
    \<open>HttpParams\<close> the arguments of a call, written by \<open>HttpRequest.cpp\<close> and taken apart by
    \<open>MGHttpContext.cpp\<close>; \<open>HttpRelay\<close> the attempts through relays (\<open>HttpRequest::Execute\<close>);
    \<open>HostInfo\<close> the published endpoints.

  \<^item> The JSON library, \<open>jsoncpp\<close>: \<open>Doubles\<close> (floating point numbers as \<open>sscanf\<close> and \<open>sprintf\<close> treat
    them), \<open>JsonValue\<close> (the values of \<open>json_value.cpp\<close>), \<open>JsonWriter\<close> (\<open>FastWriter\<close> and
    \<open>StyledWriter\<close>), \<open>JsonReader\<close> (\<open>Reader\<close>: tokens, numbers, escapes, recovery from errors) and
    \<open>JsonText\<close>, which shows that what is written is read back. Endpoints, arguments, lookup caches and
    volume configurations are texts of this library.

  \<^item> The client, \<open>bdfsclient-lib\<close>: \<open>ClientPartition\<close> (\<open>Partition.cpp\<close>, the geometry of
    \<open>Volume.cpp\<close>), \<open>Cache\<close> (\<open>Cache.cpp\<close>: cache files, dirty rows, eviction, flush, the passes of the
    thread), \<open>Volume\<close> (striping, erasure code, encryption: \<open>Volume.cpp\<close>, \<open>VolumeRow.cpp\<close>,
    \<open>VolumeCell.cpp\<close>), \<open>BlobCache\<close> (the lookup cache) and \<open>VolumeManager\<close> (finding providers,
    creating, loading and deleting volumes, with \<open>BdPartitionFolder.cpp\<close>).

  \<^item> The blob file system, \<open>bdblob\<close>: \<open>BlobMap\<close> (metadata and the log file of \<open>BlobMap.cpp\<close>), \<open>Blob\<close>
    (file blobs, their provider, the file object), \<open>Folder\<close> and \<open>FolderTree\<close> (folders and what an
    update does to the chain of parents), \<open>Paths\<close> (splitting, joining, patterns), \<open>BlobApi\<close> (the
    operations), \<open>RemoteBlob\<close> (a blob on an encrypted volume), \<open>RemoteProvider\<close> (\<open>RemoteBlobProvider.cpp\<close>:
    such blobs created by the volume manager and found again through the blob map; \<open>Uncached\<close> shows
    that the volume of a blob never gets a cache).

  \<^item> The tool \<open>bdblob\<close>: \<open>Arguments\<close> (\<open>Argument.cpp\<close>, \<open>ArgumentParser.cpp\<close>: registration, parsing,
    usage) and \<open>Commands\<close> (\<open>Command.cpp\<close>, \<open>commands/\<close>, the dispatch of \<open>Main.cpp\<close>). A run of a command
    is a step on the record \<open>session\<close>: the interface, the world, and what was printed.

  \<^bold>\<open>Interfaces.\<close> \<open>block_store\<close> is what the volume asks of its cells: partial reads and writes that
  may fail, with a frame. The direct cells of a placed volume, the cells behind the cache and the
  encrypted cells are its implementations (\<open>direct\<close>, \<open>through\<close>, \<open>clear\<close>), and the loops of the volume
  are verified once against it (\<open>striped\<close>, \<open>striped_volume\<close>). \<open>reliable_store\<close> adds that operations
  succeed, for liveness. \<open>network_volume\<close>, \<open>quiet_network\<close>, \<open>secret_volume\<close> and \<open>quiet_secret\<close> put
  the model of the network below; \<open>Deployment\<close> interprets them on a concrete deployment. \<open>blob_io\<close>
  and \<open>reliable_blob\<close> are what files ask of blobs, implemented by file blobs and by remote blobs.
  \<open>cloud_blob\<close> carries the contract of the encrypted volume to the blobs of \<open>RemoteProvider\<close>;
  \<open>preserved\<close> is what the loops of the volume keep if their cells keep it. \<open>creation\<close> is what the
  volume manager asks of the directory of providers.

  \<^bold>\<open>What is shown.\<close> A volume is an array of bytes whatever the network loses, serves every request
  inside it when nothing is lost, keeps its parity and its clear text; the cache thread is
  linearisable and its destructor loses nothing; partitions keep blocks, reservations and their bit
  map; arguments of calls arrive; JSON texts are read back and the reader ends on every text; a request tries its routes in order and ends; a created volume
  loads and is ready for use; the lock-free queue is a queue for one producer and one consumer; folders, metadata, streams, bit sets, Base64, endpoints and the lookup cache
  survive their round trips; files put into the file system are got back, and what one run of the
  tool puts the next one shows, which starts with an empty blob map (\<open>root_stored\<close> is what it finds); a remote blob is opened again with its content; command lines are read the way they are written,
  commands never fail an assertion and report their failures. Error behaviour is proved
  where the code goes wrong, among others a file lost by \<open>Move\<close>, a folder cut off by growing, an
  error text read as a block.

  \<^bold>\<open>Conventions.\<close> Numbers of 64 bits are \<open>nat\<close> with \<open>wrap64\<close> and \<open>sub64\<close> written out where they can
  wrap, words where bits matter. Failure is \<open>option\<close> or a Boolean as in the code; where the code has
  no defined behaviour (a null or foreign pointer, an index out of bounds, a thrown assertion) the
  result of the whole operation is \<open>None\<close>. Loops are structural or have a termination proof. Fuel is
  used for the recursion over the parents of a folder, where the lemmas of \<open>FolderTree\<close> ask for more
  fuel than the folder is deep, and for the descent of \<open>rm\<close> into folders, where running out sets the
  flag \<open>stuck\<close>; and for the JSON reader, which never needs more than twice the length of its text
  (\<open>Reader_returns\<close>). What is not in the sources is a parameter: cm256, AES, the loss of
  calls, the clock and \<open>localtime\<close>, which local paths exist and are directories, identifiers, libcurl,
  the Kademlia nodes. What is relied on is named: \<open>cm256_ok\<close>, \<open>aes_ok\<close>, \<open>curl_escape_ok\<close>,
  \<open>directory_ok\<close> (the answers of the nodes that come are right; that they come is \<open>directory_up\<close>, asked
  for only where a result is to be there).

  \<^bold>\<open>Not modelled.\<close> Process start, configuration files and the options of the other tools; sockets, pipes and the block devices of the
  operating systems; threads other than those of the queue and the cache, whose calls are
  synchronous here; cookies and TLS of the HTTP client; the HTTP server beside the parsing of
  parameters; the Kademlia network (a submodule); third-party code (mongoose but for the decoding of
  URLs; of jsoncpp the comments kept with values, the messages of errors, the stream writer and the
  operations of values that nothing uses). Printing has an effect in the commands of \<open>bdblob\<close> only.
\<close>

section \<open>The volume on the network\<close>

text \<open>
  C1. A volume is an array of bytes. Whatever requests and answers the network loses, with or
  without the cache, a \<open>Volume::Write\<close> that reports success has replaced exactly the bytes it was
  given, a \<open>Volume::Read\<close> that reports success returns exactly the bytes that are there, neither
  breaks the invariant of client and providers, and a failed write leaves every block alone that
  its range does not touch.
\<close>

theorem Volume_is_byte_array:
  assumes "placed place v" and "cm256_ok cm v" and "client_ok place v s"
    and "Volume_Write cm (net_remote net place timeout) es v d offset s = (b, s1)"
    and "Volume_Read cm (net_remote net place timeout) es v sz pos s1 = (r, s2)"
  shows "client_ok place v s1 \<and> client_ok place v s2 \<and>
    (b \<longrightarrow> volume_bytes place v s1 = poke offset d (volume_bytes place v s)) \<and>
    (\<forall>j. Suc j * blockSize v \<le> offset \<or> offset + length d \<le> j * blockSize v \<longrightarrow>
      blk (dataCount v) (client_cells place v s1) j = blk (dataCount v) (client_cells place v s) j) \<and>
    (\<forall>x. r = Some x \<longrightarrow> x = peek pos sz (volume_bytes place v s1)) \<and>
    volume_bytes place v s2 = volume_bytes place v s1"
proof -
  note w = network_volume.client_write [OF network_volumeI [OF assms(1,2)] assms(3,4)]
  note r = network_volume.client_read [OF network_volumeI [OF assms(1,2)] w(1) assms(5)]
  show ?thesis using w(1,2,4) r by blast
qed

theorem Volume_is_byte_array_witness:
  "\<exists>s1. volume_bytes demo_place demo_volume s1 = poke 10 [1, 2, 3] (volume_bytes demo_place demo_volume demo_state)"
proof -
  obtain s1 where w: "Volume_Write demo_cm (net_remote (\<lambda>_. Delivered) demo_place (\<lambda>_. 1000)) demo_env demo_volume [1, 2, 3] 10 demo_state = (True, s1)"
    using demo.quiet_write [OF demo_client_ok(1,2), of 10 "[1, 2, 3]"] by (auto simp: DataSize_def demo_volume_def)
  obtain r s2 where r: "Volume_Read demo_cm (net_remote (\<lambda>_. Delivered) demo_place (\<lambda>_. 1000)) demo_env demo_volume 3 10 s1 = (r, s2)"
    by (rule prod.exhaust)
  show ?thesis using Volume_is_byte_array [OF demo_placed demo_cm_ok demo_client_ok(1) w r] by blast
qed

text \<open>
  C2. On a network that loses nothing, and with a usable cache directory, requests inside the
  volume succeed: the write is accepted and reading the range again returns the bytes written.
\<close>

theorem Volume_serves:
  assumes "placed place v" and "cm256_ok cm v" and "client_ok place v s" and "cache_ready (fst s)"
    and "d \<noteq> []" and "offset + length d \<le> DataSize v"
  shows "\<exists>s1 s2. Volume_Write cm (net_remote (\<lambda>_. Delivered) place timeout) es v d offset s = (True, s1) \<and>
    Volume_Read cm (net_remote (\<lambda>_. Delivered) place timeout) es v (length d) offset s1 = (Some d, s2)"
proof -
  note q = quiet_networkI [OF assms(1,2)] and n = network_volumeI [OF assms(1,2)]
  obtain s1 where w: "Volume_Write cm (net_remote (\<lambda>_. Delivered) place timeout) es v d offset s = (True, s1)"
    and s1: "client_ok place v s1" "cache_ready (fst s1)"
    using quiet_network.quiet_write [OF q assms(3,4,6,5)] by blast
  obtain d' s2 where r: "Volume_Read cm (net_remote (\<lambda>_. Delivered) place timeout) es v (length d) offset s1 = (Some d', s2)"
    using quiet_network.quiet_read [OF q s1 assms(6)] assms(5) by blast
  with w network_volume.client_read_after_write [OF n assms(3) w r] show ?thesis by blast
qed

theorem Volume_serves_witness:
  "\<exists>s1 s2. Volume_Write demo_cm (net_remote (\<lambda>_. Delivered) demo_place (\<lambda>_. 1000)) demo_env demo_volume [1, 2, 3] 30 demo_state = (True, s1) \<and>
    Volume_Read demo_cm (net_remote (\<lambda>_. Delivered) demo_place (\<lambda>_. 1000)) demo_env demo_volume 3 30 s1 = (Some [1, 2, 3], s2)"
proof -
  have l: "length [1, 2, 3 :: byte] = 3" by simp
  show ?thesis
    unfolding l [symmetric] by (rule Volume_serves [OF demo_placed demo_cm_ok demo_client_ok(1,2)]) (simp_all add: demo_size)
qed

text \<open>
  C10. Redundancy: if every row of the volume carries the erasure code of its data, the network
  loses nothing and the cache, if there is one, is usable, then the same holds after a successful
  write. (When a call is lost \<open>Row::Encode\<close> takes zeros for the cells it could not read.)
\<close>

theorem Volume_Write_parity:
  assumes "placed place v" and "cm256_ok cm v" and "client_ok place v s" and "cache_ready (fst s)"
    and "\<forall>i < blockCount v. parity cm v (client_cells place v s) i"
    and "Volume_Write cm (net_remote (\<lambda>_. Delivered) place timeout) es v d offset s = (True, s')"
  shows "\<forall>i < blockCount v. parity cm v (client_cells place v s') i"
  using quiet_network.quiet_parity [OF quiet_networkI [OF assms(1,2)] assms(3-6)] by blast

theorem Volume_Write_parity_witness:
  "\<exists>s'. Volume_Write demo_cm (net_remote (\<lambda>_. Delivered) demo_place (\<lambda>_. 1000)) demo_env demo_volume [1, 2, 3] 30 demo_state = (True, s') \<and>
    (\<forall>i < 3. parity demo_cm demo_volume (client_cells demo_place demo_volume s') i)"
proof -
  obtain s1 where w: "Volume_Write demo_cm (net_remote (\<lambda>_. Delivered) demo_place (\<lambda>_. 1000)) demo_env demo_volume [1, 2, 3] 30 demo_state = (True, s1)"
    using demo.quiet_write [OF demo_client_ok(1,2), of 30 "[1, 2, 3]"] by (auto simp: demo_size)
  from Volume_Write_parity [OF demo_placed demo_cm_ok demo_client_ok(1,2) demo_parity w] w show ?thesis
    unfolding demo_size by blast
qed

text \<open>
  C9. Encryption is transparent: what \<open>WriteEncrypt\<close> accepted, \<open>ReadDecrypt\<close> returns, for any range
  of bytes and any losses in between, and the clear bytes around the range stay.
\<close>

theorem WriteEncrypt_ReadDecrypt:
  assumes "placed place v" and "cm256_ok cm v" and "aes_ok A" and "blockSize v mod 16 = 0" and "client_ok place v s"
    and "WriteEncrypt cm A (net_remote net place timeout) es v d offset s = (True, s1)"
    and "ReadDecrypt cm A (net_remote net place timeout) es v sz pos s1 = (Some x, s2)"
  shows "x = peek pos sz (poke offset d (clear_bytes A place v s)) \<and> (sz = length d \<and> pos = offset \<longrightarrow> x = d)"
proof -
  note i = secret_volumeI [OF assms(1-4)]
  note w = secret_volume.secret_write [OF i assms(5,6)]
  have "x = peek pos sz (clear_bytes A place v s1)" using secret_volume.secret_read [OF i w(1) assms(7)] by simp
  moreover have "x = d" if "sz = length d" "pos = offset"
    using secret_volume.secret_read_after_write [OF i assms(5,6)] assms(7) that by blast
  ultimately show ?thesis using w(2) by simp
qed

theorem WriteEncrypt_ReadDecrypt_witness:
  "\<exists>s1 s2. ReadDecrypt demo_cm demo_aes (net_remote (\<lambda>_. Delivered) demo_place (\<lambda>_. 1000)) demo_env demo_volume 3 30 s1 = (Some [1, 2, 3], s2)"
proof -
  let ?R = "net_remote (\<lambda>_. Delivered) demo_place (\<lambda>_. 1000)"
  obtain s1 where w: "WriteEncrypt demo_cm demo_aes ?R demo_env demo_volume [1, 2, 3] 30 demo_state = (True, s1)"
    and s1: "client_ok demo_place demo_volume s1" "cache_ready (fst s1)"
    using demo_secret.quiet_encrypt [OF demo_client_ok(1,2), of 30 "[1, 2, 3]"] unfolding demo_size by auto
  obtain x s2 where r: "ReadDecrypt demo_cm demo_aes ?R demo_env demo_volume 3 30 s1 = (Some x, s2)"
    using demo_secret.quiet_decrypt [OF s1, of 30 3] unfolding demo_size by auto
  have "x = [1, 2, 3]"
    using WriteEncrypt_ReadDecrypt [OF demo_placed demo_cm_ok demo_aes_ok _ demo_client_ok(1) w r, THEN conjunct2]
    by (simp add: demo_size)
  with r show ?thesis by blast
qed

text \<open>
  C19. Where the client is defenceless: a read behind the end of a partition, of exactly as many
  bytes as the error text of the provider has, succeeds, and the text is taken for the block.
\<close>

theorem ReadBlock_error_as_data:
  assumes "part_ok (hosts w (fst (place (pt_ref p)))) (snd (place (pt_ref p))) bc bs m"
    and "CHR ''/'' \<notin> set (snd (place (pt_ref p)))" and "off + 74 \<le> bs" and "bs < 2 ^ 32" and "bc \<le> row"
  shows "fst (ReadBlock (net_remote (\<lambda>_. Delivered) place timeout) p row 74 off w) =
    Some (map byte_of_char (writeError ''Failed'' ''Invalid arguments'' ARGUMENT_INVALID))"
proof -
  obtain r w' where r: "BdPartition_Read (\<lambda>_. Delivered) (place (pt_ref p)) row off 74 w = (r, w')" by (rule prod.exhaust)
  with BdPartition_Read_spec(4) [OF assms(1-4) r refl assms(5)] length_invalid_text show ?thesis
    by (simp add: ReadBlock_def net_remote_def invalid_text_def)
qed

theorem ReadBlock_error_as_data_witness:
  "fst (ReadBlock (net_remote (\<lambda>_. Delivered) (\<lambda>_. (0, ''part'')) (\<lambda>_. 1000)) (demo_part 0) 5 74 2
     \<lparr>hosts = (\<lambda>_. demo_host\<lparr>dirs := \<lambda>_. Some (demo_dir\<lparr>config := Some (le_bytes 8 3 @ le_bytes 8 80)\<rparr>)\<rparr>), calls = 0\<rparr>) =
   Some (map byte_of_char (writeError ''Failed'' ''Invalid arguments'' ARGUMENT_INVALID))"
proof -
  let ?h = "demo_host\<lparr>dirs := \<lambda>_. Some (demo_dir\<lparr>config := Some (le_bytes 8 3 @ le_bytes 8 80)\<rparr>)\<rparr>"
  have "read_config ?h ''part'' = Some (3, 80)"
    by (simp add: read_config_def demo_host_def demo_dir_def peek_def)
  then have "part_ok ?h ''part'' 3 80 (BitSet_new 3)"
    by (simp add: part_ok_def bitset_ok_new) (simp add: demo_host_def dir_of_def demo_dir_def BitSet_new_def)
  then show ?thesis by (intro ReadBlock_error_as_data [where bc = 3 and bs = 80 and m = "BitSet_new 3"]) simp_all
qed

section \<open>The cache in front of the providers\<close>

text \<open>
  C3. The cache thread is linearisable: the answers it gives to a queue of requests are those of a
  plain matrix of blocks served in the order of the queue, although rows are fetched, evicted and
  written back to the providers in between, and calls to them fail.
\<close>

theorem ThreadProc_linearisable:
  assumes "placed place v" and "cm256_ok cm v" and "net_ok place v (snd s)"
    and "coherent (blockSize v) (dataCount v + codeCount v) (net_cell place v) s"
    and "\<forall>q \<in> set qs. request_ok q"
    and "ThreadProc_pass (ReadDirect (net_remote net place timeout) v) (WriteDirect (net_remote net place timeout) v)
      (blockSize v) (dataCount v + codeCount v) es qs t pend ts s = (rs, ts', s')"
  shows "net_ok place v (snd s') \<and> coherent (blockSize v) (dataCount v + codeCount v) (net_cell place v) s' \<and>
    (\<exists>m. spec_run qs rs (view (blockSize v) (net_cell place v) s) = Some m \<and>
       agree (dataCount v + codeCount v) (view (blockSize v) (net_cell place v) s') m)"
  by (rule network_volume.thread_pass [OF network_volumeI [OF assms(1,2)] assms(3-6)])

theorem ThreadProc_linearisable_witness:
  "\<exists>rs s' m. spec_run [WriteRequest 1 0 [5] 3, ReadRequest 1 0 2 3] rs (view 16 (net_cell demo_place demo_volume) (demo_cache, demo_world)) = Some m \<and>
     agree 3 (view 16 (net_cell demo_place demo_volume) s') m"
proof -
  let ?R = "net_remote (\<lambda>k. if k = 2 then RequestLost else Delivered) demo_place (\<lambda>_. 1000)"
  let ?qs = "[WriteRequest 1 0 [5] 3, ReadRequest 1 0 2 3]"
  obtain rs ts s' where p: "ThreadProc_pass (ReadDirect ?R demo_volume) (WriteDirect ?R demo_volume) (blockSize demo_volume)
      (dataCount demo_volume + codeCount demo_volume) demo_env ?qs 9 (\<lambda>_. False) 0 (demo_cache, demo_world) = (rs, ts, s')"
    by (rule prod_cases3)
  have "coherent (blockSize demo_volume) (dataCount demo_volume + codeCount demo_volume) (net_cell demo_place demo_volume) (demo_cache, demo_world)"
    by (simp add: coherent_def demo_cache_def Cache_new_def)
  then have "\<exists>m. spec_run ?qs rs (view 16 (net_cell demo_place demo_volume) (demo_cache, demo_world)) = Some m \<and>
      agree 3 (view 16 (net_cell demo_place demo_volume) s') m"
    using ThreadProc_linearisable [OF demo_placed demo_cm_ok _ _ _ p] demo_net_ok by (simp add: demo_size)
  then show ?thesis by blast
qed

text \<open>
  C11. Nothing is lost when the cache goes away: if no request is left in the queue and the flush of
  the destructor reports success, every cell at the providers holds what was visible through the
  cache. (With a request in the queue \<open>Flush\<close> stops after the row at hand, and reports success when
  that row is the last one, whatever became of the blocks before.)
\<close>

theorem Cache_destroy_writes_back:
  assumes "placed place v" and "cm256_ok cm v" and "net_ok place v w"
    and "coherent (blockSize v) (dataCount v + codeCount v) (net_cell place v) (c, w)" and "index_ok c"
    and "Cache_destroy (WriteDirect (net_remote net place timeout) v) (blockSize v) t (\<lambda>_. False) c w = (True, c', w')"
    and "col < dataCount v + codeCount v"
  shows "net_cell place v w' row col = view (blockSize v) (net_cell place v) (c, w) row col"
  by (rule network_volume.written_back [OF network_volumeI [OF assms(1,2)] assms(3-7)])

theorem Cache_destroy_writes_back_witness:
  "\<exists>c' w'. Cache_destroy (WriteDirect (net_remote (\<lambda>_. Delivered) demo_place (\<lambda>_. 1000)) demo_volume) 16 9 (\<lambda>_. False) demo_dirty demo_world =
      (True, c', w') \<and>
    dirty demo_dirty 1 \<and> net_cell demo_place demo_volume demo_world 1 2 = replicate 16 0 \<and> net_cell demo_place demo_volume w' 1 2 = replicate 16 9"
proof -
  let ?wd = "WriteDirect (net_remote (\<lambda>_. Delivered) demo_place (\<lambda>_. 1000)) demo_volume" and ?d = "replicate 16 9 :: byte list"
  obtain w' where w: "?wd 1 2 ?d 0 demo_world = (True, w')"
    using demo.direct_write [OF demo_net_ok, of 2 1 0 ?d] by (auto simp: demo_size)
  have f: "file_rel 16 3 (le_bytes 8 2 @ ?d) [(2, ?d)]" by (simp add: file_rel_def encode_file_def)
  have c: "coherent (blockSize demo_volume) (dataCount demo_volume + codeCount demo_volume) (net_cell demo_place demo_volume) (demo_dirty, demo_world)"
    using f by (auto simp: coherent_def demo_dirty_def demo_cache_def Cache_new_def dirty_def demo_size)
  have i: "index_ok demo_dirty" by (simp add: index_ok_def demo_dirty_def)
  have p: "le_val (peek 0 8 (le_bytes 8 2 @ ?d)) = 2" "peek 8 16 (le_bytes 8 2 @ ?d) = ?d" by (simp_all add: peek_def)
  have "flush_file ?wd 16 1 (le_bytes 8 2 @ ?d) 0 demo_world = (True, w')"
    by (subst flush_file.simps, subst flush_file.simps) (simp add: p w [simplified] Let_def)
  then have "\<exists>c'. Cache_destroy ?wd 16 9 (\<lambda>_. False) demo_dirty demo_world = (True, c', w')"
    by (simp add: Cache_destroy_def Cache.Flush_def flush_row_def demo_dirty_def demo_cache_def Cache_new_def dirty_def)
  then obtain c' where r: "Cache_destroy ?wd 16 9 (\<lambda>_. False) demo_dirty demo_world = (True, c', w')" by blast
  have "net_cell demo_place demo_volume w' 1 2 = view (blockSize demo_volume) (net_cell demo_place demo_volume) (demo_dirty, demo_world) 1 2"
    by (rule Cache_destroy_writes_back [OF demo_placed demo_cm_ok demo_net_ok c i r [folded demo_size(5)]]) (simp add: demo_size)
  moreover have "view 16 (net_cell demo_place demo_volume) (demo_dirty, demo_world) 1 2 = ?d"
    by (simp add: view_pair ReadFileBlock_def scan.simps demo_dirty_def demo_cache_def Cache_new_def p)
  ultimately show ?thesis using r demo_cell [of 2 1] by (simp add: demo_size dirty_def demo_dirty_def)
qed

end
